(* ===== verification/Prelude.thy ===== *)
theory Prelude
  imports Main "HOL-Library.Word" "HOL-Library.Monad_Syntax"
begin

text \<open>
  What the component theories share: the machine integer types of the Rust sources, their
  wrapping and saturating arithmetic, checked indexing into a fixed table, a fold whose step may
  panic, and the proof collections of the development.

  Conventions used throughout. A bit mask, a handle or a slot generation is a word of the source's
  width. A counter or a table index is a natural number; where the source lets the counter wrap
  (an atomic \<open>fetch_add\<close>), the wrap-around is written out with \<open>wrap_add64\<close> and its kin, where the
  source saturates, with \<open>sat_add64\<close>. The workspace is compiled with overflow checks, so a plain
  \<open>+\<close> that overflows, an index out of range or an \<open>expect\<close> on nothing is a panic; a model of a
  function that can reach one returns \<open>None\<close> for it, and the component then proves when it does not.
\<close>

unbundle bit_operations_syntax

type_synonym u8 = "8 word"
type_synonym u32 = "32 word"
type_synonym u64 = "64 word"

named_theorems table_simps \<open>reading a fixed table after an update\<close>
named_theorems arith_defs \<open>the wrapping and saturating operations, unfolded\<close>

section \<open>Integers of fixed width, read as natural numbers\<close>

definition U16_MAX :: nat where "U16_MAX = 65535"
definition U32_MAX :: nat where "U32_MAX = 4294967295"
definition U64_MAX :: nat where "U64_MAX = 18446744073709551615"

text \<open>Rust's \<open>saturating_add\<close> on \<open>u64\<close> and \<open>u32\<close>; \<open>saturating_sub\<close> is subtraction of \<open>nat\<close>.\<close>

definition sat_add64 :: "nat \<Rightarrow> nat \<Rightarrow> nat" where
  "sat_add64 a b = min (a + b) U64_MAX"

definition sat_add32 :: "nat \<Rightarrow> nat \<Rightarrow> nat" where
  "sat_add32 a b = min (a + b) U32_MAX"

text \<open>What an atomic \<open>fetch_add\<close> or \<open>fetch_sub\<close> leaves in the cell.\<close>

definition wrap_add64 :: "nat \<Rightarrow> nat \<Rightarrow> nat" where
  "wrap_add64 a b = (a + b) mod Suc U64_MAX"

definition wrap_sub64 :: "nat \<Rightarrow> nat \<Rightarrow> nat" where
  "wrap_sub64 a b = (a + (Suc U64_MAX - b mod Suc U64_MAX)) mod Suc U64_MAX"

definition wrap_add32 :: "nat \<Rightarrow> nat \<Rightarrow> nat" where
  "wrap_add32 a b = (a + b) mod Suc U32_MAX"

definition wrap_sub32 :: "nat \<Rightarrow> nat \<Rightarrow> nat" where
  "wrap_sub32 a b = (a + (Suc U32_MAX - b mod Suc U32_MAX)) mod Suc U32_MAX"

text \<open>A checked addition: overflow is a panic.\<close>

definition checked_add32 :: "nat \<Rightarrow> nat \<Rightarrow> nat option" where
  "checked_add32 a b = (if a + b \<le> U32_MAX then Some (a + b) else None)"

definition checked_add64 :: "nat \<Rightarrow> nat \<Rightarrow> nat option" where
  "checked_add64 a b = (if a + b \<le> U64_MAX then Some (a + b) else None)"

lemmas [arith_defs] = sat_add64_def sat_add32_def wrap_add64_def wrap_sub64_def
  wrap_add32_def wrap_sub32_def checked_add32_def checked_add64_def

lemma wrap_add64_no_wrap [simp]: "a + b \<le> U64_MAX \<Longrightarrow> wrap_add64 a b = a + b"
  by (simp add: wrap_add64_def)

lemma wrap_add32_no_wrap [simp]: "a + b \<le> U32_MAX \<Longrightarrow> wrap_add32 a b = a + b"
  by (simp add: wrap_add32_def)

lemma wrap_sub_aux:
  fixes a b m :: nat
  assumes "b \<le> a" and "a \<le> m"
  shows "(a + (Suc m - b mod Suc m)) mod Suc m = a - b"
proof -
  have "(a + (Suc m - b mod Suc m)) mod Suc m = (a - b + Suc m) mod Suc m"
    using assms by (simp add: Suc_diff_le)
  also have "\<dots> = a - b"
    unfolding mod_add_self2 using assms by simp
  finally show ?thesis .
qed

lemma wrap_sub64_no_wrap [simp]: "b \<le> a \<Longrightarrow> a \<le> U64_MAX \<Longrightarrow> wrap_sub64 a b = a - b"
  unfolding wrap_sub64_def by (rule wrap_sub_aux)

lemma wrap_sub32_no_wrap [simp]: "b \<le> a \<Longrightarrow> a \<le> U32_MAX \<Longrightarrow> wrap_sub32 a b = a - b"
  unfolding wrap_sub32_def by (rule wrap_sub_aux)

lemma wrap_undo_aux:
  fixes a b m :: nat
  assumes "a \<le> m" and "b \<le> m"
  shows "((a + b) mod Suc m + (Suc m - b mod Suc m)) mod Suc m = a"
proof -
  have "((a + b) mod Suc m + (Suc m - b)) mod Suc m = (a + b + (Suc m - b)) mod Suc m"
    by (simp only: mod_add_left_eq)
  also have "a + b + (Suc m - b) = a + Suc m" using assms by simp
  also have "(a + Suc m) mod Suc m = a"
    unfolding mod_add_self2 using assms by simp
  finally show ?thesis using assms by simp
qed

text \<open>An undo by \<open>fetch_sub\<close> restores the cell exactly, even when the add wrapped.\<close>

lemma wrap_sub64_undo [simp]:
  "a \<le> U64_MAX \<Longrightarrow> b \<le> U64_MAX \<Longrightarrow> wrap_sub64 (wrap_add64 a b) b = a"
  unfolding wrap_sub64_def wrap_add64_def by (rule wrap_undo_aux)

lemma wrap_sub32_undo [simp]:
  "a \<le> U32_MAX \<Longrightarrow> b \<le> U32_MAX \<Longrightarrow> wrap_sub32 (wrap_add32 a b) b = a"
  unfolding wrap_sub32_def wrap_add32_def by (rule wrap_undo_aux)

lemma wrap_bounds [simp]:
  "wrap_add64 a b \<le> U64_MAX" "wrap_sub64 a b \<le> U64_MAX"
  "wrap_add32 a b \<le> U32_MAX" "wrap_sub32 a b \<le> U32_MAX"
  by (simp_all add: wrap_add64_def wrap_sub64_def wrap_add32_def wrap_sub32_def
        flip: less_Suc_eq_le)

lemma sat_bounds [simp]: "sat_add64 a b \<le> U64_MAX" "sat_add32 a b \<le> U32_MAX"
  by (simp_all add: sat_add64_def sat_add32_def)

section \<open>Fixed tables\<close>

text \<open>Rust's \<open>slice.get(i)\<close>; as the index operator \<open>[i]\<close>, nothing is the panic.\<close>

definition nth_opt :: "'a list \<Rightarrow> nat \<Rightarrow> 'a option" where
  "nth_opt xs i = (if i < length xs then Some (xs ! i) else None)"

text \<open>In-place update of one entry; out of range nothing is written.\<close>

definition upd :: "nat \<Rightarrow> ('a \<Rightarrow> 'a) \<Rightarrow> 'a list \<Rightarrow> 'a list" where
  "upd i f xs = (if i < length xs then xs[i := f (xs ! i)] else xs)"

lemma nth_opt_Some_iff: "nth_opt xs i = Some x \<longleftrightarrow> i < length xs \<and> x = xs ! i"
  by (auto simp: nth_opt_def)

lemma nth_opt_None_iff: "nth_opt xs i = None \<longleftrightarrow> length xs \<le> i"
  by (auto simp: nth_opt_def)

lemma nth_opt_in [simp]: "i < length xs \<Longrightarrow> nth_opt xs i = Some (xs ! i)"
  by (simp add: nth_opt_def)

lemma length_upd [simp, table_simps]: "length (upd i f xs) = length xs"
  by (simp add: upd_def)

lemma nth_upd [table_simps]:
  "j < length xs \<Longrightarrow> upd i f xs ! j = (if i = j then f (xs ! j) else xs ! j)"
  by (simp add: upd_def nth_list_update)

lemma nth_upd_other [simp]: "i \<noteq> j \<Longrightarrow> upd i f xs ! j = xs ! j"
  by (simp add: upd_def)

lemma nth_upd_same [simp]: "i < length xs \<Longrightarrow> upd i f xs ! i = f (xs ! i)"
  by (simp add: upd_def)

lemma upd_id: "(\<And>x. x \<in> set xs \<Longrightarrow> f x = x) \<Longrightarrow> upd i f xs = xs"
  by (simp add: upd_def)

lemma upd_upd: "upd i g (upd i f xs) = upd i (g \<circ> f) xs"
  by (simp add: upd_def)

lemma upd_cancel: "i < length xs \<Longrightarrow> g (f (xs ! i)) = xs ! i \<Longrightarrow> upd i g (upd i f xs) = xs"
  by (simp add: upd_def)

lemma upd_commute: "i \<noteq> j \<Longrightarrow> upd i f (upd j g xs) = upd j g (upd i f xs)"
  by (simp add: upd_def list_update_swap)

lemma ball_upd:
  "\<forall>x \<in> set xs. P x \<Longrightarrow> (i < length xs \<Longrightarrow> P (f (xs ! i))) \<Longrightarrow> \<forall>x \<in> set (upd i f xs). P x"
  by (simp add: all_set_conv_all_nth nth_upd)

lemma sum_map_upd:
  fixes g :: "'a \<Rightarrow> nat"
  assumes "i < length xs"
  shows "sum_list (map g (upd i f xs)) + g (xs ! i) = sum_list (map g xs) + g (f (xs ! i))"
proof -
  have "g (xs ! i) \<le> sum_list (map g xs)"
    using elem_le_sum_list [of i "map g xs"] assms by simp
  then show ?thesis
    using assms sum_list_update [of i "map g xs" "g (f (xs ! i))"] by (simp add: upd_def map_update)
qed

text \<open>The same update at every index of a list.\<close>

definition upd_all :: "nat list \<Rightarrow> ('a \<Rightarrow> 'a) \<Rightarrow> 'a list \<Rightarrow> 'a list" where
  "upd_all is f xs = fold (\<lambda>i. upd i f) is xs"

lemma upd_all_Nil [simp]: "upd_all [] f xs = xs"
  by (simp add: upd_all_def)

lemma upd_all_Cons [simp]: "upd_all (i # is) f xs = upd_all is f (upd i f xs)"
  by (simp add: upd_all_def)

lemma length_upd_all [simp, table_simps]: "length (upd_all is f xs) = length xs"
  by (induction "is" arbitrary: xs) auto

lemma nth_upd_all [table_simps]:
  "distinct is \<Longrightarrow> j < length xs \<Longrightarrow> upd_all is f xs ! j = (if j \<in> set is then f (xs ! j) else xs ! j)"
  by (induction "is" arbitrary: xs) (auto simp: nth_upd)

lemma nth_upd_all_other [simp]: "j \<notin> set is \<Longrightarrow> upd_all is f xs ! j = xs ! j"
  by (induction "is" arbitrary: xs) auto

lemma upd_all_keeps:
  "(\<And>x. P x \<Longrightarrow> P (f x)) \<Longrightarrow> \<forall>x \<in> set xs. P x \<Longrightarrow> \<forall>x \<in> set (upd_all is f xs). P x"
proof (induction "is" arbitrary: xs)
  case (Cons i "is")
  have "\<forall>x \<in> set (upd i f xs). P x"
    using Cons.prems by (simp add: all_set_conv_all_nth nth_upd)
  then show ?case using Cons.IH [OF Cons.prems(1)] by simp
qed simp

lemma upd_all_id:
  "(\<And>i. i \<in> set is \<Longrightarrow> i < length xs \<Longrightarrow> f (xs ! i) = xs ! i) \<Longrightarrow> upd_all is f xs = xs"
proof (induction "is")
  case (Cons i "is")
  then have "upd i f xs = xs" by (simp add: upd_def)
  then show ?case using Cons by simp
qed simp

lemma upd_all_cancel:
  assumes "distinct is" and "\<And>i. i \<in> set is \<Longrightarrow> i < length xs \<Longrightarrow> g (f (xs ! i)) = xs ! i"
  shows "upd_all is g (upd_all is f xs) = xs"
  by (rule nth_equalityI) (use assms in \<open>auto simp: nth_upd_all\<close>)

text \<open>Rust's \<open>iter().position(p)\<close>.\<close>

fun position :: "('a \<Rightarrow> bool) \<Rightarrow> 'a list \<Rightarrow> nat option" where
  "position p [] = None"
| "position p (x # xs) = (if p x then Some 0 else map_option Suc (position p xs))"

lemma position_Some_iff:
  "position p xs = Some i \<longleftrightarrow> i < length xs \<and> p (xs ! i) \<and> (\<forall>j < i. \<not> p (xs ! j))"
proof (induction xs arbitrary: i)
  case Nil
  then show ?case by simp
next
  case (Cons x xs)
  then show ?case
    by (cases i) (auto simp: All_less_Suc2)
qed

lemma position_None_iff: "position p xs = None \<longleftrightarrow> (\<forall>x \<in> set xs. \<not> p x)"
  by (induction xs) auto

lemma position_less: "position p xs = Some i \<Longrightarrow> i < length xs"
  by (simp add: position_Some_iff)

section \<open>Folds whose step may panic\<close>

fun fold_opt :: "('a \<Rightarrow> 's \<Rightarrow> 's option) \<Rightarrow> 'a list \<Rightarrow> 's \<Rightarrow> 's option" where
  "fold_opt f [] s = Some s"
| "fold_opt f (x # xs) s = (case f x s of None \<Rightarrow> None | Some s' \<Rightarrow> fold_opt f xs s')"

lemma fold_opt_append:
  "fold_opt f (xs @ ys) s = (case fold_opt f xs s of None \<Rightarrow> None | Some s' \<Rightarrow> fold_opt f ys s')"
  by (induction xs arbitrary: s) (auto split: option.splits)

text \<open>An invariant kept by every step that does not panic holds of the result, if there is one.\<close>

lemma fold_opt_keeps:
  assumes "fold_opt f xs s = Some t" and "P s"
    and "\<And>x s s'. x \<in> set xs \<Longrightarrow> P s \<Longrightarrow> f x s = Some s' \<Longrightarrow> P s'"
  shows "P t"
  using assms
proof (induction xs arbitrary: s)
  case (Cons x xs)
  then obtain s' where s': "f x s = Some s'" "fold_opt f xs s' = Some t"
    by (auto split: option.splits)
  show ?case
    using Cons.IH [OF s'(2)] Cons.prems(2,3) s'(1) by (metis list.set_intros)
qed simp

text \<open>A fold does not panic when no step does under an invariant the steps keep.\<close>

lemma fold_opt_total:
  assumes "P s" and "\<And>x s. x \<in> set xs \<Longrightarrow> P s \<Longrightarrow> \<exists>s'. f x s = Some s' \<and> P s'"
  shows "\<exists>t. fold_opt f xs s = Some t \<and> P t"
  using assms
proof (induction xs arbitrary: s)
  case (Cons x xs)
  then obtain s' where "f x s = Some s'" "P s'" by force
  with Cons.IH [of s'] Cons.prems(2) show ?case by auto
qed simp

lemma fold_opt_Some: "fold_opt (\<lambda>x s. Some (f x s)) xs s = Some (fold f xs s)"
  by (induction xs arbitrary: s) auto

end
