(* ===== verification/Abi.thy ===== *)
theory Abi
  imports Prelude
begin

text \<open>
  The part of the binary interface the kernel model reads: interface limits, object type codes,
  rights bits, status values (\<open>abi/src/generated.rs\<close>) and the handle encoding
  (\<open>abi/src/lib.rs\<close>). A handle is a table slot and a generation packed into 64 bits; the lemmas
  show that packing is a bijection and that no slot with a non-zero generation encodes to zero.
\<close>

section \<open>Limits\<close>

definition MAX_SCOPE_DEPTH :: nat where "MAX_SCOPE_DEPTH = 16"
definition MAX_DERIVE_DEPTH :: nat where "MAX_DERIVE_DEPTH = 32"
definition MAX_HANDLES_PER_DOMAIN :: nat where "MAX_HANDLES_PER_DOMAIN = 32"
definition PAGE_SIZE :: nat where "PAGE_SIZE = 4096"
definition CONTROL_LOG_CAPACITY :: nat where "CONTROL_LOG_CAPACITY = 256"
definition CONTROL_LOG_RESERVED :: nat where "CONTROL_LOG_RESERVED = 8"
definition CPU_WINDOW_NS :: nat where "CPU_WINDOW_NS = 10000000"
definition CPU_QUANTUM_NS :: nat where "CPU_QUANTUM_NS = 1000000"

section \<open>Status values\<close>

text \<open>
  Every status an operation returns, as a datatype so that distinct statuses are distinct values;
  \<open>status_code\<close> is the number the interface reports.
\<close>

datatype status =
    OK | UNSUPPORTED_ENTRY | INVALID_ARGUMENT | INCOMPATIBLE_VERSION | INVALID_HANDLE
  | WRONG_TYPE | INSUFFICIENT_RIGHTS | EXPIRED | SCOPE_CLOSED | LIMIT_EXHAUSTED | QUEUE_FULL
  | INVALID_ADDRESS | PEER_DEAD | CANCELLED | PENDING | WOULD_BLOCK | TIMED_OUT
  | ALREADY_RESOLVED | STATE_CONFLICT | DRAIN_INCOMPLETE | NOT_SUPPORTED | UNSUPPORTED_PROFILE

fun status_code :: "status \<Rightarrow> int" where
  "status_code OK = 0"
| "status_code UNSUPPORTED_ENTRY = -1"
| "status_code INVALID_ARGUMENT = -2"
| "status_code INCOMPATIBLE_VERSION = -3"
| "status_code INVALID_HANDLE = -4"
| "status_code WRONG_TYPE = -5"
| "status_code INSUFFICIENT_RIGHTS = -6"
| "status_code EXPIRED = -7"
| "status_code SCOPE_CLOSED = -8"
| "status_code LIMIT_EXHAUSTED = -9"
| "status_code QUEUE_FULL = -10"
| "status_code INVALID_ADDRESS = -11"
| "status_code PEER_DEAD = -12"
| "status_code CANCELLED = -13"
| "status_code PENDING = -14"
| "status_code WOULD_BLOCK = -15"
| "status_code TIMED_OUT = -16"
| "status_code ALREADY_RESOLVED = -17"
| "status_code STATE_CONFLICT = -18"
| "status_code DRAIN_INCOMPLETE = -19"
| "status_code NOT_SUPPORTED = -20"
| "status_code UNSUPPORTED_PROFILE = -21"

section \<open>Rights bits\<close>

text \<open>
  The first five are common to every object type; a type-specific right starts at bit 8 and means a
  different thing for every type, so the same bit carries several names.
\<close>

definition RIGHT_INSPECT :: u32 where "RIGHT_INSPECT = push_bit 0 1"
definition RIGHT_DERIVE :: u32 where "RIGHT_DERIVE = push_bit 1 1"
definition RIGHT_TRANSFER :: u32 where "RIGHT_TRANSFER = push_bit 2 1"
definition RIGHT_DESTROY :: u32 where "RIGHT_DESTROY = push_bit 3 1"
definition RIGHT_ADMIN :: u32 where "RIGHT_ADMIN = push_bit 4 1"
definition RIGHT_SCOPE_CREATE :: u32 where "RIGHT_SCOPE_CREATE = push_bit 8 1"
definition RIGHT_SCOPE_LIMIT :: u32 where "RIGHT_SCOPE_LIMIT = push_bit 9 1"
definition RIGHT_SCOPE_FENCE :: u32 where "RIGHT_SCOPE_FENCE = push_bit 10 1"
definition RIGHT_SCOPE_EXEC :: u32 where "RIGHT_SCOPE_EXEC = push_bit 11 1"
definition RIGHT_DOMAIN_BUILD :: u32 where "RIGHT_DOMAIN_BUILD = push_bit 8 1"
definition RIGHT_DOMAIN_ACTIVATE :: u32 where "RIGHT_DOMAIN_ACTIVATE = push_bit 9 1"
definition RIGHT_DOMAIN_STOP :: u32 where "RIGHT_DOMAIN_STOP = push_bit 10 1"
definition RIGHT_DOMAIN_WAIT :: u32 where "RIGHT_DOMAIN_WAIT = push_bit 11 1"
definition RIGHT_MEMORY_READ :: u32 where "RIGHT_MEMORY_READ = push_bit 8 1"
definition RIGHT_MEMORY_WRITE :: u32 where "RIGHT_MEMORY_WRITE = push_bit 9 1"
definition RIGHT_MEMORY_EXECUTE :: u32 where "RIGHT_MEMORY_EXECUTE = push_bit 10 1"
definition RIGHT_MEMORY_MAP :: u32 where "RIGHT_MEMORY_MAP = push_bit 11 1"
definition RIGHT_MEMORY_SEAL :: u32 where "RIGHT_MEMORY_SEAL = push_bit 12 1"
definition RIGHT_ENDPOINT_SEND :: u32 where "RIGHT_ENDPOINT_SEND = push_bit 8 1"
definition RIGHT_ENDPOINT_CALL :: u32 where "RIGHT_ENDPOINT_CALL = push_bit 9 1"
definition RIGHT_ENDPOINT_RECEIVE :: u32 where "RIGHT_ENDPOINT_RECEIVE = push_bit 10 1"
definition RIGHT_ENDPOINT_BIND :: u32 where "RIGHT_ENDPOINT_BIND = push_bit 11 1"
definition RIGHT_INVOCATION_REPLY :: u32 where "RIGHT_INVOCATION_REPLY = push_bit 8 1"
definition RIGHT_INVOCATION_EFFECT :: u32 where "RIGHT_INVOCATION_EFFECT = push_bit 9 1"
definition RIGHT_INVOCATION_RESOLVE :: u32 where "RIGHT_INVOCATION_RESOLVE = push_bit 10 1"
definition RIGHT_INVOCATION_BIND :: u32 where "RIGHT_INVOCATION_BIND = push_bit 11 1"
definition RIGHT_SIGNAL_RAISE :: u32 where "RIGHT_SIGNAL_RAISE = push_bit 8 1"
definition RIGHT_SIGNAL_WAIT :: u32 where "RIGHT_SIGNAL_WAIT = push_bit 9 1"
definition RIGHT_TIMER_ARM :: u32 where "RIGHT_TIMER_ARM = push_bit 8 1"
definition RIGHT_LOG_READ :: u32 where "RIGHT_LOG_READ = push_bit 8 1"
definition RIGHT_LOG_APPEND :: u32 where "RIGHT_LOG_APPEND = push_bit 9 1"
definition RIGHT_LOG_ACK :: u32 where "RIGHT_LOG_ACK = push_bit 10 1"
definition RIGHT_DEVICE_MAP :: u32 where "RIGHT_DEVICE_MAP = push_bit 8 1"
definition RIGHT_DEVICE_IRQ :: u32 where "RIGHT_DEVICE_IRQ = push_bit 9 1"
definition RIGHT_DEVICE_DMA :: u32 where "RIGHT_DEVICE_DMA = push_bit 10 1"
definition RIGHT_DEVICE_CONTROL :: u32 where "RIGHT_DEVICE_CONTROL = push_bit 11 1"

lemmas rights_bits =
  RIGHT_INSPECT_def RIGHT_DERIVE_def RIGHT_TRANSFER_def RIGHT_DESTROY_def RIGHT_ADMIN_def
  RIGHT_SCOPE_CREATE_def RIGHT_SCOPE_LIMIT_def RIGHT_SCOPE_FENCE_def RIGHT_SCOPE_EXEC_def
  RIGHT_DOMAIN_BUILD_def RIGHT_DOMAIN_ACTIVATE_def RIGHT_DOMAIN_STOP_def RIGHT_DOMAIN_WAIT_def
  RIGHT_MEMORY_READ_def RIGHT_MEMORY_WRITE_def RIGHT_MEMORY_EXECUTE_def RIGHT_MEMORY_MAP_def
  RIGHT_MEMORY_SEAL_def RIGHT_ENDPOINT_SEND_def RIGHT_ENDPOINT_CALL_def
  RIGHT_ENDPOINT_RECEIVE_def RIGHT_ENDPOINT_BIND_def RIGHT_INVOCATION_REPLY_def
  RIGHT_INVOCATION_EFFECT_def RIGHT_INVOCATION_RESOLVE_def RIGHT_INVOCATION_BIND_def
  RIGHT_SIGNAL_RAISE_def RIGHT_SIGNAL_WAIT_def RIGHT_TIMER_ARM_def RIGHT_LOG_READ_def
  RIGHT_LOG_APPEND_def RIGHT_LOG_ACK_def RIGHT_DEVICE_MAP_def RIGHT_DEVICE_IRQ_def
  RIGHT_DEVICE_DMA_def RIGHT_DEVICE_CONTROL_def

section \<open>Handles\<close>

definition handle :: "u32 \<Rightarrow> u32 \<Rightarrow> u64" where
  "handle slot generation = push_bit 32 (ucast generation) OR ucast slot"

definition handle_slot :: "u64 \<Rightarrow> u32" where
  "handle_slot value = ucast (value AND 0xFFFFFFFF)"

definition handle_generation :: "u64 \<Rightarrow> u32" where
  "handle_generation value = ucast (drop_bit 32 value)"

definition boot_handle :: "u32 \<Rightarrow> u64" where
  "boot_handle slot = handle slot 1"

definition pack_version :: "16 word \<Rightarrow> 16 word \<Rightarrow> u64" where
  "pack_version major minor = push_bit 16 (ucast major) OR ucast minor"

definition op_type :: "u32 \<Rightarrow> u32" where
  "op_type operation = drop_bit 16 operation"

lemma low_mask: "(0xFFFFFFFF :: u64) = mask 32"
  by (simp add: mask_eq_exp_minus_1)

lemma handle_slot_handle [simp]: "handle_slot (handle slot generation) = slot"
  unfolding handle_slot_def handle_def low_mask
  by (rule bit_word_eqI) (auto simp: bit_simps)

lemma handle_generation_handle [simp]: "handle_generation (handle slot generation) = generation"
  unfolding handle_generation_def handle_def
  by (rule bit_word_eqI) (auto simp: bit_simps dest: bit_imp_le_length)

lemma handle_of_parts [simp]: "handle (handle_slot v) (handle_generation v) = v"
  unfolding handle_slot_def handle_generation_def handle_def low_mask
  by (rule bit_word_eqI) (auto simp: bit_simps)

lemma handle_inject [simp]:
  "handle s g = handle s' g' \<longleftrightarrow> s = s' \<and> g = g'"
  by (metis handle_slot_handle handle_generation_handle)

lemma handle_zero: "handle 0 0 = 0"
  by (simp add: handle_def)

lemma handle_nonzero: "g \<noteq> 0 \<Longrightarrow> handle s g \<noteq> 0"
  using handle_inject [of s g 0 0] by (simp add: handle_zero)

text \<open>
  Handles pack and unpack without loss: a slot and a generation are read back from the handle that
  packs them, every 64-bit value is the handle of its own parts, and so two handles are equal only when
  both parts are; only slot zero with generation zero packs to the null handle.
\<close>

theorem handle_roundtrip:
  "handle_slot (handle s g) = s \<and> handle_generation (handle s g) = g \<and>
   handle (handle_slot v) (handle_generation v) = v \<and>
   (handle s g = handle s' g' \<longleftrightarrow> s = s' \<and> g = g') \<and> (handle s g = 0 \<longleftrightarrow> s = 0 \<and> g = 0)"
  using handle_inject [of s g 0 0] by (simp add: handle_zero)

end
