(* ===== verification/Objects.thy ===== *)
theory Objects
  imports Abi
begin

text \<open>
  Object references, capability tables and the grant tree (\<open>kernel/src/obj.rs\<close>). A capability
  table is a list of slots, each with its generation; the grant table is a list of nodes linked to
  their parents. The lemmas give the functional behaviour of every table operation, the invariant
  that an occupied slot has a non-zero generation, the staleness of released handles, and that the
  sweep of \<open>fence_lineage\<close> fences exactly the descendants of its root.
\<close>

type_synonym scope_id = nat
type_synonym grant_id = nat

definition NO_GRANT :: grant_id where "NO_GRANT = U16_MAX"
definition MAX_CAPS :: nat where "MAX_CAPS = MAX_HANDLES_PER_DOMAIN"
definition MAX_GRANTS :: nat where "MAX_GRANTS = 256"

section \<open>Object kinds and rights\<close>

datatype obj_kind =
  Scope | Domain | Memory | Endpoint | Invocation | Signal | Timer | ControlLog | Device

fun abi_type :: "obj_kind \<Rightarrow> u32" where
  "abi_type Scope = 1"
| "abi_type Domain = 2"
| "abi_type Memory = 3"
| "abi_type Endpoint = 4"
| "abi_type Invocation = 5"
| "abi_type Signal = 6"
| "abi_type Timer = 7"
| "abi_type ControlLog = 8"
| "abi_type Device = 9"

definition COMMON_RIGHTS :: u32 where
  "COMMON_RIGHTS = RIGHT_INSPECT OR RIGHT_DERIVE OR RIGHT_TRANSFER OR RIGHT_DESTROY OR RIGHT_ADMIN"

fun specific_rights :: "obj_kind \<Rightarrow> u32" where
  "specific_rights Scope =
     RIGHT_SCOPE_CREATE OR RIGHT_SCOPE_LIMIT OR RIGHT_SCOPE_FENCE OR RIGHT_SCOPE_EXEC"
| "specific_rights Domain =
     RIGHT_DOMAIN_BUILD OR RIGHT_DOMAIN_ACTIVATE OR RIGHT_DOMAIN_STOP OR RIGHT_DOMAIN_WAIT"
| "specific_rights Memory =
     RIGHT_MEMORY_READ OR RIGHT_MEMORY_WRITE OR RIGHT_MEMORY_EXECUTE OR RIGHT_MEMORY_MAP
       OR RIGHT_MEMORY_SEAL"
| "specific_rights Endpoint =
     RIGHT_ENDPOINT_SEND OR RIGHT_ENDPOINT_CALL OR RIGHT_ENDPOINT_RECEIVE OR RIGHT_ENDPOINT_BIND"
| "specific_rights Invocation =
     RIGHT_INVOCATION_REPLY OR RIGHT_INVOCATION_EFFECT OR RIGHT_INVOCATION_RESOLVE
       OR RIGHT_INVOCATION_BIND"
| "specific_rights Signal = RIGHT_SIGNAL_RAISE OR RIGHT_SIGNAL_WAIT"
| "specific_rights Timer = RIGHT_TIMER_ARM"
| "specific_rights ControlLog = RIGHT_LOG_READ OR RIGHT_LOG_APPEND OR RIGHT_LOG_ACK"
| "specific_rights Device =
     RIGHT_DEVICE_MAP OR RIGHT_DEVICE_IRQ OR RIGHT_DEVICE_DMA OR RIGHT_DEVICE_CONTROL"

definition rights_mask :: "obj_kind \<Rightarrow> u32" where
  "rights_mask k = COMMON_RIGHTS OR specific_rights k"

record obj_ref =
  or_kind :: obj_kind
  or_index :: nat
  or_generation :: u32

definition obj_ref_new :: "obj_kind \<Rightarrow> nat \<Rightarrow> u32 \<Rightarrow> obj_ref" where
  "obj_ref_new k i g = \<lparr>or_kind = k, or_index = i, or_generation = g\<rparr>"

section \<open>Capability tables\<close>

record cap_entry =
  ce_generation :: u32
  ce_live :: bool
  ce_retired :: bool
  ce_object :: obj_ref
  ce_grant :: grant_id

definition cap_entry_empty :: cap_entry where
  "cap_entry_empty = \<lparr>ce_generation = 0, ce_live = False, ce_retired = False,
     ce_object = obj_ref_new Scope 0 0, ce_grant = NO_GRANT\<rparr>"

type_synonym cap_table = "cap_entry list"

definition cap_table_new :: cap_table where
  "cap_table_new = replicate MAX_CAPS cap_entry_empty"

definition cap_live :: "cap_table \<Rightarrow> nat" where
  "cap_live t = length (filter ce_live t)"

definition free_slots :: "cap_table \<Rightarrow> nat" where
  "free_slots t = length (filter (\<lambda>e. \<not> ce_live e \<and> \<not> ce_retired e) t)"

definition cap_lookup :: "cap_table \<Rightarrow> u64 \<Rightarrow> cap_entry option" where
  "cap_lookup t h =
     (if h = 0 then None
      else case nth_opt t (unat (handle_slot h)) of
        None \<Rightarrow> None
      | Some e \<Rightarrow>
          if \<not> ce_live e \<or> ce_generation e \<noteq> handle_generation h then None else Some e)"

definition install_at :: "cap_table \<Rightarrow> nat \<Rightarrow> obj_ref \<Rightarrow> grant_id \<Rightarrow> u64 option \<times> cap_table" where
  "install_at t slot object grant =
     (case nth_opt t slot of
        None \<Rightarrow> (None, t)
      | Some e \<Rightarrow>
          if ce_live e \<or> ce_retired e then (None, t)
          else if ce_generation e = 0xFFFFFFFF then (None, t[slot := e\<lparr>ce_retired := True\<rparr>])
          else
            let e' = e\<lparr>ce_generation := ce_generation e + 1, ce_live := True,
                       ce_object := object, ce_grant := grant\<rparr>
            in (Some (handle (of_nat slot) (ce_generation e')), t[slot := e']))"

definition cap_table_install ::
    "cap_table \<Rightarrow> obj_ref \<Rightarrow> grant_id \<Rightarrow> (nat \<times> u64) option \<times> cap_table" where
  "cap_table_install t object grant =
     (case position (\<lambda>e. \<not> (ce_live e \<or> ce_retired e)) t of
        None \<Rightarrow> (None, t)
      | Some slot \<Rightarrow>
          (case install_at t slot object grant of
             (None, t') \<Rightarrow> (None, t')
           | (Some h, t') \<Rightarrow> (Some (slot, h), t')))"

definition cap_table_release :: "cap_table \<Rightarrow> u64 \<Rightarrow> cap_entry option \<times> cap_table" where
  "cap_table_release t h =
     (case nth_opt t (unat (handle_slot h)) of
        None \<Rightarrow> (None, t)
      | Some e \<Rightarrow>
          if \<not> ce_live e \<or> ce_generation e \<noteq> handle_generation h then (None, t)
          else (Some e, t[unat (handle_slot h) := e\<lparr>ce_live := False, ce_grant := NO_GRANT\<rparr>]))"

definition release_slot :: "cap_table \<Rightarrow> nat \<Rightarrow> cap_entry option \<times> cap_table" where
  "release_slot t slot =
     (case nth_opt t slot of
        None \<Rightarrow> (None, t)
      | Some e \<Rightarrow>
          if \<not> ce_live e then (None, t)
          else (Some e, t[slot := e\<lparr>ce_live := False, ce_grant := NO_GRANT\<rparr>]))"

section \<open>The grant tree\<close>

record grant =
  gr_used :: bool
  gr_id :: nat
  gr_parent :: grant_id
  gr_depth :: nat
  gr_rights :: u32
  gr_deadline_ns :: nat
  gr_life_scope :: "scope_id option"
  gr_facet :: nat
  gr_object :: obj_ref
  gr_fenced :: bool
  gr_refs :: nat
  gr_children :: nat
  gr_sponsor :: scope_id

definition grant_empty :: grant where
  "grant_empty = \<lparr>gr_used = False, gr_id = 0, gr_parent = NO_GRANT, gr_depth = 0, gr_rights = 0,
     gr_deadline_ns = 0, gr_life_scope = None, gr_facet = 0, gr_object = obj_ref_new Scope 0 0,
     gr_fenced = False, gr_refs = 0, gr_children = 0, gr_sponsor = 0\<rparr>"

text \<open>
  One turn of the inner loop: a used, unfenced node whose parent is fenced is fenced. Reading a
  parent index outside the table is the panic.
\<close>

definition fence_node ::
    "nat \<Rightarrow> grant list \<times> nat \<times> bool \<Rightarrow> (grant list \<times> nat \<times> bool) option" where
  "fence_node index s =
     (case s of (gs, changed, progressed) \<Rightarrow>
        let node = gs ! index in
        if \<not> gr_used node \<or> gr_fenced node \<or> gr_parent node = NO_GRANT then Some s
        else (case nth_opt gs (gr_parent node) of
                None \<Rightarrow> None
              | Some p \<Rightarrow>
                  if gr_fenced p
                  then Some (gs[index := node\<lparr>gr_fenced := True\<rparr>], changed + 1, True)
                  else Some s))"

fun fence_passes :: "nat \<Rightarrow> grant list \<times> nat \<Rightarrow> (grant list \<times> nat) option" where
  "fence_passes 0 s = Some s"
| "fence_passes (Suc n) (gs, changed) =
     (case fold_opt fence_node [0 ..< length gs] (gs, changed, False) of
        None \<Rightarrow> None
      | Some (gs', changed', progressed) \<Rightarrow>
          if progressed then fence_passes n (gs', changed') else Some (gs', changed'))"

definition fence_root :: "grant list \<Rightarrow> grant_id \<Rightarrow> grant list \<times> nat" where
  "fence_root gs root =
     (case nth_opt gs root of
        Some node \<Rightarrow>
          if gr_used node \<and> \<not> gr_fenced node
          then (gs[root := node\<lparr>gr_fenced := True\<rparr>], 1) else (gs, 0)
      | None \<Rightarrow> (gs, 0))"

definition fence_lineage :: "grant list \<Rightarrow> grant_id \<Rightarrow> (grant list \<times> nat) option" where
  "fence_lineage gs root = fence_passes MAX_DERIVE_DEPTH (fence_root gs root)"


section \<open>Behaviour of the capability table\<close>

text \<open>The invariant: an occupied slot carries a non-zero generation and is not withdrawn.\<close>

definition wf_caps :: "cap_table \<Rightarrow> bool" where
  "wf_caps t \<longleftrightarrow> length t = MAX_CAPS \<and>
     (\<forall>e \<in> set t. ce_live e \<longrightarrow> ce_generation e \<noteq> 0 \<and> \<not> ce_retired e)"

lemma wf_caps_new: "wf_caps cap_table_new"
  by (simp add: wf_caps_def cap_table_new_def cap_entry_empty_def)

lemma wf_caps_nth:
  "wf_caps t \<Longrightarrow> i < MAX_CAPS \<Longrightarrow> ce_live (t ! i) \<Longrightarrow> ce_generation (t ! i) \<noteq> 0 \<and> \<not> ce_retired (t ! i)"
  by (simp add: wf_caps_def)

lemma wf_caps_length: "wf_caps t \<Longrightarrow> length t = MAX_CAPS"
  by (simp add: wf_caps_def)

lemma wf_caps_update:
  "wf_caps t \<Longrightarrow> (ce_live e \<Longrightarrow> ce_generation e \<noteq> 0 \<and> \<not> ce_retired e) \<Longrightarrow> wf_caps (t[i := e])"
  by (auto simp: wf_caps_def dest: set_update_subset_insert [THEN subsetD])

lemma max_caps_u32: "i < MAX_CAPS \<Longrightarrow> unat (of_nat i :: u32) = i"
  by (simp add: MAX_CAPS_def MAX_HANDLES_PER_DOMAIN_def unat_of_nat)

lemma generation_max: "(- 1 :: u32) = 0xFFFFFFFF"
  by simp

lemma generation_step_nonzero: "(g :: u32) \<noteq> 0xFFFFFFFF \<Longrightarrow> g + 1 \<noteq> 0"
  by (metis generation_max eq_neg_iff_add_eq_0)

lemma generation_step_unat: "(g :: u32) \<noteq> 0xFFFFFFFF \<Longrightarrow> unat (g + 1) = Suc (unat g)"
  using generation_step_nonzero [of g] by (simp add: unatSuc add.commute)

lemma cap_lookup_Some_iff:
  assumes "wf_caps t"
  shows "cap_lookup t h = Some e \<longleftrightarrow>
    unat (handle_slot h) < MAX_CAPS \<and> e = t ! unat (handle_slot h) \<and> ce_live e \<and>
    ce_generation e = handle_generation h"
proof -
  have zero: "handle_generation 0 = 0" by (simp add: handle_generation_def)
  show ?thesis
    using assms wf_caps_nth [OF assms, of "unat (handle_slot h)"] zero
    by (auto simp: cap_lookup_def wf_caps_def nth_opt_def split: if_splits)
qed

lemma cap_lookup_update:
  assumes "length t = MAX_CAPS" and "slot < MAX_CAPS"
  shows "cap_lookup (t[slot := e]) h =
    (if unat (handle_slot h) = slot
     then (if h \<noteq> 0 \<and> ce_live e \<and> ce_generation e = handle_generation h then Some e else None)
     else cap_lookup t h)"
  using assms by (auto simp: cap_lookup_def nth_opt_def)

text \<open>A lookup that names the slot of another handle's entry compares generations.\<close>

lemma handle_eq_iff: "h = handle (of_nat slot) g \<longleftrightarrow> handle_slot h = of_nat slot \<and> handle_generation h = g"
  by (metis handle_slot_handle handle_generation_handle handle_of_parts)

lemma unat_slot_iff:
  "slot < MAX_CAPS \<Longrightarrow> unat (handle_slot h) = slot \<longleftrightarrow> handle_slot h = of_nat slot"
  by (metis max_caps_u32 unsigned_word_eqI)

subsection \<open>Installing\<close>

lemma install_at_Some:
  "install_at t slot object grant = (Some h, t') \<longleftrightarrow>
     slot < length t \<and> \<not> ce_live (t ! slot) \<and> \<not> ce_retired (t ! slot) \<and>
     ce_generation (t ! slot) \<noteq> 0xFFFFFFFF \<and>
     h = handle (of_nat slot) (ce_generation (t ! slot) + 1) \<and>
     t' = t[slot := (t ! slot)\<lparr>ce_generation := ce_generation (t ! slot) + 1, ce_live := True,
                               ce_object := object, ce_grant := grant\<rparr>]"
  by (auto simp: install_at_def nth_opt_def Let_def)

lemma install_at_None:
  "install_at t slot object grant = (None, t') \<Longrightarrow>
     t' = t \<or> slot < length t \<and> \<not> ce_live (t ! slot) \<and> \<not> ce_retired (t ! slot) \<and>
       ce_generation (t ! slot) = 0xFFFFFFFF \<and> t' = t[slot := (t ! slot)\<lparr>ce_retired := True\<rparr>]"
  by (auto simp: install_at_def nth_opt_def Let_def split: if_splits)

lemma cap_install_Some:
  "cap_table_install t object grant = (Some (slot, h), t') \<Longrightarrow>
     install_at t slot object grant = (Some h, t')"
  by (auto simp: cap_table_install_def split: option.splits prod.splits)

lemma install_at_wf: "wf_caps t \<Longrightarrow> wf_caps (snd (install_at t slot object grant))"
  by (auto simp: install_at_def Let_def generation_step_nonzero nth_opt_Some_iff
        intro!: wf_caps_update split: option.splits)

lemma install_wf: "wf_caps t \<Longrightarrow> wf_caps (snd (cap_table_install t object grant))"
  using install_at_wf [of t _ object grant]
  by (auto simp: cap_table_install_def split: option.splits prod.splits) (metis snd_conv)+

text \<open>
  A successful installation hands out a handle that named nothing before, and adds exactly that
  handle to what the table resolves.
\<close>

lemma install_at_lookup:
  assumes wf: "wf_caps t" and ins: "install_at t slot object grant = (Some h, t')"
  shows "cap_lookup t h = None"
    and "cap_lookup t' = (cap_lookup t)(h \<mapsto> t' ! slot)"
    and "ce_object (t' ! slot) = object \<and> ce_grant (t' ! slot) = grant \<and> ce_live (t' ! slot)"
proof -
  from wf ins have len: "length t = MAX_CAPS" and slot: "slot < MAX_CAPS"
    by (auto simp: install_at_Some wf_caps_def)
  from ins have h: "handle_slot h = of_nat slot" "unat (handle_slot h) = slot"
    "h \<noteq> 0" "handle_generation h = ce_generation (t' ! slot)"
    using slot by (auto simp: install_at_Some max_caps_u32 generation_step_nonzero handle_nonzero)
  show dead: "cap_lookup t h = None"
    using ins h slot len by (auto simp: cap_lookup_def install_at_Some)
  show obj: "ce_object (t' ! slot) = object \<and> ce_grant (t' ! slot) = grant \<and> ce_live (t' ! slot)"
    using ins by (auto simp: install_at_Some)
  show "cap_lookup t' = (cap_lookup t)(h \<mapsto> t' ! slot)"
  proof
    fix k
    have upd: "cap_lookup t' k = (if unat (handle_slot k) = slot
        then (if k \<noteq> 0 \<and> ce_generation (t' ! slot) = handle_generation k
              then Some (t' ! slot) else None) else cap_lookup t k)"
      using ins slot len obj by (auto simp: install_at_Some cap_lookup_update)
    show "cap_lookup t' k = ((cap_lookup t)(h \<mapsto> t' ! slot)) k"
    proof (cases "unat (handle_slot k) = slot")
      case True
      then have "cap_lookup t k = None"
        using ins len slot by (auto simp: cap_lookup_def install_at_Some)
      moreover have "k = h \<longleftrightarrow> handle_generation k = handle_generation h"
        using True h(2) by (metis handle_of_parts unsigned_word_eqI)
      ultimately show ?thesis using upd True h by auto
    qed (use upd h in auto)
  qed
qed

subsection \<open>Releasing\<close>

lemma cap_release_wf: "wf_caps t \<Longrightarrow> wf_caps (snd (cap_table_release t h))"
  by (auto simp: cap_table_release_def intro!: wf_caps_update split: option.splits)

lemma release_slot_wf: "wf_caps t \<Longrightarrow> wf_caps (snd (release_slot t slot))"
  by (auto simp: release_slot_def intro!: wf_caps_update split: option.splits)

text \<open>Releasing removes exactly the released handle, and returns what it named.\<close>

lemma cap_release_map:
  assumes wf: "wf_caps t"
  shows "fst (cap_table_release t h) = cap_lookup t h"
    and "cap_lookup (snd (cap_table_release t h)) = (cap_lookup t)(h := None)"
proof -
  show fst: "fst (cap_table_release t h) = cap_lookup t h"
    using cap_lookup_Some_iff [OF wf, of h] wf_caps_length [OF wf]
    by (auto simp: cap_table_release_def nth_opt_def split: if_splits)
       (metis not_Some_eq)+
  show "cap_lookup (snd (cap_table_release t h)) = (cap_lookup t)(h := None)"
  proof (cases "cap_lookup t h")
    case None
    then have "snd (cap_table_release t h) = t"
      using fst by (auto simp: cap_table_release_def split: option.splits)
    then show ?thesis using None by auto
  next
    case (Some e)
    let ?i = "unat (handle_slot h)"
    from Some have e: "?i < MAX_CAPS" "e = t ! ?i" "ce_live e" "ce_generation e = handle_generation h"
      using cap_lookup_Some_iff [OF wf] by auto
    then have t': "snd (cap_table_release t h) = t[?i := e\<lparr>ce_live := False, ce_grant := NO_GRANT\<rparr>]"
      using wf_caps_length [OF wf] by (simp add: cap_table_release_def)
    have same: "cap_lookup t k = None" if "unat (handle_slot k) = ?i" "k \<noteq> h" for k
    proof -
      from that have "handle_generation k \<noteq> handle_generation h"
        by (metis handle_of_parts unsigned_word_eqI)
      then show ?thesis using e that(1) by (auto simp: cap_lookup_def nth_opt_def)
    qed
    show ?thesis
      using e(1) t' wf_caps_length [OF wf] same by (auto simp: fun_eq_iff cap_lookup_update)
  qed
qed

subsection \<open>A handle namespace: a spent name never comes back\<close>

text \<open>
  The contract a client of a handle table relies on: some handles are spent, a spent handle
  resolves to nothing, and no operation of the table un-spends one. A client that has seen a handle
  released can then run any further operations and never meet it again.
\<close>

locale handle_namespace =
  fixes lookup :: "'t \<Rightarrow> 'h \<Rightarrow> 'e option"
    and step :: "'op \<Rightarrow> 't \<Rightarrow> 't"
    and invar :: "'t \<Rightarrow> bool"
    and spent :: "'t \<Rightarrow> 'h \<Rightarrow> bool"
  assumes invar_step: "invar t \<Longrightarrow> invar (step op t)"
    and spent_step: "invar t \<Longrightarrow> spent t h \<Longrightarrow> spent (step op t) h"
    and spent_dead: "invar t \<Longrightarrow> spent t h \<Longrightarrow> lookup t h = None"
begin

lemma run_keeps: "invar t \<Longrightarrow> spent t h \<Longrightarrow> invar (fold step ops t) \<and> spent (fold step ops t) h"
  by (induction ops arbitrary: t) (simp_all add: invar_step spent_step)

lemma run_dead: "invar t \<Longrightarrow> spent t h \<Longrightarrow> lookup (fold step ops t) h = None"
  using run_keeps [of t h ops] by (blast intro: spent_dead)

lemma run_invar: "invar t \<Longrightarrow> invar (fold step ops t)"
  by (induction ops arbitrary: t) (simp_all add: invar_step)

end

text \<open>The operations that change a capability table, as steps.\<close>

datatype cap_op =
    InstallAt nat obj_ref grant_id
  | Install obj_ref grant_id
  | Release u64
  | ReleaseSlot nat

fun cap_step :: "cap_op \<Rightarrow> cap_table \<Rightarrow> cap_table" where
  "cap_step (InstallAt slot object grant) t = snd (install_at t slot object grant)"
| "cap_step (Install object grant) t = snd (cap_table_install t object grant)"
| "cap_step (Release h) t = snd (cap_table_release t h)"
| "cap_step (ReleaseSlot slot) t = snd (release_slot t slot)"

text \<open>A handle is spent when its slot has reached its generation and does not hold it live.\<close>

definition spent :: "cap_table \<Rightarrow> u64 \<Rightarrow> bool" where
  "spent t h \<longleftrightarrow>
     (let i = unat (handle_slot h) in
      i < length t \<and> unat (handle_generation h) \<le> unat (ce_generation (t ! i)) \<and>
      \<not> (ce_live (t ! i) \<and> ce_generation (t ! i) = handle_generation h))"

lemma spent_update:
  assumes "spent t h" and "i < length t"
    and "unat (ce_generation (t ! i)) \<le> unat (ce_generation e)"
    and "ce_live e \<Longrightarrow> ce_generation e = ce_generation (t ! i) \<Longrightarrow> ce_live (t ! i)"
  shows "spent (t[i := e]) h"
proof -
  have "ce_generation e = ce_generation (t ! i)"
    if "unat (ce_generation e) = unat (handle_generation h)"
      "unat (handle_generation h) \<le> unat (ce_generation (t ! i))"
    using that assms(3) by (metis le_antisym unsigned_word_eqI)
  then show ?thesis
    using assms by (auto simp: spent_def Let_def nth_list_update)
qed

lemma install_at_spent: "spent t h \<Longrightarrow> spent (snd (install_at t slot object grant)) h"
  by (auto simp: install_at_def nth_opt_def Let_def generation_step_unat intro!: spent_update)

lemma install_spent: "spent t h \<Longrightarrow> spent (snd (cap_table_install t object grant)) h"
  using install_at_spent [of t h _ object grant]
  by (auto simp: cap_table_install_def split: option.splits prod.splits) (metis snd_conv)+

lemma cap_step_spent: "spent t h \<Longrightarrow> spent (cap_step op t) h"
  by (cases op)
    (auto simp: install_at_spent install_spent cap_table_release_def release_slot_def nth_opt_def
      intro!: spent_update)

lemma cap_step_wf: "wf_caps t \<Longrightarrow> wf_caps (cap_step op t)"
  by (cases op) (simp_all add: install_at_wf install_wf cap_release_wf release_slot_wf)

lemma spent_lookup: "spent t h \<Longrightarrow> cap_lookup t h = None"
  by (auto simp: spent_def cap_lookup_def Let_def)

interpretation caps: handle_namespace cap_lookup cap_step wf_caps spent
  by unfold_locales (auto simp: cap_step_wf cap_step_spent spent_lookup)

lemma released_spent:
  assumes "wf_caps t" and "cap_table_release t h = (Some e, t')"
  shows "spent t' h"
  using assms by (auto simp: cap_table_release_def spent_def nth_opt_def Let_def split: if_splits)

section \<open>Behaviour of the lineage fence\<close>

text \<open>The \<open>k\<close>-th ancestor of a node, where there is one.\<close>

fun anc :: "grant list \<Rightarrow> nat \<Rightarrow> grant_id \<Rightarrow> grant_id option" where
  "anc gs 0 i = (if i < length gs then Some i else None)"
| "anc gs (Suc k) i =
     (if i < length gs \<and> gr_used (gs ! i) \<and> gr_parent (gs ! i) \<noteq> NO_GRANT
      then anc gs k (gr_parent (gs ! i)) else None)"

definition descends :: "grant list \<Rightarrow> grant_id \<Rightarrow> grant_id \<Rightarrow> bool" where
  "descends gs root i \<longleftrightarrow> (\<exists>k. anc gs k i = Some root)"

text \<open>
  The shape of the tree: a used node is a root of depth zero, or has a used parent one level up;
  depths stay within the interface's derivation depth; table indices stay below \<open>NO_GRANT\<close>.
\<close>

definition wf_node :: "grant list \<Rightarrow> grant \<Rightarrow> bool" where
  "wf_node gs g \<longleftrightarrow> gr_used g \<longrightarrow>
     gr_depth g \<le> MAX_DERIVE_DEPTH \<and>
     (gr_parent g \<noteq> NO_GRANT \<longrightarrow>
        gr_parent g < length gs \<and> gr_used (gs ! gr_parent g) \<and>
        gr_depth g = Suc (gr_depth (gs ! gr_parent g)))"

definition wf_grants :: "grant list \<Rightarrow> bool" where
  "wf_grants gs \<longleftrightarrow> length gs \<le> NO_GRANT \<and> (\<forall>g \<in> set gs. wf_node gs g)"

lemma wf_grants_nth: "wf_grants gs \<Longrightarrow> i < length gs \<Longrightarrow> wf_node gs (gs ! i)"
  by (simp add: wf_grants_def)

lemma anc_depth:
  "wf_grants gs \<Longrightarrow> anc gs k i = Some a \<Longrightarrow> gr_depth (gs ! i) = k + gr_depth (gs ! a)"
proof (induction k arbitrary: i)
  case (Suc k)
  then show ?case
    using wf_grants_nth [OF Suc.prems(1), of i] by (auto simp: wf_node_def split: if_splits)
qed (simp split: if_splits)

lemma anc_used: "anc gs (Suc k) i = Some a \<Longrightarrow> gr_used (gs ! i)"
  by (simp split: if_splits)

lemma anc_bound:
  assumes "wf_grants gs" and "anc gs k i = Some a"
  shows "k \<le> MAX_DERIVE_DEPTH"
proof (cases k)
  case (Suc j)
  then have "i < length gs" "gr_used (gs ! i)" using assms(2) by (auto split: if_splits)
  then show ?thesis
    using anc_depth [OF assms] wf_grants_nth [OF assms(1), of i] by (simp add: wf_node_def)
qed simp

text \<open>Fencing changes the flag \<open>gr_fenced\<close> and nothing else, and only ever sets it.\<close>

definition unfence :: "grant \<Rightarrow> grant" where
  "unfence g = g\<lparr>gr_fenced := False\<rparr>"

definition fences :: "grant list \<Rightarrow> grant list \<Rightarrow> bool" where
  "fences gs gs' \<longleftrightarrow> map unfence gs' = map unfence gs \<and>
     (\<forall>i < length gs. gr_fenced (gs ! i) \<longrightarrow> gr_fenced (gs' ! i))"

lemma fences_refl [simp]: "fences gs gs"
  by (simp add: fences_def)

lemma fences_length: "fences gs gs' \<Longrightarrow> length gs' = length gs"
  unfolding fences_def by (metis length_map)

lemma fences_trans: "fences gs gs' \<Longrightarrow> fences gs' gs'' \<Longrightarrow> fences gs gs''"
  using fences_length [of gs gs'] unfolding fences_def by simp

lemma fences_fields:
  assumes "fences gs gs'" and "i < length gs"
  shows "gr_used (gs' ! i) = gr_used (gs ! i)" "gr_parent (gs' ! i) = gr_parent (gs ! i)"
    "gr_depth (gs' ! i) = gr_depth (gs ! i)"
proof -
  have "unfence (gs' ! i) = unfence (gs ! i)"
    using assms fences_length [OF assms(1)] unfolding fences_def by (metis nth_map)
  then show "gr_used (gs' ! i) = gr_used (gs ! i)" "gr_parent (gs' ! i) = gr_parent (gs ! i)"
    "gr_depth (gs' ! i) = gr_depth (gs ! i)"
    by (cases "gs ! i", cases "gs' ! i", simp add: unfence_def)+
qed

lemma fences_update:
  "i < length gs \<Longrightarrow> fences gs (gs[i := (gs ! i)\<lparr>gr_fenced := True\<rparr>])"
  by (auto simp: fences_def unfence_def map_update nth_list_update intro!: nth_equalityI)

lemma fences_anc: "fences gs gs' \<Longrightarrow> anc gs' k i = anc gs k i"
proof (induction k arbitrary: i)
  case 0
  then show ?case by (simp add: fences_length)
next
  case (Suc k)
  have "length gs' = length gs" using Suc.prems by (rule fences_length)
  then show ?case using Suc fences_fields [OF Suc.prems, of i] by auto
qed

lemma fences_wf: "fences gs gs' \<Longrightarrow> wf_grants gs \<Longrightarrow> wf_grants gs'"
  unfolding wf_grants_def wf_node_def all_set_conv_all_nth
  by (auto simp: fences_fields fences_length)

text \<open>One pass over the table, from its start state to its end state.\<close>

definition under_fence :: "grant list \<Rightarrow> grant_id \<Rightarrow> bool" where
  "under_fence gs i \<longleftrightarrow> (\<exists>k a. anc gs k i = Some a \<and> gr_fenced (gs ! a))"

lemma under_fence_self: "i < length gs \<Longrightarrow> gr_fenced (gs ! i) \<Longrightarrow> under_fence gs i"
  unfolding under_fence_def by (rule exI [of _ 0]) simp

lemma under_fence_parent:
  assumes "i < length gs" "gr_used (gs ! i)" "gr_parent (gs ! i) \<noteq> NO_GRANT"
    "under_fence gs (gr_parent (gs ! i))"
  shows "under_fence gs i"
proof -
  from assms(4) obtain k a where "anc gs k (gr_parent (gs ! i)) = Some a" "gr_fenced (gs ! a)"
    by (auto simp: under_fence_def)
  then have "anc gs (Suc k) i = Some a \<and> gr_fenced (gs ! a)" using assms by simp
  then show ?thesis unfolding under_fence_def by blast
qed

definition newly :: "grant list \<Rightarrow> grant list \<Rightarrow> nat set" where
  "newly gs gs' = {i. i < length gs \<and> gr_fenced (gs' ! i) \<and> \<not> gr_fenced (gs ! i)}"

definition pass_step ::
    "grant list \<Rightarrow> nat \<Rightarrow> nat set \<Rightarrow> grant list \<times> nat \<times> bool \<Rightarrow> bool" where
  "pass_step gs c done s \<longleftrightarrow> (case s of (gs', changed, progressed) \<Rightarrow>
     fences gs gs' \<and> changed = c + card (newly gs gs') \<and>
     (\<forall>i < length gs. gr_fenced (gs' ! i) \<longrightarrow> under_fence gs i) \<and>
     (\<forall>i \<in> done. i < length gs \<longrightarrow> gr_used (gs ! i) \<longrightarrow> gr_parent (gs ! i) \<noteq> NO_GRANT \<longrightarrow>
        gr_fenced (gs ! gr_parent (gs ! i)) \<longrightarrow> gr_fenced (gs' ! i)) \<and>
     (\<not> progressed \<longrightarrow> gs' = gs))"

lemma fence_node_step:
  assumes wf: "wf_grants gs" and i: "i < length gs" and s: "pass_step gs c D s"
  shows "\<exists>s'. fence_node i s = Some s' \<and> pass_step gs c (insert i D) s'"
proof -
  obtain gs' d p where st: "s = (gs', d, p)" by (cases s)
  from s st have f: "fences gs gs'" by (simp add: pass_step_def)
  note len = fences_length [OF f] and fld = fences_fields [OF f i]
  let ?par = "gr_parent (gs ! i)"
  consider (skip) "\<not> gr_used (gs ! i) \<or> gr_fenced (gs' ! i) \<or> ?par = NO_GRANT"
    | (keep) "gr_used (gs ! i)" "\<not> gr_fenced (gs' ! i)" "?par \<noteq> NO_GRANT" "\<not> gr_fenced (gs' ! ?par)"
    | (fence) "gr_used (gs ! i)" "\<not> gr_fenced (gs' ! i)" "?par \<noteq> NO_GRANT" "gr_fenced (gs' ! ?par)"
    by blast
  then show ?thesis
  proof cases
    case skip
    then show ?thesis using s st fld by (auto simp: fence_node_def pass_step_def Let_def)
  next
    case keep
    then have par: "?par < length gs"
      using wf_grants_nth [OF wf i] by (simp add: wf_node_def)
    then have "\<not> gr_fenced (gs ! ?par)" using keep f by (auto simp: fences_def)
    then show ?thesis
      using s st fld keep par len by (auto simp: fence_node_def pass_step_def Let_def)
  next
    case fence
    then have par: "?par < length gs"
      using wf_grants_nth [OF wf i] by (simp add: wf_node_def)
    let ?gs = "gs'[i := (gs' ! i)\<lparr>gr_fenced := True\<rparr>]"
    have "fence_node i s = Some (?gs, d + 1, True)"
      using st fld fence par len by (simp add: fence_node_def Let_def)
    moreover have "fences gs ?gs"
      using f fences_update [of i gs'] i len by (auto intro: fences_trans)
    moreover have "newly gs ?gs = insert i (newly gs gs')" "i \<notin> newly gs gs'"
      using i len f fence(2) by (auto simp: newly_def nth_list_update fences_def)
    then have "card (newly gs ?gs) = Suc (card (newly gs gs'))"
      by (simp add: newly_def)
    moreover have "under_fence gs i"
      using s st fence par under_fence_parent [OF i] by (auto simp: pass_step_def)
    ultimately show ?thesis
      using s st i len by (auto simp: pass_step_def nth_list_update)
  qed
qed

lemma fence_pass:
  assumes wf: "wf_grants gs"
  shows "\<exists>s. fold_opt fence_node [0 ..< length gs] (gs, c, False) = Some s \<and>
    pass_step gs c {0 ..< length gs} s"
proof -
  have "\<exists>s. fold_opt fence_node [0 ..< n] (gs, c, False) = Some s \<and> pass_step gs c {0 ..< n} s"
    if "n \<le> length gs" for n
    using that
  proof (induction n)
    case 0
    then show ?case by (simp add: pass_step_def newly_def under_fence_self)
  next
    case (Suc n)
    then obtain s where "fold_opt fence_node [0 ..< n] (gs, c, False) = Some s"
      "pass_step gs c {0 ..< n} s" by auto
    with fence_node_step [OF wf, of n] Suc.prems show ?case
      by (fastforce simp: fold_opt_append atLeast0_lessThan_Suc)
  qed
  then show ?thesis by blast
qed

text \<open>After a pass every node whose parent was fenced before it is fenced.\<close>

lemma newly_trans:
  assumes "fences gs gs'" and "fences gs' gs''"
  shows "card (newly gs gs'') = card (newly gs gs') + card (newly gs' gs'')"
proof -
  note len = fences_length [OF assms(1)]
  have "newly gs gs'' = newly gs gs' \<union> newly gs' gs''" "newly gs gs' \<inter> newly gs' gs'' = {}"
    using assms len by (auto simp: newly_def fences_def)
  moreover have "finite (newly gs gs')" "finite (newly gs' gs'')" by (simp_all add: newly_def)
  ultimately show ?thesis by (simp add: card_Un_disjoint)
qed

lemma fenced_closed:
  assumes "\<And>i. i < length gs \<Longrightarrow> gr_used (gs ! i) \<Longrightarrow> gr_parent (gs ! i) \<noteq> NO_GRANT \<Longrightarrow>
      gr_fenced (gs ! gr_parent (gs ! i)) \<Longrightarrow> gr_fenced (gs ! i)"
    and "anc gs k i = Some a" and "gr_fenced (gs ! a)"
  shows "gr_fenced (gs ! i)"
  using assms(2)
proof (induction k arbitrary: i)
  case 0
  then show ?case using assms(3) by (simp split: if_splits)
next
  case (Suc k)
  then show ?case using assms(1) by (simp split: if_splits)
qed

lemma anc_split:
  "anc gs (Suc k) i = Some a \<Longrightarrow>
     \<exists>b. anc gs k i = Some b \<and> b < length gs \<and> gr_used (gs ! b) \<and>
       gr_parent (gs ! b) = a \<and> a \<noteq> NO_GRANT \<and> a < length gs"
proof (induction k arbitrary: i)
  case 0
  then show ?case by (auto split: if_splits)
next
  case (Suc k)
  then have "anc gs (Suc k) (gr_parent (gs ! i)) = Some a" and i: "i < length gs" "gr_used (gs ! i)"
    "gr_parent (gs ! i) \<noteq> NO_GRANT" by (auto split: if_splits)
  from Suc.IH [OF this(1)] i show ?case by auto
qed

text \<open>
  The passes: the result fences exactly the nodes with a fenced ancestor within reach, and the
  counter says how many changed.
\<close>

definition fence_result :: "nat \<Rightarrow> grant list \<Rightarrow> nat \<Rightarrow> grant list \<times> nat \<Rightarrow> bool" where
  "fence_result n gs c r \<longleftrightarrow> (case r of (gs', c') \<Rightarrow>
     fences gs gs' \<and> c' = c + card (newly gs gs') \<and>
     (\<forall>i < length gs. gr_fenced (gs' ! i) \<longrightarrow> under_fence gs i) \<and>
     (\<forall>i k a. anc gs k i = Some a \<longrightarrow> gr_fenced (gs ! a) \<longrightarrow> k \<le> n \<longrightarrow> gr_fenced (gs' ! i)))"

lemma anc_lt: "anc gs k i = Some a \<Longrightarrow> i < length gs"
  by (cases k) (auto split: if_splits)

lemma anc_target_lt: "anc gs k i = Some a \<Longrightarrow> a < length gs"
  by (induction k arbitrary: i) (auto split: if_splits)

lemma fence_passes_result:
  assumes "wf_grants gs"
  shows "\<exists>r. fence_passes n (gs, c) = Some r \<and> fence_result n gs c r"
  using assms
proof (induction n arbitrary: gs c)
  case 0
  then show ?case
    by (auto simp: fence_result_def newly_def under_fence_self split: if_splits)
next
  case (Suc n)
  obtain gs1 c1 p where run: "fold_opt fence_node [0 ..< length gs] (gs, c, False) = Some (gs1, c1, p)"
    and ps: "pass_step gs c {0 ..< length gs} (gs1, c1, p)"
    using fence_pass [OF Suc.prems] by (metis prod_cases3)
  from ps have f: "fences gs gs1" and c1: "c1 = c + card (newly gs gs1)"
    and sound: "\<And>i. i < length gs \<Longrightarrow> gr_fenced (gs1 ! i) \<Longrightarrow> under_fence gs i"
    and prog: "\<And>i. i < length gs \<Longrightarrow> gr_used (gs ! i) \<Longrightarrow> gr_parent (gs ! i) \<noteq> NO_GRANT \<Longrightarrow>
        gr_fenced (gs ! gr_parent (gs ! i)) \<Longrightarrow> gr_fenced (gs1 ! i)"
    and same: "\<not> p \<Longrightarrow> gs1 = gs"
    by (simp_all add: pass_step_def)
  show ?case
  proof (cases p)
    case False
    then have "fence_result (Suc n) gs c (gs1, c1)"
      using f c1 sound fenced_closed [of gs] prog same by (auto simp: fence_result_def)
    then show ?thesis using run False by simp
  next
    case True
    obtain gs2 c2 where r: "fence_passes n (gs1, c1) = Some (gs2, c2)" "fence_result n gs1 c1 (gs2, c2)"
      using Suc.IH [OF fences_wf [OF f Suc.prems], of c1] by (metis surj_pair)
    have f2: "fences gs1 gs2" using r(2) by (simp add: fence_result_def)
    have "gr_fenced (gs2 ! i)"
      if up: "anc gs k i = Some a" "gr_fenced (gs ! a)" "k \<le> Suc n" for i k a
    proof (cases k)
      case 0
      then show ?thesis
        using up f f2 fences_length [OF f] by (auto simp: fences_def split: if_splits)
    next
      case (Suc j)
      then obtain b where b: "anc gs j i = Some b" "gr_fenced (gs1 ! b)"
        using anc_split [of gs j i a] up prog by blast
      then show ?thesis
        using r(2) up(3) Suc fences_anc [OF f] by (auto simp: fence_result_def)
    qed
    moreover have "under_fence gs i" if "i < length gs" "gr_fenced (gs2 ! i)" for i
    proof -
      from r(2) that obtain k a where k: "anc gs k i = Some a" "gr_fenced (gs1 ! a)"
        using fences_anc [OF f] fences_length [OF f]
        by (auto simp: fence_result_def under_fence_def)
      with sound [of a] anc_target_lt obtain j b where "anc gs j a = Some b" "gr_fenced (gs ! b)"
        unfolding under_fence_def by blast
      moreover have "anc gs (k + j) i = anc gs j a"
        using k(1) by (induction k arbitrary: i) (auto split: if_splits)
      ultimately show ?thesis unfolding under_fence_def by metis
    qed
    ultimately have "fence_result (Suc n) gs c (gs2, c2)"
      using r(2) c1 f f2 newly_trans [OF f f2]
      by (auto simp: fence_result_def intro: fences_trans)
    then show ?thesis using run True r(1) by simp
  qed
qed

lemma fence_root_result:
  assumes "root < length gs" and "gr_used (gs ! root)"
  shows "\<exists>gs0. fence_root gs root = (gs0, card (newly gs gs0)) \<and> fences gs gs0 \<and>
    (\<forall>a < length gs. gr_fenced (gs0 ! a) \<longleftrightarrow> a = root \<or> gr_fenced (gs ! a))"
proof (cases "gr_fenced (gs ! root)")
  case True
  then show ?thesis using assms by (auto simp: fence_root_def newly_def)
next
  case False
  let ?gs = "gs[root := (gs ! root)\<lparr>gr_fenced := True\<rparr>]"
  have "newly gs ?gs = {root}"
    using assms False by (auto simp: newly_def nth_list_update split: if_splits)
  then show ?thesis
    using assms False fences_update [of root gs]
    by (auto simp: fence_root_def nth_list_update)
qed

text \<open>
  The whole fence: it never panics on a well-formed tree; afterwards a node is fenced exactly when
  it descends from the root or was already below a fenced node; nothing but the flag changes; and
  the returned count is the number of nodes that changed.
\<close>

lemma fence_lineage_spec:
  assumes wf: "wf_grants gs" and root: "root < length gs" "gr_used (gs ! root)"
  shows "\<exists>gs'. fence_lineage gs root = Some (gs', card (newly gs gs')) \<and> fences gs gs' \<and>
    (\<forall>i < length gs. gr_fenced (gs' ! i) \<longleftrightarrow> descends gs root i \<or> under_fence gs i)"
proof -
  obtain gs0 where r0: "fence_root gs root = (gs0, card (newly gs gs0))" and f0: "fences gs gs0"
    and fl: "\<And>a. a < length gs \<Longrightarrow> gr_fenced (gs0 ! a) \<longleftrightarrow> a = root \<or> gr_fenced (gs ! a)"
    using fence_root_result [OF root] by blast
  obtain gs' c where run: "fence_passes MAX_DERIVE_DEPTH (gs0, card (newly gs gs0)) = Some (gs', c)"
    and res: "fence_result MAX_DERIVE_DEPTH gs0 (card (newly gs gs0)) (gs', c)"
    using fence_passes_result [OF fences_wf [OF f0 wf]] by (metis surj_pair)
  have f1: "fences gs0 gs'" using res by (simp add: fence_result_def)
  have under: "under_fence gs0 i \<longleftrightarrow> descends gs root i \<or> under_fence gs i" for i
    using fl anc_target_lt [of gs] fences_anc [OF f0] unfolding under_fence_def descends_def
    by metis
  have "gr_fenced (gs' ! i) \<longleftrightarrow> under_fence gs0 i" if "i < length gs" for i
    using res that anc_bound [OF fences_wf [OF f0 wf]] fences_length [OF f0]
    unfolding fence_result_def under_fence_def by (fastforce simp: under_fence_def)
  moreover have "c = card (newly gs gs')"
    using res newly_trans [OF f0 f1] by (simp add: fence_result_def)
  ultimately show ?thesis
    using run r0 under fences_trans [OF f0 f1] by (simp add: fence_lineage_def)
qed

section \<open>Properties\<close>

definition some_object :: obj_ref where
  "some_object = obj_ref_new Endpoint 3 1"

text \<open>
  C14. A capability table is a partial map from handles to entries. Installing, when it succeeds, returns
  a handle that named nothing and adds exactly that handle, naming the object and grant given; when it
  fails it changes no lookup. Releasing removes exactly the released handle and returns what it named.
\<close>

theorem cap_table_refines_map:
  assumes "wf_caps t"
  shows "(case cap_table_install t object grant of
       (Some (slot, h), t') \<Rightarrow> cap_lookup t h = None \<and> cap_lookup t' = (cap_lookup t)(h \<mapsto> t' ! slot) \<and>
          ce_object (t' ! slot) = object \<and> ce_grant (t' ! slot) = grant \<and> wf_caps t'
     | (None, t') \<Rightarrow> cap_lookup t' = cap_lookup t \<and> wf_caps t') \<and>
    fst (cap_table_release t h) = cap_lookup t h \<and>
    cap_lookup (snd (cap_table_release t h)) = (cap_lookup t)(h := None) \<and>
    wf_caps (snd (cap_table_release t h))"
proof -
  obtain r t' where r: "cap_table_install t object grant = (r, t')" by fastforce
  have wf: "wf_caps t'" using install_wf [OF assms, of object grant] r by simp
  have "cap_lookup t' = cap_lookup t" if "r = None"
  proof -
    have dead: "cap_lookup (t[i := (t ! i)\<lparr>ce_retired := True\<rparr>]) = cap_lookup t" if "i < length t" "\<not> ce_live (t ! i)" for i
      using that by (auto simp: fun_eq_iff cap_lookup_def nth_opt_def nth_list_update)
    show ?thesis
      using r that dead install_at_None [of t _ object grant t']
      by (auto simp: cap_table_install_def split: option.splits prod.splits)
  qed
  moreover have "cap_lookup t h = None \<and> cap_lookup t' = (cap_lookup t)(h \<mapsto> t' ! slot) \<and>
      ce_object (t' ! slot) = object \<and> ce_grant (t' ! slot) = grant" if "r = Some (slot, h)" for slot h
    using install_at_lookup [OF assms cap_install_Some] r that by blast
  ultimately show ?thesis
    using r wf cap_release_map [OF assms] cap_release_wf [OF assms] by (auto split: option.split)
qed

lemma cap_table_refines_map_witness:
  "cap_lookup (snd (cap_table_release cap_table_new 5)) = (cap_lookup cap_table_new)(5 := None)"
  using cap_table_refines_map [OF wf_caps_new, of some_object 0 5] by simp

text \<open>
  A released handle never comes back: whatever installations and releases follow, in any slots and
  for any objects, the handle resolves to nothing, because a slot's generation never repeats.
\<close>

theorem released_handle_dead:
  assumes "wf_caps t" and "cap_table_release t h = (Some e, t')"
  shows "cap_lookup (fold cap_step ops t') h = None"
proof -
  have "wf_caps t'" using cap_release_wf [OF assms(1), of h] assms(2) by simp
  then show ?thesis using caps.run_dead released_spent [OF assms] by blast
qed

definition one_cap :: cap_table where
  "one_cap = snd (install_at cap_table_new 0 some_object 0)"

lemma one_cap_release: "\<exists>e t'. cap_table_release one_cap (handle 0 1) = (Some e, t')" "wf_caps one_cap"
proof -
  show wf: "wf_caps one_cap" unfolding one_cap_def by (rule install_at_wf [OF wf_caps_new])
  have "fst (install_at cap_table_new 0 some_object 0) = Some (handle 0 1)"
    by (simp add: install_at_def cap_table_new_def nth_opt_def MAX_CAPS_def MAX_HANDLES_PER_DOMAIN_def
        cap_entry_empty_def Let_def)
  then have "install_at cap_table_new 0 some_object 0 = (Some (handle 0 1), one_cap)"
    by (simp add: one_cap_def prod_eq_iff)
  from install_at_lookup(2) [OF wf_caps_new this] have "cap_lookup one_cap (handle 0 1) \<noteq> None" by simp
  then show "\<exists>e t'. cap_table_release one_cap (handle 0 1) = (Some e, t')"
    using cap_release_map(1) [OF wf, of "handle 0 1"] by (metis not_Some_eq prod.collapse)
qed

lemma released_handle_dead_witness:
  "\<exists>e t'. cap_table_release one_cap (handle 0 1) = (Some e, t') \<and>
     cap_lookup (fold cap_step [Install some_object 1, ReleaseSlot 0] t') (handle 0 1) = None"
  using released_handle_dead [OF one_cap_release(2)] one_cap_release(1) by blast

text \<open>
  C3. Fencing a grant revokes exactly its lineage: on a well-formed grant tree the walk ends without a
  panic, afterwards a node is fenced exactly when it descends from the fenced grant or already stood
  below a fenced one, no other field of any node changes, and the count returned is how many changed.
\<close>

theorem fence_lineage_exact:
  assumes "wf_grants gs" and "root < length gs" and "gr_used (gs ! root)"
  shows "\<exists>gs'. fence_lineage gs root = Some (gs', card (newly gs gs')) \<and> fences gs gs' \<and>
    (\<forall>i < length gs. gr_fenced (gs' ! i) \<longleftrightarrow> descends gs root i \<or> under_fence gs i)"
  by (rule fence_lineage_spec [OF assms])

definition two_grants :: "grant list" where
  "two_grants = [grant_empty\<lparr>gr_used := True\<rparr>, grant_empty\<lparr>gr_used := True, gr_parent := 0, gr_depth := 1\<rparr>]"

lemma two_grants_ok: "wf_grants two_grants" "0 < length two_grants" "gr_used (two_grants ! 0)"
  by (simp_all add: wf_grants_def wf_node_def two_grants_def grant_empty_def NO_GRANT_def U16_MAX_def
      MAX_DERIVE_DEPTH_def)

lemma fence_lineage_exact_witness: "\<exists>gs' n. fence_lineage two_grants 0 = Some (gs', n) \<and> gr_fenced (gs' ! 1)"
proof -
  have "anc two_grants 1 1 = Some 0" by (simp add: two_grants_def NO_GRANT_def U16_MAX_def)
  then have "descends two_grants 0 1" unfolding descends_def by blast
  moreover have "length two_grants = 2" by (simp add: two_grants_def)
  ultimately show ?thesis using fence_lineage_exact [OF two_grants_ok] by auto
qed

text \<open>
  A worn-out slot refuses an installation that another slot could take: when the lowest free slot has
  used its last generation, the search stops there, withdraws the slot and reports no space, although
  the table still has a free slot; only the next attempt finds it.
\<close>

theorem worn_slot_refuses_once:
  "\<exists>t. wf_caps t \<and> 2 \<le> free_slots t \<and> fst (cap_table_install t object grant) = None \<and>
     (\<exists>slot h. fst (cap_table_install (snd (cap_table_install t object grant)) object grant) = Some (slot, h))"
proof -
  let ?worn = "cap_entry_empty\<lparr>ce_generation := 0xFFFFFFFF\<rparr>"
  let ?t = "?worn # replicate 31 cap_entry_empty"
  have thirty_one: "replicate 31 x = x # replicate 30 x" for x :: cap_entry
    by (simp add: numeral_eq_Suc)
  have inst: "cap_table_install ?t object grant = (None, ?worn\<lparr>ce_retired := True\<rparr> # replicate 31 cap_entry_empty)"
    by (simp add: cap_table_install_def install_at_def nth_opt_def cap_entry_empty_def)
  have "\<exists>slot h. fst (cap_table_install (?worn\<lparr>ce_retired := True\<rparr> # replicate 31 cap_entry_empty) object grant) = Some (slot, h)"
    unfolding thirty_one
    by (simp add: cap_table_install_def install_at_def nth_opt_def cap_entry_empty_def Let_def)
  moreover have "wf_caps ?t"
    by (simp add: wf_caps_def MAX_CAPS_def MAX_HANDLES_PER_DOMAIN_def cap_entry_empty_def)
  moreover have "2 \<le> free_slots ?t"
    unfolding thirty_one by (simp add: free_slots_def cap_entry_empty_def)
  ultimately show ?thesis using inst by (intro exI [of _ ?t]) simp
qed

end
