(* ===== verification/Control_Log.thy ===== *)
theory Control_Log
  imports Objects
begin

text \<open>
  The control-receipt ring (\<open>kernel/src/ctrl.rs\<close>): a circular buffer of receipts with cells that
  ordinary traffic may not occupy. The abstraction is the list of live receipts, oldest first. The
  lemmas show that writing appends, acknowledging drops a prefix, reading returns a prefix, that
  sequence numbers of live receipts increase strictly, and that under the kernel's discipline (an
  unreserved receipt is only written while no reservation is outstanding) a reserved cell is never
  lost.
\<close>

record receipt =
  rc_schema :: nat
  rc_kind :: nat
  rc_sequence :: nat
  rc_epoch :: nat
  rc_ns :: nat
  rc_origin_domain_id :: nat
  rc_origin_scope_id :: nat
  rc_object_id :: nat
  rc_grant_id :: nat
  rc_parent_invocation_id :: nat
  rc_result :: int
  rc_a :: nat
  rc_b :: nat

definition receipt_zeroed :: receipt where
  "receipt_zeroed = \<lparr>rc_schema = 0, rc_kind = 0, rc_sequence = 0, rc_epoch = 0, rc_ns = 0,
     rc_origin_domain_id = 0, rc_origin_scope_id = 0, rc_object_id = 0, rc_grant_id = 0,
     rc_parent_invocation_id = 0, rc_result = 0, rc_a = 0, rc_b = 0\<rparr>"

definition KIND_ADMIT :: nat where "KIND_ADMIT = 1"
definition KIND_EFFECT :: nat where "KIND_EFFECT = 2"
definition KIND_FENCE :: nat where "KIND_FENCE = 3"
definition KIND_RETIRE :: nat where "KIND_RETIRE = 4"
definition KIND_SERVICE_NOTE :: nat where "KIND_SERVICE_NOTE = 5"
definition KIND_OBJECT_LIFE :: nat where "KIND_OBJECT_LIFE = 6"

definition RECEIPT_SCHEMA :: nat where "RECEIPT_SCHEMA = 1"

definition is_closing :: "nat \<Rightarrow> bool" where
  "is_closing kind \<longleftrightarrow> kind = KIND_FENCE \<or> kind = KIND_RETIRE"

record control_log =
  cl_used :: bool
  cl_generation :: u32
  cl_id :: nat
  cl_owner_scope :: scope_id
  cl_records :: "receipt list"
  cl_head :: nat
  cl_count :: nat
  cl_next_sequence :: nat
  cl_oldest_sequence :: nat
  cl_lost :: nat
  cl_coalesced :: nat
  cl_pending :: nat
  cl_refs :: nat
  cl_readers :: u64

definition control_log_empty :: control_log where
  "control_log_empty = \<lparr>cl_used = False, cl_generation = 0, cl_id = 0, cl_owner_scope = 0,
     cl_records = replicate CONTROL_LOG_CAPACITY receipt_zeroed, cl_head = 0, cl_count = 0,
     cl_next_sequence = 1, cl_oldest_sequence = 1, cl_lost = 0, cl_coalesced = 0, cl_pending = 0,
     cl_refs = 0, cl_readers = 0\<rparr>"

definition log_ordinary_capacity :: nat where
  "log_ordinary_capacity = CONTROL_LOG_CAPACITY - CONTROL_LOG_RESERVED"

definition can_reserve :: "control_log \<Rightarrow> bool" where
  "can_reserve l \<longleftrightarrow> cl_count l + cl_pending l < log_ordinary_capacity"

definition log_reserve :: "control_log \<Rightarrow> bool \<times> control_log" where
  "log_reserve l =
     (if \<not> can_reserve l then (False, l) else (True, l\<lparr>cl_pending := cl_pending l + 1\<rparr>))"

definition release_reservation :: "control_log \<Rightarrow> control_log" where
  "release_reservation l = l\<lparr>cl_pending := cl_pending l - 1\<rparr>"

definition log_push :: "control_log \<Rightarrow> receipt \<Rightarrow> bool \<times> control_log" where
  "log_push l r =
     (if cl_count l \<ge> CONTROL_LOG_CAPACITY then (False, l)
      else
        let index = (cl_head l + cl_count l) mod CONTROL_LOG_CAPACITY;
            l1 = l\<lparr>cl_records := (cl_records l)[index := r]\<rparr>;
            l2 = (if cl_count l = 0 then l1\<lparr>cl_oldest_sequence := rc_sequence r\<rparr> else l1)
        in (True, l2\<lparr>cl_count := cl_count l + 1\<rparr>))"

definition log_write :: "control_log \<Rightarrow> receipt \<Rightarrow> nat \<times> control_log" where
  "log_write l r0 =
     (let closing = is_closing (rc_kind r0);
          limit = (if closing then CONTROL_LOG_CAPACITY else log_ordinary_capacity)
      in if cl_count l \<ge> limit then
           (0, if closing then l\<lparr>cl_coalesced := sat_add32 (cl_coalesced l) 1\<rparr>
               else l\<lparr>cl_lost := sat_add32 (cl_lost l) 1\<rparr>)
         else
           let r = r0\<lparr>rc_schema := RECEIPT_SCHEMA, rc_sequence := cl_next_sequence l\<rparr>;
               l1 = l\<lparr>cl_next_sequence := sat_add64 (cl_next_sequence l) 1\<rparr>
           in case log_push l1 r of
                (True, l2) \<Rightarrow> (rc_sequence r, l2)
              | (False, l2) \<Rightarrow> (0, l2\<lparr>cl_lost := sat_add32 (cl_lost l2) 1\<rparr>))"

definition commit_reserved :: "control_log \<Rightarrow> receipt \<Rightarrow> nat \<times> control_log" where
  "commit_reserved l r = log_write (l\<lparr>cl_pending := cl_pending l - 1\<rparr>) r"

definition log_read :: "control_log \<Rightarrow> nat \<Rightarrow> receipt list" where
  "log_read l out_len =
     map (\<lambda>offset. cl_records l ! ((cl_head l + offset) mod CONTROL_LOG_CAPACITY))
       [0 ..< min out_len (cl_count l)]"

function ack_loop :: "control_log \<Rightarrow> nat \<Rightarrow> nat \<Rightarrow> nat \<times> control_log" where
  "ack_loop l sequence dropped =
     (if cl_count l > 0 \<and> \<not> rc_sequence (cl_records l ! cl_head l) > sequence
      then ack_loop (l\<lparr>cl_head := (cl_head l + 1) mod CONTROL_LOG_CAPACITY,
                       cl_count := cl_count l - 1\<rparr>) sequence (dropped + 1)
      else (dropped, l))"
  by pat_completeness auto
termination
  by (relation "measure (\<lambda>(l, s, d). cl_count l)") auto

declare ack_loop.simps [simp del]

definition log_acknowledge :: "control_log \<Rightarrow> nat \<Rightarrow> nat \<times> control_log" where
  "log_acknowledge l sequence =
     (case ack_loop l sequence 0 of (dropped, l') \<Rightarrow>
        (dropped, l'\<lparr>cl_oldest_sequence :=
           (if cl_count l' = 0 then cl_next_sequence l'
            else rc_sequence (cl_records l' ! cl_head l'))\<rparr>))"

section \<open>The live receipts, oldest first\<close>

definition log_list :: "control_log \<Rightarrow> receipt list" where
  "log_list l = map (\<lambda>i. cl_records l ! ((cl_head l + i) mod CONTROL_LOG_CAPACITY)) [0 ..< cl_count l]"

text \<open>The ring's own shape, and with the sequence counters the invariant of a log.\<close>

definition ring_ok :: "control_log \<Rightarrow> bool" where
  "ring_ok l \<longleftrightarrow> length (cl_records l) = CONTROL_LOG_CAPACITY \<and> cl_head l < CONTROL_LOG_CAPACITY \<and>
     cl_count l \<le> CONTROL_LOG_CAPACITY"

definition wf_log :: "control_log \<Rightarrow> bool" where
  "wf_log l \<longleftrightarrow> ring_ok l \<and> 0 < cl_next_sequence l \<and> cl_next_sequence l \<le> U64_MAX \<and>
     cl_oldest_sequence l = (if log_list l = [] then cl_next_sequence l else rc_sequence (hd (log_list l)))"

lemma capacity_pos [simp]: "0 < CONTROL_LOG_CAPACITY"
  by (simp add: CONTROL_LOG_CAPACITY_def)

lemma ordinary_below: "log_ordinary_capacity < CONTROL_LOG_CAPACITY"
  by (simp add: log_ordinary_capacity_def CONTROL_LOG_CAPACITY_def CONTROL_LOG_RESERVED_def)

lemma length_log_list [simp]: "length (log_list l) = cl_count l"
  by (simp add: log_list_def)

lemma log_list_Nil_iff: "log_list l = [] \<longleftrightarrow> cl_count l = 0"
  by (metis length_0_conv length_log_list)

lemma wf_log_empty: "wf_log control_log_empty"
  by (simp add: wf_log_def ring_ok_def control_log_empty_def log_list_def U64_MAX_def)

lemma ring_index_inj:
  fixes c :: nat
  assumes "i < c" and "j < c" and "(h + i) mod c = (h + j) mod c"
  shows "i = j"
proof -
  have *: "i = j" if "i \<le> j" "j < c" "(h + i) mod c = (h + j) mod c" for i j :: nat
  proof -
    have "c dvd (h + j) - (h + i)"
      using that by (metis add_le_cancel_left mod_eq_dvd_iff_nat)
    then show ?thesis using that by (auto dest: dvd_imp_le)
  qed
  show ?thesis using * [of i j] * [of j i] assms by (metis nat_le_linear)
qed

lemma log_list_push:
  assumes "length (cl_records l) = CONTROL_LOG_CAPACITY" and "cl_count l < CONTROL_LOG_CAPACITY"
  shows "fst (log_push l r)" and "log_list (snd (log_push l r)) = log_list l @ [r]"
proof -
  let ?C = CONTROL_LOG_CAPACITY
  show "fst (log_push l r)" using assms by (simp add: log_push_def Let_def)
  have "(cl_head l + i) mod ?C \<noteq> (cl_head l + cl_count l) mod ?C" if "i < cl_count l" for i
    using that assms(2) ring_index_inj [of i ?C "cl_count l" "cl_head l"] by auto
  then show "log_list (snd (log_push l r)) = log_list l @ [r]"
    using assms by (force simp: log_push_def log_list_def Let_def nth_list_update)
qed

lemma log_read_prefix: "log_read l n = take n (log_list l)"
  by (simp add: log_read_def log_list_def take_map min_def)

section \<open>Writing\<close>

text \<open>The cells a receipt of this kind may occupy.\<close>

definition cell_limit :: "nat \<Rightarrow> nat" where
  "cell_limit kind = (if is_closing kind then CONTROL_LOG_CAPACITY else log_ordinary_capacity)"

lemma cell_limit_le: "cell_limit kind \<le> CONTROL_LOG_CAPACITY"
  using ordinary_below by (simp add: cell_limit_def)

text \<open>With a cell to spare, writing stamps the receipt with the next sequence and appends it.\<close>

definition stamped :: "control_log \<Rightarrow> receipt \<Rightarrow> receipt" where
  "stamped l r = r\<lparr>rc_schema := RECEIPT_SCHEMA, rc_sequence := cl_next_sequence l\<rparr>"

lemma log_write_room:
  assumes "wf_log l" and "cl_count l < cell_limit (rc_kind r)"
  shows "fst (log_write l r) = cl_next_sequence l"
    and "log_list (snd (log_write l r)) = log_list l @ [stamped l r]"
    and "cl_count (snd (log_write l r)) = Suc (cl_count l)"
    and "cl_next_sequence (snd (log_write l r)) = sat_add64 (cl_next_sequence l) 1"
    and "cl_lost (snd (log_write l r)) = cl_lost l \<and>
         cl_coalesced (snd (log_write l r)) = cl_coalesced l \<and>
         cl_pending (snd (log_write l r)) = cl_pending l"
    and "wf_log (snd (log_write l r))"
proof -
  let ?C = CONTROL_LOG_CAPACITY
  let ?l1 = "l\<lparr>cl_next_sequence := sat_add64 (cl_next_sequence l) 1\<rparr>"
  have lt: "cl_count l < ?C" using assms(2) cell_limit_le [of "rc_kind r"] by simp
  have push: "log_write l r = (cl_next_sequence l, snd (log_push ?l1 (stamped l r)))"
    using assms(2) lt by (simp add: log_write_def log_push_def stamped_def Let_def cell_limit_def)
  have app: "log_list (snd (log_push ?l1 (stamped l r))) = log_list l @ [stamped l r]"
    using log_list_push(2) [of ?l1 "stamped l r"] assms(1) lt
    by (simp add: wf_log_def ring_ok_def log_list_def)
  show "fst (log_write l r) = cl_next_sequence l"
    and "log_list (snd (log_write l r)) = log_list l @ [stamped l r]"
    using push app by simp_all
  show "cl_count (snd (log_write l r)) = Suc (cl_count l)"
    and "cl_next_sequence (snd (log_write l r)) = sat_add64 (cl_next_sequence l) 1"
    and "cl_lost (snd (log_write l r)) = cl_lost l \<and>
         cl_coalesced (snd (log_write l r)) = cl_coalesced l \<and>
         cl_pending (snd (log_write l r)) = cl_pending l"
    using push lt by (simp_all add: log_push_def Let_def)
  have "cl_oldest_sequence (snd (log_write l r)) = rc_sequence (hd (log_list l @ [stamped l r]))"
    using push lt assms(1)
    by (auto simp: log_push_def Let_def wf_log_def log_list_Nil_iff hd_append stamped_def)
  then show "wf_log (snd (log_write l r))"
    using push app lt assms(1)
    by (auto simp: log_push_def Let_def wf_log_def ring_ok_def sat_add64_def)
qed

text \<open>Without one, nothing is stored and the matching loss counter moves.\<close>

lemma log_write_full:
  assumes "cl_count l \<ge> cell_limit (rc_kind r)"
  shows "log_write l r = (0, if is_closing (rc_kind r) then l\<lparr>cl_coalesced := sat_add32 (cl_coalesced l) 1\<rparr>
    else l\<lparr>cl_lost := sat_add32 (cl_lost l) 1\<rparr>)"
  using assms by (simp add: log_write_def Let_def cell_limit_def)

lemma log_list_frame [simp]:
  "log_list (l\<lparr>cl_pending := p\<rparr>) = log_list l" "log_list (l\<lparr>cl_lost := p\<rparr>) = log_list l"
  "log_list (l\<lparr>cl_coalesced := p\<rparr>) = log_list l" "log_list (l\<lparr>cl_oldest_sequence := p\<rparr>) = log_list l"
  "log_list (l\<lparr>cl_next_sequence := p\<rparr>) = log_list l"
  by (simp_all add: log_list_def)

lemma wf_log_frame [simp]:
  "wf_log (l\<lparr>cl_pending := p\<rparr>) = wf_log l" "wf_log (l\<lparr>cl_lost := p\<rparr>) = wf_log l"
  "wf_log (l\<lparr>cl_coalesced := p\<rparr>) = wf_log l"
  by (simp_all add: wf_log_def ring_ok_def)

lemma log_write_wf: "wf_log l \<Longrightarrow> wf_log (snd (log_write l r))"
  using log_write_room(6) [of l r] log_write_full [of r l]
  by (cases "cl_count l < cell_limit (rc_kind r)") simp_all

section \<open>Acknowledging\<close>

abbreviation drop_oldest :: "control_log \<Rightarrow> control_log" where
  "drop_oldest l \<equiv> l\<lparr>cl_head := (cl_head l + 1) mod CONTROL_LOG_CAPACITY, cl_count := cl_count l - 1\<rparr>"

lemma log_list_Cons:
  assumes "ring_ok l" and "cl_count l > 0"
  shows "log_list l = cl_records l ! cl_head l # log_list (drop_oldest l)"
proof -
  obtain n where n: "cl_count l = Suc n" using assms(2) by (cases "cl_count l") auto
  have "log_list l = cl_records l ! (cl_head l mod CONTROL_LOG_CAPACITY) #
      map (\<lambda>i. cl_records l ! ((cl_head l + Suc i) mod CONTROL_LOG_CAPACITY)) [0 ..< n]"
    unfolding log_list_def n map_upt_Suc by simp
  moreover have "((cl_head l + 1) mod CONTROL_LOG_CAPACITY + i) mod CONTROL_LOG_CAPACITY =
      (cl_head l + Suc i) mod CONTROL_LOG_CAPACITY" for i
    by (simp add: mod_add_left_eq)
  ultimately show ?thesis
    using assms n by (simp add: log_list_def ring_ok_def)
qed

lemma drop_oldest_ring: "ring_ok l \<Longrightarrow> ring_ok (drop_oldest l)"
  by (auto simp: ring_ok_def)

lemma ack_loop_spec:
  assumes "ring_ok l"
  shows "fst (ack_loop l s d) = d + length (takeWhile (\<lambda>r. rc_sequence r \<le> s) (log_list l))"
    and "log_list (snd (ack_loop l s d)) = dropWhile (\<lambda>r. rc_sequence r \<le> s) (log_list l)"
    and "ring_ok (snd (ack_loop l s d))"
    and "cl_next_sequence (snd (ack_loop l s d)) = cl_next_sequence l"
    and "cl_pending (snd (ack_loop l s d)) = cl_pending l"
    and "cl_lost (snd (ack_loop l s d)) = cl_lost l"
  using assms
proof (induction l s d rule: ack_loop.induct)
  case (1 l s d)
  let ?go = "cl_count l > 0 \<and> \<not> rc_sequence (cl_records l ! cl_head l) > s"
  {
    case 1
    then show ?case
      using "1.IH"(1) log_list_Cons [of l] drop_oldest_ring [of l] log_list_Nil_iff [of l]
      by (subst ack_loop.simps) auto
  next
    case 2
    then show ?case
      using "1.IH"(2) log_list_Cons [of l] drop_oldest_ring [of l] log_list_Nil_iff [of l]
      by (subst ack_loop.simps) auto
  next
    case 3
    then show ?case
      using "1.IH"(3) drop_oldest_ring [of l] by (subst ack_loop.simps) auto
  next
    case 4
    then show ?case
      using "1.IH"(4) drop_oldest_ring [of l] by (subst ack_loop.simps) auto
  next
    case 5
    then show ?case
      using "1.IH"(5) drop_oldest_ring [of l] by (subst ack_loop.simps) auto
  next
    case 6
    then show ?case
      using "1.IH"(6) drop_oldest_ring [of l] by (subst ack_loop.simps) auto
  }
qed

lemma hd_log_list: "ring_ok l \<Longrightarrow> cl_count l > 0 \<Longrightarrow> hd (log_list l) = cl_records l ! cl_head l"
  using log_list_Cons [of l] by simp

lemma log_acknowledge_spec:
  assumes "wf_log l"
  shows "fst (log_acknowledge l s) = length (takeWhile (\<lambda>r. rc_sequence r \<le> s) (log_list l))"
    and "log_list (snd (log_acknowledge l s)) = dropWhile (\<lambda>r. rc_sequence r \<le> s) (log_list l)"
    and "wf_log (snd (log_acknowledge l s))"
    and "cl_next_sequence (snd (log_acknowledge l s)) = cl_next_sequence l"
    and "cl_pending (snd (log_acknowledge l s)) = cl_pending l"
    and "cl_lost (snd (log_acknowledge l s)) = cl_lost l"
proof -
  have ring: "ring_ok l" using assms by (simp add: wf_log_def)
  note loop = ack_loop_spec [OF ring, of s 0]
  obtain d l' where dl: "ack_loop l s 0 = (d, l')" by (cases "ack_loop l s 0")
  show "fst (log_acknowledge l s) = length (takeWhile (\<lambda>r. rc_sequence r \<le> s) (log_list l))"
    and "log_list (snd (log_acknowledge l s)) = dropWhile (\<lambda>r. rc_sequence r \<le> s) (log_list l)"
    and "cl_next_sequence (snd (log_acknowledge l s)) = cl_next_sequence l"
    and "cl_pending (snd (log_acknowledge l s)) = cl_pending l"
    and "cl_lost (snd (log_acknowledge l s)) = cl_lost l"
    using loop dl by (simp_all add: log_acknowledge_def)
  have "ring_ok l'" using loop(3) dl by simp
  then show "wf_log (snd (log_acknowledge l s))"
    using loop(4) dl assms hd_log_list [of l'] log_list_Nil_iff [of l']
    by (auto simp: log_acknowledge_def wf_log_def ring_ok_def)
qed

section \<open>Audited coverage\<close>

text \<open>
  The operations on a log as the kernel uses them. A reservation is made and committed or returned
  inside one hold of the machine; a receipt written without one is only written under the exclusive
  hold, when no reservation can be outstanding.
\<close>

inductive audited_step :: "control_log \<Rightarrow> control_log \<Rightarrow> bool" where
  reserved: "log_reserve l = (True, l') \<Longrightarrow> audited_step l l'"
| returned: "audited_step l (release_reservation l)"
| committed: "cl_pending l > 0 \<Longrightarrow> audited_step l (snd (commit_reserved l r))"
| written: "cl_pending l = 0 \<Longrightarrow> audited_step l (snd (log_write l r))"
| acknowledged: "audited_step l (snd (log_acknowledge l s))"

inductive audited :: "control_log \<Rightarrow> bool" where
  fresh: "audited control_log_empty"
| step: "audited l \<Longrightarrow> audited_step l l' \<Longrightarrow> audited l'"

text \<open>What holds of every log so used: the ring's shape, room for every outstanding reservation,
  and strictly increasing sequence numbers below the next one while the counter has not saturated.\<close>

definition seqs_ok :: "control_log \<Rightarrow> bool" where
  "seqs_ok l \<longleftrightarrow> (cl_next_sequence l < U64_MAX \<longrightarrow>
     sorted_wrt (<) (map rc_sequence (log_list l)) \<and>
     (\<forall>r \<in> set (log_list l). rc_sequence r < cl_next_sequence l))"

definition audit_inv :: "control_log \<Rightarrow> bool" where
  "audit_inv l \<longleftrightarrow> wf_log l \<and> seqs_ok l \<and>
     (cl_pending l > 0 \<longrightarrow> cl_count l + cl_pending l \<le> log_ordinary_capacity)"

lemma seqs_ok_write:
  assumes "wf_log l" and "seqs_ok l"
  shows "seqs_ok (snd (log_write l r))"
proof (cases "cl_count l < cell_limit (rc_kind r)")
  case True
  note w = log_write_room [OF assms(1) True]
  have "cl_next_sequence l < U64_MAX \<and> sat_add64 (cl_next_sequence l) 1 = Suc (cl_next_sequence l)"
    if "sat_add64 (cl_next_sequence l) 1 < U64_MAX"
    using that by (auto simp: sat_add64_def min_def split: if_splits)
  then show ?thesis
    using assms(2) w by (fastforce simp: seqs_ok_def sorted_wrt_append stamped_def)
next
  case False
  then show ?thesis using assms(2) by (simp add: log_write_full seqs_ok_def)
qed

lemma commit_room:
  assumes "audit_inv l" and "cl_pending l > 0"
  shows "cl_count (l\<lparr>cl_pending := cl_pending l - 1\<rparr>) < cell_limit (rc_kind r)"
  using assms ordinary_below by (auto simp: audit_inv_def cell_limit_def)

lemma seqs_ok_drop:
  "seqs_ok l \<Longrightarrow> log_list l' = dropWhile p (log_list l) \<Longrightarrow> cl_next_sequence l' = cl_next_sequence l \<Longrightarrow>
     seqs_ok l'"
  by (auto simp: seqs_ok_def sorted_wrt_map sorted_wrt_dropWhile dest: set_dropWhileD)

lemma audited_step_inv:
  assumes "audited_step l l'" and inv: "audit_inv l"
  shows "audit_inv l'"
  using assms(1)
proof cases
  case reserved
  then show ?thesis
    using inv by (auto simp: log_reserve_def can_reserve_def audit_inv_def seqs_ok_def split: if_splits)
next
  case returned
  then show ?thesis using inv by (auto simp: release_reservation_def audit_inv_def seqs_ok_def)
next
  case (committed r)
  let ?l = "l\<lparr>cl_pending := cl_pending l - 1\<rparr>"
  have wf: "wf_log ?l" using inv by (simp add: audit_inv_def)
  have "seqs_ok (snd (log_write ?l r))"
    by (rule seqs_ok_write [OF wf]) (use inv in \<open>simp add: audit_inv_def seqs_ok_def\<close>)
  with log_write_room [OF wf commit_room [OF inv committed(2)]] inv committed show ?thesis
    by (simp add: audit_inv_def commit_reserved_def)
next
  case (written r)
  then have "cl_pending (snd (log_write l r)) = 0"
    by (simp add: log_write_def log_push_def Let_def)
  then show ?thesis
    using written inv log_write_wf [of l r] seqs_ok_write [of l r] by (simp add: audit_inv_def)
next
  case (acknowledged s)
  have wf: "wf_log l" using inv by (simp add: audit_inv_def)
  note a = log_acknowledge_spec [OF wf, of s]
  have "cl_count l' \<le> cl_count l"
    using a(2) acknowledged length_dropWhile_le [of _ "log_list l"] by (metis length_log_list)
  with a inv acknowledged show ?thesis
    using seqs_ok_drop [of l l'] by (auto simp: audit_inv_def)
qed

lemma audited_inv: "audited l \<Longrightarrow> audit_inv l"
proof (induction rule: audited.induct)
  case fresh
  show ?case
    using wf_log_empty
    by (simp add: audit_inv_def seqs_ok_def) (simp add: control_log_empty_def log_list_def)
next
  case (step l l')
  then show ?case by (blast intro: audited_step_inv)
qed

section \<open>Properties\<close>

text \<open>
  C16. The receipt ring is a queue. Seen as the list of live receipts, a write either appends the receipt
  stamped with the next sequence number, which it returns, and moves no loss counter, or, past the cells its
  kind may use, stores nothing, returns zero and counts the loss, a closing receipt in the coalesced counter
  and any other in the lost one; reading returns a prefix; acknowledging drops exactly the leading receipts
  up to the acknowledged number and says how many. Every operation keeps the ring well-formed.
\<close>

theorem log_refines_queue:
  assumes "wf_log l"
  shows "(if cl_count l < cell_limit (rc_kind r)
      then log_list (snd (log_write l r)) = log_list l @ [stamped l r] \<and> fst (log_write l r) = cl_next_sequence l \<and>
        cl_lost (snd (log_write l r)) = cl_lost l \<and> cl_coalesced (snd (log_write l r)) = cl_coalesced l
      else log_list (snd (log_write l r)) = log_list l \<and> fst (log_write l r) = 0 \<and>
        cl_lost (snd (log_write l r)) = (if is_closing (rc_kind r) then cl_lost l else sat_add32 (cl_lost l) 1) \<and>
        cl_coalesced (snd (log_write l r)) = (if is_closing (rc_kind r) then sat_add32 (cl_coalesced l) 1 else cl_coalesced l)) \<and>
    wf_log (snd (log_write l r)) \<and> log_read l n = take n (log_list l) \<and>
    log_list (snd (log_acknowledge l s)) = dropWhile (\<lambda>r. rc_sequence r \<le> s) (log_list l) \<and>
    fst (log_acknowledge l s) = length (takeWhile (\<lambda>r. rc_sequence r \<le> s) (log_list l)) \<and>
    wf_log (snd (log_acknowledge l s))"
  using log_write_room [OF assms, of r] log_write_full [of r l] log_write_wf [OF assms, of r]
    log_read_prefix [of l n] log_acknowledge_spec [OF assms, of s]
  by simp

text \<open>A full ring of one receipt kept in every cell, to which a fence still wants to write its receipt.\<close>

definition full_log :: control_log where
  "full_log = control_log_empty\<lparr>cl_count := CONTROL_LOG_CAPACITY, cl_oldest_sequence := 0\<rparr>"

lemma full_log_wf: "wf_log full_log"
proof -
  have "hd (log_list full_log) = receipt_zeroed"
    by (simp add: log_list_def full_log_def control_log_empty_def CONTROL_LOG_CAPACITY_def hd_map upt_rec)
  moreover have "ring_ok full_log" "rc_sequence receipt_zeroed = 0"
    by (simp_all add: ring_ok_def full_log_def control_log_empty_def CONTROL_LOG_CAPACITY_def receipt_zeroed_def)
  moreover have "log_list full_log \<noteq> []" by (simp add: log_list_def full_log_def CONTROL_LOG_CAPACITY_def)
  ultimately show ?thesis by (simp add: wf_log_def) (simp add: full_log_def control_log_empty_def U64_MAX_def)
qed

lemma log_refines_queue_witness:
  "cl_coalesced (snd (log_write full_log (receipt_zeroed\<lparr>rc_kind := KIND_FENCE\<rparr>))) = 1 \<and>
   cl_lost (snd (log_write full_log (receipt_zeroed\<lparr>rc_kind := KIND_FENCE\<rparr>))) = 0"
proof -
  have "is_closing KIND_FENCE" by (simp add: is_closing_def)
  then show ?thesis
    using log_refines_queue [OF full_log_wf, of "receipt_zeroed\<lparr>rc_kind := KIND_FENCE\<rparr>" 0 0]
    by (simp add: full_log_def control_log_empty_def cell_limit_def sat_add32_def U32_MAX_def)
qed

text \<open>
  C15. A reserved receipt is never lost. In any log reached by reserving, returning, committing, writing
  under the exclusive hold and acknowledging, a commit under an outstanding reservation always finds its
  cell: it appends the receipt, returns its sequence number and counts no loss; and while the sequence
  counter has not run out, the live receipts carry strictly increasing numbers below the next one.
\<close>

theorem reserved_receipt_never_lost:
  assumes "audited l" and "0 < cl_pending l"
  shows "log_list (snd (commit_reserved l r)) = log_list l @ [stamped l r] \<and>
    fst (commit_reserved l r) = cl_next_sequence l \<and>
    cl_lost (snd (commit_reserved l r)) = cl_lost l \<and>
    (cl_next_sequence l = U64_MAX \<or> sorted_wrt (<) (map rc_sequence (log_list l @ [stamped l r])))"
proof -
  have inv: "audit_inv l" by (rule audited_inv [OF assms(1)])
  let ?l = "l\<lparr>cl_pending := cl_pending l - 1\<rparr>"
  have wf: "wf_log ?l" using inv by (simp add: audit_inv_def)
  note w = log_write_room [OF wf commit_room [OF inv assms(2), of r]]
  have "cl_next_sequence l = U64_MAX \<or> sorted_wrt (<) (map rc_sequence (log_list l @ [stamped l r]))"
    using inv by (auto simp: audit_inv_def seqs_ok_def wf_log_def sorted_wrt_append stamped_def)
  then show ?thesis using w by (simp add: commit_reserved_def stamped_def)
qed

lemma reserved_receipt_never_lost_witness:
  "log_list (snd (commit_reserved (snd (log_reserve control_log_empty)) receipt_zeroed)) =
     [stamped control_log_empty receipt_zeroed]"
proof -
  let ?l = "snd (log_reserve control_log_empty)"
  have r: "log_reserve control_log_empty = (True, ?l)" "cl_pending ?l = 1" "log_list ?l = []"
    by (simp_all add: log_reserve_def can_reserve_def log_ordinary_capacity_def CONTROL_LOG_CAPACITY_def
        CONTROL_LOG_RESERVED_def control_log_empty_def log_list_def)
  have "audited ?l" by (rule audited.step [OF audited.fresh audited_step.reserved [OF r(1)]])
  from reserved_receipt_never_lost [OF this, of receipt_zeroed] show ?thesis
    using r by (simp add: stamped_def log_reserve_def split: if_splits)
qed

end
