(* ===== verification/Scope_Table.thy ===== *)
theory Scope_Table
  imports Objects
begin

text \<open>
  The scope tree (\<open>kernel/src/scope.rs\<close>): ceilings, accounts and lifecycle of every scope, the
  walk from a scope to the root, and the predicates that read it. The walk is bounded by the
  interface's scope depth exactly as the code bounds it; on a well-formed tree the bound is never
  what ends it, so a chain is the scope, its parent's chain, and nothing twice.
\<close>

definition MAX_SCOPES :: nat where "MAX_SCOPES = 24"
definition NO_SCOPE :: nat where "NO_SCOPE = U16_MAX"

record limits =
  lm_memory_pages :: nat
  lm_metadata_objects :: nat
  lm_cpu_budget_ns :: nat
  lm_queue_bytes :: nat
  lm_closure_reserve_ns :: nat
  lm_parallelism :: nat

definition limits_default :: limits where
  "limits_default = \<lparr>lm_memory_pages = 0, lm_metadata_objects = 0, lm_cpu_budget_ns = 0,
     lm_queue_bytes = 0, lm_closure_reserve_ns = 0, lm_parallelism = 0\<rparr>"

datatype resource = MemoryPages | Metadata | QueueBytes

datatype scope_state = SEmpty | SOpen | SFenced | SQuiescent | SRetired

fun scope_state_from_u8 :: "nat \<Rightarrow> scope_state" where
  "scope_state_from_u8 v =
     (if v = 1 then SOpen else if v = 2 then SFenced else if v = 3 then SQuiescent
      else if v = 4 then SRetired else SEmpty)"

fun scope_state_abi :: "scope_state \<Rightarrow> nat" where
  "scope_state_abi SEmpty = 0"
| "scope_state_abi SOpen = 1"
| "scope_state_abi SFenced = 2"
| "scope_state_abi SQuiescent = 3"
| "scope_state_abi SRetired = 4"

record scope =
  sc_state :: scope_state
  sc_generation :: u32
  sc_id :: nat
  sc_parent :: nat
  sc_depth :: nat
  sc_label :: "u8 list"
  sc_limits :: limits
  sc_memory_pages :: nat
  sc_metadata :: nat
  sc_queue_bytes :: nat
  sc_cpu_window_ns :: nat
  sc_cpu_committed_ns :: nat
  sc_closure_used_ns :: nat
  sc_closure_committed_ns :: nat
  sc_running :: nat
  sc_max_running :: nat
  sc_max_committed_ns :: nat
  sc_dispatch_grants :: nat
  sc_dispatch_refusals :: nat
  sc_window_opened_ns :: nat
  sc_max_charged_in_window_ns :: nat
  sc_max_excess_ns :: nat
  sc_cpu_total_ns :: nat
  sc_cpu_debt_ns :: nat
  sc_closure_reserved_ns :: nat
  sc_window_index :: nat
  sc_max_window_ns :: nat
  sc_windows_closed :: nat
  sc_overruns :: nat
  sc_max_overrun_ns :: nat
  sc_debt_records :: nat
  sc_threads :: nat
  sc_parallelism_used :: nat
  sc_invocations_pending :: nat
  sc_effects_pending :: nat
  sc_maps_pending :: nat
  sc_undelivered_cancelled :: nat
  sc_last_progress_ns :: nat
  sc_drain_token :: nat
  sc_children :: nat
  sc_refs :: nat

definition scope_empty :: scope where
  "scope_empty = \<lparr>sc_state = SEmpty, sc_generation = 0, sc_id = 0, sc_parent = NO_SCOPE,
     sc_depth = 0, sc_label = replicate 16 0, sc_limits = limits_default, sc_memory_pages = 0,
     sc_metadata = 0, sc_queue_bytes = 0, sc_cpu_window_ns = 0, sc_cpu_committed_ns = 0,
     sc_closure_used_ns = 0, sc_closure_committed_ns = 0, sc_running = 0, sc_max_running = 0,
     sc_max_committed_ns = 0, sc_dispatch_grants = 0, sc_dispatch_refusals = 0,
     sc_window_opened_ns = 0, sc_max_charged_in_window_ns = 0, sc_max_excess_ns = 0,
     sc_cpu_total_ns = 0, sc_cpu_debt_ns = 0, sc_closure_reserved_ns = 0, sc_window_index = 0,
     sc_max_window_ns = 0, sc_windows_closed = 0, sc_overruns = 0, sc_max_overrun_ns = 0,
     sc_debt_records = 0, sc_threads = 0, sc_parallelism_used = 0, sc_invocations_pending = 0,
     sc_effects_pending = 0, sc_maps_pending = 0, sc_undelivered_cancelled = 0,
     sc_last_progress_ns = 0, sc_drain_token = 0, sc_children = 0, sc_refs = 0\<rparr>"

type_synonym scope_table = "scope list"

definition scope_parent :: "scope \<Rightarrow> scope_id option" where
  "scope_parent s = (if sc_parent s = NO_SCOPE then None else Some (sc_parent s))"

definition set_parent :: "scope_id option \<Rightarrow> scope \<Rightarrow> scope" where
  "set_parent p s = s\<lparr>sc_parent := (case p of None \<Rightarrow> NO_SCOPE | Some q \<Rightarrow> q)\<rparr>"

fun account :: "resource \<Rightarrow> scope \<Rightarrow> nat" where
  "account MemoryPages s = sc_memory_pages s"
| "account Metadata s = sc_metadata s"
| "account QueueBytes s = sc_queue_bytes s"

fun set_account :: "resource \<Rightarrow> nat \<Rightarrow> scope \<Rightarrow> scope" where
  "set_account MemoryPages v s = s\<lparr>sc_memory_pages := v\<rparr>"
| "set_account Metadata v s = s\<lparr>sc_metadata := v\<rparr>"
| "set_account QueueBytes v s = s\<lparr>sc_queue_bytes := v\<rparr>"

fun scope_limit :: "resource \<Rightarrow> scope \<Rightarrow> nat" where
  "scope_limit MemoryPages s = lm_memory_pages (sc_limits s)"
| "scope_limit Metadata s = lm_metadata_objects (sc_limits s)"
| "scope_limit QueueBytes s = lm_queue_bytes (sc_limits s)"

section \<open>Chains\<close>

fun chain_walk :: "nat \<Rightarrow> scope_table \<Rightarrow> scope_id \<Rightarrow> scope_id list" where
  "chain_walk 0 t current = []"
| "chain_walk (Suc n) t current =
     (case nth_opt t current of
        None \<Rightarrow> []
      | Some node \<Rightarrow>
          current # (case scope_parent node of Some p \<Rightarrow> chain_walk n t p | None \<Rightarrow> []))"

definition chain_of :: "scope_table \<Rightarrow> scope_id \<Rightarrow> scope_id list" where
  "chain_of t s = chain_walk (MAX_SCOPE_DEPTH + 1) t s"

definition is_open :: "scope_table \<Rightarrow> scope_id \<Rightarrow> bool" where
  "is_open t s = list_all (\<lambda>i. sc_state (t ! i) = SOpen) (chain_of t s)"

definition is_within :: "scope_table \<Rightarrow> scope_id \<Rightarrow> scope_id \<Rightarrow> bool" where
  "is_within t ancestor candidate \<longleftrightarrow> ancestor \<in> set (chain_of t candidate)"

section \<open>The shape of the tree\<close>

text \<open>
  A scope in use has a parent in use one level up, or none; depths stay below the interface's
  scope depth (creation refuses a deeper child); table indices stay below \<open>NO_SCOPE\<close>.
\<close>

definition wf_scope :: "scope_table \<Rightarrow> scope \<Rightarrow> bool" where
  "wf_scope t s \<longleftrightarrow> sc_state s \<noteq> SEmpty \<longrightarrow>
     sc_depth s < MAX_SCOPE_DEPTH \<and>
     (case scope_parent s of
        None \<Rightarrow> sc_depth s = 0
      | Some p \<Rightarrow> p < length t \<and> sc_state (t ! p) \<noteq> SEmpty \<and> sc_depth s = Suc (sc_depth (t ! p)))"

definition wf_table :: "scope_table \<Rightarrow> bool" where
  "wf_table t \<longleftrightarrow> length t \<le> NO_SCOPE \<and> (\<forall>s \<in> set t. wf_scope t s)"

lemma wf_table_nth: "wf_table t \<Longrightarrow> i < length t \<Longrightarrow> wf_scope t (t ! i)"
  by (simp add: wf_table_def)

text \<open>Changing what the tree does not depend on keeps its shape and its chains.\<close>

definition same_tree :: "scope_table \<Rightarrow> scope_table \<Rightarrow> bool" where
  "same_tree t t' \<longleftrightarrow> length t' = length t \<and>
     (\<forall>i < length t. sc_parent (t' ! i) = sc_parent (t ! i) \<and> sc_depth (t' ! i) = sc_depth (t ! i) \<and>
        (sc_state (t' ! i) = SEmpty \<longleftrightarrow> sc_state (t ! i) = SEmpty))"

lemma same_tree_refl [simp]: "same_tree t t"
  by (simp add: same_tree_def)

lemma same_tree_trans: "same_tree t t' \<Longrightarrow> same_tree t' t'' \<Longrightarrow> same_tree t t''"
  by (simp add: same_tree_def)

lemma same_tree_length: "same_tree t t' \<Longrightarrow> length t' = length t"
  by (simp add: same_tree_def)

lemma same_tree_upd:
  "sc_parent (f (t ! i)) = sc_parent (t ! i) \<Longrightarrow> sc_depth (f (t ! i)) = sc_depth (t ! i) \<Longrightarrow>
     (sc_state (f (t ! i)) = SEmpty \<longleftrightarrow> sc_state (t ! i) = SEmpty) \<Longrightarrow> same_tree t (upd i f t)"
  by (simp add: same_tree_def nth_upd)

lemma same_tree_walk: "same_tree t t' \<Longrightarrow> chain_walk n t' s = chain_walk n t s"
proof (induction n arbitrary: s)
  case (Suc n)
  then show ?case
    by (auto simp: same_tree_def nth_opt_def scope_parent_def)
qed simp

lemma same_tree_chain: "same_tree t t' \<Longrightarrow> chain_of t' s = chain_of t s"
  unfolding chain_of_def by (rule same_tree_walk)

lemma same_tree_within: "same_tree t t' \<Longrightarrow> is_within t' a s = is_within t a s"
  by (simp add: is_within_def same_tree_chain)

lemma same_tree_wf: "same_tree t t' \<Longrightarrow> wf_table t \<Longrightarrow> wf_table t'"
  unfolding wf_table_def wf_scope_def all_set_conv_all_nth
  by (auto simp: same_tree_def scope_parent_def split: option.splits if_splits)

lemma chain_walk_in_range: "i \<in> set (chain_walk n t s) \<Longrightarrow> i < length t"
  by (induction n arbitrary: s) (auto simp: nth_opt_def split: if_splits option.splits)

lemma chain_in_range: "i \<in> set (chain_of t s) \<Longrightarrow> i < length t"
  unfolding chain_of_def by (rule chain_walk_in_range)

lemma chain_out_of_range: "length t \<le> s \<Longrightarrow> chain_of t s = []"
  by (simp add: chain_of_def nth_opt_def)

text \<open>On a well-formed tree the fuel of the walk exceeds the depth, so it never cuts a chain.\<close>

lemma chain_walk_fuel:
  assumes "wf_table t"
  shows "s < length t \<Longrightarrow> sc_state (t ! s) \<noteq> SEmpty \<Longrightarrow> sc_depth (t ! s) < n \<Longrightarrow> sc_depth (t ! s) < m \<Longrightarrow>
    chain_walk n t s = chain_walk m t s"
proof (induction n arbitrary: s m)
  case (Suc n)
  obtain m' where m: "m = Suc m'" using Suc.prems by (cases m) auto
  show ?case
  proof (cases "scope_parent (t ! s)")
    case None
    then show ?thesis using m Suc.prems(1) by (simp add: nth_opt_def)
  next
    case (Some p)
    then have "p < length t" "sc_state (t ! p) \<noteq> SEmpty" "sc_depth (t ! s) = Suc (sc_depth (t ! p))"
      using wf_table_nth [OF assms, of s] Suc.prems by (auto simp: wf_scope_def)
    then have "chain_walk n t p = chain_walk m' t p"
      using Suc.prems(3,4) m by (intro Suc.IH) auto
    then show ?thesis using Suc.prems(1) m Some by (simp add: nth_opt_def)
  qed
qed simp

lemma chain_rec:
  assumes "wf_table t" and "s < length t" and "sc_state (t ! s) \<noteq> SEmpty"
  shows "chain_of t s = s # (case scope_parent (t ! s) of None \<Rightarrow> [] | Some p \<Rightarrow> chain_of t p)"
proof (cases "scope_parent (t ! s)")
  case None
  then show ?thesis using assms by (simp add: chain_of_def)
next
  case (Some p)
  then have p: "p < length t" "sc_state (t ! p) \<noteq> SEmpty" "sc_depth (t ! p) < MAX_SCOPE_DEPTH"
    using wf_table_nth [OF assms(1), of s] wf_table_nth [OF assms(1), of p] assms
    by (auto simp: wf_scope_def)
  have "chain_walk MAX_SCOPE_DEPTH t p = chain_walk (MAX_SCOPE_DEPTH + 1) t p"
    using p by (intro chain_walk_fuel [OF assms(1)]) auto
  then show ?thesis using assms Some by (simp add: chain_of_def)
qed

text \<open>Induction from a scope towards the root.\<close>

lemma chain_induct [consumes 3, case_names scope]:
  assumes "wf_table t" and "s < length t" and "sc_state (t ! s) \<noteq> SEmpty"
    and "\<And>s. s < length t \<Longrightarrow> sc_state (t ! s) \<noteq> SEmpty \<Longrightarrow>
        (\<And>p. scope_parent (t ! s) = Some p \<Longrightarrow> p < length t \<and> sc_state (t ! p) \<noteq> SEmpty \<and>
           sc_depth (t ! s) = Suc (sc_depth (t ! p)) \<and> P p) \<Longrightarrow> P s"
  shows "P s"
  using assms(2,3)
proof (induction "sc_depth (t ! s)" arbitrary: s rule: less_induct)
  case less
  show ?case
  proof (rule assms(4) [OF less.prems])
    fix p
    assume p: "scope_parent (t ! s) = Some p"
    then have "p < length t" "sc_state (t ! p) \<noteq> SEmpty" "sc_depth (t ! s) = Suc (sc_depth (t ! p))"
      using wf_table_nth [OF assms(1), of s] less.prems by (auto simp: wf_scope_def)
    then show "p < length t \<and> sc_state (t ! p) \<noteq> SEmpty \<and>
           sc_depth (t ! s) = Suc (sc_depth (t ! p)) \<and> P p"
      using less.hyps by simp
  qed
qed

lemma chain_depth:
  assumes "wf_table t" "s < length t" "sc_state (t ! s) \<noteq> SEmpty"
  shows "i \<in> set (chain_of t s) \<Longrightarrow> i < length t \<and> sc_state (t ! i) \<noteq> SEmpty \<and>
    (i = s \<or> sc_depth (t ! i) < sc_depth (t ! s))"
  using assms
proof (induction s rule: chain_induct)
  case (scope s)
  show ?case
  proof (cases "scope_parent (t ! s)")
    case None
    then show ?thesis using scope chain_rec [OF assms(1), of s] by simp
  next
    case (Some p)
    then show ?thesis using scope(1,2,4) scope(3) [OF Some] chain_rec [OF assms(1), of s] by auto
  qed
qed

lemma chain_distinct:
  assumes "wf_table t" "s < length t" "sc_state (t ! s) \<noteq> SEmpty"
  shows "distinct (chain_of t s)"
  using assms
proof (induction s rule: chain_induct)
  case (scope s)
  show ?case
  proof (cases "scope_parent (t ! s)")
    case None
    then show ?thesis using scope chain_rec [OF assms(1), of s] by simp
  next
    case (Some p)
    then have "s \<notin> set (chain_of t p)"
      using scope(3) [OF Some] chain_depth [OF assms(1), of p s] by auto
    then show ?thesis using scope(1,2) scope(3) [OF Some] chain_rec [OF assms(1), of s] Some by simp
  qed
qed

text \<open>A scope's chain contains the chain of every scope on it: ancestry is transitive.\<close>

lemma chain_mono:
  assumes "wf_table t" "s < length t" "sc_state (t ! s) \<noteq> SEmpty" and "i \<in> set (chain_of t s)"
  shows "set (chain_of t i) \<subseteq> set (chain_of t s)"
  using assms
proof (induction s rule: chain_induct)
  case (scope s)
  show ?case
  proof (cases "i = s")
    case False
    then obtain p where p: "scope_parent (t ! s) = Some p" "i \<in> set (chain_of t p)"
      using scope(1,2,4) chain_rec [OF assms(1), of s] by (auto split: option.splits)
    then show ?thesis using scope(1,2) scope(3) [OF p(1)] chain_rec [OF assms(1), of s] by auto
  qed simp
qed

lemma within_trans:
  assumes "wf_table t" "c < length t" "sc_state (t ! c) \<noteq> SEmpty" "is_within t b c" "is_within t a b"
  shows "is_within t a c"
  using chain_mono [OF assms(1-3)] assms(4,5) by (auto simp: is_within_def)

lemma within_self: "s < length t \<Longrightarrow> is_within t s s"
  by (simp add: is_within_def chain_of_def)

text \<open>A chain visits one scope per depth, and passes from a scope to its parent.\<close>

lemma chain_depth_inj:
  assumes "wf_table t" "s < length t" "sc_state (t ! s) \<noteq> SEmpty"
  shows "i \<in> set (chain_of t s) \<Longrightarrow> j \<in> set (chain_of t s) \<Longrightarrow> sc_depth (t ! i) = sc_depth (t ! j) \<Longrightarrow> i = j"
  using assms
proof (induction s rule: chain_induct)
  case (scope s)
  note rec = chain_rec [OF assms(1) scope(1,2)]
  show ?case
  proof (cases "scope_parent (t ! s)")
    case None
    then show ?thesis using scope(4,5) rec by simp
  next
    case (Some p)
    then have low: "sc_depth (t ! k) < sc_depth (t ! s)" if "k \<in> set (chain_of t p)" for k
      using chain_depth [OF assms(1) _ _ that] scope(3) [OF Some] by auto
    show ?thesis
      using scope(4-6) rec Some scope(3) [OF Some] low [of i] low [of j] by auto
  qed
qed

lemma chain_parent:
  assumes "wf_table t" "s < length t" "sc_state (t ! s) \<noteq> SEmpty"
    and "c \<in> set (chain_of t s)" "scope_parent (t ! c) = Some p"
  shows "p \<in> set (chain_of t s)"
proof -
  have c: "c < length t" "sc_state (t ! c) \<noteq> SEmpty" using chain_depth [OF assms(1-4)] by auto
  then have p: "p < length t" "sc_state (t ! p) \<noteq> SEmpty"
    using wf_table_nth [OF assms(1) c(1)] assms(5) by (auto simp: wf_scope_def)
  then have "p \<in> set (chain_of t c)"
    using chain_rec [OF assms(1) c] chain_rec [OF assms(1) p] assms(5) by simp
  then show ?thesis using chain_mono [OF assms(1-4)] by blast
qed

end
