(* ===== verification/Scope_Accounts.thy ===== *)
theory Scope_Accounts
  imports Scope_Table "HOL-Library.Multiset"
begin

text \<open>
  Charging a chain of scopes (\<open>kernel/src/scope.rs\<close>: \<open>bounded_add\<close>, \<open>reserve\<close>, \<open>release\<close>, the saturating
  decrements). A reservation charges the scope and every ancestor, checking each level as it is
  charged, and undoes the levels already charged when one refuses. The locale \<open>scope_counter\<close> states
  what a counter of a scope has to satisfy; the all-or-nothing theorem is proved once inside it and
  interpreted for the three resource accounts here and for the processor-time counters later.
\<close>

section \<open>Operations\<close>

text \<open>
  \<open>bounded_add counter amount limit\<close>: the value left in the counter, and \<open>Inr next\<close> or
  \<open>Inl previous\<close>. The atomic add wraps; the comparison uses the saturated sum.
\<close>

definition bounded_add :: "nat \<Rightarrow> nat \<Rightarrow> nat \<Rightarrow> nat \<times> (nat + nat)" where
  "bounded_add counter amount lim =
     (let previous = counter;
          counter' = wrap_add64 counter amount;
          next = sat_add64 previous amount
      in if next > lim then (wrap_sub64 counter' amount, Inl previous) else (counter', Inr next))"

text \<open>
  The loop of \<open>reserve\<close> and \<open>reserve_cpu\<close>: charges the nodes in order until one is not usable or its
  bounded add fails; gives the table, the number of nodes charged and the node that refused.
\<close>

fun charge_nodes ::
  "(scope \<Rightarrow> bool) \<Rightarrow> (scope \<Rightarrow> nat) \<Rightarrow> (nat \<Rightarrow> scope \<Rightarrow> scope) \<Rightarrow> (scope \<Rightarrow> nat) \<Rightarrow> nat \<Rightarrow> nat \<Rightarrow>
     scope_id list \<Rightarrow> scope_table \<Rightarrow> scope_table \<times> nat \<times> scope_id option" where
  "charge_nodes usable get put lim amount charged [] t = (t, charged, None)"
| "charge_nodes usable get put lim amount charged (index # rest) t =
     (let node = t ! index in
      if \<not> usable node then (t, charged, Some index)
      else case bounded_add (get node) amount (lim node) of
        (v, Inl previous) \<Rightarrow> (upd index (put v) t, charged, Some index)
      | (v, Inr next) \<Rightarrow>
          charge_nodes usable get put lim amount (Suc charged) rest (upd index (put v) t))"

definition uncharge_nodes ::
  "(scope \<Rightarrow> nat) \<Rightarrow> (nat \<Rightarrow> scope \<Rightarrow> scope) \<Rightarrow> nat \<Rightarrow> scope_id list \<Rightarrow> scope_table \<Rightarrow> scope_table" where
  "uncharge_nodes get put amount nodes t = upd_all nodes (\<lambda>s. put (wrap_sub64 (get s) amount) s) t"

definition reserve :: "scope_table \<Rightarrow> scope_id \<Rightarrow> resource \<Rightarrow> nat \<Rightarrow> scope_table \<times> bool" where
  "reserve t s r amount =
     (let nodes = chain_of t s in
      case charge_nodes (\<lambda>n. sc_state n = SOpen) (account r) (set_account r) (scope_limit r)
             amount 0 nodes t of
        (t', charged, None) \<Rightarrow> (t', True)
      | (t', charged, Some binding) \<Rightarrow>
          (uncharge_nodes (account r) (set_account r) amount (take charged nodes) t', False))"

text \<open>The saturating compare-and-swap loops, as the value they leave once the swap lands.\<close>

definition saturating_take :: "(scope \<Rightarrow> nat) \<Rightarrow> (nat \<Rightarrow> scope \<Rightarrow> scope) \<Rightarrow> nat \<Rightarrow> scope \<Rightarrow> scope" where
  "saturating_take get put amount s = put (get s - amount) s"

definition release :: "scope_table \<Rightarrow> scope_id \<Rightarrow> resource \<Rightarrow> nat \<Rightarrow> scope_table" where
  "release t s r amount =
     upd_all (chain_of t s) (saturating_take (account r) (set_account r) amount) t"

section \<open>The contract of a counter\<close>

lemma same_tree_upd_all:
  assumes "\<And>s. sc_parent (f s) = sc_parent s" "\<And>s. sc_depth (f s) = sc_depth s"
    "\<And>s. sc_state (f s) = SEmpty \<longleftrightarrow> sc_state s = SEmpty"
  shows "same_tree t (upd_all is f t)"
proof (induction "is" arbitrary: t)
  case (Cons i "is")
  have "same_tree t (upd i f t)" using assms by (intro same_tree_upd) simp_all
  then show ?case using Cons [of "upd i f t"] same_tree_trans by simp
qed simp

definition same_structure :: "scope \<Rightarrow> scope \<Rightarrow> bool" where
  "same_structure a b \<longleftrightarrow> sc_state a = sc_state b \<and> sc_parent a = sc_parent b \<and>
     sc_depth a = sc_depth b \<and> sc_limits a = sc_limits b"

locale scope_counter =
  fixes usable :: "scope \<Rightarrow> bool" and get :: "scope \<Rightarrow> nat" and put :: "nat \<Rightarrow> scope \<Rightarrow> scope"
    and lim :: "scope \<Rightarrow> nat"
  assumes get_put [simp]: "get (put v s) = v"
    and put_put [simp]: "put v (put w s) = put v s"
    and put_get [simp]: "put (get s) s = s"
    and put_structure: "same_structure (put v s) s"
begin

definition fits :: "nat \<Rightarrow> scope \<Rightarrow> bool" where
  "fits amount s \<longleftrightarrow> usable s \<and> sat_add64 (get s) amount \<le> lim s"

definition charged_node :: "nat \<Rightarrow> scope \<Rightarrow> scope" where
  "charged_node amount s = put (wrap_add64 (get s) amount) s"

lemma charged_tree: "same_tree t (upd_all is (charged_node amount) t)"
  using put_structure by (intro same_tree_upd_all) (simp_all add: charged_node_def same_structure_def)

lemma bounded_add_refused:
  "get s \<le> U64_MAX \<Longrightarrow> amount \<le> U64_MAX \<Longrightarrow> \<not> sat_add64 (get s) amount \<le> lim s \<Longrightarrow>
     bounded_add (get s) amount (lim s) = (get s, Inl (get s))"
  by (simp add: bounded_add_def Let_def)

lemma bounded_add_granted:
  "sat_add64 (get s) amount \<le> lim s \<Longrightarrow>
     bounded_add (get s) amount (lim s) = (wrap_add64 (get s) amount, Inr (sat_add64 (get s) amount))"
  by (simp add: bounded_add_def Let_def)

text \<open>Charging a list of distinct nodes: all of them, or the ones before the first that refuses.\<close>

lemma charge_nodes_all:
  assumes "distinct ns" and "\<forall>i \<in> set ns. i < length t \<and> fits amount (t ! i)"
  shows "charge_nodes usable get put lim amount k ns t =
    (upd_all ns (charged_node amount) t, k + length ns, None)"
  using assms
proof (induction ns arbitrary: t k)
  case (Cons i ns)
  have tail: "\<forall>j \<in> set ns. j < length (upd i (charged_node amount) t) \<and>
      fits amount (upd i (charged_node amount) t ! j)"
    using Cons.prems by (auto simp: nth_upd)
  have "upd i (put (wrap_add64 (get (t ! i)) amount)) t = upd i (charged_node amount) t"
    by (simp add: upd_def charged_node_def)
  then show ?case
    using Cons.prems Cons.IH [OF _ tail] by (simp add: bounded_add_granted fits_def Let_def)
qed simp

lemma charge_nodes_refused:
  assumes "distinct (xs @ i # ys)" and "\<forall>j \<in> set xs. j < length t \<and> fits amount (t ! j)"
    and "i < length t" and "\<not> fits amount (t ! i)" and "get (t ! i) \<le> U64_MAX" and "amount \<le> U64_MAX"
  shows "charge_nodes usable get put lim amount k (xs @ i # ys) t =
    (upd_all xs (charged_node amount) t, k + length xs, Some i)"
  using assms
proof (induction xs arbitrary: t k)
  case Nil
  have "upd i (put (get (t ! i))) t = t" by (simp add: upd_def)
  then show ?case using Nil by (auto simp: fits_def bounded_add_refused Let_def)
next
  case (Cons j xs)
  have "upd j (put (wrap_add64 (get (t ! j)) amount)) t = upd j (charged_node amount) t"
    by (simp add: upd_def charged_node_def)
  moreover have "charge_nodes usable get put lim amount (Suc k) (xs @ i # ys) (upd j (charged_node amount) t) =
      (upd_all xs (charged_node amount) (upd j (charged_node amount) t), Suc k + length xs, Some i)"
    using Cons.prems by (intro Cons.IH) (auto simp: nth_upd)
  ultimately show ?case using Cons.prems by (simp add: bounded_add_granted fits_def Let_def)
qed

lemma uncharge_charged:
  assumes "distinct ns" and "\<forall>i \<in> set ns. i < length t \<and> get (t ! i) \<le> U64_MAX" and "amount \<le> U64_MAX"
  shows "uncharge_nodes get put amount ns (upd_all ns (charged_node amount) t) = t"
  unfolding uncharge_nodes_def using assms by (intro upd_all_cancel) (auto simp: charged_node_def)

text \<open>The whole reservation: every level charged, or the table exactly as it was.\<close>

definition reserve_with :: "nat \<Rightarrow> scope_id list \<Rightarrow> scope_table \<Rightarrow> scope_table \<times> bool" where
  "reserve_with amount nodes t =
     (case charge_nodes usable get put lim amount 0 nodes t of
        (t', charged, None) \<Rightarrow> (t', True)
      | (t', charged, Some binding) \<Rightarrow> (uncharge_nodes get put amount (take charged nodes) t', False))"

lemma reserve_with_spec:
  assumes "distinct nodes" and "\<forall>i \<in> set nodes. i < length t \<and> get (t ! i) \<le> U64_MAX"
    and "amount \<le> U64_MAX"
  shows "reserve_with amount nodes t =
    (if \<forall>i \<in> set nodes. fits amount (t ! i)
     then (upd_all nodes (charged_node amount) t, True) else (t, False))"
proof (cases "\<forall>i \<in> set nodes. fits amount (t ! i)")
  case True
  then show ?thesis using assms by (simp add: reserve_with_def charge_nodes_all)
next
  case False
  then obtain xs i ys where split: "nodes = xs @ i # ys" "\<not> fits amount (t ! i)" "\<forall>j \<in> set xs. fits amount (t ! j)"
    using split_list_first_prop [of nodes "\<lambda>i. \<not> fits amount (t ! i)"] by blast
  have "charge_nodes usable get put lim amount 0 nodes t =
      (upd_all xs (charged_node amount) t, 0 + length xs, Some i)"
    unfolding split(1) using assms split by (intro charge_nodes_refused) auto
  moreover have "uncharge_nodes get put amount xs (upd_all xs (charged_node amount) t) = t"
    using assms split(1) by (intro uncharge_charged) auto
  ultimately show ?thesis using False split(1) by (simp add: reserve_with_def)
qed

end

section \<open>The three resource accounts\<close>

lemma account_set_account [simp]: "account r (set_account r v s) = v"
  by (cases r) simp_all

lemma account_set_other [simp]: "q \<noteq> r \<Longrightarrow> account q (set_account r v s) = account q s"
  by (cases q; cases r) simp_all

lemma set_account_structure: "same_structure (set_account r v s) s"
  by (cases r) (simp_all add: same_structure_def)

lemma set_account_keeps [simp]:
  "sc_state (set_account r v s) = sc_state s" "sc_parent (set_account r v s) = sc_parent s"
  "sc_depth (set_account r v s) = sc_depth s" "sc_limits (set_account r v s) = sc_limits s"
  using set_account_structure [of r v s] by (simp_all add: same_structure_def)

lemma scope_limit_structure: "same_structure a b \<Longrightarrow> scope_limit r a = scope_limit r b"
  by (cases r) (simp_all add: same_structure_def)

interpretation acct: scope_counter "\<lambda>n. sc_state n = SOpen" "account r" "set_account r" "scope_limit r" for r
proof
  show "set_account r v (set_account r w s) = set_account r v s" for v w s
    by (cases r) simp_all
  show "set_account r (account r s) s = s" for s
    by (cases r) simp_all
qed (simp_all add: set_account_structure)

text \<open>What a reservation charges one scope, and what it needs there.\<close>

definition charge :: "resource \<Rightarrow> nat \<Rightarrow> scope \<Rightarrow> scope" where
  "charge r amount s = set_account r (wrap_add64 (account r s) amount) s"

definition admits :: "resource \<Rightarrow> nat \<Rightarrow> scope \<Rightarrow> bool" where
  "admits r amount s \<longleftrightarrow> sc_state s = SOpen \<and> sat_add64 (account r s) amount \<le> scope_limit r s"

definition accounts_ok :: "resource \<Rightarrow> scope_table \<Rightarrow> bool" where
  "accounts_ok r t \<longleftrightarrow> (\<forall>s \<in> set t. account r s \<le> scope_limit r s \<and> scope_limit r s \<le> U64_MAX)"

lemma accounts_ok_nth: "accounts_ok r t \<Longrightarrow> i < length t \<Longrightarrow> account r (t ! i) \<le> scope_limit r (t ! i) \<and>
    scope_limit r (t ! i) \<le> U64_MAX"
  by (simp add: accounts_ok_def)

lemma reserve_exact:
  assumes "wf_table t" and "s < length t" and "sc_state (t ! s) \<noteq> SEmpty" and "accounts_ok r t"
    and "amount \<le> U64_MAX"
  shows "reserve t s r amount =
    (if \<forall>i \<in> set (chain_of t s). admits r amount (t ! i)
     then (upd_all (chain_of t s) (charge r amount) t, True) else (t, False))"
proof -
  have fits: "acct.fits r amount = admits r amount"
    by (simp add: acct.fits_def admits_def fun_eq_iff)
  have charged: "acct.charged_node r amount = charge r amount"
    by (simp add: acct.charged_node_def charge_def fun_eq_iff)
  have "\<forall>i \<in> set (chain_of t s). i < length t \<and> account r (t ! i) \<le> U64_MAX"
    using chain_in_range accounts_ok_nth [OF assms(4)] le_trans by meson
  then have "acct.reserve_with r amount (chain_of t s) t =
      (if \<forall>i \<in> set (chain_of t s). admits r amount (t ! i)
       then (upd_all (chain_of t s) (charge r amount) t, True) else (t, False))"
    using acct.reserve_with_spec [OF chain_distinct [OF assms(1-3)], of t r amount] assms(5) fits charged
    by simp
  then show ?thesis by (simp add: reserve_def acct.reserve_with_def Let_def)
qed

text \<open>Reservations and releases leave the tree alone.\<close>

lemma charge_keeps [simp]:
  "sc_state (charge r a s) = sc_state s" "sc_parent (charge r a s) = sc_parent s"
  "sc_depth (charge r a s) = sc_depth s" "scope_limit q (charge r a s) = scope_limit q s"
  by (simp_all add: charge_def scope_limit_structure [OF set_account_structure])

lemma acct_charged_node: "acct.charged_node r amount = charge r amount"
  by (simp add: acct.charged_node_def charge_def fun_eq_iff)

lemma charge_tree: "same_tree t (upd_all is (charge r a) t)"
  using acct.charged_tree [of t "is" r a] by (simp add: acct_charged_node)

lemma release_node_keeps [simp]:
  "sc_state (saturating_take (account r) (set_account r) a s) = sc_state s"
  "sc_parent (saturating_take (account r) (set_account r) a s) = sc_parent s"
  "sc_depth (saturating_take (account r) (set_account r) a s) = sc_depth s"
  "scope_limit q (saturating_take (account r) (set_account r) a s) = scope_limit q s"
  by (simp_all add: saturating_take_def scope_limit_structure [OF set_account_structure])

lemma release_tree: "same_tree t (release t s r a)"
  unfolding release_def by (rule same_tree_upd_all) simp_all

text \<open>A granted level never exceeds its ceiling, whatever the ceiling is.\<close>

lemma charge_account:
  assumes "admits r amount s" and "scope_limit r s \<le> U64_MAX"
  shows "account r (charge r amount s) \<le> scope_limit r s"
proof (cases "account r s + amount \<le> U64_MAX")
  case True
  then show ?thesis using assms by (simp add: charge_def admits_def sat_add64_def)
next
  case False
  then have "scope_limit r s = U64_MAX" using assms by (simp add: admits_def sat_add64_def)
  then show ?thesis by (simp add: charge_def)
qed

lemma reserve_accounts_ok:
  assumes "wf_table t" and "s < length t" and "sc_state (t ! s) \<noteq> SEmpty" and "accounts_ok r t"
    and "amount \<le> U64_MAX"
  shows "accounts_ok r (fst (reserve t s r amount))"
proof (cases "\<forall>i \<in> set (chain_of t s). admits r amount (t ! i)")
  case True
  have "account r (upd_all (chain_of t s) (charge r amount) t ! i) \<le> scope_limit r (t ! i) \<and>
      scope_limit r (upd_all (chain_of t s) (charge r amount) t ! i) = scope_limit r (t ! i)"
    if "i < length t" for i
    using True accounts_ok_nth [OF assms(4) that] charge_account that
    by (simp add: nth_upd_all [OF chain_distinct [OF assms(1-3)] that])
  then show ?thesis
    using True accounts_ok_nth [OF assms(4)]
    by (simp add: reserve_exact [OF assms] accounts_ok_def all_set_conv_all_nth)
next
  case False
  then have "reserve t s r amount = (t, False)" by (simp only: reserve_exact [OF assms] if_False)
  then show ?thesis using assms(4) by simp
qed

lemma release_accounts_ok: "accounts_ok r t \<Longrightarrow> accounts_ok r (release t s r amount)"
  unfolding accounts_ok_def release_def
  by (rule upd_all_keeps) (auto simp: saturating_take_def scope_limit_structure [OF set_account_structure])

section \<open>The ledger of outstanding reservations\<close>

text \<open>
  The abstract view of one resource: the bag of reservations granted and not yet released. What a
  scope holds is the sum of the reservations made in its subtree.
\<close>

type_synonym ledger = "(scope_id \<times> nat) multiset"

definition held :: "scope_table \<Rightarrow> ledger \<Rightarrow> scope_id \<Rightarrow> nat" where
  "held t led i = (\<Sum>(s, a) \<in># led. if is_within t i s then a else 0)"

inductive acct_step :: "resource \<Rightarrow> scope_table \<times> ledger \<Rightarrow> scope_table \<times> ledger \<Rightarrow> bool" for r where
  granted: "s < length t \<Longrightarrow> sc_state (t ! s) \<noteq> SEmpty \<Longrightarrow> amount \<le> U64_MAX \<Longrightarrow>
    reserve t s r amount = (t', True) \<Longrightarrow> acct_step r (t, led) (t', add_mset (s, amount) led)"
| refused: "s < length t \<Longrightarrow> sc_state (t ! s) \<noteq> SEmpty \<Longrightarrow> amount \<le> U64_MAX \<Longrightarrow>
    reserve t s r amount = (t', False) \<Longrightarrow> acct_step r (t, led) (t', led)"
| returned: "(s, amount) \<in># led \<Longrightarrow> acct_step r (t, led) (release t s r amount, led - {#(s, amount)#})"

definition ledger_inv :: "resource \<Rightarrow> scope_table \<times> ledger \<Rightarrow> bool" where
  "ledger_inv r = (\<lambda>(t, led). wf_table t \<and> (\<forall>s \<in> set t. scope_limit r s < U64_MAX) \<and>
     (\<forall>(s, a) \<in># led. s < length t \<and> sc_state (t ! s) \<noteq> SEmpty) \<and>
     (\<forall>i < length t. account r (t ! i) = held t led i \<and> account r (t ! i) \<le> scope_limit r (t ! i)))"

lemma held_same_tree: "same_tree t t' \<Longrightarrow> held t' led i = held t led i"
  by (simp add: held_def same_tree_within)

lemma held_add: "held t (add_mset (s, a) led) i = (if is_within t i s then a else 0) + held t led i"
  by (simp add: held_def)

lemma held_remove:
  "(s, a) \<in># led \<Longrightarrow> held t led i = (if is_within t i s then a else 0) + held t (led - {#(s, a)#}) i"
  using held_add [of t s a "led - {#(s, a)#}" i] by simp

lemma ledger_accounts_ok: "ledger_inv r (t, led) \<Longrightarrow> accounts_ok r t"
  by (auto simp: ledger_inv_def accounts_ok_def all_set_conv_all_nth less_imp_le)

lemma ledger_inv_account:
  "ledger_inv r (t, led) \<Longrightarrow> i < length t \<Longrightarrow>
     account r (t ! i) = held t led i \<and> held t led i \<le> scope_limit r (t ! i)"
  unfolding ledger_inv_def by auto

lemma ledger_same_tree:
  assumes inv: "ledger_inv r (t, led)" and tree: "same_tree t t'"
    and lim: "\<And>i. i < length t \<Longrightarrow> scope_limit r (t' ! i) = scope_limit r (t ! i)"
    and led: "\<forall>(s, a) \<in># led'. s < length t \<and> sc_state (t ! s) \<noteq> SEmpty"
    and acc: "\<And>i. i < length t \<Longrightarrow> account r (t' ! i) = held t led' i \<and> account r (t' ! i) \<le> scope_limit r (t ! i)"
  shows "ledger_inv r (t', led')"
proof -
  have len: "length t' = length t" by (rule same_tree_length [OF tree])
  have "\<forall>(s, a) \<in># led'. s < length t' \<and> sc_state (t' ! s) \<noteq> SEmpty"
    using led tree len by (auto simp: same_tree_def)
  moreover have "wf_table t'" using inv same_tree_wf [OF tree] by (simp add: ledger_inv_def)
  moreover have "\<forall>i < length t. held t led' i \<le> scope_limit r (t ! i)" using acc by metis
  ultimately show ?thesis
    using inv acc lim by (auto simp: ledger_inv_def len held_same_tree [OF tree] all_set_conv_all_nth)
qed

lemma ledger_granted:
  assumes inv: "ledger_inv r (t, led)" and s: "s < length t" "sc_state (t ! s) \<noteq> SEmpty"
    and amount: "amount \<le> U64_MAX" and res: "reserve t s r amount = (t', True)"
  shows "ledger_inv r (t', add_mset (s, amount) led)"
proof -
  have wf: "wf_table t" using inv by (simp add: ledger_inv_def)
  note exact = reserve_exact [OF wf s ledger_accounts_ok [OF inv] amount]
  have adm: "\<forall>i \<in> set (chain_of t s). admits r amount (t ! i)" and t': "t' = upd_all (chain_of t s) (charge r amount) t"
    using res exact by (auto split: if_splits)
  have acc: "account r (charge r amount (t ! i)) = account r (t ! i) + amount \<and>
      account r (charge r amount (t ! i)) \<le> scope_limit r (t ! i)"
    if "i \<in> set (chain_of t s)" for i
  proof -
    have "scope_limit r (t ! i) < U64_MAX" using inv chain_in_range [OF that] by (simp add: ledger_inv_def)
    then show ?thesis using adm that by (auto simp: admits_def charge_def sat_add64_def)
  qed
  show ?thesis
  proof (rule ledger_same_tree [OF inv])
    fix i assume i: "i < length t"
    show "account r (t' ! i) = held t (add_mset (s, amount) led) i \<and> account r (t' ! i) \<le> scope_limit r (t ! i)"
      using inv i acc [of i] unfolding t' held_add is_within_def
      by (auto simp: nth_upd_all [OF chain_distinct [OF wf s] i] ledger_inv_def)
    show "scope_limit r (t' ! i) = scope_limit r (t ! i)"
      unfolding t' by (simp add: nth_upd_all [OF chain_distinct [OF wf s] i])
  qed (use inv s in \<open>auto simp: t' charge_tree ledger_inv_def\<close>)
qed

lemma ledger_returned:
  assumes inv: "ledger_inv r (t, led)" and mem: "(s, amount) \<in># led"
  shows "ledger_inv r (release t s r amount, led - {#(s, amount)#})"
proof -
  have wf: "wf_table t" and s: "s < length t" "sc_state (t ! s) \<noteq> SEmpty"
    using inv mem by (auto simp: ledger_inv_def)
  show ?thesis
  proof (rule ledger_same_tree [OF inv release_tree])
    fix i assume i: "i < length t"
    show "account r (release t s r amount ! i) = held t (led - {#(s, amount)#}) i \<and>
        account r (release t s r amount ! i) \<le> scope_limit r (t ! i)"
      using inv i held_remove [OF mem, of t i] unfolding release_def is_within_def
      by (auto simp: nth_upd_all [OF chain_distinct [OF wf s] i] ledger_inv_def saturating_take_def)
    show "scope_limit r (release t s r amount ! i) = scope_limit r (t ! i)"
      unfolding release_def by (simp add: nth_upd_all [OF chain_distinct [OF wf s] i])
  qed (use inv in \<open>auto simp: ledger_inv_def dest: in_diffD\<close>)
qed

lemma ledger_step: "acct_step r x y \<Longrightarrow> ledger_inv r x \<Longrightarrow> ledger_inv r y"
proof (induction rule: acct_step.induct)
  case (refused s t amount t' led)
  then have "wf_table t" by (simp add: ledger_inv_def)
  then have "t' = t"
    using reserve_exact [OF _ refused(1,2) ledger_accounts_ok [OF refused(5)] refused(3)] refused(4)
    by (auto split: if_splits)
  then show ?case using refused by simp
qed (use ledger_granted ledger_returned in blast)+

lemma ledger_run: "(acct_step r)\<^sup>*\<^sup>* x y \<Longrightarrow> ledger_inv r x \<Longrightarrow> ledger_inv r y"
  by (induction rule: rtranclp_induct) (auto intro: ledger_step)

lemma siblings_within_one:
  assumes wf: "wf_table t" and s: "s < length t" "sc_state (t ! s) \<noteq> SEmpty"
    and C: "finite C" "\<forall>c \<in> C. c < length t \<and> sc_state (t ! c) \<noteq> SEmpty \<and> scope_parent (t ! c) = Some p"
  shows "(\<Sum>c \<in> C. if is_within t c s then a else 0) \<le> (if is_within t p s then a else (0 :: nat))"
proof (cases "\<exists>c \<in> C. is_within t c s")
  case True
  then obtain c where c: "c \<in> C" "is_within t c s" by blast
  have "d = c" if "d \<in> C" "is_within t d s" for d
    using that c C wf_table_nth [OF wf, of c] wf_table_nth [OF wf, of d] chain_depth_inj [OF wf s, of d c]
    by (auto simp: is_within_def wf_scope_def)
  then have "(\<Sum>c \<in> C. if is_within t c s then a else 0) = (\<Sum>d \<in> C. if d = c then a else 0)"
    using c by (intro sum.cong) metis+
  moreover have "is_within t p s"
    using chain_parent [OF wf s, of c p] c C by (simp add: is_within_def)
  ultimately show ?thesis using C c by simp
next
  case False
  then show ?thesis by (simp add: sum.neutral)
qed

lemma held_children:
  assumes wf: "wf_table t"
    and C: "finite C" "\<forall>c \<in> C. c < length t \<and> sc_state (t ! c) \<noteq> SEmpty \<and> scope_parent (t ! c) = Some p"
  shows "\<forall>(s, a) \<in># led. s < length t \<and> sc_state (t ! s) \<noteq> SEmpty \<Longrightarrow>
    (\<Sum>c \<in> C. held t led c) \<le> held t led p"
proof (induction led)
  case empty
  then show ?case by (simp add: held_def)
next
  case (add x led)
  obtain s a where x: "x = (s, a)" by force
  have s: "s < length t" "sc_state (t ! s) \<noteq> SEmpty" using add.prems by (simp_all add: x)
  have "(\<Sum>c \<in> C. held t led c) \<le> held t led p" by (rule add.IH) (use add.prems in simp)
  with siblings_within_one [OF wf s C, of a] show ?case
    unfolding x held_add sum.distrib by (rule add_mono)
qed

section \<open>Properties\<close>

text \<open>
  C2. A reservation is all or nothing: it is granted exactly when the scope and every ancestor is
  open and can hold the amount; granted, it charges the scope and every ancestor and touches no other
  scope; refused, it leaves the whole table as it was.
\<close>

theorem reserve_all_or_nothing:
  assumes "wf_table t" and "s < length t" and "sc_state (t ! s) \<noteq> SEmpty" and "accounts_ok r t"
    and "amount \<le> U64_MAX" and "reserve t s r amount = (t', ok)"
  shows "ok = (\<forall>i < length t. is_within t i s \<longrightarrow> admits r amount (t ! i)) \<and>
    (\<not> ok \<longrightarrow> t' = t) \<and>
    (ok \<longrightarrow> length t' = length t \<and>
       (\<forall>i < length t. t' ! i = (if is_within t i s then charge r amount (t ! i) else t ! i)))"
proof -
  have "(\<forall>i < length t. is_within t i s \<longrightarrow> admits r amount (t ! i)) =
      (\<forall>i \<in> set (chain_of t s). admits r amount (t ! i))"
    using chain_in_range by (auto simp: is_within_def)
  then show ?thesis
    using reserve_exact [OF assms(1-5)] assms(6) nth_upd_all [OF chain_distinct [OF assms(1-3)], of _ t]
    by (auto simp: is_within_def split: if_splits)
qed

text \<open>A root scope and a child, used by the witnesses.\<close>

definition two_scopes :: scope_table where
  "two_scopes =
     [scope_empty\<lparr>sc_state := SOpen, sc_limits := limits_default\<lparr>lm_memory_pages := 10\<rparr>\<rparr>,
      scope_empty\<lparr>sc_state := SOpen, sc_parent := 0, sc_depth := 1,
        sc_limits := limits_default\<lparr>lm_memory_pages := 4\<rparr>\<rparr>]"

lemma two_scopes_ok:
  "wf_table two_scopes" "Suc 0 < length two_scopes" "accounts_ok MemoryPages two_scopes"
  "sc_state (two_scopes ! Suc 0) \<noteq> SEmpty" "\<forall>s \<in> set two_scopes. scope_limit MemoryPages s < U64_MAX"
  by (simp_all add: wf_table_def wf_scope_def two_scopes_def scope_parent_def scope_empty_def
      NO_SCOPE_def U16_MAX_def MAX_SCOPE_DEPTH_def accounts_ok_def U64_MAX_def limits_default_def)

lemma three_u64: "3 \<le> U64_MAX"
  by (simp add: U64_MAX_def)

definition two_scopes_after :: scope_table where
  "two_scopes_after =
     [(two_scopes ! 0)\<lparr>sc_memory_pages := 3\<rparr>, (two_scopes ! 1)\<lparr>sc_memory_pages := 3\<rparr>]"

lemma two_scopes_chain: "chain_of two_scopes (Suc 0) = [Suc 0, 0]"
proof -
  have "scope_parent (two_scopes ! Suc 0) = Some 0" "scope_parent (two_scopes ! 0) = None"
    "sc_state (two_scopes ! 0) \<noteq> SEmpty"
    by (simp_all add: two_scopes_def scope_parent_def scope_empty_def NO_SCOPE_def U16_MAX_def)
  then show ?thesis
    using chain_rec [OF two_scopes_ok(1), of "Suc 0"] chain_rec [OF two_scopes_ok(1) Suc_lessD [OF two_scopes_ok(2)]]
      two_scopes_ok(2,4) by (simp add: Suc_lessD)
qed

lemma two_scopes_reserve: "reserve two_scopes (Suc 0) MemoryPages 3 = (two_scopes_after, True)"
  unfolding reserve_def two_scopes_chain
  by (simp add: two_scopes_def scope_empty_def bounded_add_def Let_def sat_add64_def U64_MAX_def
      limits_default_def upd_def two_scopes_after_def)

lemma reserve_all_or_nothing_witness:
  "two_scopes_after ! 0 =
     (if is_within two_scopes 0 (Suc 0) then charge MemoryPages 3 (two_scopes ! 0) else two_scopes ! 0)"
proof -
  note all = reserve_all_or_nothing [OF two_scopes_ok(1,2,4,3) three_u64 two_scopes_reserve]
  show ?thesis
    using all [THEN conjunct2, THEN conjunct2, THEN mp, OF TrueI, THEN conjunct2, rule_format, of 0]
      two_scopes_ok(2) by (simp only: Suc_lessD)
qed

text \<open>
  C1. The accounts are exact and the ceilings are hierarchical: after any sequence of reservations,
  refusals and releases of what was reserved, every scope's account is the sum of the outstanding
  reservations made in its subtree, that sum is within the scope's own ceiling, and the accounts of any
  set of children of one parent together fit in the parent's ceiling: children never multiply it.
\<close>

theorem ledger_exact:
  assumes "(acct_step r)\<^sup>*\<^sup>* (t, {#}) (t', led)" and "wf_table t"
    and "\<forall>s \<in> set t. account r s = 0 \<and> scope_limit r s < U64_MAX"
  shows "(\<forall>i < length t'. account r (t' ! i) = held t' led i \<and> held t' led i \<le> scope_limit r (t' ! i)) \<and>
    (\<forall>p C. p < length t' \<and> finite C \<and>
       (\<forall>c \<in> C. c < length t' \<and> sc_state (t' ! c) \<noteq> SEmpty \<and> scope_parent (t' ! c) = Some p) \<longrightarrow>
       (\<Sum>c \<in> C. account r (t' ! c)) \<le> scope_limit r (t' ! p))"
proof -
  have "ledger_inv r (t, {#})" using assms(2,3) by (simp add: ledger_inv_def held_def)
  with assms(1) have inv: "ledger_inv r (t', led)" by (rule ledger_run)
  note acc = ledger_inv_account [OF inv]
  moreover have "(\<Sum>c \<in> C. account r (t' ! c)) \<le> scope_limit r (t' ! p)"
    if "p < length t'" "finite C"
      "\<forall>c \<in> C. c < length t' \<and> sc_state (t' ! c) \<noteq> SEmpty \<and> scope_parent (t' ! c) = Some p" for p C
  proof -
    have "(\<Sum>c \<in> C. account r (t' ! c)) = (\<Sum>c \<in> C. held t' led c)"
      using that acc by (intro sum.cong) auto
    also have "\<dots> \<le> held t' led p"
      using held_children [OF _ that(2,3), of led] inv by (auto simp: ledger_inv_def)
    finally show ?thesis using acc [OF that(1)] by simp
  qed
  ultimately show ?thesis by blast
qed

lemma two_scopes_granted:
  "acct_step MemoryPages (two_scopes, {#}) (two_scopes_after, {#(Suc 0, 3)#})"
  by (rule acct_step.granted [OF two_scopes_ok(2,4) three_u64 two_scopes_reserve])

lemma ledger_exact_witness: "held two_scopes_after {#(Suc 0, 3)#} 0 = 3"
proof -
  have zero: "\<forall>s \<in> set two_scopes. account MemoryPages s = 0 \<and> scope_limit MemoryPages s < U64_MAX"
    using two_scopes_ok(5) by (simp add: two_scopes_def scope_empty_def)
  have after: "length two_scopes_after = 2" "account MemoryPages (two_scopes_after ! 0) = 3"
    by (simp_all add: two_scopes_after_def)
  show ?thesis
    using ledger_exact [OF r_into_rtranclp [of "acct_step MemoryPages", OF two_scopes_granted] two_scopes_ok(1) zero] after
    by (metis zero_less_numeral)
qed

text \<open>
  Releasing what a reservation charged restores the table exactly.
\<close>

theorem release_undoes_reserve:
  assumes "wf_table t" and "s < length t" and "sc_state (t ! s) \<noteq> SEmpty" and "accounts_ok r t"
    and "\<forall>x \<in> set t. scope_limit r x < U64_MAX" and "amount \<le> U64_MAX"
    and "reserve t s r amount = (t', True)"
  shows "release t' s r amount = t"
proof -
  have adm: "\<forall>i \<in> set (chain_of t s). admits r amount (t ! i)"
    and t': "t' = upd_all (chain_of t s) (charge r amount) t"
    using reserve_exact [OF assms(1-4,6)] assms(7) by (auto split: if_splits)
  have "chain_of t' s = chain_of t s" unfolding t' by (rule same_tree_chain [OF charge_tree])
  moreover have "saturating_take (account r) (set_account r) amount (charge r amount (t ! i)) = t ! i"
    if "i \<in> set (chain_of t s)" for i
  proof -
    have "scope_limit r (t ! i) < U64_MAX" using assms(5) chain_in_range [OF that] by simp
    then have "account r (t ! i) + amount \<le> U64_MAX"
      using adm that by (auto simp: admits_def sat_add64_def)
    then show ?thesis by (simp add: charge_def saturating_take_def)
  qed
  ultimately show ?thesis
    unfolding release_def t' by (simp add: upd_all_cancel [OF chain_distinct [OF assms(1-3)]])
qed

lemma release_undoes_reserve_witness:
  "release two_scopes_after (Suc 0) MemoryPages 3 = two_scopes"
  by (rule release_undoes_reserve [OF two_scopes_ok(1,2,4,3,5) three_u64 two_scopes_reserve])

end
