(* ===== verification/Bounded_Counter.thy ===== *)
theory Bounded_Counter
  imports Scope_Accounts
begin

text \<open>
  One ceiling counter of a scope under interleaving. Charges are not taken under a lock: a processor's
  \<open>bounded_add\<close> (\<open>kernel/src/scope.rs\<close>) is an atomic \<open>fetch_add\<close>, a comparison on the value it
  returned, and on refusal an atomic \<open>fetch_sub\<close>; \<open>release\<close> lands in one compare-and-swap. The steps of
  several processors interleave. What has been granted never exceeds the ceiling; the counter itself can
  stand above it while a refused add is being undone.
\<close>

section \<open>Processors and their steps\<close>

text \<open>
  Where a processor stands in \<open>bounded_add\<close>: outside it, after the \<open>fetch_add\<close> with the value that
  returned, or past the comparison with the undo still to do.
\<close>

datatype phase = Outside | Added nat nat | Undoing nat

record adder =
  ad_phase :: phase
  ad_granted :: nat

record counter_state =
  ct_value :: nat
  ct_cpus :: "adder list"

definition set_phase :: "nat \<Rightarrow> phase \<Rightarrow> counter_state \<Rightarrow> counter_state" where
  "set_phase i p c = c\<lparr>ct_cpus := upd i (\<lambda>a. a\<lparr>ad_phase := p\<rparr>) (ct_cpus c)\<rparr>"

definition set_granted :: "nat \<Rightarrow> nat \<Rightarrow> counter_state \<Rightarrow> counter_state" where
  "set_granted i g c = c\<lparr>ct_cpus := upd i (\<lambda>a. a\<lparr>ad_granted := g\<rparr>) (ct_cpus c)\<rparr>"

inductive counter_step :: "nat \<Rightarrow> nat \<Rightarrow> counter_state \<Rightarrow> counter_state \<Rightarrow> bool"
  for lim biggest where
  fetch_add: "i < length (ct_cpus c) \<Longrightarrow> ad_phase (ct_cpus c ! i) = Outside \<Longrightarrow> amount \<le> biggest \<Longrightarrow>
    counter_step lim biggest c
      (set_phase i (Added (ct_value c) amount) (c\<lparr>ct_value := wrap_add64 (ct_value c) amount\<rparr>))"
| grant: "i < length (ct_cpus c) \<Longrightarrow> ad_phase (ct_cpus c ! i) = Added previous amount \<Longrightarrow>
    sat_add64 previous amount \<le> lim \<Longrightarrow>
    counter_step lim biggest c
      (set_granted i (ad_granted (ct_cpus c ! i) + amount) (set_phase i Outside c))"
| refuse: "i < length (ct_cpus c) \<Longrightarrow> ad_phase (ct_cpus c ! i) = Added previous amount \<Longrightarrow>
    sat_add64 previous amount > lim \<Longrightarrow>
    counter_step lim biggest c (set_phase i (Undoing amount) c)"
| undo: "i < length (ct_cpus c) \<Longrightarrow> ad_phase (ct_cpus c ! i) = Undoing amount \<Longrightarrow>
    counter_step lim biggest c
      (set_phase i Outside (c\<lparr>ct_value := wrap_sub64 (ct_value c) amount\<rparr>))"
| give_back: "i < length (ct_cpus c) \<Longrightarrow> ad_phase (ct_cpus c ! i) = Outside \<Longrightarrow>
    amount \<le> ad_granted (ct_cpus c ! i) \<Longrightarrow>
    counter_step lim biggest c
      (set_granted i (ad_granted (ct_cpus c ! i) - amount) (c\<lparr>ct_value := ct_value c - amount\<rparr>))"

definition counter_start :: "nat \<Rightarrow> counter_state" where
  "counter_start n = \<lparr>ct_value = 0, ct_cpus = replicate n \<lparr>ad_phase = Outside, ad_granted = 0\<rparr>\<rparr>"

section \<open>The ceiling\<close>

fun in_flight :: "phase \<Rightarrow> nat" where
  "in_flight Outside = 0"
| "in_flight (Added previous amount) = amount"
| "in_flight (Undoing amount) = amount"

text \<open>In flight and bound to be granted: the value the add returned already decided it.\<close>

fun promised :: "nat \<Rightarrow> phase \<Rightarrow> nat" where
  "promised lim (Added previous amount) = (if sat_add64 previous amount \<le> lim then amount else 0)"
| "promised lim _ = 0"

definition granted_total :: "counter_state \<Rightarrow> nat" where
  "granted_total c = sum_list (map ad_granted (ct_cpus c))"

definition in_flight_total :: "counter_state \<Rightarrow> nat" where
  "in_flight_total c = sum_list (map (\<lambda>a. in_flight (ad_phase a)) (ct_cpus c))"

definition promised_total :: "nat \<Rightarrow> counter_state \<Rightarrow> nat" where
  "promised_total lim c = sum_list (map (\<lambda>a. promised lim (ad_phase a)) (ct_cpus c))"

lemmas totals = granted_total_def in_flight_total_def promised_total_def

definition counter_inv :: "nat \<Rightarrow> nat \<Rightarrow> counter_state \<Rightarrow> bool" where
  "counter_inv lim biggest c \<longleftrightarrow>
     lim + length (ct_cpus c) * biggest \<le> U64_MAX \<and>
     (\<forall>a \<in> set (ct_cpus c). in_flight (ad_phase a) \<le> biggest) \<and>
     ct_value c = granted_total c + in_flight_total c \<and>
     granted_total c + promised_total lim c \<le> lim"

lemma in_flight_bound:
  "\<forall>a \<in> set cs. in_flight (ad_phase a) \<le> b \<Longrightarrow> sum_list (map (\<lambda>a. in_flight (ad_phase a)) cs) \<le> length cs * b"
  by (induction cs) auto

lemma counter_value_bound: "counter_inv lim b c \<Longrightarrow> ct_value c \<le> lim + length (ct_cpus c) * b"
  using in_flight_bound [of "ct_cpus c" b] by (simp add: counter_inv_def in_flight_total_def)

text \<open>A processor outside \<open>bounded_add\<close> leaves room for its own add below the representable maximum.\<close>

lemma outside_room:
  assumes "\<forall>a \<in> set cs. in_flight (ad_phase a) \<le> b" and "i < length cs" and "ad_phase (cs ! i) = Outside"
  shows "sum_list (map (\<lambda>a. in_flight (ad_phase a)) cs) + b \<le> length cs * b"
proof -
  let ?f = "\<lambda>a. a\<lparr>ad_phase := Undoing b\<rparr>"
  have "\<forall>a \<in> set (upd i ?f cs). in_flight (ad_phase a) \<le> b"
    using assms by (intro ball_upd) auto
  from in_flight_bound [OF this] show ?thesis
    using sum_map_upd [OF assms(2), of "\<lambda>a. in_flight (ad_phase a)" ?f] assms(3) by simp
qed

text \<open>One processor moves: what its own numbers have to satisfy for the invariant to carry over.\<close>

lemma counter_inv_move:
  assumes inv: "counter_inv lim b c" and i: "i < length (ct_cpus c)"
    and cpus: "ct_cpus c' = upd i f (ct_cpus c)"
    and small: "in_flight (ad_phase (f (ct_cpus c ! i))) \<le> b"
    and balance: "ct_value c' + ad_granted (ct_cpus c ! i) + in_flight (ad_phase (ct_cpus c ! i)) =
      ct_value c + ad_granted (f (ct_cpus c ! i)) + in_flight (ad_phase (f (ct_cpus c ! i)))"
    and promise: "granted_total c + promised_total lim c + ad_granted (f (ct_cpus c ! i)) +
        promised lim (ad_phase (f (ct_cpus c ! i))) \<le>
      lim + ad_granted (ct_cpus c ! i) + promised lim (ad_phase (ct_cpus c ! i))"
  shows "counter_inv lim b c'"
proof -
  note sums = sum_map_upd [OF i, of _ f]
  have "\<forall>a \<in> set (ct_cpus c'). in_flight (ad_phase a) \<le> b"
    unfolding cpus using inv small by (intro ball_upd) (simp_all add: counter_inv_def)
  then show ?thesis
    using inv balance promise sums [of ad_granted] sums [of "\<lambda>a. in_flight (ad_phase a)"]
      sums [of "\<lambda>a. promised lim (ad_phase a)"]
    by (simp add: counter_inv_def totals cpus)
qed

lemma promised_le_in_flight: "promised_total lim c \<le> in_flight_total c"
  unfolding totals
proof (intro sum_list_mono)
  show "promised lim (ad_phase a) \<le> in_flight (ad_phase a)" for a by (cases "ad_phase a") auto
qed

lemma counter_fetch_add:
  assumes inv: "counter_inv lim b c" and i: "i < length (ct_cpus c)" "ad_phase (ct_cpus c ! i) = Outside"
    and amount: "amount \<le> b"
  shows "counter_inv lim b
    (set_phase i (Added (ct_value c) amount) (c\<lparr>ct_value := wrap_add64 (ct_value c) amount\<rparr>))"
proof -
  have room: "ct_value c + amount \<le> U64_MAX"
    using inv amount outside_room [OF _ i, of b] by (simp add: counter_inv_def totals)
  have "granted_total c + promised_total lim c + promised lim (Added (ct_value c) amount) \<le> lim"
  proof (cases "ct_value c + amount \<le> lim")
    case True
    then show ?thesis using inv promised_le_in_flight [of lim c] by (simp add: counter_inv_def)
  next
    case False
    then show ?thesis using inv room by (simp add: counter_inv_def sat_add64_def)
  qed
  then show ?thesis
    using i amount room
    by (intro counter_inv_move [OF inv i(1), where f = "\<lambda>a. a\<lparr>ad_phase := Added (ct_value c) amount\<rparr>"])
      (simp_all add: set_phase_def)
qed

lemma counter_inv_step:
  assumes "counter_step lim b c c'" and inv: "counter_inv lim b c"
  shows "counter_inv lim b c'"
  using assms
proof (induction rule: counter_step.induct)
  case (fetch_add i c amount)
  then show ?case by (simp add: counter_fetch_add)
next
  case (grant i c previous amount)
  then show ?case
    by (intro counter_inv_move [OF grant(4,1), where f = "\<lambda>a. a\<lparr>ad_phase := Outside, ad_granted := ad_granted (ct_cpus c ! i) + amount\<rparr>"])
      (simp_all add: set_phase_def set_granted_def upd_upd comp_def counter_inv_def)
next
  case (refuse i c previous amount)
  moreover have "in_flight (ad_phase (ct_cpus c ! i)) \<le> b"
    using refuse(1,4) unfolding counter_inv_def by (meson nth_mem)
  ultimately show ?case
    by (intro counter_inv_move [OF refuse(4,1), where f = "\<lambda>a. a\<lparr>ad_phase := Undoing amount\<rparr>"])
      (simp_all add: set_phase_def counter_inv_def)
next
  case (undo i c amount)
  have "amount \<le> ct_value c"
    using undo elem_le_sum_list [of i "map (\<lambda>a. in_flight (ad_phase a)) (ct_cpus c)"]
    by (simp add: counter_inv_def totals)
  moreover have "ct_value c \<le> U64_MAX"
    using counter_value_bound [OF undo(3)] undo(3) by (simp add: counter_inv_def)
  ultimately show ?case
    using undo by (intro counter_inv_move [OF undo(3,1), where f = "\<lambda>a. a\<lparr>ad_phase := Outside\<rparr>"])
      (simp_all add: set_phase_def counter_inv_def)
next
  case (give_back i c amount)
  have "ad_granted (ct_cpus c ! i) \<le> ct_value c"
    using give_back elem_le_sum_list [of i "map ad_granted (ct_cpus c)"]
    by (simp add: counter_inv_def totals)
  moreover have "granted_total c + promised_total lim c \<le> lim" using give_back by (simp add: counter_inv_def)
  ultimately show ?case
    using give_back(1-3) by (intro counter_inv_move [OF give_back(4,1), where f = "\<lambda>a. a\<lparr>ad_granted := ad_granted (ct_cpus c ! i) - amount\<rparr>"])
      (simp_all add: set_granted_def)
qed

lemma counter_run:
  "(counter_step lim b)\<^sup>*\<^sup>* c c' \<Longrightarrow> counter_inv lim b c \<Longrightarrow> counter_inv lim b c'"
  by (induction rule: rtranclp_induct) (auto intro: counter_inv_step)

lemma counter_start_inv: "lim + n * b \<le> U64_MAX \<Longrightarrow> counter_inv lim b (counter_start n)"
  by (simp add: counter_inv_def counter_start_def totals sum_list_replicate)

section \<open>Properties\<close>

text \<open>
  C8. Whatever the interleaving of the processors charging one scope, what they have been granted and
  not given back never exceeds the ceiling. The counter itself always equals the grants plus the adds
  still in flight, so once every processor is outside \<open>bounded_add\<close> it is exactly what was granted.
  (No processor asks for more than \<open>biggest\<close>, which leaves the 64-bit counter room not to wrap.)
\<close>

theorem concurrent_ceiling:
  assumes "(counter_step lim biggest)\<^sup>*\<^sup>* (counter_start n) c" and "lim + n * biggest \<le> U64_MAX"
  shows "granted_total c \<le> lim \<and> ct_value c = granted_total c + in_flight_total c \<and>
    ((\<forall>a \<in> set (ct_cpus c). ad_phase a = Outside) \<longrightarrow> ct_value c = granted_total c)"
proof -
  have inv: "counter_inv lim biggest c"
    using counter_run [OF assms(1) counter_start_inv [OF assms(2)]] .
  moreover have "in_flight_total c = 0" if "\<forall>a \<in> set (ct_cpus c). ad_phase a = Outside"
    using that by (simp add: in_flight_total_def)
  ultimately show ?thesis by (auto simp: counter_inv_def)
qed

lemma race_run:
  "(counter_step 5 5)\<^sup>*\<^sup>* (counter_start 2)
     \<lparr>ct_value = 9, ct_cpus = [\<lparr>ad_phase = Outside, ad_granted = 5\<rparr>, \<lparr>ad_phase = Added 5 4, ad_granted = 0\<rparr>]\<rparr>"
proof -
  let ?c1 = "set_phase 0 (Added 0 5) ((counter_start 2)\<lparr>ct_value := wrap_add64 0 5\<rparr>)"
  let ?c2 = "set_granted 0 (0 + 5) (set_phase 0 Outside ?c1)"
  let ?c3 = "set_phase 1 (Added 5 4) (?c2\<lparr>ct_value := wrap_add64 5 4\<rparr>)"
  have cpus: "replicate 2 x = [x, x]" for x :: adder by (simp add: numeral_2_eq_2)
  note eval = counter_start_def cpus set_phase_def set_granted_def upd_def U64_MAX_def
  have "counter_step 5 5 (counter_start 2) ?c1"
    using counter_step.fetch_add [of 0 "counter_start 2" 5 5 5] by (simp add: eval)
  moreover have "counter_step 5 5 ?c1 ?c2"
    using counter_step.grant [of 0 ?c1 0 5 5 5] by (simp add: eval sat_add64_def)
  moreover have "counter_step 5 5 ?c2 ?c3"
    using counter_step.fetch_add [of 1 ?c2 4 5 5] by (simp add: eval)
  ultimately have "(counter_step 5 5)\<^sup>*\<^sup>* (counter_start 2) ?c3"
    by (meson converse_rtranclp_into_rtranclp rtranclp.rtrancl_refl)
  then show ?thesis by (simp add: eval)
qed

lemma concurrent_ceiling_witness:
  "granted_total \<lparr>ct_value = 9, ct_cpus = [\<lparr>ad_phase = Outside, ad_granted = 5\<rparr>, \<lparr>ad_phase = Added 5 4, ad_granted = 0\<rparr>]\<rparr> \<le> 5"
  using concurrent_ceiling [OF race_run] by (simp add: U64_MAX_def)

text \<open>
  The counter of a scope can be observed above its ceiling: with a ceiling of five, a second
  processor that is about to be refused leaves nine in it until its undo lands. (The comment on
  \<open>bounded_add\<close> says so; the module's introduction says a ceiling is never exceeded, not even
  transiently.)
\<close>

theorem ceiling_transiently_exceeded:
  "\<exists>c. (counter_step 5 5)\<^sup>*\<^sup>* (counter_start 2) c \<and> 5 < ct_value c \<and> granted_total c \<le> 5"
  using race_run by (intro exI conjI) (assumption, simp_all add: granted_total_def)

end
