(* ===== verification/Scope_Lifecycle.thy ===== *)
theory Scope_Lifecycle
  imports Scope_Accounts
begin

text \<open>
  The lifecycle of scopes (\<open>kernel/src/scope.rs\<close>: \<open>set_state\<close>, \<open>reset\<close>, \<open>fence\<close>, \<open>pending\<close>,
  \<open>advance_quiescence\<close>, \<open>any_fenced\<close>, \<open>note_progress\<close>). The states move one way, Open, Fenced, Quiescent,
  Retired; the barrier reaches exactly the open scopes of the fenced subtree, after which nothing in it
  can be charged; quiescence is declared exactly when nothing in the subtree is left to wait for; and
  the global count of fenced scopes that every tick reads is the number of fenced scopes.
\<close>

section \<open>Operations\<close>

text \<open>The table and the \<open>FENCED\<close> count beside it.\<close>

record scope_world =
  sw_scopes :: scope_table
  sw_fenced :: nat

definition set_state :: "scope_id \<Rightarrow> scope_state \<Rightarrow> scope_world \<Rightarrow> scope_world" where
  "set_state i st w =
     (let was = sc_state (sw_scopes w ! i) in
      if was = st then w
      else
        let w1 = w\<lparr>sw_scopes := upd i (\<lambda>s. s\<lparr>sc_state := st\<rparr>) (sw_scopes w)\<rparr>;
            w2 = (if was = SFenced then w1\<lparr>sw_fenced := wrap_sub32 (sw_fenced w1) 1\<rparr> else w1)
        in if st = SFenced then w2\<lparr>sw_fenced := wrap_add32 (sw_fenced w2) 1\<rparr> else w2)"

definition reset :: "scope_id \<Rightarrow> scope_world \<Rightarrow> scope_world" where
  "reset i w =
     (let w1 = set_state i SEmpty w in
      w1\<lparr>sw_scopes := upd i (\<lambda>s. scope_empty\<lparr>sc_generation := sc_generation s\<rparr>) (sw_scopes w1)\<rparr>)"

definition bump_token :: "scope_id \<Rightarrow> scope_world \<Rightarrow> scope_world" where
  "bump_token i w = w\<lparr>sw_scopes :=
     upd i (\<lambda>s. s\<lparr>sc_drain_token := wrap_add64 (sc_drain_token s) 1\<rparr>) (sw_scopes w)\<rparr>"

definition stamp_progress :: "scope_id \<Rightarrow> nat \<Rightarrow> scope_world \<Rightarrow> scope_world" where
  "stamp_progress i now w = w\<lparr>sw_scopes := upd i (\<lambda>s. s\<lparr>sc_last_progress_ns := now\<rparr>) (sw_scopes w)\<rparr>"

definition note_progress :: "scope_id \<Rightarrow> nat \<Rightarrow> scope_world \<Rightarrow> scope_world" where
  "note_progress i now w = bump_token i (stamp_progress i now w)"

definition fence_one :: "scope_id \<Rightarrow> scope_id \<Rightarrow> scope_world \<times> nat \<Rightarrow> scope_world \<times> nat" where
  "fence_one root index = (\<lambda>(w, changed).
     if sc_state (sw_scopes w ! index) \<noteq> SOpen then (w, changed)
     else if \<not> is_within (sw_scopes w) root index then (w, changed)
     else (bump_token index (set_state index SFenced w), Suc changed))"

definition fence :: "scope_id \<Rightarrow> scope_world \<Rightarrow> scope_world \<times> nat" where
  "fence root w = fold (fence_one root) [0..<length (sw_scopes w)] (w, 0)"

record pending =
  pd_threads :: nat
  pd_invocations :: nat
  pd_effects :: nat
  pd_maps :: nat
  pd_undelivered :: nat
  pd_pages :: nat
  pd_metadata :: nat

definition pending_default :: pending where
  "pending_default = \<lparr>pd_threads = 0, pd_invocations = 0, pd_effects = 0, pd_maps = 0,
     pd_undelivered = 0, pd_pages = 0, pd_metadata = 0\<rparr>"

text \<open>The 32-bit sums are checked additions: one that overflows is a panic.\<close>

definition pending_add :: "scope \<Rightarrow> pending \<Rightarrow> pending option" where
  "pending_add s acc = do {
     a \<leftarrow> checked_add32 (pd_threads acc) (sc_threads s);
     b \<leftarrow> checked_add32 (pd_invocations acc) (sc_invocations_pending s);
     c \<leftarrow> checked_add32 (pd_effects acc) (sc_effects_pending s);
     d \<leftarrow> checked_add32 (pd_maps acc) (sc_maps_pending s);
     e \<leftarrow> checked_add32 (pd_undelivered acc) (sc_undelivered_cancelled s);
     Some (acc\<lparr>pd_threads := a, pd_invocations := b, pd_effects := c, pd_maps := d, pd_undelivered := e\<rparr>) }"

definition pending_one :: "scope_table \<Rightarrow> scope_id \<Rightarrow> scope_id \<Rightarrow> pending \<Rightarrow> pending option" where
  "pending_one t root index acc =
     (if sc_state (t ! index) = SEmpty \<or> \<not> is_within t root index then Some acc
      else pending_add (t ! index) acc)"

definition pending_of :: "scope_table \<Rightarrow> scope_id \<Rightarrow> pending option" where
  "pending_of t root = do {
     acc \<leftarrow> fold_opt (pending_one t root) [0..<length t] pending_default;
     node \<leftarrow> nth_opt t root;
     Some (acc\<lparr>pd_pages := sc_memory_pages node, pd_metadata := sc_metadata node\<rparr>) }"

definition advance_one :: "nat \<Rightarrow> scope_id \<Rightarrow> scope_world \<times> nat \<Rightarrow> (scope_world \<times> nat) option" where
  "advance_one now index = (\<lambda>(w, promoted).
     if sc_state (sw_scopes w ! index) \<noteq> SFenced then Some (w, promoted)
     else do {
       obligations \<leftarrow> pending_of (sw_scopes w) index;
       if pd_threads obligations = 0 \<and> pd_invocations obligations = 0 \<and> pd_effects obligations = 0 \<and>
          pd_maps obligations = 0
       then Some (bump_token index (stamp_progress index now (set_state index SQuiescent w)), Suc promoted)
       else Some (w, promoted) })"

definition advance_quiescence :: "nat \<Rightarrow> scope_world \<Rightarrow> (scope_world \<times> nat) option" where
  "advance_quiescence now w = fold_opt (advance_one now) [0..<length (sw_scopes w)] (w, 0)"

definition any_fenced :: "scope_world \<Rightarrow> bool" where
  "any_fenced w \<longleftrightarrow> sw_fenced w \<noteq> 0"

section \<open>The fenced count\<close>

definition count_fenced :: "scope_table \<Rightarrow> nat" where
  "count_fenced t = sum_list (map (\<lambda>s. if sc_state s = SFenced then 1 else 0) t)"

definition fenced_ok :: "scope_world \<Rightarrow> bool" where
  "fenced_ok w \<longleftrightarrow> length (sw_scopes w) \<le> NO_SCOPE \<and> sw_fenced w = count_fenced (sw_scopes w)"

lemma count_fenced_le: "count_fenced t \<le> length t"
  unfolding count_fenced_def by (induction t) auto

lemma count_fenced_pos: "0 < count_fenced t \<longleftrightarrow> (\<exists>s \<in> set t. sc_state s = SFenced)"
  unfolding count_fenced_def by (induction t) auto

lemma count_fenced_upd:
  "i < length t \<Longrightarrow> count_fenced (upd i f t) + (if sc_state (t ! i) = SFenced then 1 else 0) =
     count_fenced t + (if sc_state (f (t ! i)) = SFenced then 1 else 0)"
  using sum_map_upd [of i t "\<lambda>s. if sc_state s = SFenced then 1 else 0" f]
  by (simp add: count_fenced_def)

lemma count_fenced_keep: "(\<And>s. sc_state (f s) = sc_state s) \<Longrightarrow> count_fenced (upd i f t) = count_fenced t"
  using count_fenced_upd [of i t f] by (cases "i < length t") (auto simp: upd_def split: if_splits)

lemma set_state_scopes:
  "i < length (sw_scopes w) \<Longrightarrow>
     sw_scopes (set_state i st w) = upd i (\<lambda>s. s\<lparr>sc_state := st\<rparr>) (sw_scopes w)"
  by (auto simp: set_state_def Let_def upd_def list_eq_iff_nth_eq nth_list_update)

lemma set_state_fenced_ok:
  assumes "fenced_ok w" and i: "i < length (sw_scopes w)"
  shows "fenced_ok (set_state i st w)"
proof (cases "sc_state (sw_scopes w ! i) = st")
  case True
  then show ?thesis using assms by (simp add: set_state_def)
next
  case False
  have small: "count_fenced (upd i (\<lambda>s. s\<lparr>sc_state := st\<rparr>) (sw_scopes w)) \<le> U32_MAX"
    "sw_fenced w \<le> U32_MAX" "sw_fenced w = count_fenced (sw_scopes w)"
    using assms count_fenced_le [of "upd i (\<lambda>s. s\<lparr>sc_state := st\<rparr>) (sw_scopes w)"]
      count_fenced_le [of "sw_scopes w"]
    by (auto simp: fenced_ok_def NO_SCOPE_def U16_MAX_def U32_MAX_def)
  have "sw_fenced (set_state i st w) = count_fenced (upd i (\<lambda>s. s\<lparr>sc_state := st\<rparr>) (sw_scopes w))"
    using False small count_fenced_upd [OF i, of "\<lambda>s. s\<lparr>sc_state := st\<rparr>"]
    by (simp add: set_state_def Let_def split: if_splits)
  then show ?thesis using assms by (simp add: fenced_ok_def set_state_scopes [OF i])
qed

lemma bump_token_fenced_ok [simp]: "fenced_ok (bump_token i w) = fenced_ok w"
  by (simp add: fenced_ok_def bump_token_def count_fenced_keep)

lemma stamp_progress_fenced_ok [simp]: "fenced_ok (stamp_progress i now w) = fenced_ok w"
  by (simp add: fenced_ok_def stamp_progress_def count_fenced_keep)

lemma note_progress_fenced_ok [simp]: "fenced_ok (note_progress i now w) = fenced_ok w"
  by (simp add: note_progress_def)

lemma reset_fenced_ok:
  assumes "fenced_ok w" and i: "i < length (sw_scopes w)"
  shows "fenced_ok (reset i w)"
proof -
  have ok: "fenced_ok (set_state i SEmpty w)" by (rule set_state_fenced_ok [OF assms])
  have "i < length (sw_scopes (set_state i SEmpty w))" "sc_state (sw_scopes (set_state i SEmpty w) ! i) = SEmpty"
    using i by (simp_all add: set_state_scopes [OF i])
  then show ?thesis
    using ok count_fenced_upd [of i "sw_scopes (set_state i SEmpty w)" "\<lambda>s. scope_empty\<lparr>sc_generation := sc_generation s\<rparr>"]
    by (simp add: reset_def Let_def fenced_ok_def scope_empty_def)
qed

lemma reset_scope:
  "i < length (sw_scopes w) \<Longrightarrow> sw_scopes (reset i w) ! i = scope_empty\<lparr>sc_generation := sc_generation (sw_scopes w ! i)\<rparr>"
  by (simp add: reset_def Let_def set_state_scopes)

section \<open>The barrier\<close>

definition fenced_node :: "scope \<Rightarrow> scope" where
  "fenced_node s = s\<lparr>sc_state := SFenced, sc_drain_token := wrap_add64 (sc_drain_token s) 1\<rparr>"

definition fence_hit :: "scope_table \<Rightarrow> scope_id \<Rightarrow> scope_id \<Rightarrow> bool" where
  "fence_hit t root i \<longleftrightarrow> sc_state (t ! i) = SOpen \<and> is_within t root i"

text \<open>A table in which the entries \<open>hit\<close> below \<open>n\<close> have been replaced: how far a sweep has come.\<close>

definition swept :: "(nat \<Rightarrow> bool) \<Rightarrow> ('a \<Rightarrow> 'a) \<Rightarrow> nat \<Rightarrow> 'a list \<Rightarrow> 'a list" where
  "swept hit f n t = map (\<lambda>i. if i < n \<and> hit i then f (t ! i) else t ! i) [0..<length t]"

lemma swept_0 [simp]: "swept hit f 0 t = t"
  by (simp add: swept_def map_nth)

lemma length_swept [simp]: "length (swept hit f n t) = length t"
  by (simp add: swept_def)

lemma nth_swept: "i < length t \<Longrightarrow> swept hit f n t ! i = (if i < n \<and> hit i then f (t ! i) else t ! i)"
  by (simp add: swept_def)

lemma swept_Suc_hit: "n < length t \<Longrightarrow> hit n \<Longrightarrow> swept hit f (Suc n) t = upd n f (swept hit f n t)"
  by (rule nth_equalityI) (auto simp: nth_swept nth_upd less_Suc_eq)

lemma swept_Suc_miss: "\<not> hit n \<Longrightarrow> swept hit f (Suc n) t = swept hit f n t"
  by (rule nth_equalityI) (auto simp: nth_swept less_Suc_eq)

lemma card_below_Suc:
  "card {i. i < Suc n \<and> hit i} = card {i. i < n \<and> hit i} + (if hit n then 1 else 0)"
proof -
  have "{i. i < Suc n \<and> hit i} = (if hit n then insert n {i. i < n \<and> hit i} else {i. i < n \<and> hit i})"
    by (auto simp: less_Suc_eq)
  then show ?thesis by simp
qed

lemma swept_tree:
  assumes "\<And>s. sc_parent (f s) = sc_parent s" "\<And>s. sc_depth (f s) = sc_depth s"
    and "\<And>i. i < length t \<Longrightarrow> hit i \<Longrightarrow> sc_state (f (t ! i)) \<noteq> SEmpty \<and> sc_state (t ! i) \<noteq> SEmpty"
  shows "same_tree t (swept hit f n t)"
  using assms by (simp add: same_tree_def nth_swept)

lemma bump_set_fenced:
  assumes "i < length (sw_scopes w)"
  shows "sw_scopes (bump_token i (set_state i SFenced w)) = upd i fenced_node (sw_scopes w)"
  using assms
  by (simp add: bump_token_def set_state_scopes upd_upd) (simp add: upd_def fenced_node_def)

lemma fence_fold:
  fixes root :: scope_id
  assumes "fenced_ok w" and "n \<le> length (sw_scopes w)"
  defines "hit \<equiv> fence_hit (sw_scopes w) root"
  shows "\<exists>w'. fold (fence_one root) [0..<n] (w, 0) = (w', card {i. i < n \<and> hit i}) \<and>
    sw_scopes w' = swept hit fenced_node n (sw_scopes w) \<and> fenced_ok w'"
  using assms(2)
proof (induction n)
  case 0
  then show ?case using assms(1) by simp
next
  case (Suc n)
  let ?t = "sw_scopes w"
  obtain w' where w': "fold (fence_one root) [0..<n] (w, 0) = (w', card {i. i < n \<and> hit i})"
    "sw_scopes w' = swept hit fenced_node n ?t" "fenced_ok w'"
    using Suc by auto
  have tree: "same_tree ?t (sw_scopes w')"
    unfolding w'(2) by (rule swept_tree) (simp_all add: fenced_node_def hit_def fence_hit_def)
  have n: "n < length (sw_scopes w')" "sw_scopes w' ! n = ?t ! n"
    using Suc.prems by (simp_all add: w'(2) nth_swept)
  have step: "fold (fence_one root) [0..<Suc n] (w, 0) = fence_one root n (w', card {i. i < n \<and> hit i})"
    using w'(1) by simp
  show ?case
  proof (cases "hit n")
    case True
    then have "fence_one root n (w', card {i. i < n \<and> hit i}) =
        (bump_token n (set_state n SFenced w'), card {i. i < Suc n \<and> hit i})"
      using n(2) same_tree_within [OF tree] by (simp add: fence_one_def hit_def fence_hit_def card_below_Suc)
    moreover have "sw_scopes (bump_token n (set_state n SFenced w')) = swept hit fenced_node (Suc n) ?t"
      using Suc.prems True by (simp add: bump_set_fenced [OF n(1)] swept_Suc_hit w'(2))
    ultimately show ?thesis
      unfolding step using set_state_fenced_ok [OF w'(3) n(1), of SFenced] by simp
  next
    case False
    then have "fence_one root n (w', card {i. i < n \<and> hit i}) = (w', card {i. i < Suc n \<and> hit i})"
      using n(2) same_tree_within [OF tree] by (simp add: fence_one_def hit_def fence_hit_def card_below_Suc)
    then show ?thesis unfolding step using w' False by (simp add: swept_Suc_miss)
  qed
qed

lemma fence_result:
  fixes root :: scope_id
  assumes "fenced_ok w"
  defines "hit \<equiv> fence_hit (sw_scopes w) root"
  shows "\<exists>w'. fence root w = (w', card {i. i < length (sw_scopes w) \<and> hit i}) \<and>
    sw_scopes w' = swept hit fenced_node (length (sw_scopes w)) (sw_scopes w) \<and> fenced_ok w'"
  using fence_fold [OF assms(1), of "length (sw_scopes w)" root] by (simp add: fence_def hit_def)

lemma fence_tree: "fenced_ok w \<Longrightarrow> same_tree (sw_scopes w) (sw_scopes (fst (fence root w)))"
  using fence_result [of w root] by (auto intro!: swept_tree simp: fenced_node_def fence_hit_def)

text \<open>A chain with a scope that is not open admits nothing.\<close>

lemma reserve_closed:
  assumes "wf_table t" "s < length t" "sc_state (t ! s) \<noteq> SEmpty" "accounts_ok r t" "amount \<le> U64_MAX"
    and "is_within t i s" "sc_state (t ! i) \<noteq> SOpen"
  shows "reserve t s r amount = (t, False)"
  using reserve_exact [OF assms(1-5)] assms(6,7) by (auto simp: is_within_def admits_def)

section \<open>Quiescence\<close>

definition in_subtree :: "scope_table \<Rightarrow> scope_id \<Rightarrow> scope_id \<Rightarrow> bool" where
  "in_subtree t root i \<longleftrightarrow> sc_state (t ! i) \<noteq> SEmpty \<and> is_within t root i"

definition subtree_sum :: "(scope \<Rightarrow> nat) \<Rightarrow> scope_table \<Rightarrow> scope_id \<Rightarrow> nat list \<Rightarrow> nat" where
  "subtree_sum f t root is = sum_list (map (\<lambda>i. if in_subtree t root i then f (t ! i) else 0) is)"

text \<open>The five 32-bit obligations a scope counts; the last of them does not delay quiescence.\<close>

definition obligations :: "(scope \<Rightarrow> nat) list" where
  "obligations = [sc_threads, sc_invocations_pending, sc_effects_pending, sc_maps_pending,
     sc_undelivered_cancelled]"

definition obligations_bounded :: "scope_table \<Rightarrow> bool" where
  "obligations_bounded t \<longleftrightarrow> (\<forall>f \<in> set obligations. sum_list (map f t) \<le> U32_MAX)"

definition idle :: "scope \<Rightarrow> bool" where
  "idle s \<longleftrightarrow> sc_threads s = 0 \<and> sc_invocations_pending s = 0 \<and> sc_effects_pending s = 0 \<and> sc_maps_pending s = 0"

lemma subtree_sum_le: "subtree_sum f t root [0..<n] \<le> sum_list (map (\<lambda>i. f (t ! i)) [0..<n])"
  unfolding subtree_sum_def by (rule sum_list_mono) simp

lemma subtree_sum_Suc:
  "subtree_sum f t root [0..<Suc n] = subtree_sum f t root [0..<n] + (if in_subtree t root n then f (t ! n) else 0)"
  by (simp add: subtree_sum_def)

lemma pending_one_subtree:
  "pending_one t root i acc = (if in_subtree t root i then pending_add (t ! i) acc else Some acc)"
  by (auto simp: pending_one_def in_subtree_def)

lemma obligation_bound:
  assumes "obligations_bounded t" and "f \<in> set obligations" and "n \<le> length t"
  shows "subtree_sum f t root [0..<n] \<le> U32_MAX"
proof -
  have "sum_list (map (\<lambda>i. f (t ! i)) [0..<n]) = sum_list (map f (take n t))"
    using assms(3) by (intro arg_cong [where f = sum_list] nth_equalityI) simp_all
  also have "\<dots> \<le> sum_list (map f (take n t)) + sum_list (map f (drop n t))" by simp
  also have "\<dots> = sum_list (map f t)"
    unfolding sum_list_append [symmetric] map_append [symmetric] by simp
  also have "\<dots> \<le> U32_MAX" using assms by (simp add: obligations_bounded_def)
  finally show ?thesis using subtree_sum_le [of f t root n] by linarith
qed

definition pending_total :: "scope_table \<Rightarrow> scope_id \<Rightarrow> nat list \<Rightarrow> pending" where
  "pending_total t root is = pending_default\<lparr>pd_threads := subtree_sum sc_threads t root is,
     pd_invocations := subtree_sum sc_invocations_pending t root is,
     pd_effects := subtree_sum sc_effects_pending t root is,
     pd_maps := subtree_sum sc_maps_pending t root is,
     pd_undelivered := subtree_sum sc_undelivered_cancelled t root is\<rparr>"

lemma pending_fold:
  assumes "obligations_bounded t"
  shows "n \<le> length t \<Longrightarrow>
    fold_opt (pending_one t root) [0..<n] pending_default = Some (pending_total t root [0..<n])"
proof (induction n)
  case 0
  then show ?case by (simp add: pending_total_def subtree_sum_def pending_default_def)
next
  case (Suc n)
  have bounds: "subtree_sum f t root [0..<Suc n] \<le> U32_MAX" if "f \<in> set obligations" for f
    by (rule obligation_bound [OF assms that Suc.prems])
  have "pending_one t root n (pending_total t root [0..<n]) = Some (pending_total t root [0..<Suc n])"
    using bounds [of sc_threads] bounds [of sc_invocations_pending] bounds [of sc_effects_pending]
      bounds [of sc_maps_pending] bounds [of sc_undelivered_cancelled]
    unfolding subtree_sum_Suc pending_total_def
    by (cases "in_subtree t root n")
      (simp_all add: pending_one_subtree pending_add_def checked_add32_def obligations_def)
  then show ?case using Suc by (simp add: fold_opt_append)
qed

lemma pending_of_total:
  assumes "obligations_bounded t" and "root < length t"
  shows "pending_of t root = Some ((pending_total t root [0..<length t])\<lparr>
    pd_pages := sc_memory_pages (t ! root), pd_metadata := sc_metadata (t ! root)\<rparr>)"
  using pending_fold [OF assms(1), of "length t" root] assms(2) by (simp add: pending_of_def)

lemma subtree_sum_0:
  "subtree_sum f t root [0..<n] = 0 \<longleftrightarrow> (\<forall>i < n. in_subtree t root i \<longrightarrow> f (t ! i) = 0)"
proof (induction n)
  case 0
  then show ?case by (simp add: subtree_sum_def)
next
  case (Suc n)
  then show ?case unfolding subtree_sum_Suc All_less_Suc by auto
qed

definition quiet :: "scope_table \<Rightarrow> scope_id \<Rightarrow> bool" where
  "quiet t root \<longleftrightarrow> (\<forall>i < length t. in_subtree t root i \<longrightarrow> idle (t ! i))"

definition quiescent_node :: "nat \<Rightarrow> scope \<Rightarrow> scope" where
  "quiescent_node now s = s\<lparr>sc_state := SQuiescent, sc_last_progress_ns := now,
     sc_drain_token := wrap_add64 (sc_drain_token s) 1\<rparr>"

definition quiescence_hit :: "scope_table \<Rightarrow> scope_id \<Rightarrow> bool" where
  "quiescence_hit t i \<longleftrightarrow> sc_state (t ! i) = SFenced \<and> quiet t i"

lemma advance_one_result:
  assumes "obligations_bounded (sw_scopes w)" and "i < length (sw_scopes w)"
  shows "advance_one now i (w, k) = Some
    (if quiescence_hit (sw_scopes w) i
     then (bump_token i (stamp_progress i now (set_state i SQuiescent w)), Suc k) else (w, k))"
  using assms
  by (auto simp: advance_one_def pending_of_total pending_total_def subtree_sum_0 quiescence_hit_def
      quiet_def idle_def)

lemma quiescent_set:
  assumes "i < length (sw_scopes w)"
  shows "sw_scopes (bump_token i (stamp_progress i now (set_state i SQuiescent w))) =
    upd i (quiescent_node now) (sw_scopes w)"
  using assms
  by (simp add: bump_token_def stamp_progress_def set_state_scopes upd_upd)
    (simp add: upd_def quiescent_node_def)

text \<open>Promoting some scopes changes neither the obligations nor whose subtree is quiet.\<close>

lemma swept_quiescent:
  fixes now n :: nat
  assumes "\<And>i. hit i \<Longrightarrow> sc_state (t ! i) = SFenced"
  defines "t' \<equiv> swept hit (quiescent_node now) n t"
  shows "same_tree t t'" "obligations_bounded t' = obligations_bounded t" "quiet t' r = quiet t r"
proof -
  show tree: "same_tree t t'"
    unfolding t'_def using assms(1) by (intro swept_tree) (simp_all add: quiescent_node_def)
  have same: "f (t' ! i) = f (t ! i)" if "f \<in> set obligations" "i < length t" for f i
    using that unfolding t'_def by (auto simp: obligations_def quiescent_node_def nth_swept)
  have "map f t' = map f t" if "f \<in> set obligations" for f
    using same [OF that] same_tree_length [OF tree] by (intro nth_equalityI) simp_all
  then show "obligations_bounded t' = obligations_bounded t" by (simp add: obligations_bounded_def)
  have "idle (t' ! i) = idle (t ! i)" "in_subtree t' r i = in_subtree t r i" if "i < length t" for i
  proof -
    show "idle (t' ! i) = idle (t ! i)"
      using that unfolding t'_def by (simp add: idle_def quiescent_node_def nth_swept)
    show "in_subtree t' r i = in_subtree t r i"
      using same_tree_within [OF tree] tree that by (simp add: in_subtree_def same_tree_def)
  qed
  then show "quiet t' r = quiet t r"
    using same_tree_length [OF tree] by (simp add: quiet_def)
qed

lemma advance_fold:
  assumes ok: "fenced_ok w" and bounded: "obligations_bounded (sw_scopes w)"
  defines "hit \<equiv> quiescence_hit (sw_scopes w)"
  shows "n \<le> length (sw_scopes w) \<Longrightarrow>
    \<exists>w'. fold_opt (advance_one now) [0..<n] (w, 0) = Some (w', card {i. i < n \<and> hit i}) \<and>
      sw_scopes w' = swept hit (quiescent_node now) n (sw_scopes w) \<and> fenced_ok w'"
proof (induction n)
  case 0
  then show ?case using ok by simp
next
  case (Suc n)
  let ?t = "sw_scopes w"
  obtain w' where w': "fold_opt (advance_one now) [0..<n] (w, 0) = Some (w', card {i. i < n \<and> hit i})"
    "sw_scopes w' = swept hit (quiescent_node now) n ?t" "fenced_ok w'"
    using Suc by auto
  have fenced: "sc_state (?t ! i) = SFenced" if "hit i" for i
    using that by (simp add: hit_def quiescence_hit_def)
  note sweep = swept_quiescent [of hit ?t, OF fenced, where n = n and now = now, folded w'(2)]
  have n: "n < length (sw_scopes w')" "sw_scopes w' ! n = ?t ! n"
    using Suc.prems by (simp_all add: w'(2) nth_swept)
  have same: "quiescence_hit (sw_scopes w') n = hit n"
    using n(2) sweep(3) by (simp add: quiescence_hit_def hit_def)
  have step: "fold_opt (advance_one now) [0..<Suc n] (w, 0) = advance_one now n (w', card {i. i < n \<and> hit i})"
    using w'(1) by (simp add: fold_opt_append split: option.split)
  have one: "advance_one now n (w', card {i. i < n \<and> hit i}) = Some
      (if hit n then (bump_token n (stamp_progress n now (set_state n SQuiescent w')), Suc (card {i. i < n \<and> hit i}))
       else (w', card {i. i < n \<and> hit i}))"
    using advance_one_result [OF _ n(1)] sweep(2) bounded same by simp
  show ?case
  proof (cases "hit n")
    case True
    then have "sw_scopes (bump_token n (stamp_progress n now (set_state n SQuiescent w'))) =
        swept hit (quiescent_node now) (Suc n) ?t"
      using Suc.prems by (simp add: quiescent_set [OF n(1)] swept_Suc_hit w'(2))
    then show ?thesis
      unfolding step one using True set_state_fenced_ok [OF w'(3) n(1), of SQuiescent]
      by (simp add: card_below_Suc)
  next
    case False
    then show ?thesis unfolding step one using w' by (simp add: swept_Suc_miss card_below_Suc)
  qed
qed

section \<open>Properties\<close>

text \<open>
  C4. Fencing a scope is a barrier over exactly its subtree: it moves every open scope at or below the
  root to Fenced, bumps its drain token, returns how many it moved, and changes nothing else; and from
  then on no scope at or below the root can be charged any amount of any resource.
\<close>

theorem fence_is_barrier:
  assumes "fenced_ok w" and "wf_table (sw_scopes w)" and "root < length (sw_scopes w)"
    and "\<forall>r. accounts_ok r (sw_scopes w)" and "fence root w = (w', k)"
  shows "length (sw_scopes w') = length (sw_scopes w) \<and>
    (\<forall>i < length (sw_scopes w). sw_scopes w' ! i =
       (if sc_state (sw_scopes w ! i) = SOpen \<and> is_within (sw_scopes w) root i
        then fenced_node (sw_scopes w ! i) else sw_scopes w ! i)) \<and>
    k = card {i. i < length (sw_scopes w) \<and> sc_state (sw_scopes w ! i) = SOpen \<and> is_within (sw_scopes w) root i} \<and>
    fenced_ok w' \<and>
    (\<forall>s r amount. s < length (sw_scopes w) \<and> sc_state (sw_scopes w ! s) \<noteq> SEmpty \<and>
       is_within (sw_scopes w) root s \<and> amount \<le> U64_MAX \<longrightarrow>
       reserve (sw_scopes w') s r amount = (sw_scopes w', False))"
proof -
  let ?t = "sw_scopes w" and ?t' = "sw_scopes w'"
  have res: "?t' = swept (fence_hit ?t root) fenced_node (length ?t) ?t" "fenced_ok w'"
    "k = card {i. i < length ?t \<and> fence_hit ?t root i}"
    using fence_result [OF assms(1), of root] assms(5) by auto
  have tree: "same_tree ?t ?t'" using fence_tree [OF assms(1), of root] assms(5) by simp
  have nth: "?t' ! i = (if fence_hit ?t root i then fenced_node (?t ! i) else ?t ! i)" if "i < length ?t" for i
    using that by (simp add: res(1) nth_swept)
  have ok: "accounts_ok r ?t'" for r
  proof -
    have "account r (fenced_node s) = account r s" "scope_limit r (fenced_node s) = scope_limit r s" for s
      by (cases r; simp add: fenced_node_def)+
    then show ?thesis
      using assms(4) by (simp add: accounts_ok_def all_set_conv_all_nth res(1) nth_swept)
  qed
  have "sc_state (?t' ! root) \<noteq> SOpen"
    using nth [OF assms(3)] within_self [OF assms(3)] by (auto simp: fence_hit_def fenced_node_def)
  then have "reserve ?t' s r amount = (?t', False)"
    if "s < length ?t" "sc_state (?t ! s) \<noteq> SEmpty" "is_within ?t root s" "amount \<le> U64_MAX" for s r amount
    using that tree same_tree_within [OF tree]
    by (intro reserve_closed [OF same_tree_wf [OF tree assms(2)] _ _ ok]) (auto simp: same_tree_def)
  then show ?thesis using nth res same_tree_length [OF tree] by (simp add: fence_hit_def)
qed

lemma fence_is_barrier_witness:
  "reserve (sw_scopes (fst (fence 0 \<lparr>sw_scopes = two_scopes, sw_fenced = 0\<rparr>))) (Suc 0) MemoryPages 3 =
     (sw_scopes (fst (fence 0 \<lparr>sw_scopes = two_scopes, sw_fenced = 0\<rparr>)), False)"
proof -
  let ?w = "\<lparr>sw_scopes = two_scopes, sw_fenced = 0\<rparr>"
  have "fenced_ok ?w"
    by (simp add: fenced_ok_def count_fenced_def two_scopes_def NO_SCOPE_def U16_MAX_def)
  moreover have "\<forall>r. accounts_ok r (sw_scopes ?w)"
  proof
    show "accounts_ok r (sw_scopes ?w)" for r
      by (cases r) (simp_all add: accounts_ok_def two_scopes_def scope_empty_def limits_default_def U64_MAX_def)
  qed
  moreover have "is_within two_scopes 0 (Suc 0)" by (simp add: is_within_def two_scopes_chain)
  ultimately show ?thesis
    using fence_is_barrier [of ?w 0, OF _ _ _ _ prod.collapse [symmetric]] two_scopes_ok(1,2,4) three_u64
    by (simp only: scope_world.simps) (meson Suc_lessD)
qed

text \<open>
  C5. Quiescence is declared exactly when it is true: while the 32-bit obligation counters of the table
  cannot overflow, a pass returns, and it promotes precisely the fenced scopes whose whole subtree has no
  thread, no unresolved invocation, no unresolved effect and no mapping left, whatever was promoted
  earlier in the same pass; it touches no other scope and keeps the fenced count exact.
\<close>

theorem quiescence_exact:
  assumes "fenced_ok w" and "obligations_bounded (sw_scopes w)"
  shows "\<exists>w' k. advance_quiescence now w = Some (w', k) \<and>
    length (sw_scopes w') = length (sw_scopes w) \<and>
    (\<forall>i < length (sw_scopes w). sw_scopes w' ! i =
       (if sc_state (sw_scopes w ! i) = SFenced \<and> quiet (sw_scopes w) i
        then quiescent_node now (sw_scopes w ! i) else sw_scopes w ! i)) \<and>
    k = card {i. i < length (sw_scopes w) \<and> sc_state (sw_scopes w ! i) = SFenced \<and> quiet (sw_scopes w) i} \<and>
    fenced_ok w'"
  using advance_fold [OF assms, of "length (sw_scopes w)" now]
  by (auto simp: advance_quiescence_def nth_swept quiescence_hit_def)

lemma quiescence_exact_witness:
  "\<exists>w' k. advance_quiescence 7 \<lparr>sw_scopes = [scope_empty\<lparr>sc_state := SFenced\<rparr>], sw_fenced = 1\<rparr> = Some (w', k)"
proof -
  let ?w = "\<lparr>sw_scopes = [scope_empty\<lparr>sc_state := SFenced\<rparr>], sw_fenced = 1\<rparr>"
  have "fenced_ok ?w" "obligations_bounded (sw_scopes ?w)"
    by (simp_all add: fenced_ok_def count_fenced_def NO_SCOPE_def U16_MAX_def obligations_bounded_def
        obligations_def scope_empty_def)
  from quiescence_exact [OF this, of 7] show ?thesis by blast
qed

text \<open>
  The answer every timer tick asks for is right: the count of fenced scopes is non-zero exactly when
  some scope of the table is fenced, and state changes, resets, fences and progress notes keep it so.
\<close>

theorem any_fenced_exact:
  assumes "fenced_ok w" and "i < length (sw_scopes w)"
  shows "(any_fenced w \<longleftrightarrow> (\<exists>s \<in> set (sw_scopes w). sc_state s = SFenced)) \<and>
    fenced_ok (set_state i st w) \<and> fenced_ok (reset i w) \<and> fenced_ok (fst (fence i w)) \<and>
    fenced_ok (note_progress i now w)"
proof -
  have "fenced_ok (fst (fence i w))" using fence_result [OF assms(1), of i] by auto
  moreover have "any_fenced w \<longleftrightarrow> 0 < count_fenced (sw_scopes w)"
    using assms(1) by (simp add: any_fenced_def fenced_ok_def)
  ultimately show ?thesis
    using assms set_state_fenced_ok reset_fenced_ok by (simp add: count_fenced_pos)
qed

lemma any_fenced_exact_witness:
  "any_fenced \<lparr>sw_scopes = [scope_empty\<lparr>sc_state := SFenced\<rparr>], sw_fenced = 1\<rparr>"
proof -
  let ?w = "\<lparr>sw_scopes = [scope_empty\<lparr>sc_state := SFenced\<rparr>], sw_fenced = 1\<rparr>"
  have "fenced_ok ?w"
    by (simp add: fenced_ok_def count_fenced_def NO_SCOPE_def U16_MAX_def)
  from any_fenced_exact [OF this, of 0 SOpen 0] show ?thesis by simp
qed

end
