(* ===== verification/Scope_Cpu.thy ===== *)
theory Scope_Cpu
  imports Scope_Lifecycle
begin

text \<open>
  Processor time (\<open>kernel/src/scope.rs\<close> from \<open>roll_window\<close> to \<open>drop_parallelism\<close>, and the per-processor
  credits of \<open>kernel/src/sched.rs\<close>). A dispatch may only spend what was reserved from the window's pool
  in the scope and every ancestor; a window that closes over budget starts the next one already
  consumed by the excess. The operations are modelled as they run to completion; the roll of a window
  holds its own lock, and the roll sequence number that a reservation checks is part of the state.
\<close>

section \<open>Operations\<close>

definition DEBT_RECORD_LIMIT :: nat where "DEBT_RECORD_LIMIT = 16"

record credit =
  cr_window :: nat
  cr_reserved_ns :: nat
  cr_pending_ns :: nat

definition credit_empty :: credit where
  "credit_empty = \<lparr>cr_window = 0, cr_reserved_ns = 0, cr_pending_ns = 0\<rparr>"

text \<open>The scopes, the roll sequence, and each processor's credit for each scope.\<close>

record cpu_world =
  cw_scopes :: scope_table
  cw_roll_seq :: nat
  cw_credits :: "credit list list"

definition charge_cpu :: "scope_table \<Rightarrow> scope_id \<Rightarrow> nat \<Rightarrow> bool \<Rightarrow> scope_table" where
  "charge_cpu t s ns recovery =
     (if ns = 0 then t
      else upd_all (chain_of t s) (\<lambda>n.
        let n1 = n\<lparr>sc_cpu_total_ns := wrap_add64 (sc_cpu_total_ns n) ns\<rparr> in
        if recovery then n1\<lparr>sc_closure_used_ns := wrap_add64 (sc_closure_used_ns n) ns\<rparr>
        else n1\<lparr>sc_cpu_window_ns := wrap_add64 (sc_cpu_window_ns n) ns\<rparr>) t)"

definition cpu_committed :: "bool \<Rightarrow> scope \<Rightarrow> nat" where
  "cpu_committed recovery s = (if recovery then sc_closure_committed_ns s else sc_cpu_committed_ns s)"

definition set_cpu_committed :: "bool \<Rightarrow> nat \<Rightarrow> scope \<Rightarrow> scope" where
  "set_cpu_committed recovery v s =
     (if recovery then s\<lparr>sc_closure_committed_ns := v\<rparr> else s\<lparr>sc_cpu_committed_ns := v\<rparr>)"

definition cpu_limit :: "bool \<Rightarrow> scope \<Rightarrow> nat" where
  "cpu_limit recovery s =
     (if recovery then lm_closure_reserve_ns (sc_limits s) else lm_cpu_budget_ns (sc_limits s))"

definition commit_excess :: "scope_table \<Rightarrow> scope_id \<Rightarrow> nat \<Rightarrow> bool \<Rightarrow> scope_table" where
  "commit_excess t s ns recovery =
     (if ns = 0 then t
      else upd_all (chain_of t s)
        (\<lambda>n. set_cpu_committed recovery (wrap_add64 (cpu_committed recovery n) ns) n) t)"

definition cpu_usable :: "bool \<Rightarrow> scope \<Rightarrow> bool" where
  "cpu_usable recovery s =
     (if recovery then sc_state s \<noteq> SRetired \<and> sc_state s \<noteq> SEmpty
      else sc_state s = SOpen \<or> sc_state s = SFenced)"

fun available_loop :: "bool \<Rightarrow> scope_table \<Rightarrow> scope_id list \<Rightarrow> nat \<Rightarrow> nat" where
  "available_loop recovery t [] available = (if available = U64_MAX then 0 else available)"
| "available_loop recovery t (i # rest) available =
     (if \<not> cpu_usable recovery (t ! i) then 0
      else available_loop recovery t rest
        (min available (cpu_limit recovery (t ! i) - cpu_committed recovery (t ! i))))"

definition available_ns :: "scope_table \<Rightarrow> scope_id \<Rightarrow> bool \<Rightarrow> nat" where
  "available_ns t s recovery = available_loop recovery t (chain_of t s) U64_MAX"

text \<open>
  The peaks a granted ordinary reservation records. The value \<open>peak\<close> kept for the leaf is the one its
  own add returned.
\<close>

definition record_peak :: "scope_id \<Rightarrow> nat \<Rightarrow> scope_id \<Rightarrow> scope_table \<Rightarrow> scope_table" where
  "record_peak s peak index = upd index (\<lambda>n.
     let committed = (if index = s then peak else sc_cpu_committed_ns n) in
     if sc_max_committed_ns n < committed then n\<lparr>sc_max_committed_ns := max (sc_max_committed_ns n) committed\<rparr> else n)"

text \<open>
  Nothing interleaves with the operation here, so the second reading of the sequence is the first; an
  odd sequence, a roll in progress, is what it spins on (\<open>None\<close>). An index past the table is a panic.
\<close>

definition reserve_cpu :: "cpu_world \<Rightarrow> scope_id \<Rightarrow> nat \<Rightarrow> bool \<Rightarrow> nat \<Rightarrow> (cpu_world \<times> bool) option" where
  "reserve_cpu w s amount recovery window =
     (let t = cw_scopes w; nodes = chain_of t s in
      if odd (cw_roll_seq w) then None
      else do {
        leaf \<leftarrow> nth_opt t s;
        if sc_window_index leaf \<noteq> window then Some (w, False)
        else case charge_nodes (\<lambda>_. True) (cpu_committed recovery) (set_cpu_committed recovery)
                    (cpu_limit recovery) amount 0 nodes t of
          (t', charged, Some binding) \<Rightarrow>
            Some (w\<lparr>cw_scopes := uncharge_nodes (cpu_committed recovery) (set_cpu_committed recovery)
              amount (take charged nodes) t'\<rparr>, False)
        | (t', charged, None) \<Rightarrow>
            (let peak = sat_add64 (cpu_committed recovery leaf) amount in
             Some (w\<lparr>cw_scopes := (if recovery then t' else fold (record_peak s peak) nodes t')\<rparr>, True)) })"

definition return_cpu :: "scope_table \<Rightarrow> scope_id \<Rightarrow> nat \<Rightarrow> bool \<Rightarrow> nat \<Rightarrow> scope_table" where
  "return_cpu t s amount recovery window =
     (if amount = 0 then t
      else upd_all (chain_of t s) (\<lambda>n.
        if sc_window_index n \<noteq> window then n
        else saturating_take (cpu_committed recovery) (set_cpu_committed recovery) amount n) t)"

text \<open>Simultaneity and parallelism slots.\<close>

fun take_running_loop :: "scope_id list \<Rightarrow> nat \<Rightarrow> scope_table \<Rightarrow> scope_table \<times> nat" where
  "take_running_loop [] charged t = (t, charged)"
| "take_running_loop (index # rest) charged t =
     (let previous = sc_running (t ! index);
          t1 = upd index (\<lambda>n. n\<lparr>sc_running := wrap_add32 previous 1\<rparr>) t
      in if previous \<ge> lm_parallelism (sc_limits (t ! index))
         then (upd index (\<lambda>n. n\<lparr>sc_running := wrap_sub32 (sc_running n) 1\<rparr>) t1, charged)
         else take_running_loop rest (Suc charged)
           (upd index (\<lambda>n. if sc_max_running n < previous + 1
              then n\<lparr>sc_max_running := max (sc_max_running n) (previous + 1)\<rparr> else n) t1))"

definition take_running :: "scope_table \<Rightarrow> scope_id \<Rightarrow> scope_table \<times> bool" where
  "take_running t s =
     (let nodes = chain_of t s in
      case take_running_loop nodes 0 t of (t', charged) \<Rightarrow>
        if charged = length nodes then (t', True)
        else (upd_all (take charged nodes) (\<lambda>n. n\<lparr>sc_running := wrap_sub32 (sc_running n) 1\<rparr>) t', False))"

definition drop_running :: "scope_table \<Rightarrow> scope_id \<Rightarrow> scope_table" where
  "drop_running t s = upd_all (chain_of t s) (\<lambda>n.
     let previous = sc_running n; n1 = n\<lparr>sc_running := wrap_sub32 previous 1\<rparr> in
     if previous = 0 then n1\<lparr>sc_running := 0\<rparr> else n1) t"

definition peak_running :: "scope_table \<Rightarrow> nat" where
  "peak_running t = fold max (map sc_max_running t) 0"

definition has_parallelism :: "scope_table \<Rightarrow> scope_id \<Rightarrow> bool" where
  "has_parallelism t s =
     list_all (\<lambda>i. sc_parallelism_used (t ! i) < lm_parallelism (sc_limits (t ! i))) (chain_of t s)"

definition take_parallelism :: "scope_table \<Rightarrow> scope_id \<Rightarrow> scope_table" where
  "take_parallelism t s =
     upd_all (chain_of t s) (\<lambda>n. n\<lparr>sc_parallelism_used := wrap_add32 (sc_parallelism_used n) 1\<rparr>) t"

definition drop_parallelism :: "scope_table \<Rightarrow> scope_id \<Rightarrow> scope_table" where
  "drop_parallelism t s =
     upd_all (chain_of t s) (\<lambda>n. n\<lparr>sc_parallelism_used := sc_parallelism_used n - 1\<rparr>) t"

section \<open>Credits\<close>

definition credit_at :: "cpu_world \<Rightarrow> nat \<Rightarrow> scope_id \<Rightarrow> credit" where
  "credit_at w cpu s = cw_credits w ! cpu ! s"

definition upd_credit :: "nat \<Rightarrow> scope_id \<Rightarrow> (credit \<Rightarrow> credit) \<Rightarrow> cpu_world \<Rightarrow> cpu_world" where
  "upd_credit cpu s f w = w\<lparr>cw_credits := upd cpu (upd s f) (cw_credits w)\<rparr>"

definition flush_pending_one :: "scope_id \<Rightarrow> nat \<Rightarrow> cpu_world \<Rightarrow> cpu_world" where
  "flush_pending_one s cpu w =
     (let pending = cr_pending_ns (credit_at w cpu s);
          w1 = upd_credit cpu s (\<lambda>c. c\<lparr>cr_pending_ns := 0\<rparr>) w
      in w1\<lparr>cw_scopes := charge_cpu (cw_scopes w1) s pending False\<rparr>)"

definition flush_pending_charges :: "scope_id \<Rightarrow> cpu_world \<Rightarrow> cpu_world" where
  "flush_pending_charges s w = fold (flush_pending_one s) [0..<length (cw_credits w)] w"

definition pending_charges :: "cpu_world \<Rightarrow> scope_id \<Rightarrow> nat option" where
  "pending_charges w s = fold_opt (\<lambda>row acc. checked_add64 acc (cr_pending_ns (row ! s))) (cw_credits w) 0"

definition forget_credits :: "scope_id \<Rightarrow> cpu_world \<Rightarrow> cpu_world" where
  "forget_credits s w = w\<lparr>cw_credits := map (upd s (\<lambda>_. credit_empty)) (cw_credits w)\<rparr>"

definition release_credit :: "nat \<Rightarrow> scope_id \<Rightarrow> cpu_world \<Rightarrow> cpu_world" where
  "release_credit cpu s w =
     (let window = cr_window (credit_at w cpu s);
          reserved = cr_reserved_ns (credit_at w cpu s);
          w1 = upd_credit cpu s (\<lambda>c. c\<lparr>cr_reserved_ns := 0\<rparr>) w;
          w2 = (if reserved \<noteq> 0 then w1\<lparr>cw_scopes := return_cpu (cw_scopes w1) s reserved False window\<rparr> else w1);
          pending = cr_pending_ns (credit_at w2 cpu s);
          w3 = upd_credit cpu s (\<lambda>c. c\<lparr>cr_pending_ns := 0\<rparr>) w2
      in w3\<lparr>cw_scopes := charge_cpu (cw_scopes w3) s pending False\<rparr>)"

definition release_credits :: "nat \<Rightarrow> cpu_world \<Rightarrow> cpu_world" where
  "release_credits cpu w = fold (\<lambda>s w.
     if cr_reserved_ns (credit_at w cpu s) \<noteq> 0 \<or> cr_pending_ns (credit_at w cpu s) \<noteq> 0
     then release_credit cpu s w else w) [0..<length (cw_scopes w)] w"

definition credit_refill_ns :: "nat \<Rightarrow> nat" where
  "credit_refill_ns window_left = min (2 * CPU_QUANTUM_NS) window_left"

section \<open>The window\<close>

definition roll_node :: "nat \<Rightarrow> scope \<Rightarrow> scope" where
  "roll_node window node =
     (let closing = sc_cpu_window_ns node;
          budget = lm_cpu_budget_ns (sc_limits node);
          overrun = closing - budget;
          written = (overrun \<noteq> 0 \<and> sc_debt_records node < DEBT_RECORD_LIMIT);
          n1 = (if written then node\<lparr>sc_debt_records := wrap_add32 (sc_debt_records node) 1\<rparr> else node);
          n2 = n1\<lparr>sc_windows_closed := wrap_add64 (sc_windows_closed n1) 1,
                  sc_max_window_ns := max (sc_max_window_ns n1) closing\<rparr>;
          opened = sc_window_opened_ns n2;
          charged = closing - opened;
          admissible = budget - opened;
          n3 = n2\<lparr>sc_max_charged_in_window_ns := max (sc_max_charged_in_window_ns n2) charged,
                  sc_max_excess_ns := max (sc_max_excess_ns n2) (charged - admissible)\<rparr>;
          n4 = (if overrun \<noteq> 0
                then n3\<lparr>sc_overruns := wrap_add64 (sc_overruns n3) 1,
                        sc_max_overrun_ns := max (sc_max_overrun_ns n3) overrun\<rparr>
                else n3)
      in n4\<lparr>sc_cpu_debt_ns := wrap_add64 (sc_cpu_debt_ns n4) overrun,
            sc_cpu_window_ns := overrun, sc_cpu_committed_ns := overrun, sc_window_opened_ns := overrun,
            sc_closure_used_ns := 0, sc_closure_committed_ns := 0, sc_window_index := window\<rparr>)"

definition stale :: "nat \<Rightarrow> scope \<Rightarrow> bool" where
  "stale window node \<longleftrightarrow> sc_state node \<noteq> SEmpty \<and> sc_window_index node \<noteq> window"

definition roll_one :: "nat \<Rightarrow> scope_id \<Rightarrow> cpu_world \<Rightarrow> cpu_world" where
  "roll_one window index w =
     (if \<not> stale window (cw_scopes w ! index) then w
      else w\<lparr>cw_scopes := upd index (roll_node window) (cw_scopes w),
             cw_roll_seq := wrap_add64 (wrap_add64 (cw_roll_seq w) 1) 1\<rparr>)"

definition flush_all :: "cpu_world \<Rightarrow> cpu_world" where
  "flush_all w = fold (\<lambda>index w.
     if sc_state (cw_scopes w ! index) \<noteq> SEmpty then flush_pending_charges index w else w)
     [0..<length (cw_scopes w)] w"

definition roll_window :: "nat \<Rightarrow> cpu_world \<Rightarrow> cpu_world" where
  "roll_window now_ns w =
     (let window = now_ns div CPU_WINDOW_NS in
      if \<not> list_ex (stale window) (cw_scopes w) then w
      else fold (roll_one window) [0..<length (cw_scopes w)] (flush_all w))"

section \<open>A dispatch\<close>

definition window_left :: "nat \<Rightarrow> nat" where
  "window_left now = CPU_WINDOW_NS - now mod CPU_WINDOW_NS"

text \<open>
  \<open>take_grant cpu s recovery now\<close>: the execution granted to one dispatch of a thread charged to \<open>s\<close>.
  The compare-and-swap at the end succeeds at once when nothing interleaves.
\<close>

definition grant_from_credit :: "nat \<Rightarrow> scope_id \<Rightarrow> nat \<Rightarrow> nat \<Rightarrow> cpu_world \<Rightarrow> cpu_world \<times> nat" where
  "grant_from_credit cpu s ceiling have w =
     (let grant = min (min have ceiling) CPU_QUANTUM_NS in
      if grant = 0 then (w, 0)
      else (upd_credit cpu s (\<lambda>c. c\<lparr>cr_reserved_ns := have - grant\<rparr>) w, grant))"

definition refresh_credit :: "nat \<Rightarrow> scope_id \<Rightarrow> nat \<Rightarrow> cpu_world \<Rightarrow> cpu_world" where
  "refresh_credit cpu s window w =
     (if cr_window (credit_at w cpu s) = window then w
      else
        let w1 = upd_credit cpu s (\<lambda>c. c\<lparr>cr_reserved_ns := 0\<rparr>) w;
            pending = cr_pending_ns (credit_at w1 cpu s);
            w2 = upd_credit cpu s (\<lambda>c. c\<lparr>cr_pending_ns := 0\<rparr>) w1;
            w3 = w2\<lparr>cw_scopes := charge_cpu (cw_scopes w2) s pending False\<rparr>
        in upd_credit cpu s (\<lambda>c. c\<lparr>cr_window := window\<rparr>) w3)"

definition credit_want :: "nat \<Rightarrow> nat \<Rightarrow> nat \<Rightarrow> nat" where
  "credit_want available ceiling have =
     (let share = min (max ((available + 1) div 2) CPU_QUANTUM_NS) available
      in min (ceiling - have) share)"

definition take_grant :: "nat \<Rightarrow> scope_id \<Rightarrow> bool \<Rightarrow> nat \<Rightarrow> cpu_world \<Rightarrow> (cpu_world \<times> nat) option" where
  "take_grant cpu s recovery now w =
     (let window = now div CPU_WINDOW_NS; left = window_left now in
      if recovery then
        (let amount = min (min CPU_QUANTUM_NS (available_ns (cw_scopes w) s True)) left in
         if amount = 0 then Some (w, 0)
         else do {
           (w1, ok) \<leftarrow> reserve_cpu w s amount True window;
           Some (w1, if ok then amount else 0) })
      else
        (let w1 = refresh_credit cpu s window w;
             ceiling = credit_refill_ns left;
             have = cr_reserved_ns (credit_at w1 cpu s)
         in if have < min CPU_QUANTUM_NS left
            then
              (let want = credit_want (available_ns (cw_scopes w1) s False) ceiling have
               in if want = 0
                  then if have = 0 then Some (w1, 0) else Some (grant_from_credit cpu s ceiling have w1)
                  else do {
                    (w2, ok) \<leftarrow> reserve_cpu w1 s want False window;
                    if ok then do {
                      have2 \<leftarrow> checked_add64 (cr_reserved_ns (credit_at w2 cpu s)) want;
                      Some (grant_from_credit cpu s ceiling have2
                        (upd_credit cpu s (\<lambda>c. c\<lparr>cr_reserved_ns := wrap_add64 (cr_reserved_ns c) want\<rparr>) w2)) }
                    else if have = 0 then Some (w2, 0)
                    else Some (grant_from_credit cpu s ceiling have w2) })
            else Some (grant_from_credit cpu s ceiling have w1)))"

end
