(* ===== verification/Scope_Budget.thy ===== *)
theory Scope_Budget
  imports Scope_Cpu
begin

text \<open>
  What a window's grants come to: a reservation is paid for in the scope and every ancestor or changes
  nothing, a grant moves time from the pool to a credit and from a credit to a dispatch without making any,
  and giving a credit back or committing an excess keeps the balance. The invariant \<open>dispatch_inv\<close> carries
  the balance through a window; the dispatches themselves are in \<open>Dispatch\<close>.
\<close>

section \<open>Reserving time on a chain\<close>

lemma set_cpu_committed_simps [simp]:
  "cpu_committed r (set_cpu_committed r v s) = v"
  "r \<noteq> q \<Longrightarrow> cpu_committed r (set_cpu_committed q v s) = cpu_committed r s"
  "sc_state (set_cpu_committed r v s) = sc_state s" "sc_parent (set_cpu_committed r v s) = sc_parent s"
  "sc_depth (set_cpu_committed r v s) = sc_depth s" "sc_limits (set_cpu_committed r v s) = sc_limits s"
  "sc_window_index (set_cpu_committed r v s) = sc_window_index s"
  "cpu_limit q (set_cpu_committed r v s) = cpu_limit q s"
  by (simp_all add: cpu_committed_def set_cpu_committed_def cpu_limit_def)

lemma set_cpu_committed_structure: "same_structure (set_cpu_committed r v s) s"
  by (simp add: same_structure_def)

interpretation cpu: scope_counter "\<lambda>_. True" "cpu_committed r" "set_cpu_committed r" "cpu_limit r" for r
  by unfold_locales
    (simp_all add: set_cpu_committed_structure, simp_all add: set_cpu_committed_def cpu_committed_def)

definition commit :: "bool \<Rightarrow> nat \<Rightarrow> scope \<Rightarrow> scope" where
  "commit r amount s = set_cpu_committed r (wrap_add64 (cpu_committed r s) amount) s"

lemma commit_keeps [simp]:
  "sc_state (commit r a s) = sc_state s" "sc_parent (commit r a s) = sc_parent s"
  "sc_depth (commit r a s) = sc_depth s" "sc_limits (commit r a s) = sc_limits s"
  "sc_window_index (commit r a s) = sc_window_index s"
  by (simp_all add: commit_def)

text \<open>What a change of a scope's counters must leave alone for the window's promises to stand.\<close>

definition same_promises :: "scope \<Rightarrow> scope \<Rightarrow> bool" where
  "same_promises a b \<longleftrightarrow> same_structure a b \<and> sc_window_index a = sc_window_index b \<and>
     sc_cpu_committed_ns a = sc_cpu_committed_ns b \<and> sc_closure_committed_ns a = sc_closure_committed_ns b"

definition same_promises_table :: "scope_table \<Rightarrow> scope_table \<Rightarrow> bool" where
  "same_promises_table t t' \<longleftrightarrow> list_all2 same_promises t' t"

lemma same_promises_refl [simp]: "same_promises s s"
  by (simp add: same_promises_def same_structure_def)

lemma same_promises_table_refl [simp]: "same_promises_table t t"
  by (simp add: same_promises_table_def list_all2_same)

lemma same_promises_table_iff:
  "same_promises_table t t' \<longleftrightarrow> length t' = length t \<and> (\<forall>i < length t. same_promises (t' ! i) (t ! i))"
  by (auto simp: same_promises_table_def list_all2_conv_all_nth)

lemma same_promises_table_trans:
  "same_promises_table t t' \<Longrightarrow> same_promises_table t' t'' \<Longrightarrow> same_promises_table t t''"
  by (simp add: same_promises_table_iff same_promises_def same_structure_def)

lemma same_promises_upd: "(\<And>s. same_promises (f s) s) \<Longrightarrow> same_promises_table t (upd i f t)"
  by (simp add: same_promises_table_iff nth_upd)

lemma same_promises_upd_all:
  "(\<And>s. same_promises (f s) s) \<Longrightarrow> same_promises_table t (upd_all is f t)"
proof (induction "is" arbitrary: t)
  case (Cons i "is")
  then have "same_promises_table (upd i f t) (upd_all is f (upd i f t))" by blast
  then show ?case
    using same_promises_table_trans [OF same_promises_upd [OF Cons.prems, where i = i and t = t]] by simp
qed simp

lemma charge_cpu_promises: "same_promises_table t (charge_cpu t s ns r)"
  unfolding charge_cpu_def
  by (auto intro!: same_promises_upd_all simp: same_promises_def same_structure_def Let_def)

lemma record_peak_promises: "same_promises_table t (fold (record_peak s peak) ns t)"
proof (induction ns arbitrary: t)
  case (Cons n ns)
  have "same_promises_table t (record_peak s peak n t)"
    unfolding record_peak_def
    by (rule same_promises_upd) (simp add: same_promises_def same_structure_def Let_def)
  then show ?case using Cons [of "record_peak s peak n t"] same_promises_table_trans by simp
qed simp

lemma same_promises_tree: "same_promises_table t t' \<Longrightarrow> same_tree t t'"
  by (simp add: same_promises_table_iff same_tree_def same_promises_def same_structure_def)

definition committed_ok :: "bool \<Rightarrow> scope_table \<Rightarrow> bool" where
  "committed_ok r t \<longleftrightarrow> (\<forall>s \<in> set t. cpu_committed r s \<le> U64_MAX \<and> cpu_limit r s < U64_MAX)"

lemma committed_okD:
  "committed_ok r t \<Longrightarrow> i < length t \<Longrightarrow> cpu_committed r (t ! i) \<le> U64_MAX \<and> cpu_limit r (t ! i) < U64_MAX"
  by (simp add: committed_ok_def)

definition time_fits :: "bool \<Rightarrow> scope_table \<Rightarrow> scope_id \<Rightarrow> nat \<Rightarrow> nat \<Rightarrow> bool" where
  "time_fits r t s amount window \<longleftrightarrow> sc_window_index (t ! s) = window \<and>
     (\<forall>i \<in> set (chain_of t s). cpu_committed r (t ! i) + amount \<le> cpu_limit r (t ! i))"

text \<open>
  An ordinary reservation in the current window either promises the amount at every level, where it
  fits in every budget, or changes nothing.
\<close>

lemma reserve_cpu_result:
  assumes wf: "wf_table (cw_scopes w)" and s: "s < length (cw_scopes w)" "sc_state (cw_scopes w ! s) \<noteq> SEmpty"
    and ok: "committed_ok r (cw_scopes w)" and amount: "amount \<le> U64_MAX" and seq: "even (cw_roll_seq w)"
  shows "\<exists>t'. reserve_cpu w s amount r window = Some (w\<lparr>cw_scopes := t'\<rparr>, time_fits r (cw_scopes w) s amount window) \<and>
    (if time_fits r (cw_scopes w) s amount window
     then same_promises_table (upd_all (chain_of (cw_scopes w) s) (commit r amount) (cw_scopes w)) t'
     else t' = cw_scopes w)"
proof -
  let ?t = "cw_scopes w"
  let ?ns = "chain_of ?t s"
  have in_range: "\<forall>i \<in> set ?ns. i < length ?t \<and> cpu_committed r (?t ! i) \<le> U64_MAX"
    using chain_in_range committed_okD [OF ok] by blast
  have fits: "cpu.fits r amount (?t ! i) \<longleftrightarrow> cpu_committed r (?t ! i) + amount \<le> cpu_limit r (?t ! i)"
    if "i \<in> set ?ns" for i
    using committed_okD [OF ok, of i] in_range that by (auto simp: cpu.fits_def sat_add64_def)
  have charged: "cpu.charged_node r amount = commit r amount"
    by (simp add: cpu.charged_node_def commit_def fun_eq_iff)
  have spec: "cpu.reserve_with r amount ?ns ?t =
      (if \<forall>i \<in> set ?ns. cpu_committed r (?t ! i) + amount \<le> cpu_limit r (?t ! i)
       then (upd_all ?ns (commit r amount) ?t, True) else (?t, False))"
    using cpu.reserve_with_spec [OF chain_distinct [OF wf s] in_range amount] fits charged by simp
  show ?thesis
  proof (cases "sc_window_index (?t ! s) = window")
    case False
    then show ?thesis using s seq by (simp add: reserve_cpu_def Let_def time_fits_def)
  next
    case True
    obtain t' k b where c: "charge_nodes (\<lambda>_. True) (cpu_committed r) (set_cpu_committed r) (cpu_limit r)
        amount 0 ?ns ?t = (t', k, b)" by (metis prod_cases3)
    show ?thesis
    proof (cases b)
      case None
      then have "\<forall>i \<in> set ?ns. cpu_committed r (?t ! i) + amount \<le> cpu_limit r (?t ! i)"
        "t' = upd_all ?ns (commit r amount) ?t"
        using spec c by (auto simp: cpu.reserve_with_def split: if_splits)
      then show ?thesis
        using True None c s seq record_peak_promises
        by (intro exI [of _ "if r then t' else fold (record_peak s (sat_add64 (cpu_committed r (?t ! s)) amount)) ?ns t'"])
          (simp add: reserve_cpu_def Let_def time_fits_def)
    next
      case (Some b')
      then have "\<not> (\<forall>i \<in> set ?ns. cpu_committed r (?t ! i) + amount \<le> cpu_limit r (?t ! i))"
        "uncharge_nodes (cpu_committed r) (set_cpu_committed r) amount (take k ?ns) t' = ?t"
        using spec c by (auto simp: cpu.reserve_with_def split: if_splits)
      then show ?thesis using True Some c s seq by (auto simp: reserve_cpu_def Let_def time_fits_def)
    qed
  qed
qed

lemma reserve_cpu_returns:
  assumes "wf_table (cw_scopes w)" "s < length (cw_scopes w)" "sc_state (cw_scopes w ! s) \<noteq> SEmpty"
    "committed_ok r (cw_scopes w)" "amount \<le> U64_MAX" "even (cw_roll_seq w)"
  obtains t' good where "reserve_cpu w s amount r window = Some (w\<lparr>cw_scopes := t'\<rparr>, good)"
    "good \<or> w\<lparr>cw_scopes := t'\<rparr> = w"
proof -
  obtain t' where "reserve_cpu w s amount r window = Some (w\<lparr>cw_scopes := t'\<rparr>, time_fits r (cw_scopes w) s amount window)"
    "time_fits r (cw_scopes w) s amount window \<or> t' = cw_scopes w"
    using reserve_cpu_result [OF assms, of window] by (auto split: if_splits)
  then show ?thesis by (intro that) auto
qed

section \<open>Credits\<close>

text \<open>What a credit is worth in window \<open>n\<close>, and the processors' credits for one scope together.\<close>

definition worth :: "nat \<Rightarrow> credit \<Rightarrow> nat" where
  "worth n c = (if cr_window c = n then cr_reserved_ns c else 0)"

definition cred :: "nat \<Rightarrow> cpu_world \<Rightarrow> scope_id \<Rightarrow> nat" where
  "cred n w s = sum_list (map (\<lambda>row. worth n (row ! s)) (cw_credits w))"

definition credits_shape :: "cpu_world \<Rightarrow> bool" where
  "credits_shape w \<longleftrightarrow> (\<forall>row \<in> set (cw_credits w). length row = length (cw_scopes w))"

lemma credits_shapeD: "credits_shape w \<Longrightarrow> cpu < length (cw_credits w) \<Longrightarrow> length (cw_credits w ! cpu) = length (cw_scopes w)"
  by (simp add: credits_shape_def)

lemma upd_credit_simps [simp]:
  "cw_scopes (upd_credit cpu s f w) = cw_scopes w" "cw_roll_seq (upd_credit cpu s f w) = cw_roll_seq w"
  "length (cw_credits (upd_credit cpu s f w)) = length (cw_credits w)"
  by (simp_all add: upd_credit_def)

lemma upd_credit_shape [simp]: "credits_shape (upd_credit cpu s f w) = credits_shape w"
  by (auto simp: credits_shape_def upd_credit_def all_set_conv_all_nth nth_upd)

lemma credit_at_upd:
  "cpu < length (cw_credits w) \<Longrightarrow> s < length (cw_credits w ! cpu) \<Longrightarrow>
     credit_at (upd_credit cpu s f w) cpu s = f (credit_at w cpu s)"
  by (simp add: credit_at_def upd_credit_def)

lemma credit_at_scopes [simp]: "credit_at (w\<lparr>cw_scopes := t\<rparr>) cpu s = credit_at w cpu s"
  by (simp add: credit_at_def)

lemma cred_scopes [simp]: "cred n (w\<lparr>cw_scopes := t\<rparr>) s = cred n w s"
  by (simp add: cred_def)

lemma cred_upd:
  assumes "cpu < length (cw_credits w)" "s < length (cw_credits w ! cpu)"
  shows "cred n (upd_credit cpu s f w) s + worth n (credit_at w cpu s) = cred n w s + worth n (f (credit_at w cpu s))"
  using sum_map_upd [OF assms(1), of "\<lambda>row. worth n (row ! s)" "upd s f"] assms
  by (simp add: cred_def upd_credit_def credit_at_def)

lemma cred_upd_other: "q \<noteq> s \<Longrightarrow> cred n (upd_credit cpu s f w) q = cred n w q"
  unfolding cred_def upd_credit_def
  by (intro arg_cong [where f = sum_list] nth_equalityI) (simp_all add: nth_upd)

lemma cred_upd_same:
  assumes "cpu < length (cw_credits w)" "s < length (cw_credits w ! cpu)"
    and "worth n (f (credit_at w cpu s)) = worth n (credit_at w cpu s)"
  shows "cred n (upd_credit cpu s f w) q = cred n w q"
  using cred_upd [OF assms(1,2), of n f] cred_upd_other [of q s n cpu f w] assms(3) by (cases "q = s") auto

text \<open>Everything an operation may change while the promises of window \<open>n\<close> stay as they are.\<close>

definition keeps_promises :: "nat \<Rightarrow> cpu_world \<Rightarrow> cpu_world \<Rightarrow> bool" where
  "keeps_promises n w w' \<longleftrightarrow> same_promises_table (cw_scopes w) (cw_scopes w') \<and>
     cw_roll_seq w' = cw_roll_seq w \<and> length (cw_credits w') = length (cw_credits w) \<and>
     credits_shape w' = credits_shape w \<and> (\<forall>s. cred n w' s = cred n w s)"

lemma credits_shape_scopes: "length t = length (cw_scopes w) \<Longrightarrow> credits_shape (w\<lparr>cw_scopes := t\<rparr>) = credits_shape w"
  by (simp add: credits_shape_def)

lemma charge_keeps_promises:
  "keeps_promises n w (w\<lparr>cw_scopes := charge_cpu (cw_scopes w) s ns r\<rparr>)"
proof -
  have "same_promises_table (cw_scopes w) (charge_cpu (cw_scopes w) s ns r)" by (rule charge_cpu_promises)
  moreover from this have "length (charge_cpu (cw_scopes w) s ns r) = length (cw_scopes w)"
    by (simp add: same_promises_table_iff)
  ultimately show ?thesis by (simp add: keeps_promises_def credits_shape_scopes)
qed

lemma keeps_promises_trans: "keeps_promises n w w' \<Longrightarrow> keeps_promises n w' w'' \<Longrightarrow> keeps_promises n w w''"
  using same_promises_table_trans by (auto simp: keeps_promises_def)

lemma keeps_promises_refl [simp]: "keeps_promises n w w"
  by (simp add: keeps_promises_def)

lemma upd_credit_keeps:
  assumes "cpu < length (cw_credits w)" "s < length (cw_credits w ! cpu)"
    and "worth n (f (credit_at w cpu s)) = worth n (credit_at w cpu s)"
  shows "keeps_promises n w (upd_credit cpu s f w)"
  using cred_upd_same [OF assms(1,2), of n f] assms(3) by (simp add: keeps_promises_def)

lemma refresh_credit_keeps:
  assumes cpu: "cpu < length (cw_credits w)" "s < length (cw_credits w ! cpu)"
  shows "keeps_promises n w (refresh_credit cpu s n w)" "cr_window (credit_at (refresh_credit cpu s n w) cpu s) = n"
proof -
  let ?p = "cr_pending_ns (credit_at w cpu s)"
  let ?f = "\<lambda>c. c\<lparr>cr_reserved_ns := 0, cr_pending_ns := 0, cr_window := n\<rparr>"
  have eq: "refresh_credit cpu s n w = (if cr_window (credit_at w cpu s) = n then w
      else (upd_credit cpu s ?f w)\<lparr>cw_scopes := charge_cpu (cw_scopes w) s ?p False\<rparr>)"
    using cpu by (simp add: refresh_credit_def Let_def credit_at_upd)
      (simp add: upd_credit_def upd_upd comp_def)
  have "worth n (?f (credit_at w cpu s)) = worth n (credit_at w cpu s)" if "cr_window (credit_at w cpu s) \<noteq> n"
    using that by (simp add: worth_def)
  then show "keeps_promises n w (refresh_credit cpu s n w)"
    using keeps_promises_trans [OF upd_credit_keeps [OF cpu] charge_keeps_promises, of n ?f s ?p False]
    by (simp add: eq)
  show "cr_window (credit_at (refresh_credit cpu s n w) cpu s) = n"
    using credit_at_upd [OF cpu, of ?f] by (simp add: eq)
qed

lemma grant_from_credit_effect:
  assumes cpu: "cpu < length (cw_credits w)" "s < length (cw_credits w ! cpu)"
    and credit: "cr_window (credit_at w cpu s) = n" "cr_reserved_ns (credit_at w cpu s) = have"
    and g: "grant_from_credit cpu s ceiling have w = (w', g)"
  shows "cw_scopes w' = cw_scopes w \<and> cw_roll_seq w' = cw_roll_seq w \<and>
    length (cw_credits w') = length (cw_credits w) \<and> credits_shape w' = credits_shape w \<and>
    cred n w' s + g = cred n w s \<and> (\<forall>q. q \<noteq> s \<longrightarrow> cred n w' q = cred n w q) \<and>
    g \<le> CPU_QUANTUM_NS \<and> g \<le> ceiling"
proof (cases "min (min have ceiling) CPU_QUANTUM_NS = 0")
  case True
  then show ?thesis using g by (auto simp: grant_from_credit_def)
next
  case False
  let ?f = "\<lambda>c. c\<lparr>cr_reserved_ns := have - g\<rparr>"
  have g': "g = min (min have ceiling) CPU_QUANTUM_NS" "w' = upd_credit cpu s ?f w"
    using g False by (auto simp: grant_from_credit_def Let_def)
  have "cred n w' s + have = cred n w s + (have - g)"
    using cred_upd [OF cpu, of n ?f] credit g'(2) by (simp add: worth_def)
  moreover have "g \<le> have" using g'(1) by simp
  ultimately have "cred n w' s + g = cred n w s" by simp
  then show ?thesis using g' cred_upd_other by simp
qed

section \<open>One dispatch\<close>

lemma commit_promises: "same_promises a b \<Longrightarrow> same_promises (commit False n a) (commit False n b)"
  by (simp add: same_promises_def commit_def set_cpu_committed_def cpu_committed_def same_structure_def)

lemma commit_zero: "committed_ok False t \<Longrightarrow> upd_all is (commit False 0) t = t"
  by (rule upd_all_id) (simp add: commit_def set_cpu_committed_def cpu_committed_def committed_ok_def)

lemma commit_promises_table:
  assumes "same_promises_table t t1" and "distinct ns"
  shows "same_promises_table (upd_all ns (commit False n) t) (upd_all ns (commit False n) t1)"
  using assms by (auto simp: same_promises_table_iff nth_upd_all commit_promises)

lemma same_promises_values:
  "same_promises a b \<Longrightarrow> cpu_committed r a = cpu_committed r b" "same_promises a b \<Longrightarrow> cpu_limit r a = cpu_limit r b"
  by (simp_all add: same_promises_def same_structure_def cpu_committed_def cpu_limit_def)

definition cpu_ok :: "cpu_world \<Rightarrow> bool" where
  "cpu_ok w \<longleftrightarrow> wf_table (cw_scopes w) \<and> credits_shape w \<and> even (cw_roll_seq w) \<and> committed_ok False (cw_scopes w)"

lemma same_promises_committed_ok: "same_promises_table t t' \<Longrightarrow> committed_ok r t' = committed_ok r t"
  by (auto simp: same_promises_table_iff committed_ok_def all_set_conv_all_nth same_promises_def
      same_structure_def cpu_committed_def cpu_limit_def)

lemma keeps_promises_ok: "keeps_promises n w w' \<Longrightarrow> cpu_ok w \<Longrightarrow> cpu_ok w'"
  using same_tree_wf [OF same_promises_tree] same_promises_committed_ok
  by (auto simp: cpu_ok_def keeps_promises_def)

text \<open>
  What a grant does: the processors' credits and the grants together grow by exactly what was newly
  promised at every level of the chain, and that much fitted in every budget.
\<close>

definition grant_effect :: "nat \<Rightarrow> scope_id \<Rightarrow> nat \<Rightarrow> nat \<Rightarrow> cpu_world \<Rightarrow> cpu_world \<Rightarrow> bool" where
  "grant_effect n s g want w w' \<longleftrightarrow>
     same_promises_table (upd_all (chain_of (cw_scopes w) s) (commit False want) (cw_scopes w)) (cw_scopes w') \<and>
     cw_roll_seq w' = cw_roll_seq w \<and> length (cw_credits w') = length (cw_credits w) \<and> credits_shape w' \<and>
     cred n w' s + g = cred n w s + want \<and> (\<forall>q. q \<noteq> s \<longrightarrow> cred n w' q = cred n w q) \<and>
     (want = 0 \<or> (\<forall>i \<in> set (chain_of (cw_scopes w) s).
        cpu_committed False (cw_scopes w ! i) + want \<le> cpu_limit False (cw_scopes w ! i)))"

lemma grant_without_reserve:
  assumes ok: "cpu_ok w" and keep: "keeps_promises n w w1"
    and cpu: "cpu < length (cw_credits w1)" "s < length (cw_credits w1 ! cpu)"
    and credit: "cr_window (credit_at w1 cpu s) = n"
    and g: "(w', g) = grant_from_credit cpu s ceiling (cr_reserved_ns (credit_at w1 cpu s)) w1"
  shows "grant_effect n s g 0 w w'"
  using grant_from_credit_effect [OF cpu credit refl g [symmetric]] keep ok
  by (auto simp: grant_effect_def keeps_promises_def cpu_ok_def commit_zero)

lemma reserve_then_grant:
  assumes ok: "cpu_ok w" and keep: "keeps_promises n w w1" and s: "s < length (cw_scopes w)" "sc_state (cw_scopes w ! s) \<noteq> SEmpty"
    and cpu: "cpu < length (cw_credits w1)" "s < length (cw_credits w1 ! cpu)"
    and credit: "cr_window (credit_at w1 cpu s) = n" and small: "cr_reserved_ns (credit_at w1 cpu s) + want \<le> U64_MAX"
    and res: "reserve_cpu w1 s want False n = Some (w2, True)"
    and g: "(w', g) = grant_from_credit cpu s ceiling (cr_reserved_ns (credit_at w1 cpu s) + want)
      (upd_credit cpu s (\<lambda>c. c\<lparr>cr_reserved_ns := wrap_add64 (cr_reserved_ns c) want\<rparr>) w2)"
  shows "grant_effect n s g want w w'"
proof -
  let ?t = "cw_scopes w" and ?t1 = "cw_scopes w1" and ?f = "\<lambda>c. c\<lparr>cr_reserved_ns := wrap_add64 (cr_reserved_ns c) want\<rparr>"
  have p1: "same_promises_table ?t ?t1" using keep by (simp add: keeps_promises_def)
  have ok1: "cpu_ok w1" by (rule keeps_promises_ok [OF keep ok])
  have s1: "s < length ?t1" "sc_state (?t1 ! s) \<noteq> SEmpty"
    using s p1 by (auto simp: same_promises_table_iff same_promises_def same_structure_def)
  have chain: "chain_of ?t1 s = chain_of ?t s" by (rule same_tree_chain [OF same_promises_tree [OF p1]])
  have wf: "wf_table ?t" using ok by (simp add: cpu_ok_def)
  obtain t2 where t2: "w2 = w1\<lparr>cw_scopes := t2\<rparr>"
    "same_promises_table (upd_all (chain_of ?t1 s) (commit False want) ?t1) t2"
    "\<forall>i \<in> set (chain_of ?t1 s). cpu_committed False (?t1 ! i) + want \<le> cpu_limit False (?t1 ! i)"
    using reserve_cpu_result [of w1 s False want n] ok1 s1 small res
    by (auto simp: cpu_ok_def time_fits_def split: if_splits)
  have len2: "length t2 = length ?t1" using t2(2) by (simp add: same_promises_table_iff)
  have cpu2: "cpu < length (cw_credits w2)" "s < length (cw_credits w2 ! cpu)"
    and credit2: "credit_at w2 cpu s = credit_at w1 cpu s"
    using cpu t2(1) by simp_all
  let ?w3 = "upd_credit cpu s ?f w2"
  have cpu3: "cpu < length (cw_credits ?w3)" "s < length (cw_credits ?w3 ! cpu)"
    using cpu2 by (simp_all add: upd_credit_def nth_upd)
  have at3: "credit_at ?w3 cpu s = ?f (credit_at w1 cpu s)"
    using credit_at_upd [OF cpu2, of ?f] credit2 by simp
  have w3: "cr_window (credit_at ?w3 cpu s) = n"
    "cr_reserved_ns (credit_at ?w3 cpu s) = cr_reserved_ns (credit_at w1 cpu s) + want"
    using credit small by (simp_all add: at3)
  note eff = grant_from_credit_effect [OF cpu3 w3 g [symmetric]]
  have grow: "cred n ?w3 s = cred n w s + want"
    using cred_upd [OF cpu2, of n ?f] credit2 credit small keep t2(1) by (simp add: worth_def keeps_promises_def)
  have "same_promises_table (upd_all (chain_of ?t s) (commit False want) ?t) t2"
    using commit_promises_table [OF p1 chain_distinct [OF wf s]] t2(2) chain same_promises_table_trans by metis
  moreover have "credits_shape w2" using ok1 len2 t2(1) by (simp add: cpu_ok_def credits_shape_scopes)
  moreover have "cpu_committed False (?t ! i) + want \<le> cpu_limit False (?t ! i)" if "i \<in> set (chain_of ?t s)" for i
  proof -
    have "same_promises (?t1 ! i) (?t ! i)"
      using p1 chain_in_range [OF that] by (simp add: same_promises_table_iff)
    then show ?thesis using t2(3) that chain same_promises_values by metis
  qed
  ultimately show ?thesis
    using eff grow keep t2(1) cred_upd_other [of _ s n cpu ?f w2]
    by (simp add: grant_effect_def keeps_promises_def)
qed

lemma quantum_small: "have < CPU_QUANTUM_NS \<Longrightarrow> want \<le> credit_refill_ns left \<Longrightarrow> have + want \<le> U64_MAX"
  by (simp add: credit_refill_ns_def CPU_QUANTUM_NS_def U64_MAX_def)

lemma grant_bound:
  "(w', g) = grant_from_credit cpu s (credit_refill_ns left) have w \<Longrightarrow> g \<le> CPU_QUANTUM_NS \<and> g \<le> left"
  by (auto simp: grant_from_credit_def Let_def credit_refill_ns_def split: if_splits)

lemma if_either: "x = (if b then y else z) \<Longrightarrow> P y \<Longrightarrow> P z \<Longrightarrow> P x"
  by simp

lemma take_grant_effect:
  assumes ok: "cpu_ok w" and s: "s < length (cw_scopes w)" "sc_state (cw_scopes w ! s) \<noteq> SEmpty"
    and cpu: "cpu < length (cw_credits w)" and n: "n = now div CPU_WINDOW_NS"
  shows "\<exists>w' g want. take_grant cpu s False now w = Some (w', g) \<and> grant_effect n s g want w w' \<and>
    g \<le> CPU_QUANTUM_NS \<and> g \<le> window_left now"
proof -
  let ?w1 = "refresh_credit cpu s n w" and ?left = "window_left now"
  let ?ceil = "credit_refill_ns ?left"
  let ?have = "cr_reserved_ns (credit_at ?w1 cpu s)"
  let ?avail = "available_ns (cw_scopes ?w1) s False"
  let ?want = "credit_want ?avail ?ceil ?have"
  let ?P = "\<lambda>x. \<exists>w' g want. x = Some (w', g) \<and> grant_effect n s g want w w' \<and> g \<le> CPU_QUANTUM_NS \<and> g \<le> ?left"
  have row: "s < length (cw_credits w ! cpu)" using ok s cpu credits_shapeD by (simp add: cpu_ok_def)
  note keep = refresh_credit_keeps (1) [OF cpu row, of n] and credit = refresh_credit_keeps (2) [OF cpu row, of n]
  have ok1: "cpu_ok ?w1" by (rule keeps_promises_ok [OF keep ok])
  have p1: "same_promises_table (cw_scopes w) (cw_scopes ?w1)" using keep by (simp add: keeps_promises_def)
  have s1: "s < length (cw_scopes ?w1)" "sc_state (cw_scopes ?w1 ! s) \<noteq> SEmpty"
    using s p1 by (auto simp: same_promises_table_iff same_promises_def same_structure_def)
  have cpu1: "cpu < length (cw_credits ?w1)" "s < length (cw_credits ?w1 ! cpu)"
    using keep cpu s1 ok1 credits_shapeD by (auto simp: keeps_promises_def cpu_ok_def)
  have plain: "\<exists>w' g want. Some (grant_from_credit cpu s ?ceil ?have ?w1) = Some (w', g) \<and>
      grant_effect n s g want w w' \<and> g \<le> CPU_QUANTUM_NS \<and> g \<le> ?left"
    using grant_without_reserve [OF ok keep cpu1 credit] grant_bound
    by (metis option.inject surj_pair)
  have none: "\<exists>w' g want. Some (?w1, 0 :: nat) = Some (w', g) \<and> grant_effect n s g want w w' \<and>
      g \<le> CPU_QUANTUM_NS \<and> g \<le> ?left"
    by (rule exI [of _ ?w1], rule exI [of _ 0], rule exI [of _ 0])
      (use keep ok in \<open>simp add: grant_effect_def keeps_promises_def cpu_ok_def commit_zero\<close>)
  show ?thesis
  proof (cases "?have < min CPU_QUANTUM_NS ?left \<and> ?want \<noteq> 0")
    case False
    have "take_grant cpu s False now w = (if ?have < min CPU_QUANTUM_NS ?left \<and> ?have = 0
        then Some (?w1, 0) else Some (grant_from_credit cpu s ?ceil ?have ?w1))"
      using False unfolding take_grant_def Let_def n [symmetric] by (cases "?have = 0") auto
    then show ?thesis by (rule if_either [where P = ?P]) (rule none, rule plain)
  next
    case True
    have small: "?have + ?want \<le> U64_MAX" using True by (intro quantum_small [of _ _ ?left]) (simp_all add: credit_want_def Let_def)
    obtain t2 good where res: "reserve_cpu ?w1 s ?want False n = Some (?w1\<lparr>cw_scopes := t2\<rparr>, good)"
      "good \<or> ?w1\<lparr>cw_scopes := t2\<rparr> = ?w1"
      using reserve_cpu_returns [OF _ s1 _ add_leD2 [OF small]] ok1 unfolding cpu_ok_def by blast
    show ?thesis
    proof (cases good)
      case False
      then have "take_grant cpu s False now w =
          (if ?have = 0 then Some (?w1, 0) else Some (grant_from_credit cpu s ?ceil ?have ?w1))"
        using res True unfolding take_grant_def Let_def n [symmetric] by (cases "?have = 0") auto
      then show ?thesis by (rule if_either [where P = ?P]) (rule none, rule plain)
    next
      case good: True
      obtain w' g where g: "grant_from_credit cpu s ?ceil (?have + ?want)
          (upd_credit cpu s (\<lambda>c. c\<lparr>cr_reserved_ns := wrap_add64 (cr_reserved_ns c) ?want\<rparr>) (?w1\<lparr>cw_scopes := t2\<rparr>)) = (w', g)"
        by (rule prod.exhaust)
      have "take_grant cpu s False now w = Some (w', g)"
        using res(1) True good small g unfolding take_grant_def Let_def n [symmetric] by (simp add: checked_add64_def)
      moreover have "grant_effect n s g ?want w w'"
        using reserve_then_grant [OF ok keep s cpu1 credit small _ g [symmetric]] res good by simp
      ultimately show ?thesis using grant_bound [OF g [symmetric]] by blast
    qed
  qed
qed

section \<open>A window of dispatches\<close>

text \<open>
  What a scope's subtree has taken out of window \<open>n\<close>: the credits the processors still hold and the
  execution they have granted (\<open>disp\<close>).
\<close>

definition taken :: "nat \<Rightarrow> cpu_world \<Rightarrow> (scope_id \<Rightarrow> nat) \<Rightarrow> scope_id \<Rightarrow> nat" where
  "taken n w disp i = (\<Sum>s < length (cw_scopes w). if in_subtree (cw_scopes w) i s then cred n w s + disp s else 0)"

definition dispatch_inv :: "nat \<Rightarrow> (scope_id \<Rightarrow> nat) \<Rightarrow> cpu_world \<times> (scope_id \<Rightarrow> nat) \<Rightarrow> bool" where
  "dispatch_inv n base = (\<lambda>(w, disp). cpu_ok w \<and>
     (\<forall>i < length (cw_scopes w).
        (sc_state (cw_scopes w ! i) \<noteq> SEmpty \<longrightarrow> sc_window_index (cw_scopes w ! i) = n) \<and>
        base i + taken n w disp i \<le> cpu_committed False (cw_scopes w ! i) \<and>
        base i + taken n w disp i \<le> max (base i) (cpu_limit False (cw_scopes w ! i))))"

lemma same_tree_subtree: "same_tree t t' \<Longrightarrow> s < length t \<Longrightarrow> in_subtree t' i s = in_subtree t i s"
  using same_tree_within by (auto simp: in_subtree_def same_tree_def)

text \<open>Moving the numbers of one scope moves what every scope above it has taken by the same amount.\<close>

lemma taken_change:
  assumes tree: "same_tree (cw_scopes w) (cw_scopes w')" and s: "s < length (cw_scopes w)"
    and other: "\<And>q. q \<noteq> s \<Longrightarrow> cred n w' q = cred n w q \<and> disp' q = disp q"
  shows "taken n w' disp' i + (if in_subtree (cw_scopes w) i s then cred n w s + disp s else 0) =
    taken n w disp i + (if in_subtree (cw_scopes w) i s then cred n w' s + disp' s else 0)"
proof -
  let ?t = "cw_scopes w"
  have taken': "taken n w' disp' i = (\<Sum>q < length ?t. if in_subtree ?t i q then cred n w' q + disp' q else 0)"
    unfolding taken_def same_tree_length [OF tree]
    by (intro sum.cong refl) (simp add: same_tree_subtree [OF tree])
  have "(\<Sum>q \<in> {..< length ?t} - {s}. if in_subtree ?t i q then cred n w' q + disp' q else 0) =
      (\<Sum>q \<in> {..< length ?t} - {s}. if in_subtree ?t i q then cred n w q + disp q else 0)"
    using other by (intro sum.cong) auto
  then show ?thesis
    unfolding taken' using s
    by (simp add: taken_def sum.remove [of "{..< length ?t}" s])
qed

lemma taken_same:
  assumes "same_tree (cw_scopes w) (cw_scopes w')" and "\<And>q. cred n w' q = cred n w q"
  shows "taken n w' disp i = taken n w disp i"
  unfolding taken_def same_tree_length [OF assms(1)]
  by (intro sum.cong refl) (simp add: same_tree_subtree [OF assms(1)] assms(2))

lemma dispatch_inv_keep:
  assumes keep: "keeps_promises n w w'" and inv: "dispatch_inv n base (w, disp)"
  shows "dispatch_inv n base (w', disp)"
proof -
  have p: "same_promises_table (cw_scopes w) (cw_scopes w')" using keep by (simp add: keeps_promises_def)
  have "taken n w' disp i = taken n w disp i" for i
    using keep by (intro taken_same same_promises_tree [OF p]) (simp add: keeps_promises_def)
  moreover have "cpu_ok w'" using keeps_promises_ok [OF keep] inv by (simp add: dispatch_inv_def)
  moreover have "length (cw_scopes w') = length (cw_scopes w)" using p by (simp add: same_promises_table_iff)
  moreover have "sc_state (cw_scopes w' ! i) = sc_state (cw_scopes w ! i)"
    "sc_window_index (cw_scopes w' ! i) = sc_window_index (cw_scopes w ! i)"
    "cpu_committed False (cw_scopes w' ! i) = cpu_committed False (cw_scopes w ! i)"
    "cpu_limit False (cw_scopes w' ! i) = cpu_limit False (cw_scopes w ! i)"
    if "i < length (cw_scopes w)" for i
    using p that same_promises_values [of "cw_scopes w' ! i" "cw_scopes w ! i" False]
    by (simp_all add: same_promises_table_iff same_promises_def same_structure_def)
  ultimately show ?thesis using inv by (simp add: dispatch_inv_def)
qed

text \<open>
  One scope's numbers move: the invariant carries over when the committed time of the scope and its
  ancestors follows, and nothing new is taken that does not fit in their budgets.
\<close>

lemma dispatch_inv_move:
  assumes inv: "dispatch_inv n base (w, disp)"
    and s: "s < length (cw_scopes w)" "sc_state (cw_scopes w ! s) \<noteq> SEmpty"
    and tree: "same_tree (cw_scopes w) (cw_scopes w')"
    and rest: "credits_shape w'" "cw_roll_seq w' = cw_roll_seq w"
    and other: "\<And>q. q \<noteq> s \<Longrightarrow> cred n w' q = cred n w q \<and> disp' q = disp q"
    and node: "\<And>i. i < length (cw_scopes w) \<Longrightarrow>
      (sc_state (cw_scopes w' ! i) \<noteq> SEmpty \<longrightarrow> sc_window_index (cw_scopes w' ! i) = n) \<and>
      cpu_limit False (cw_scopes w' ! i) = cpu_limit False (cw_scopes w ! i) \<and>
      cpu_committed False (cw_scopes w' ! i) \<le> U64_MAX"
    and off: "\<And>i. i < length (cw_scopes w) \<Longrightarrow> \<not> is_within (cw_scopes w) i s \<Longrightarrow>
      cpu_committed False (cw_scopes w' ! i) = cpu_committed False (cw_scopes w ! i)"
    and on: "\<And>i. i < length (cw_scopes w) \<Longrightarrow> is_within (cw_scopes w) i s \<Longrightarrow>
      base i + taken n w disp i + cred n w' s + disp' s \<le> cpu_committed False (cw_scopes w' ! i) + cred n w s + disp s"
    and lim: "\<And>i. i < length (cw_scopes w) \<Longrightarrow> is_within (cw_scopes w) i s \<Longrightarrow>
      cred n w' s + disp' s \<le> cred n w s + disp s \<or>
      base i + taken n w disp i + cred n w' s + disp' s \<le> cpu_limit False (cw_scopes w ! i) + cred n w s + disp s"
  shows "dispatch_inv n base (w', disp')"
proof -
  let ?t = "cw_scopes w" and ?t' = "cw_scopes w'"
  have len: "length ?t' = length ?t" by (rule same_tree_length [OF tree])
  have ok: "cpu_ok w" using inv by (simp add: dispatch_inv_def)
  have "cpu_limit False (?t' ! i) < U64_MAX" if "i < length ?t" for i
    using ok node [OF that] that by (simp add: cpu_ok_def committed_ok_def)
  then have ok': "cpu_ok w'"
    using ok rest same_tree_wf [OF tree] node len
    by (auto simp: cpu_ok_def committed_ok_def all_set_conv_all_nth)
  have "base i + taken n w' disp' i \<le> cpu_committed False (?t' ! i) \<and>
      base i + taken n w' disp' i \<le> max (base i) (cpu_limit False (?t' ! i))" if i: "i < length ?t" for i
  proof -
    have old: "base i + taken n w disp i \<le> cpu_committed False (?t ! i)"
      "base i + taken n w disp i \<le> max (base i) (cpu_limit False (?t ! i))"
      using inv i by (simp_all add: dispatch_inv_def)
    have sub: "in_subtree ?t i s = is_within ?t i s" using s by (simp add: in_subtree_def)
    note change = taken_change [OF tree s(1) other, where i = i, unfolded sub]
    show ?thesis
    proof (cases "is_within ?t i s")
      case True
      then show ?thesis using change on [OF i True] lim [OF i True] old node [OF i] by auto
    next
      case False
      then show ?thesis using change off [OF i False] old node [OF i] by simp
    qed
  qed
  then show ?thesis using ok' node len by (simp add: dispatch_inv_def)
qed

lemma same_promises_nth:
  "same_promises_table t t' \<Longrightarrow> i < length t \<Longrightarrow> same_promises (t' ! i) (t ! i)"
  by (simp add: same_promises_table_iff)

lemma dispatch_granted:
  assumes inv: "dispatch_inv n base (w, disp)" and cpu: "cpu < length (cw_credits w)"
    and s: "s < length (cw_scopes w)" "sc_state (cw_scopes w ! s) \<noteq> SEmpty"
    and n: "n = now div CPU_WINDOW_NS" and g: "take_grant cpu s False now w = Some (w', g)"
  shows "dispatch_inv n base (w', disp(s := disp s + g))"
proof -
  let ?t = "cw_scopes w" and ?t' = "cw_scopes w'"
  have ok: "cpu_ok w" using inv by (simp add: dispatch_inv_def)
  then have wf: "wf_table ?t" and com: "committed_ok False ?t" by (simp_all add: cpu_ok_def)
  obtain want where eff: "grant_effect n s g want w w'"
    using take_grant_effect [OF ok s cpu n] g by auto
  let ?c = "upd_all (chain_of ?t s) (commit False want) ?t"
  have p: "same_promises_table ?c ?t'" using eff by (simp add: grant_effect_def)
  have at: "?c ! i = (if is_within ?t i s then commit False want (?t ! i) else ?t ! i)" if "i < length ?t" for i
    using nth_upd_all [OF chain_distinct [OF wf s] that] by (simp add: is_within_def)
  have fit: "want = 0 \<or> cpu_committed False (?t ! i) + want \<le> cpu_limit False (?t ! i)"
    if "is_within ?t i s" for i
    using eff that by (auto simp: grant_effect_def is_within_def)
  have committed: "cpu_committed False (?t' ! i) =
      cpu_committed False (?t ! i) + (if is_within ?t i s then want else 0)" if i: "i < length ?t" for i
  proof -
    have "cpu_committed False (?t ! i) + (if is_within ?t i s then want else 0) \<le> U64_MAX"
      using fit [of i] committed_okD [OF com i] by auto
    then show ?thesis
      using same_promises_values(1) [OF same_promises_nth [OF p], of i False] i at [OF i]
      by (auto simp: commit_def)
  qed
  have tree: "same_tree ?t ?t'"
    by (rule same_tree_trans [OF same_tree_upd_all same_promises_tree [OF p]]) simp_all
  have others: "cred n w' q = cred n w q \<and> (disp(s := disp s + g)) q = disp q" if "q \<noteq> s" for q
    using eff that by (simp add: grant_effect_def)
  have sum: "cred n w' s + g = cred n w s + want" using eff by (simp add: grant_effect_def)
  show ?thesis
  proof (rule dispatch_inv_move [OF inv s tree _ _ others])
    fix i assume i: "i < length ?t"
    have "same_promises (?t' ! i) (?c ! i)" using same_promises_nth [OF p] i by simp
    then show "(sc_state (?t' ! i) \<noteq> SEmpty \<longrightarrow> sc_window_index (?t' ! i) = n) \<and>
        cpu_limit False (?t' ! i) = cpu_limit False (?t ! i) \<and> cpu_committed False (?t' ! i) \<le> U64_MAX"
      using at [OF i] inv i committed [OF i] fit [of i] committed_okD [OF com i]
      by (auto simp: same_promises_def same_structure_def dispatch_inv_def cpu_limit_def)
    show "\<not> is_within ?t i s \<Longrightarrow> cpu_committed False (?t' ! i) = cpu_committed False (?t ! i)"
      using committed [OF i] by simp
    have old: "base i + taken n w disp i \<le> cpu_committed False (?t ! i)" using inv i by (simp add: dispatch_inv_def)
    show "is_within ?t i s \<Longrightarrow> base i + taken n w disp i + cred n w' s + (disp(s := disp s + g)) s
        \<le> cpu_committed False (?t' ! i) + cred n w s + disp s"
      using committed [OF i] old sum by simp
    show "is_within ?t i s \<Longrightarrow> cred n w' s + (disp(s := disp s + g)) s \<le> cred n w s + disp s \<or>
        base i + taken n w disp i + cred n w' s + (disp(s := disp s + g)) s
        \<le> cpu_limit False (?t ! i) + cred n w s + disp s"
      using fit [of i] old sum by auto
  qed (use eff in \<open>auto simp: grant_effect_def\<close>)
qed

lemma dispatch_excess:
  assumes inv: "dispatch_inv n base (w, disp)" and s: "s < length (cw_scopes w)" "sc_state (cw_scopes w ! s) \<noteq> SEmpty"
    and small: "\<forall>i \<in> set (chain_of (cw_scopes w) s). cpu_committed False (cw_scopes w ! i) + ns \<le> U64_MAX"
  shows "dispatch_inv n base (w\<lparr>cw_scopes := commit_excess (cw_scopes w) s ns False\<rparr>, disp)"
proof (cases "ns = 0")
  case True
  then show ?thesis using inv by (simp add: commit_excess_def)
next
  case False
  let ?t = "cw_scopes w"
  let ?t' = "upd_all (chain_of ?t s) (commit False ns) ?t"
  have ok: "cpu_ok w" using inv by (simp add: dispatch_inv_def)
  then have wf: "wf_table ?t" and com: "committed_ok False ?t" by (simp_all add: cpu_ok_def)
  have t': "commit_excess ?t s ns False = ?t'"
    using False unfolding commit_excess_def by (simp add: commit_def [abs_def])
  have at: "?t' ! i = (if is_within ?t i s then commit False ns (?t ! i) else ?t ! i)" if "i < length ?t" for i
    using nth_upd_all [OF chain_distinct [OF wf s] that] by (simp add: is_within_def)
  have committed: "cpu_committed False (?t' ! i) = cpu_committed False (?t ! i) + (if is_within ?t i s then ns else 0)"
    "cpu_committed False (?t ! i) + (if is_within ?t i s then ns else 0) \<le> U64_MAX"
    if i: "i < length ?t" for i
    using at [OF i] small committed_okD [OF com i] by (auto simp: commit_def is_within_def)
  have tree: "same_tree ?t ?t'" by (rule same_tree_upd_all) simp_all
  show ?thesis
    unfolding t'
  proof (rule dispatch_inv_move [OF inv s])
    fix i assume i: "i < length ?t"
    show "(sc_state (cw_scopes (w\<lparr>cw_scopes := ?t'\<rparr>) ! i) \<noteq> SEmpty \<longrightarrow> sc_window_index (cw_scopes (w\<lparr>cw_scopes := ?t'\<rparr>) ! i) = n) \<and>
        cpu_limit False (cw_scopes (w\<lparr>cw_scopes := ?t'\<rparr>) ! i) = cpu_limit False (?t ! i) \<and>
        cpu_committed False (cw_scopes (w\<lparr>cw_scopes := ?t'\<rparr>) ! i) \<le> U64_MAX"
      using at [OF i] committed [OF i] inv i by (auto simp: dispatch_inv_def cpu_limit_def)
  qed (use tree committed inv ok in \<open>auto simp: dispatch_inv_def cpu_ok_def credits_shape_scopes\<close>)
qed

lemma release_credit_eq:
  assumes "cpu < length (cw_credits w)" "s < length (cw_credits w ! cpu)"
  shows "release_credit cpu s w = (upd_credit cpu s (\<lambda>c. c\<lparr>cr_reserved_ns := 0, cr_pending_ns := 0\<rparr>) w)\<lparr>
    cw_scopes := charge_cpu (return_cpu (cw_scopes w) s (cr_reserved_ns (credit_at w cpu s)) False
      (cr_window (credit_at w cpu s))) s (cr_pending_ns (credit_at w cpu s)) False\<rparr>"
proof -
  have "return_cpu t s 0 False k = t" for t k by (simp add: return_cpu_def)
  then show ?thesis
    using assms by (auto simp: release_credit_def Let_def credit_at_upd)
      (auto simp: upd_credit_def upd_upd comp_def)
qed

lemma dispatch_given_back:
  assumes inv: "dispatch_inv n base (w, disp)" and cpu: "cpu < length (cw_credits w)"
    and s: "s < length (cw_scopes w)" "sc_state (cw_scopes w ! s) \<noteq> SEmpty"
  shows "dispatch_inv n base (release_credit cpu s w, disp)"
proof -
  let ?t = "cw_scopes w" and ?c = "credit_at w cpu s" and ?f = "\<lambda>c. c\<lparr>cr_reserved_ns := 0, cr_pending_ns := 0\<rparr>"
  have ok: "cpu_ok w" using inv by (simp add: dispatch_inv_def)
  then have wf: "wf_table ?t" and com: "committed_ok False ?t" by (simp_all add: cpu_ok_def)
  have row: "s < length (cw_credits w ! cpu)" using ok s cpu credits_shapeD by (simp add: cpu_ok_def)
  let ?r = "return_cpu ?t s (cr_reserved_ns ?c) False (cr_window ?c)"
  let ?w1 = "(upd_credit cpu s ?f w)\<lparr>cw_scopes := ?r\<rparr>"
  have fresh: "sc_window_index (?t ! i) = n" if "is_within ?t i s" for i
    using chain_depth [OF wf s] that inv by (auto simp: is_within_def dispatch_inv_def)
  have at: "?r ! i = (if is_within ?t i s \<and> cr_window ?c = n
      then saturating_take (cpu_committed False) (set_cpu_committed False) (cr_reserved_ns ?c) (?t ! i) else ?t ! i)"
    if "i < length ?t" for i
  proof (cases "cr_reserved_ns ?c = 0")
    case True
    then show ?thesis
      by (simp add: return_cpu_def saturating_take_def set_cpu_committed_def cpu_committed_def)
  next
    case False
    then show ?thesis
      using nth_upd_all [OF chain_distinct [OF wf s] that] fresh [of i] by (auto simp: return_cpu_def is_within_def)
  qed
  have len: "length ?r = length ?t" by (simp add: return_cpu_def)
  have tree: "same_tree ?t ?r" using at len by (simp add: same_tree_def saturating_take_def)
  have cred: "cred n ?w1 s + worth n ?c = cred n w s"
    using cred_upd [OF cpu row, of n ?f] by (simp add: worth_def)
  have shape: "credits_shape ?w1"
    using credits_shape_scopes [of ?r "upd_credit cpu s ?f w"] len ok by (simp add: cpu_ok_def)
  have "dispatch_inv n base (?w1, disp)"
  proof (rule dispatch_inv_move [OF inv s])
    fix i assume i: "i < length ?t"
    show "(sc_state (cw_scopes ?w1 ! i) \<noteq> SEmpty \<longrightarrow> sc_window_index (cw_scopes ?w1 ! i) = n) \<and>
        cpu_limit False (cw_scopes ?w1 ! i) = cpu_limit False (?t ! i) \<and>
        cpu_committed False (cw_scopes ?w1 ! i) \<le> U64_MAX"
      using at [OF i] inv i committed_okD [OF com i] by (auto simp: dispatch_inv_def saturating_take_def)
    show "\<not> is_within ?t i s \<Longrightarrow> cpu_committed False (cw_scopes ?w1 ! i) = cpu_committed False (?t ! i)"
      using at [OF i] by simp
    have "base i + taken n w disp i \<le> cpu_committed False (?t ! i)" using inv i by (simp add: dispatch_inv_def)
    then show "is_within ?t i s \<Longrightarrow> base i + taken n w disp i + cred n ?w1 s + disp s \<le>
        cpu_committed False (cw_scopes ?w1 ! i) + cred n w s + disp s"
      using at [OF i] cred by (auto simp: saturating_take_def worth_def split: if_splits)
  qed (use tree cred shape cred_upd_other [of _ s n cpu ?f w] in auto)
  moreover have "release_credit cpu s w = ?w1\<lparr>cw_scopes := charge_cpu (cw_scopes ?w1) s (cr_pending_ns ?c) False\<rparr>"
    by (simp add: release_credit_eq [OF cpu row])
  ultimately show ?thesis using dispatch_inv_keep [OF charge_keeps_promises] by metis
qed

section \<open>A small machine\<close>

definition one_cpu :: cpu_world where
  "one_cpu = \<lparr>cw_scopes = [scope_empty\<lparr>sc_state := SOpen, sc_limits := limits_default\<lparr>lm_cpu_budget_ns := 3000000\<rparr>\<rparr>],
     cw_roll_seq = 0, cw_credits = [[credit_empty]]\<rparr>"

lemma one_cpu_ok:
  "cpu_ok one_cpu" "\<forall>s < length (cw_scopes one_cpu). cred 0 one_cpu s = 0" "length (cw_scopes one_cpu) = 1"
  "length (cw_credits one_cpu) = 1" "sc_state (cw_scopes one_cpu ! 0) \<noteq> SEmpty"
  "sc_window_index (cw_scopes one_cpu ! 0) = 0" "sc_cpu_committed_ns (cw_scopes one_cpu ! 0) = 0"
  by (simp_all add: cpu_ok_def one_cpu_def wf_table_def wf_scope_def NO_SCOPE_def U16_MAX_def scope_parent_def
    scope_empty_def MAX_SCOPE_DEPTH_def credits_shape_def committed_ok_def cpu_committed_def cpu_limit_def
    U64_MAX_def limits_default_def cred_def worth_def credit_empty_def)

end
