(* ===== verification/Scope_Window.thy ===== *)
theory Scope_Window
  imports Scope_Budget
begin

text \<open>
  The boundary of a window (\<open>roll_window\<close>, \<open>flush_pending_charges\<close>): every processor's pending
  execution is collected before any scope's window is judged, so nothing that was executed is lost or
  moved to another window, and what exceeded the budget opens the next window already consumed.
\<close>

section \<open>Flushing\<close>

definition pend :: "cpu_world \<Rightarrow> scope_id \<Rightarrow> nat" where
  "pend w s = sum_list (map (\<lambda>row. cr_pending_ns (row ! s)) (cw_credits w))"

text \<open>What the processors still owe the window of scope \<open>i\<close>.\<close>

definition owed :: "cpu_world \<Rightarrow> scope_id \<Rightarrow> nat" where
  "owed w i = (\<Sum>s < length (cw_scopes w). if in_subtree (cw_scopes w) i s then pend w s else 0)"

definition window_bounded :: "cpu_world \<Rightarrow> bool" where
  "window_bounded w \<longleftrightarrow> (\<forall>i < length (cw_scopes w). sc_cpu_window_ns (cw_scopes w ! i) + owed w i \<le> U64_MAX)"

definition flushes :: "cpu_world \<Rightarrow> cpu_world \<Rightarrow> bool" where
  "flushes w w' \<longleftrightarrow> same_promises_table (cw_scopes w) (cw_scopes w') \<and>
     cw_roll_seq w' = cw_roll_seq w \<and> length (cw_credits w') = length (cw_credits w) \<and>
     credits_shape w' = credits_shape w \<and> (\<forall>cpu s. cr_pending_ns (credit_at w cpu s) = 0 \<longrightarrow> cr_pending_ns (credit_at w' cpu s) = 0) \<and>
     (\<forall>i < length (cw_scopes w). sc_cpu_window_ns (cw_scopes w' ! i) + owed w' i = sc_cpu_window_ns (cw_scopes w ! i) + owed w i)"

lemma flushes_refl [simp]: "flushes w w"
  by (simp add: flushes_def)

lemma flushes_length: "flushes w w' \<Longrightarrow> length (cw_scopes w') = length (cw_scopes w)"
  by (simp add: flushes_def same_promises_table_iff)

lemma flushes_trans: "flushes w w' \<Longrightarrow> flushes w' w'' \<Longrightarrow> flushes w w''"
  using same_promises_table_trans flushes_length [of w w'] by (auto simp: flushes_def)

lemma flushes_bounded: "flushes w w' \<Longrightarrow> window_bounded w \<Longrightarrow> window_bounded w'"
  using flushes_length [of w w'] by (simp add: flushes_def window_bounded_def)

lemma flushes_state:
  "flushes w w' \<Longrightarrow> i < length (cw_scopes w) \<Longrightarrow> sc_state (cw_scopes w' ! i) = sc_state (cw_scopes w ! i) \<and>
     sc_window_index (cw_scopes w' ! i) = sc_window_index (cw_scopes w ! i) \<and>
     sc_limits (cw_scopes w' ! i) = sc_limits (cw_scopes w ! i)"
  using same_promises_nth [of "cw_scopes w" "cw_scopes w'" i]
  by (auto simp: flushes_def same_promises_def same_structure_def)

lemma pend_upd:
  assumes "cpu < length (cw_credits w)" "s < length (cw_credits w ! cpu)"
  shows "pend (upd_credit cpu s f w) s + cr_pending_ns (credit_at w cpu s) =
    pend w s + cr_pending_ns (f (credit_at w cpu s))"
  using sum_map_upd [OF assms(1), of "\<lambda>row. cr_pending_ns (row ! s)" "upd s f"] assms
  by (simp add: pend_def upd_credit_def credit_at_def)

lemma pend_upd_other: "q \<noteq> s \<Longrightarrow> pend (upd_credit cpu s f w) q = pend w q"
  unfolding pend_def upd_credit_def
  by (intro arg_cong [where f = sum_list] nth_equalityI) (simp_all add: nth_upd)

lemma owed_change:
  assumes tree: "same_tree (cw_scopes w) (cw_scopes w')" and s: "s < length (cw_scopes w)"
    and other: "\<And>q. q \<noteq> s \<Longrightarrow> pend w' q = pend w q"
  shows "owed w' i + (if in_subtree (cw_scopes w) i s then pend w s else 0) =
    owed w i + (if in_subtree (cw_scopes w) i s then pend w' s else 0)"
proof -
  let ?t = "cw_scopes w"
  have owed': "owed w' i = (\<Sum>q < length ?t. if in_subtree ?t i q then pend w' q else 0)"
    unfolding owed_def same_tree_length [OF tree]
    by (intro sum.cong refl) (simp add: same_tree_subtree [OF tree])
  have "(\<Sum>q \<in> {..< length ?t} - {s}. if in_subtree ?t i q then pend w' q else 0) =
      (\<Sum>q \<in> {..< length ?t} - {s}. if in_subtree ?t i q then pend w q else 0)"
    using other by (intro sum.cong) auto
  then show ?thesis
    unfolding owed' using s by (simp add: owed_def sum.remove [of "{..< length ?t}" s])
qed

lemma charge_cpu_window:
  assumes "wf_table t" "s < length t" "sc_state (t ! s) \<noteq> SEmpty" "i < length t"
    and "sc_cpu_window_ns (t ! i) + (if is_within t i s then ns else 0) \<le> U64_MAX"
  shows "sc_cpu_window_ns (charge_cpu t s ns False ! i) = sc_cpu_window_ns (t ! i) + (if is_within t i s then ns else 0)"
  using assms(5) nth_upd_all [OF chain_distinct [OF assms(1-3)] assms(4)]
  by (auto simp: charge_cpu_def is_within_def Let_def)

lemma flush_one:
  assumes ok: "cpu_ok w" and bounded: "window_bounded w" and cpu: "cpu < length (cw_credits w)"
    and s: "s < length (cw_scopes w)" "sc_state (cw_scopes w ! s) \<noteq> SEmpty"
  shows "flushes w (flush_pending_one s cpu w)" "cr_pending_ns (credit_at (flush_pending_one s cpu w) cpu s) = 0"
proof -
  let ?t = "cw_scopes w" and ?p = "cr_pending_ns (credit_at w cpu s)" and ?f = "\<lambda>c. c\<lparr>cr_pending_ns := 0\<rparr>"
  let ?t' = "charge_cpu ?t s ?p False" and ?w' = "flush_pending_one s cpu w"
  have wf: "wf_table ?t" using ok by (simp add: cpu_ok_def)
  have row: "s < length (cw_credits w ! cpu)" using ok s cpu credits_shapeD by (simp add: cpu_ok_def)
  have w': "?w' = (upd_credit cpu s ?f w)\<lparr>cw_scopes := ?t'\<rparr>" by (simp add: flush_pending_one_def Let_def)
  have prom: "same_promises_table ?t ?t'" by (rule charge_cpu_promises)
  have len: "length ?t' = length ?t" using prom by (simp add: same_promises_table_iff)
  have pend': "pend ?w' s + ?p = pend w s" "\<And>q. q \<noteq> s \<Longrightarrow> pend ?w' q = pend w q"
    using pend_upd [OF cpu row, of ?f] pend_upd_other by (simp_all add: w' pend_def)
  show zero: "cr_pending_ns (credit_at ?w' cpu s) = 0"
    using credit_at_upd [OF cpu row, of ?f] by (simp add: w')
  have balance: "sc_cpu_window_ns (?t' ! i) + owed ?w' i = sc_cpu_window_ns (?t ! i) + owed w i"
    if i: "i < length ?t" for i
  proof -
    have sub: "in_subtree ?t i s = is_within ?t i s" using s by (simp add: in_subtree_def)
    have change: "owed ?w' i + (if is_within ?t i s then pend w s else 0) =
        owed w i + (if is_within ?t i s then pend ?w' s else 0)"
      using owed_change [of w ?w' s, OF _ s(1) pend'(2), where i = i] same_promises_tree [OF prom] sub
      by (simp add: w')
    moreover have "sc_cpu_window_ns (?t ! i) + owed w i \<le> U64_MAX" using bounded i by (simp add: window_bounded_def)
    ultimately have "sc_cpu_window_ns (?t ! i) + (if is_within ?t i s then ?p else 0) \<le> U64_MAX"
      using pend'(1) by (auto split: if_splits)
    from charge_cpu_window [OF wf s i this] show ?thesis using change pend'(1) by (auto split: if_splits)
  qed
  have keep: "cr_pending_ns (credit_at ?w' c q) = 0" if "cr_pending_ns (credit_at w c q) = 0" for c q
  proof (cases "c = cpu \<and> q = s")
    case True
    then show ?thesis using zero by simp
  next
    case False
    then show ?thesis
      using that cpu row by (auto simp: w' credit_at_def upd_credit_def upd_def nth_list_update)
  qed
  have shape: "credits_shape ?w' = credits_shape w"
    using credits_shape_scopes [of ?t' "upd_credit cpu s ?f w"] len by (simp add: w')
  then show "flushes w ?w'"
    unfolding flushes_def using keep balance prom by (auto simp: w')
qed

lemma flushes_ok: "flushes w w' \<Longrightarrow> cpu_ok w \<Longrightarrow> cpu_ok w'"
  using same_tree_wf [OF same_promises_tree] same_promises_committed_ok
  by (auto simp: cpu_ok_def flushes_def)

lemma flush_scope:
  assumes "cpu_ok w" "window_bounded w" "s < length (cw_scopes w)" "sc_state (cw_scopes w ! s) \<noteq> SEmpty"
  shows "n \<le> length (cw_credits w) \<Longrightarrow> flushes w (fold (flush_pending_one s) [0..<n] w) \<and>
    (\<forall>cpu < n. cr_pending_ns (credit_at (fold (flush_pending_one s) [0..<n] w) cpu s) = 0)"
proof (induction n)
  case (Suc n)
  let ?w = "fold (flush_pending_one s) [0..<n] w"
  have f: "flushes w ?w" and z: "\<forall>cpu < n. cr_pending_ns (credit_at ?w cpu s) = 0" using Suc by auto
  have s': "s < length (cw_scopes ?w)" "sc_state (cw_scopes ?w ! s) \<noteq> SEmpty"
    using flushes_state [OF f assms(3)] flushes_length [OF f] assms by simp_all
  have cpu: "n < length (cw_credits ?w)" using f Suc.prems by (simp add: flushes_def)
  note one = flush_one [OF flushes_ok [OF f assms(1)] flushes_bounded [OF f assms(2)] cpu s']
  then show ?case
    using flushes_trans [OF f one(1)] z one by (auto simp: less_Suc_eq flushes_def [of ?w])
qed simp

lemma flush_pending_charges_flushes:
  assumes "cpu_ok w" "window_bounded w" "s < length (cw_scopes w)" "sc_state (cw_scopes w ! s) \<noteq> SEmpty"
  shows "flushes w (flush_pending_charges s w)" "\<forall>cpu < length (cw_credits w). cr_pending_ns (credit_at (flush_pending_charges s w) cpu s) = 0"
  using flush_scope [OF assms, of "length (cw_credits w)"] by (simp_all add: flush_pending_charges_def)

definition flush_index :: "scope_id \<Rightarrow> cpu_world \<Rightarrow> cpu_world" where
  "flush_index index w = (if sc_state (cw_scopes w ! index) \<noteq> SEmpty then flush_pending_charges index w else w)"

lemma flush_all_prefix:
  assumes "cpu_ok w" "window_bounded w"
  shows "n \<le> length (cw_scopes w) \<Longrightarrow> flushes w (fold flush_index [0..<n] w) \<and>
    (\<forall>s < n. sc_state (cw_scopes w ! s) \<noteq> SEmpty \<longrightarrow>
       (\<forall>cpu < length (cw_credits w). cr_pending_ns (credit_at (fold flush_index [0..<n] w) cpu s) = 0))"
proof (induction n)
  case (Suc n)
  let ?w = "fold flush_index [0..<n] w"
  have f: "flushes w ?w" and z: "\<forall>s < n. sc_state (cw_scopes w ! s) \<noteq> SEmpty \<longrightarrow>
      (\<forall>cpu < length (cw_credits w). cr_pending_ns (credit_at ?w cpu s) = 0)" using Suc by auto
  have st: "sc_state (cw_scopes ?w ! n) = sc_state (cw_scopes w ! n)" using flushes_state [OF f] Suc.prems by simp
  have len: "n < length (cw_scopes ?w)" "length (cw_credits ?w) = length (cw_credits w)"
    using flushes_length [OF f] f Suc.prems by (simp_all add: flushes_def)
  show ?case
  proof (cases "sc_state (cw_scopes w ! n) = SEmpty")
    case True
    have e: "fold flush_index [0..<Suc n] w = ?w" using True st by (simp add: flush_index_def [of n])
    show ?thesis unfolding e using f z True by (auto simp: less_Suc_eq)
  next
    case False
    have e: "fold flush_index [0..<Suc n] w = flush_pending_charges n ?w" using False st by (simp add: flush_index_def [of n])
    note g = flush_pending_charges_flushes [OF flushes_ok [OF f assms(1)] flushes_bounded [OF f assms(2)] len(1)]
    have one: "flushes ?w (flush_pending_charges n ?w)"
      "\<forall>cpu < length (cw_credits w). cr_pending_ns (credit_at (flush_pending_charges n ?w) cpu n) = 0"
      using g False st len by simp_all
    show ?thesis unfolding e
      using flushes_trans [OF f one(1)] one z by (auto simp: less_Suc_eq flushes_def [of ?w])
  qed
qed simp

lemma flush_all_result:
  assumes ok: "cpu_ok w" and bounded: "window_bounded w"
  shows "flushes w (flush_all w)"
    "i < length (cw_scopes w) \<Longrightarrow> sc_cpu_window_ns (cw_scopes (flush_all w) ! i) = sc_cpu_window_ns (cw_scopes w ! i) + owed w i"
proof -
  let ?w = "flush_all w"
  have e: "?w = fold flush_index [0..<length (cw_scopes w)] w"
    unfolding flush_all_def flush_index_def [abs_def] by simp
  note p = flush_all_prefix [OF assms, of "length (cw_scopes w)", folded e]
  show f: "flushes w ?w" using p by simp
  have "pend ?w s = 0" if "s < length (cw_scopes w)" "sc_state (cw_scopes w ! s) \<noteq> SEmpty" for s
    using p that f unfolding pend_def by (auto simp: in_set_conv_nth credit_at_def flushes_def)
  then have "owed ?w i = 0" for i
    using flushes_state [OF f] flushes_length [OF f] by (auto simp: owed_def in_subtree_def intro!: sum.neutral)
  then show "i < length (cw_scopes w) \<Longrightarrow> sc_cpu_window_ns (cw_scopes ?w ! i) = sc_cpu_window_ns (cw_scopes w ! i) + owed w i"
    using f by (simp add: flushes_def)
qed

section \<open>Rolling\<close>

lemma roll_node_keeps [simp]:
  "sc_state (roll_node window s) = sc_state s" "sc_window_index (roll_node window s) = window"
  "sc_limits (roll_node window s) = sc_limits s"
  by (simp_all add: roll_node_def Let_def)

lemma roll_node_carry:
  "sc_cpu_window_ns (roll_node window s) = sc_cpu_window_ns s - lm_cpu_budget_ns (sc_limits s)"
  "sc_cpu_committed_ns (roll_node window s) = sc_cpu_window_ns s - lm_cpu_budget_ns (sc_limits s)"
  "sc_window_opened_ns (roll_node window s) = sc_cpu_window_ns s - lm_cpu_budget_ns (sc_limits s)"
  "sc_closure_used_ns (roll_node window s) = 0" "sc_closure_committed_ns (roll_node window s) = 0"
  by (simp_all add: roll_node_def Let_def)

lemma stale_roll_node [simp]: "\<not> stale window (roll_node window s)"
  by (simp add: stale_def)

lemma even_wrap_add64: "even (wrap_add64 a b) \<longleftrightarrow> even (a + b)"
proof -
  have "(2 :: nat) dvd Suc U64_MAX" by (simp add: U64_MAX_def)
  then show ?thesis unfolding wrap_add64_def by (rule dvd_mod_iff)
qed

lemma roll_prefix:
  "n \<le> length (cw_scopes w) \<Longrightarrow>
     cw_scopes (fold (roll_one window) [0..<n] w) =
       swept (\<lambda>i. stale window (cw_scopes w ! i)) (roll_node window) n (cw_scopes w) \<and>
     cw_credits (fold (roll_one window) [0..<n] w) = cw_credits w \<and>
     (even (cw_roll_seq w) \<longrightarrow> cw_roll_seq w \<le> U64_MAX \<longrightarrow> even (cw_roll_seq (fold (roll_one window) [0..<n] w)) \<and>
        cw_roll_seq (fold (roll_one window) [0..<n] w) \<le> U64_MAX)"
proof (induction n)
  case (Suc n)
  let ?w = "fold (roll_one window) [0..<n] w"
  have n: "n < length (cw_scopes w)" using Suc.prems by simp
  have t: "cw_scopes ?w = swept (\<lambda>i. stale window (cw_scopes w ! i)) (roll_node window) n (cw_scopes w)"
    and c: "cw_credits ?w = cw_credits w" using Suc by auto
  have at: "cw_scopes ?w ! n = cw_scopes w ! n" using n by (simp add: t nth_swept)
  have even_step: "even (wrap_add64 (wrap_add64 k 1) 1)" if "even k" "k \<le> U64_MAX" for k
    using that by (simp add: even_wrap_add64)
  show ?case
  proof (cases "stale window (cw_scopes w ! n)")
    case True
    then show ?thesis
      using Suc n at c even_step
      by (simp add: roll_one_def [of window n] swept_Suc_hit t)
  next
    case False
    then show ?thesis using Suc n at c by (simp add: roll_one_def [of window n] swept_Suc_miss t)
  qed
qed simp

lemma roll_window_result:
  assumes ok: "cpu_ok w" and bounded: "window_bounded w" and seq: "cw_roll_seq w \<le> U64_MAX"
    and some: "list_ex (stale (now div CPU_WINDOW_NS)) (cw_scopes w)"
  defines "n \<equiv> now div CPU_WINDOW_NS" and "f \<equiv> flush_all w"
  shows "cw_scopes (roll_window now w) = swept (\<lambda>i. stale n (cw_scopes f ! i)) (roll_node n) (length (cw_scopes w)) (cw_scopes f)"
    "cw_credits (roll_window now w) = cw_credits f" "even (cw_roll_seq (roll_window now w))"
proof -
  have fl: "flushes w f" unfolding f_def by (rule flush_all_result [OF ok bounded])
  have e: "roll_window now w = fold (roll_one n) [0..<length (cw_scopes f)] f"
    using some flushes_length [OF fl] by (simp add: roll_window_def Let_def n_def f_def)
  have "even (cw_roll_seq f)" "cw_roll_seq f \<le> U64_MAX" using fl ok seq by (simp_all add: flushes_def cpu_ok_def)
  then show "cw_scopes (roll_window now w) = swept (\<lambda>i. stale n (cw_scopes f ! i)) (roll_node n) (length (cw_scopes w)) (cw_scopes f)"
    "cw_credits (roll_window now w) = cw_credits f" "even (cw_roll_seq (roll_window now w))"
    using roll_prefix [of "length (cw_scopes f)" f n] flushes_length [OF fl] by (simp_all add: e)
qed

section \<open>Properties\<close>

text \<open>
  C7. The window boundary neither loses nor forgives execution. When some scope is in an old window, the
  roll brings every scope in use into the current one; for each that was behind, all the execution
  charged to it, including what every processor still held for any scope of its subtree, is judged
  against its budget, and exactly the excess is what the new window opens with as consumed, committed
  and carried; its closing reserve starts afresh. (The counters are far from 64 bits.)
\<close>

theorem roll_carries_overrun:
  assumes "cpu_ok w" and "window_bounded w" and "cw_roll_seq w \<le> U64_MAX" and "i < length (cw_scopes w)"
    and "sc_state (cw_scopes w ! i) \<noteq> SEmpty" and "sc_window_index (cw_scopes w ! i) \<noteq> now div CPU_WINDOW_NS"
  shows "sc_window_index (cw_scopes (roll_window now w) ! i) = now div CPU_WINDOW_NS \<and>
    sc_cpu_window_ns (cw_scopes (roll_window now w) ! i) =
      (sc_cpu_window_ns (cw_scopes w ! i) + owed w i) - lm_cpu_budget_ns (sc_limits (cw_scopes w ! i)) \<and>
    sc_cpu_committed_ns (cw_scopes (roll_window now w) ! i) = sc_cpu_window_ns (cw_scopes (roll_window now w) ! i) \<and>
    sc_window_opened_ns (cw_scopes (roll_window now w) ! i) = sc_cpu_window_ns (cw_scopes (roll_window now w) ! i) \<and>
    sc_closure_committed_ns (cw_scopes (roll_window now w) ! i) = 0 \<and>
    (\<forall>j < length (cw_scopes w). sc_state (cw_scopes w ! j) \<noteq> SEmpty \<longrightarrow>
       sc_window_index (cw_scopes (roll_window now w) ! j) = now div CPU_WINDOW_NS)"
proof -
  let ?n = "now div CPU_WINDOW_NS" and ?f = "flush_all w"
  have "stale ?n (cw_scopes w ! i)" using assms(5,6) by (simp add: stale_def)
  then have some: "list_ex (stale ?n) (cw_scopes w)" using assms(4) by (auto simp: list_ex_iff)
  note roll = roll_window_result (1) [OF assms(1-3) some]
  have fl: "flushes w ?f" by (rule flush_all_result [OF assms(1,2)])
  have len: "length (cw_scopes ?f) = length (cw_scopes w)" by (rule flushes_length [OF fl])
  have st: "stale ?n (cw_scopes ?f ! j) = stale ?n (cw_scopes w ! j)" if "j < length (cw_scopes w)" for j
    using flushes_state [OF fl that] by (simp add: stale_def)
  have at: "cw_scopes (roll_window now w) ! j = (if stale ?n (cw_scopes w ! j) then roll_node ?n (cw_scopes ?f ! j) else cw_scopes ?f ! j)"
    if "j < length (cw_scopes w)" for j
    using that st by (simp add: roll nth_swept len)
  have "\<forall>j < length (cw_scopes w). sc_state (cw_scopes w ! j) \<noteq> SEmpty \<longrightarrow>
       sc_window_index (cw_scopes (roll_window now w) ! j) = ?n"
    using at flushes_state [OF fl] by (simp add: stale_def)
  moreover have "cw_scopes (roll_window now w) ! i = roll_node ?n (cw_scopes ?f ! i)"
    using at [OF assms(4)] assms(5,6) by (simp add: stale_def)
  ultimately show ?thesis
    using flush_all_result(2) [OF assms(1,2,4)] flushes_state [OF fl assms(4)] by (simp add: roll_node_carry)
qed

lemma one_cpu_bounded: "window_bounded one_cpu" "cw_roll_seq one_cpu \<le> U64_MAX"
proof -
  have "pend one_cpu 0 = 0" by (simp add: pend_def one_cpu_def credit_empty_def)
  then have "owed one_cpu 0 = 0" by (simp add: owed_def one_cpu_ok(3))
  moreover have "sc_cpu_window_ns (cw_scopes one_cpu ! 0) = 0" by (simp add: one_cpu_def scope_empty_def)
  ultimately show "window_bounded one_cpu" by (simp add: window_bounded_def one_cpu_ok(3))
  show "cw_roll_seq one_cpu \<le> U64_MAX" by (simp add: one_cpu_def)
qed

lemma roll_carries_overrun_witness:
  "sc_window_index (cw_scopes (roll_window 25000000 one_cpu) ! 0) = 2"
  using roll_carries_overrun [OF one_cpu_ok(1) one_cpu_bounded(1,2), of 0 25000000] one_cpu_ok(3,5,6)
  by (simp add: CPU_WINDOW_NS_def)

text \<open>
  Rolling is idempotent: processors that notice the same boundary later find nothing left to do.
\<close>

theorem roll_idempotent:
  assumes "cpu_ok w" and "window_bounded w" and "cw_roll_seq w \<le> U64_MAX"
  shows "roll_window now (roll_window now w) = roll_window now w"
proof (cases "list_ex (stale (now div CPU_WINDOW_NS)) (cw_scopes w)")
  case True
  have "\<not> stale (now div CPU_WINDOW_NS) x" if "x \<in> set (cw_scopes (roll_window now w))" for x
    using that unfolding roll_window_result (1) [OF assms True]
    using flushes_length [OF flush_all_result(1) [OF assms(1,2)]] by (auto simp: swept_def)
  then have "\<not> list_ex (stale (now div CPU_WINDOW_NS)) (cw_scopes (roll_window now w))"
    by (auto simp: list_ex_iff)
  then show ?thesis unfolding roll_window_def [of now "roll_window now w"] by (simp add: Let_def)
next
  case False
  then show ?thesis by (simp add: roll_window_def Let_def)
qed

lemma roll_idempotent_witness: "roll_window 25000000 (roll_window 25000000 one_cpu) = roll_window 25000000 one_cpu"
  by (rule roll_idempotent [OF one_cpu_ok(1) one_cpu_bounded(1,2)])

end
