(* ===== verification/Roll_Race.thy ===== *)
theory Roll_Race
  imports Scope_Window
begin

text \<open>
  One turn of the loop of \<open>reserve_cpu\<close> (\<open>kernel/src/scope.rs\<close>) in the two halves another processor can come
  between: the additions, and the second reading of the roll sequence with what follows it. Run without
  interruption they are \<open>reserve_cpu\<close>; with a roll of the window between them the undoing subtracts from
  counters the roll has already replaced.
\<close>

section \<open>The two halves of a turn\<close>

text \<open>
  A turn spins on an odd sequence, gives up on a window that has moved, or has read the sequence, added to
  the first \<open>done\<close> nodes of the chain and knows whether one refused.
\<close>

datatype reserve_turn = Spins | Moved | Added nat nat bool nat

definition reserve_adds :: "cpu_world \<Rightarrow> scope_id \<Rightarrow> nat \<Rightarrow> bool \<Rightarrow> nat \<Rightarrow> (cpu_world \<times> reserve_turn) option" where
  "reserve_adds w s amount recovery window =
     (let t = cw_scopes w; nodes = chain_of t s in
      if odd (cw_roll_seq w) then Some (w, Spins)
      else do {
        leaf \<leftarrow> nth_opt t s;
        if sc_window_index leaf \<noteq> window then Some (w, Moved)
        else case charge_nodes (\<lambda>_. True) (cpu_committed recovery) (set_cpu_committed recovery)
                    (cpu_limit recovery) amount 0 nodes t of
          (t', charged, binding) \<Rightarrow>
            Some (w\<lparr>cw_scopes := t'\<rparr>, Added (cw_roll_seq w) charged (binding \<noteq> None) (sat_add64 (cpu_committed recovery leaf) amount)) })"

text \<open>The answer \<open>None\<close> starts the next turn.\<close>

fun reserve_recheck :: "cpu_world \<Rightarrow> scope_id \<Rightarrow> scope_id list \<Rightarrow> nat \<Rightarrow> bool \<Rightarrow> reserve_turn \<Rightarrow> cpu_world \<times> bool option" where
  "reserve_recheck w s nodes amount recovery (Added sequence charged refused peak) =
     (if refused \<or> cw_roll_seq w \<noteq> sequence
      then (w\<lparr>cw_scopes := uncharge_nodes (cpu_committed recovery) (set_cpu_committed recovery) amount
              (take charged nodes) (cw_scopes w)\<rparr>, if refused then Some False else None)
      else (w\<lparr>cw_scopes := (if recovery then cw_scopes w else fold (record_peak s peak) nodes (cw_scopes w))\<rparr>, Some True))"
| "reserve_recheck w s nodes amount recovery Moved = (w, Some False)"
| "reserve_recheck w s nodes amount recovery Spins = (w, None)"

lemma reserve_cpu_turn:
  assumes "even (cw_roll_seq w)"
  shows "reserve_cpu w s amount recovery window =
    map_option (\<lambda>(w1, turn). apsnd the (reserve_recheck w1 s (chain_of (cw_scopes w) s) amount recovery turn))
      (reserve_adds w s amount recovery window)"
  using assms by (auto simp: reserve_cpu_def reserve_adds_def Let_def bind_eq_None_conv
      split: option.splits prod.splits Option.bind_splits)

section \<open>What a turn has added\<close>

lemma reserve_adds_all:
  assumes ok: "cpu_ok w" and s: "s < length (cw_scopes w)" "sc_state (cw_scopes w ! s) \<noteq> SEmpty" and amount: "amount \<le> U64_MAX"
    and adds: "reserve_adds w s amount False window = Some (w1, Added sequence charged False peak)"
  shows "w1 = w\<lparr>cw_scopes := upd_all (chain_of (cw_scopes w) s) (commit False amount) (cw_scopes w)\<rparr>"
    "charged = length (chain_of (cw_scopes w) s)" "sequence = cw_roll_seq w"
    "\<forall>i \<in> set (chain_of (cw_scopes w) s). cpu_committed False (cw_scopes w ! i) + amount \<le> cpu_limit False (cw_scopes w ! i)"
proof -
  let ?t = "cw_scopes w" and ?ns = "chain_of (cw_scopes w) s"
  have wf: "wf_table ?t" and com: "committed_ok False ?t" using ok by (simp_all add: cpu_ok_def)
  obtain t' where c: "charge_nodes (\<lambda>_. True) (cpu_committed False) (set_cpu_committed False) (cpu_limit False) amount 0 ?ns ?t = (t', charged, None)"
    and w1: "w1 = w\<lparr>cw_scopes := t'\<rparr>" "sequence = cw_roll_seq w"
    using adds by (auto simp: reserve_adds_def Let_def bind_eq_Some_conv split: if_splits prod.splits)
  have in_range: "\<forall>i \<in> set ?ns. i < length ?t \<and> cpu_committed False (?t ! i) \<le> U64_MAX"
    using chain_in_range committed_okD [OF com] by blast
  have "cpu.reserve_with False amount ?ns ?t = (t', True)" using c by (simp add: cpu.reserve_with_def)
  then have all: "\<forall>i \<in> set ?ns. cpu.fits False amount (?t ! i)" "t' = upd_all ?ns (cpu.charged_node False amount) ?t"
    using cpu.reserve_with_spec [OF chain_distinct [OF wf s] in_range amount] by (auto split: if_splits)
  have "cpu.charged_node False amount = commit False amount" by (simp add: cpu.charged_node_def commit_def fun_eq_iff)
  then show "w1 = w\<lparr>cw_scopes := upd_all ?ns (commit False amount) ?t\<rparr>" using all w1 by simp
  show "sequence = cw_roll_seq w" by (rule w1)
  show "\<forall>i \<in> set ?ns. cpu_committed False (?t ! i) + amount \<le> cpu_limit False (?t ! i)"
    using all(1) in_range committed_okD [OF com] by (fastforce simp: cpu.fits_def sat_add64_def)
  show "charged = length ?ns"
    using cpu.charge_nodes_all [OF chain_distinct [OF wf s], of ?t False amount 0] all(1) c in_range by simp
qed

text \<open>The additions leave everything the roll reads, so the roll finds what it would have found.\<close>

lemma added_ok:
  assumes ok: "cpu_ok w" and bounded: "window_bounded w" and s: "s < length (cw_scopes w)" "sc_state (cw_scopes w ! s) \<noteq> SEmpty"
    and fit: "\<forall>i \<in> set (chain_of (cw_scopes w) s). cpu_committed False (cw_scopes w ! i) + amount \<le> cpu_limit False (cw_scopes w ! i)"
    and w1: "w1 = w\<lparr>cw_scopes := upd_all (chain_of (cw_scopes w) s) (commit False amount) (cw_scopes w)\<rparr>"
  shows "cpu_ok w1" "window_bounded w1" "owed w1 i = owed w i" "same_tree (cw_scopes w) (cw_scopes w1)"
    "j < length (cw_scopes w) \<Longrightarrow> sc_cpu_window_ns (cw_scopes w1 ! j) = sc_cpu_window_ns (cw_scopes w ! j) \<and>
       sc_limits (cw_scopes w1 ! j) = sc_limits (cw_scopes w ! j) \<and> sc_state (cw_scopes w1 ! j) = sc_state (cw_scopes w ! j) \<and>
       sc_window_index (cw_scopes w1 ! j) = sc_window_index (cw_scopes w ! j)"
proof -
  let ?t = "cw_scopes w" and ?t1 = "upd_all (chain_of (cw_scopes w) s) (commit False amount) (cw_scopes w)"
  have wf: "wf_table ?t" and com: "committed_ok False ?t" using ok by (simp_all add: cpu_ok_def)
  have at: "?t1 ! j = (if j \<in> set (chain_of ?t s) then commit False amount (?t ! j) else ?t ! j)" if "j < length ?t" for j
    using nth_upd_all [OF chain_distinct [OF wf s] that] .
  have win: "sc_cpu_window_ns (commit False amount x) = sc_cpu_window_ns x" for x by (simp add: commit_def set_cpu_committed_def)
  show tree: "same_tree ?t (cw_scopes w1)" unfolding w1 by (simp add: same_tree_upd_all)
  show keep: "sc_cpu_window_ns (cw_scopes w1 ! j) = sc_cpu_window_ns (cw_scopes w ! j) \<and>
       sc_limits (cw_scopes w1 ! j) = sc_limits (cw_scopes w ! j) \<and> sc_state (cw_scopes w1 ! j) = sc_state (cw_scopes w ! j) \<and>
       sc_window_index (cw_scopes w1 ! j) = sc_window_index (cw_scopes w ! j)" if "j < length ?t" for j
    using at [OF that] by (simp add: w1 win)
  have len: "length (cw_scopes w1) = length ?t" by (rule same_tree_length [OF tree])
  show owe: "owed w1 i = owed w i" for i
    unfolding owed_def len by (intro sum.cong refl) (simp add: same_tree_subtree [OF tree] pend_def, simp add: w1)
  show "window_bounded w1" using bounded keep owe len by (simp add: window_bounded_def)
  have "cpu_committed False (?t1 ! j) \<le> U64_MAX \<and> cpu_limit False (?t1 ! j) < U64_MAX" if "j < length ?t" for j
    using at [OF that] fit committed_okD [OF com that] by (auto simp: commit_def intro: order_trans)
  then show "cpu_ok w1"
    using ok same_tree_wf [OF tree] by (auto simp: cpu_ok_def w1 credits_shape_scopes committed_ok_def all_set_conv_all_nth)
qed

section \<open>The roll\<close>

lemma roll_prefix_seq:
  "n \<le> length (cw_scopes w) \<Longrightarrow> cw_roll_seq w \<le> U64_MAX \<Longrightarrow>
     cw_roll_seq (fold (roll_one window) [0..<n] w) =
       (cw_roll_seq w + 2 * length (filter (\<lambda>i. stale window (cw_scopes w ! i)) [0..<n])) mod Suc U64_MAX"
proof (induction n)
  case (Suc n)
  let ?w = "fold (roll_one window) [0..<n] w"
  have at: "cw_scopes ?w ! n = cw_scopes w ! n"
    using roll_prefix [of n w window] Suc.prems by (simp add: nth_swept)
  have IH: "cw_roll_seq ?w = (cw_roll_seq w + 2 * length (filter (\<lambda>i. stale window (cw_scopes w ! i)) [0..<n])) mod Suc U64_MAX"
    using Suc by simp
  show ?case
  proof (cases "stale window (cw_scopes w ! n)")
    case True
    then show ?thesis using at IH by (simp add: roll_one_def [of window n] wrap_add64_def mod_simps)
  next
    case False
    then show ?thesis using at IH by (simp add: roll_one_def [of window n])
  qed
qed simp

lemma roll_moves_seq:
  assumes ok: "cpu_ok w" and bounded: "window_bounded w" and seq: "cw_roll_seq w \<le> U64_MAX" and few: "length (cw_scopes w) \<le> NO_SCOPE"
    and some: "list_ex (stale (now div CPU_WINDOW_NS)) (cw_scopes w)"
  shows "cw_roll_seq (roll_window now w) \<noteq> cw_roll_seq w"
proof -
  let ?n = "now div CPU_WINDOW_NS" and ?f = "flush_all w"
  let ?k = "length (filter (\<lambda>i. stale ?n (cw_scopes ?f ! i)) [0..<length (cw_scopes ?f)])"
  have fl: "flushes w ?f" by (rule flush_all_result [OF ok bounded])
  have len: "length (cw_scopes ?f) = length (cw_scopes w)" "cw_roll_seq ?f = cw_roll_seq w" using fl flushes_length [OF fl] by (simp_all add: flushes_def)
  have e: "roll_window now w = fold (roll_one ?n) [0..<length (cw_scopes ?f)] ?f" using some len by (simp add: roll_window_def Let_def)
  have run: "cw_roll_seq (roll_window now w) = (cw_roll_seq w + 2 * ?k) mod Suc U64_MAX"
    using roll_prefix_seq [of "length (cw_scopes ?f)" ?f ?n] seq len by (simp add: e)
  obtain i where i: "i < length (cw_scopes w)" "stale ?n (cw_scopes w ! i)" using some by (auto simp: list_ex_iff in_set_conv_nth)
  have "stale ?n (cw_scopes ?f ! i)" using i flushes_state [OF fl i(1)] by (simp add: stale_def)
  then have "0 < ?k" using i(1) len by (auto simp: length_greater_0_conv filter_empty_conv)
  moreover have "?k \<le> NO_SCOPE" using few len by (metis length_filter_le length_upt diff_zero order_trans)
  ultimately show ?thesis
    unfolding run using seq mod_eq_dvd_iff_nat [of "cw_roll_seq w" "cw_roll_seq w + 2 * ?k" "Suc U64_MAX"]
    by (auto simp: NO_SCOPE_def U16_MAX_def U64_MAX_def dest!: dvd_imp_le)
qed

lemma rolled_node:
  assumes ok: "cpu_ok w" and bounded: "window_bounded w" and seq: "cw_roll_seq w \<le> U64_MAX" and i: "i < length (cw_scopes w)"
    and st: "sc_state (cw_scopes w ! i) \<noteq> SEmpty" "sc_window_index (cw_scopes w ! i) \<noteq> now div CPU_WINDOW_NS"
  shows "sc_cpu_committed_ns (cw_scopes (roll_window now w) ! i) =
      (sc_cpu_window_ns (cw_scopes w ! i) + owed w i) - lm_cpu_budget_ns (sc_limits (cw_scopes w ! i))"
    "sc_window_index (cw_scopes (roll_window now w) ! i) = now div CPU_WINDOW_NS"
    "sc_limits (cw_scopes (roll_window now w) ! i) = sc_limits (cw_scopes w ! i)"
    "length (cw_scopes (roll_window now w)) = length (cw_scopes w)" "even (cw_roll_seq (roll_window now w))"
proof -
  have some: "list_ex (stale (now div CPU_WINDOW_NS)) (cw_scopes w)" using i st by (auto simp: list_ex_iff stale_def)
  have fl: "flushes w (flush_all w)" by (rule flush_all_result [OF ok bounded])
  note r = roll_window_result [OF ok bounded seq some]
  have at: "cw_scopes (roll_window now w) ! i = roll_node (now div CPU_WINDOW_NS) (cw_scopes (flush_all w) ! i)"
    using i st flushes_state [OF fl i] flushes_length [OF fl] by (simp add: r(1) nth_swept stale_def)
  show "sc_cpu_committed_ns (cw_scopes (roll_window now w) ! i) =
      (sc_cpu_window_ns (cw_scopes w ! i) + owed w i) - lm_cpu_budget_ns (sc_limits (cw_scopes w ! i))"
    "sc_window_index (cw_scopes (roll_window now w) ! i) = now div CPU_WINDOW_NS"
    "sc_limits (cw_scopes (roll_window now w) ! i) = sc_limits (cw_scopes w ! i)"
    using flush_all_result(2) [OF ok bounded i] flushes_state [OF fl i] by (simp_all add: at roll_node_carry)
  show "length (cw_scopes (roll_window now w)) = length (cw_scopes w)" "even (cw_roll_seq (roll_window now w))"
    using r(1,3) flushes_length [OF fl] by (simp_all add: swept_def)
qed

section \<open>What is left to promise\<close>

lemma available_zero: "available_loop r t is 0 = 0"
  by (induction "is") (simp_all add: U64_MAX_def)

lemma available_none:
  "i \<in> set is \<Longrightarrow> cpu_limit r (t ! i) \<le> cpu_committed r (t ! i) \<Longrightarrow> available_loop r t is a = 0"
  by (induction "is" arbitrary: a) (auto simp: available_zero)

lemma wrap_sub_below: "a < b \<Longrightarrow> b \<le> U64_MAX \<Longrightarrow> wrap_sub64 a b = 2 ^ 64 - (b - a)"
  by (simp add: wrap_sub64_def U64_MAX_def)

section \<open>Properties\<close>

text \<open>
  C38. A reservation that a roll of the window overtakes leaves the new window's commitments below zero. The
  turn has added its amount to every node of the chain; another processor rolls the window, which stores the
  carried overrun in each; the turn reads the changed sequence and undoes its additions, from counters that
  no longer hold them. Every node of the chain is left with the carried overrun less the amount, modulo two
  to the sixty-four; the next turn finds the window gone and the reservation is refused. Where the overrun is
  less than the amount the counter is left above the budget, and no scope at or below that node has anything
  left to promise to ordinary work.
\<close>

theorem roll_leaves_underflow:
  assumes "cpu_ok w" and "window_bounded w" and "cw_roll_seq w \<le> U64_MAX" and "length (cw_scopes w) \<le> NO_SCOPE"
    and "s < length (cw_scopes w)" and "sc_state (cw_scopes w ! s) \<noteq> SEmpty" and "amount \<le> U64_MAX"
    and "\<forall>i < length (cw_scopes w). sc_state (cw_scopes w ! i) \<noteq> SEmpty \<longrightarrow> sc_window_index (cw_scopes w ! i) = n"
    and "now div CPU_WINDOW_NS \<noteq> n" and "reserve_adds w s amount False n = Some (w1, turn)" and "turn = Added sequence charged False peak"
    and "reserve_recheck (roll_window now w1) s (chain_of (cw_scopes w) s) amount False turn = (w2, answer)"
  shows "answer = None \<and> reserve_adds w2 s amount False n = Some (w2, Moved) \<and>
    (\<forall>i \<in> set (chain_of (cw_scopes w) s).
       let carried = sc_cpu_window_ns (cw_scopes w ! i) + owed w i - lm_cpu_budget_ns (sc_limits (cw_scopes w ! i)) in
       sc_cpu_committed_ns (cw_scopes w2 ! i) = wrap_sub64 carried amount \<and>
       (carried < amount \<and> lm_cpu_budget_ns (sc_limits (cw_scopes w ! i)) + amount \<le> U64_MAX \<longrightarrow>
          sc_cpu_committed_ns (cw_scopes w2 ! i) = 2 ^ 64 - (amount - carried) \<and>
          (\<forall>q. i \<in> set (chain_of (cw_scopes w2) q) \<longrightarrow> available_ns (cw_scopes w2) q False = 0)))"
proof -
  let ?t = "cw_scopes w" and ?ns = "chain_of (cw_scopes w) s" and ?r = "roll_window now w1"
  note adds = reserve_adds_all [OF assms(1,5,6,7) assms(10) [unfolded assms(11)]]
  note a = added_ok [OF assms(1,2,5,6) adds(4,1)]
  have wf: "wf_table ?t" using assms(1) by (simp add: cpu_ok_def)
  have len: "length (cw_scopes w1) = length ?t" by (rule same_tree_length [OF a(4)])
  have seq: "cw_roll_seq w1 = cw_roll_seq w" by (simp add: adds(1))
  have in_use: "i < length ?t \<and> sc_state (?t ! i) \<noteq> SEmpty" if "i \<in> set ?ns" for i
    using chain_depth [OF wf assms(5,6) that] chain_in_range [OF that] by simp
  have st: "i < length (cw_scopes w1)" "sc_state (cw_scopes w1 ! i) \<noteq> SEmpty" "sc_window_index (cw_scopes w1 ! i) \<noteq> now div CPU_WINDOW_NS"
    if "i < length ?t" "sc_state (?t ! i) \<noteq> SEmpty" for i
    using that a(5) [of i] assms(8,9) len by auto
  have roll: "sc_cpu_committed_ns (cw_scopes ?r ! i) = (sc_cpu_window_ns (cw_scopes w1 ! i) + owed w1 i) - lm_cpu_budget_ns (sc_limits (cw_scopes w1 ! i))"
    "sc_window_index (cw_scopes ?r ! i) = now div CPU_WINDOW_NS" "sc_limits (cw_scopes ?r ! i) = sc_limits (cw_scopes w1 ! i)"
    "length (cw_scopes ?r) = length (cw_scopes w1)" "even (cw_roll_seq ?r)" if "i < length ?t" "sc_state (?t ! i) \<noteq> SEmpty" for i
    using rolled_node [OF a(1,2) _ st [OF that], unfolded seq, OF assms(3)] by simp_all
  have "list_ex (stale (now div CPU_WINDOW_NS)) (cw_scopes w1)" using st [OF assms(5,6)] by (auto simp: list_ex_iff stale_def)
  then have moved: "cw_roll_seq ?r \<noteq> sequence"
    using roll_moves_seq [OF a(1,2), of now] assms(3,4) len seq adds(3) by simp
  let ?t2 = "upd_all ?ns (\<lambda>x. set_cpu_committed False (wrap_sub64 (cpu_committed False x) amount) x) (cw_scopes ?r)"
  have w2: "w2 = ?r\<lparr>cw_scopes := ?t2\<rparr>" "answer = None"
    using assms(12) moved adds(2) by (simp_all add: assms(11) uncharge_nodes_def)
  have lr: "length (cw_scopes ?r) = length ?t" using roll(4) [OF assms(5,6)] len by simp
  have at: "?t2 ! i = set_cpu_committed False (wrap_sub64 (cpu_committed False (cw_scopes ?r ! i)) amount) (cw_scopes ?r ! i)"
    if "i \<in> set ?ns" for i
    using nth_upd_all [OF chain_distinct [OF wf assms(5,6)], of i "cw_scopes ?r"] in_use [OF that] that lr by simp
  have self: "s \<in> set ?ns" using within_self [OF assms(5)] by (simp add: is_within_def)
  have "reserve_adds w2 s amount False n = Some (w2, Moved)"
    using at [OF self] roll(2,5) [OF assms(5,6)] assms(5,9) lr by (simp add: reserve_adds_def Let_def w2(1))
  moreover have "let carried = sc_cpu_window_ns (?t ! i) + owed w i - lm_cpu_budget_ns (sc_limits (?t ! i)) in
       sc_cpu_committed_ns (cw_scopes w2 ! i) = wrap_sub64 carried amount \<and>
       (carried < amount \<and> lm_cpu_budget_ns (sc_limits (?t ! i)) + amount \<le> U64_MAX \<longrightarrow>
          sc_cpu_committed_ns (cw_scopes w2 ! i) = 2 ^ 64 - (amount - carried) \<and>
          (\<forall>q. i \<in> set (chain_of (cw_scopes w2) q) \<longrightarrow> available_ns (cw_scopes w2) q False = 0))" if i: "i \<in> set ?ns" for i
  proof -
    let ?c = "sc_cpu_window_ns (?t ! i) + owed w i - lm_cpu_budget_ns (sc_limits (?t ! i))"
    have u: "i < length ?t" "sc_state (?t ! i) \<noteq> SEmpty" using in_use [OF i] by auto
    have c: "sc_cpu_committed_ns (cw_scopes w2 ! i) = wrap_sub64 ?c amount" "sc_limits (cw_scopes w2 ! i) = sc_limits (?t ! i)"
      using at [OF i] roll(1,3) [OF u] a(3) [of i] a(5) [OF u(1)] by (simp_all add: w2(1) set_cpu_committed_def cpu_committed_def)
    have "sc_cpu_committed_ns (cw_scopes w2 ! i) = 2 ^ 64 - (amount - ?c) \<and>
          (\<forall>q. i \<in> set (chain_of (cw_scopes w2) q) \<longrightarrow> available_ns (cw_scopes w2) q False = 0)"
      if low: "?c < amount" "lm_cpu_budget_ns (sc_limits (?t ! i)) + amount \<le> U64_MAX"
    proof -
      have v: "sc_cpu_committed_ns (cw_scopes w2 ! i) = 2 ^ 64 - (amount - ?c)" using c(1) wrap_sub_below [OF low(1) assms(7)] by simp
      have "cpu_limit False (cw_scopes w2 ! i) \<le> cpu_committed False (cw_scopes w2 ! i)"
        unfolding cpu_limit_def cpu_committed_def using v c(2) low(2) by (simp add: U64_MAX_def)
      then show ?thesis using v available_none [of i _ False "cw_scopes w2"] by (simp add: available_ns_def)
    qed
    then show ?thesis using c(1) by (simp add: Let_def)
  qed
  ultimately show ?thesis using w2(2) by blast
qed

lemma one_adds:
  "\<exists>w1 peak. reserve_adds one_cpu 0 2000000 False 0 = Some (w1, Added 0 1 False peak)"
  by (simp add: reserve_adds_def one_cpu_def Let_def chain_of_def scope_parent_def scope_empty_def bounded_add_def sat_add64_def cpu_committed_def
      cpu_limit_def limits_default_def U64_MAX_def)

lemma roll_leaves_underflow_witness:
  "\<exists>w1 turn w2. reserve_adds one_cpu 0 2000000 False 0 = Some (w1, turn) \<and>
     reserve_recheck (roll_window 25000000 w1) 0 (chain_of (cw_scopes one_cpu) 0) 2000000 False turn = (w2, None) \<and>
     sc_cpu_committed_ns (cw_scopes w2 ! 0) = 2 ^ 64 - 2000000"
proof -
  obtain w1 peak where adds: "reserve_adds one_cpu 0 2000000 False 0 = Some (w1, Added 0 1 False peak)" using one_adds by blast
  let ?turn = "Added 0 1 False peak"
  obtain w2 answer where re: "reserve_recheck (roll_window 25000000 w1) 0 (chain_of (cw_scopes one_cpu) 0) 2000000 False ?turn = (w2, answer)"
    by fastforce
  have len: "length (cw_scopes one_cpu) \<le> NO_SCOPE" "0 < length (cw_scopes one_cpu)" by (simp_all add: one_cpu_ok(3) NO_SCOPE_def U16_MAX_def)
  have self: "0 \<in> set (chain_of (cw_scopes one_cpu) 0)" using within_self [OF len(2)] by (simp add: is_within_def)
  have "owed one_cpu 0 = 0" by (simp add: owed_def pend_def one_cpu_def credit_empty_def)
  then have carried: "sc_cpu_window_ns (cw_scopes one_cpu ! 0) + owed one_cpu 0 - lm_cpu_budget_ns (sc_limits (cw_scopes one_cpu ! 0)) = 0"
    "lm_cpu_budget_ns (sc_limits (cw_scopes one_cpu ! 0)) = 3000000" by (simp_all add: one_cpu_def scope_empty_def)
  have now: "25000000 div CPU_WINDOW_NS \<noteq> 0" "2000000 \<le> U64_MAX" by (simp_all add: CPU_WINDOW_NS_def U64_MAX_def)
  have "\<forall>i < length (cw_scopes one_cpu). sc_state (cw_scopes one_cpu ! i) \<noteq> SEmpty \<longrightarrow> sc_window_index (cw_scopes one_cpu ! i) = 0"
    using one_cpu_ok(3,6) by simp
  note r = roll_leaves_underflow [OF one_cpu_ok(1) one_cpu_bounded len one_cpu_ok(5) now(2) this now(1) adds refl re]
  have "answer = None" "sc_cpu_committed_ns (cw_scopes w2 ! 0) = 2 ^ 64 - 2000000"
    using r self carried by (auto simp: Let_def U64_MAX_def)
  then show ?thesis using adds re by blast
qed

end
