(* ===== verification/Frames.thy ===== *)
theory Frames
  imports Scope_Table
begin

text \<open>
  Physical memory (\<open>kernel/src/mm/mod.rs\<close>, \<open>kernel/src/mm/frame.rs\<close>): frames, mapping rights,
  owners, and the bitmap frame allocator with its quarantine. The allocator's record holds, besides
  the fields of \<open>FrameAllocator\<close>, the static \<open>QUARANTINE_PENDING\<close> and the contents of physical
  memory (\<open>fa_ram\<close>, what the direct map shows), because the allocator zeroes every frame it hands
  out. Counts of events (frames retained, released) are unbounded; everything an index, an underflow
  or an overflow can reach is a panic, \<open>None\<close>.
\<close>

definition MAX_DOMAINS :: nat where "MAX_DOMAINS = 16"

section \<open>Frames, rights and owners\<close>

datatype frame = Frame (frame_addr: u64)

definition frame_containing :: "u64 \<Rightarrow> frame" where
  "frame_containing a = Frame (a AND NOT (of_nat PAGE_SIZE - 1))"

definition frame_index :: "frame \<Rightarrow> nat" where
  "frame_index f = unat (frame_addr f div of_nat PAGE_SIZE)"

record rights =
  rt_read :: bool
  rt_write :: bool
  rt_execute :: bool
  rt_user :: bool
  rt_uncacheable :: bool

definition KERNEL_RW :: rights where
  "KERNEL_RW = \<lparr>rt_read = True, rt_write = True, rt_execute = False, rt_user = False, rt_uncacheable = False\<rparr>"

definition KERNEL_RO :: rights where
  "KERNEL_RO = \<lparr>rt_read = True, rt_write = False, rt_execute = False, rt_user = False, rt_uncacheable = False\<rparr>"

definition KERNEL_RX :: rights where
  "KERNEL_RX = \<lparr>rt_read = True, rt_write = False, rt_execute = True, rt_user = False, rt_uncacheable = False\<rparr>"

definition KERNEL_DEVICE :: rights where
  "KERNEL_DEVICE = \<lparr>rt_read = True, rt_write = True, rt_execute = False, rt_user = False, rt_uncacheable = True\<rparr>"

definition rights_user :: "bool \<Rightarrow> bool \<Rightarrow> bool \<Rightarrow> rights" where
  "rights_user r w x = \<lparr>rt_read = r, rt_write = w, rt_execute = x, rt_user = True, rt_uncacheable = False\<rparr>"

datatype rights_error = WriteOrExecuteWithoutRead | WriteAndExecute | NoAccess

definition rights_validate :: "rights \<Rightarrow> rights_error + unit" where
  "rights_validate r =
     (if \<not> rt_read r \<and> (rt_write r \<or> rt_execute r) then Inl WriteOrExecuteWithoutRead
      else if rt_write r \<and> rt_execute r then Inl WriteAndExecute
      else if \<not> rt_read r then Inl NoAccess
      else Inr ())"

fun rights_error_name :: "rights_error \<Rightarrow> string" where
  "rights_error_name WriteOrExecuteWithoutRead = ''write_or_execute_without_read''"
| "rights_error_name WriteAndExecute = ''write_and_execute''"
| "rights_error_name NoAccess = ''no_access''"

datatype owner = OwnKernel | OwnDomain nat | OwnScope nat

fun owner_slot :: "owner \<Rightarrow> nat" where
  "owner_slot OwnKernel = 0"
| "owner_slot (OwnDomain d) = d + 1"
| "owner_slot (OwnScope s) = s + 1 + MAX_DOMAINS"

section \<open>The allocator\<close>



definition OWNER_SLOTS :: nat where "OWNER_SLOTS = 1 + MAX_DOMAINS + MAX_SCOPES"

definition QUARANTINE_SLOTS :: nat where "QUARANTINE_SLOTS = 1024"

datatype alloc_error = OutOfMemory

record quarantined =
  qu_used :: bool
  qu_frame :: frame
  qu_owner :: owner
  qu_generation :: nat

definition quarantined_empty :: quarantined where
  "quarantined_empty = \<lparr>qu_used = False, qu_frame = frame_containing 0, qu_owner = OwnKernel, qu_generation = 0\<rparr>"

record frame_allocator =
  fa_bitmap :: "u64 list"
  fa_frames :: nat
  fa_free :: nat
  fa_usable :: nat
  fa_hint :: nat
  fa_charged :: "nat list"
  fa_quarantine :: "quarantined list"
  fa_quarantined :: nat
  fa_quarantine_peak :: nat
  fa_quarantine_retained :: nat
  fa_quarantine_released :: nat
  fa_pending :: bool
  fa_ram :: "u64 \<Rightarrow> u8"

definition quarantine_pending :: "frame_allocator \<Rightarrow> bool" where
  "quarantine_pending a = fa_pending a"

text \<open>Bitmap words: \<open>test\<close>, \<open>set\<close> and \<open>clear\<close>.\<close>

definition frame_test :: "frame_allocator \<Rightarrow> nat \<Rightarrow> bool option" where
  "frame_test a i =
     map_option (\<lambda>w. w AND push_bit (i mod 64) 1 \<noteq> 0) (nth_opt (fa_bitmap a) (i div 64))"

definition frame_set :: "frame_allocator \<Rightarrow> nat \<Rightarrow> frame_allocator option" where
  "frame_set a i =
     (if i div 64 < length (fa_bitmap a)
      then Some (a\<lparr>fa_bitmap := upd (i div 64) (\<lambda>w. w OR push_bit (i mod 64) 1) (fa_bitmap a)\<rparr>)
      else None)"

definition frame_clear :: "frame_allocator \<Rightarrow> nat \<Rightarrow> frame_allocator option" where
  "frame_clear a i =
     (if i div 64 < length (fa_bitmap a)
      then Some (a\<lparr>fa_bitmap := upd (i div 64) (\<lambda>w. w AND NOT (push_bit (i mod 64) 1)) (fa_bitmap a)\<rparr>)
      else None)"

definition charged_to :: "frame_allocator \<Rightarrow> owner \<Rightarrow> nat option" where
  "charged_to a own = nth_opt (fa_charged a) (owner_slot own)"

definition quarantined_for :: "frame_allocator \<Rightarrow> owner \<Rightarrow> nat" where
  "quarantined_for a own = length (filter (\<lambda>q. qu_used q \<and> qu_owner q = own) (fa_quarantine a))"

definition reassign_quarantine :: "frame_allocator \<Rightarrow> owner \<Rightarrow> owner \<Rightarrow> (frame_allocator \<times> nat) option" where
  "reassign_quarantine a from to =
     (let moved = quarantined_for a from;
          a1 = a\<lparr>fa_quarantine := map (\<lambda>q. if qu_used q \<and> qu_owner q = from then q\<lparr>qu_owner := to\<rparr> else q)
                  (fa_quarantine a)\<rparr>
      in if owner_slot from < length (fa_charged a) \<and> owner_slot to < length (fa_charged a)
         then Some (a1\<lparr>fa_charged := upd (owner_slot to) (\<lambda>c. sat_add64 c moved)
                         (upd (owner_slot from) (\<lambda>c. c - moved) (fa_charged a))\<rparr>, moved)
         else None)"

definition retire_at :: "frame_allocator \<Rightarrow> frame \<Rightarrow> owner \<Rightarrow> nat \<Rightarrow> frame_allocator" where
  "retire_at a f own gen =
     (let a1 = a\<lparr>fa_pending := True\<rparr>
      in case position (\<lambda>q. \<not> qu_used q) (fa_quarantine a) of
           Some i \<Rightarrow>
             a1\<lparr>fa_quarantine := (fa_quarantine a)
                  [i := \<lparr>qu_used = True, qu_frame = f, qu_owner = own, qu_generation = gen\<rparr>],
                fa_quarantined := fa_quarantined a + 1,
                fa_quarantine_peak :=
                  (if fa_quarantined a + 1 > fa_quarantine_peak a then fa_quarantined a + 1
                   else fa_quarantine_peak a)\<rparr>
         | None \<Rightarrow> a1\<lparr>fa_quarantine_retained := fa_quarantine_retained a + 1\<rparr>)"

definition frame_release :: "frame_allocator \<Rightarrow> frame \<Rightarrow> owner \<Rightarrow> frame_allocator option" where
  "frame_release a f own =
     (let index = frame_index f
      in if index \<ge> fa_frames a then Some a
         else do {
           busy \<leftarrow> frame_test a index;
           if \<not> busy then Some a
           else do {
             a1 \<leftarrow> frame_clear a index;
             let a2 = a1\<lparr>fa_free := fa_free a1 + 1,
                         fa_hint := (if index < fa_hint a1 then index else fa_hint a1)\<rparr>;
             if owner_slot own < length (fa_charged a2)
             then Some (a2\<lparr>fa_charged := upd (owner_slot own) (\<lambda>c. c - 1) (fa_charged a2)\<rparr>)
             else None
           }
         })"

text \<open>One turn of the drain, and the drain itself; \<open>safe\<close> is what \<open>tlb::safe_generation\<close> returned.\<close>

definition drain_one :: "nat \<Rightarrow> nat \<Rightarrow> frame_allocator \<times> nat \<Rightarrow> (frame_allocator \<times> nat) option" where
  "drain_one safe index st =
     (case st of (a, released) \<Rightarrow> do {
        q \<leftarrow> nth_opt (fa_quarantine a) index;
        if \<not> qu_used q \<or> qu_generation q > safe then Some (a, released)
        else if fa_quarantined a = 0 then None
        else do {
          a1 \<leftarrow> frame_release
                 (a\<lparr>fa_quarantine := upd index (\<lambda>q. q\<lparr>qu_used := False\<rparr>) (fa_quarantine a),
                    fa_quarantined := fa_quarantined a - 1\<rparr>)
                 (qu_frame q) (qu_owner q);
          Some (a1, released + 1)
        }
      })"

definition drain_quarantine :: "frame_allocator \<Rightarrow> nat \<Rightarrow> (frame_allocator \<times> nat) option" where
  "drain_quarantine a safe =
     (case fold_opt (drain_one safe) [0..<length (fa_quarantine a)] (a, 0) of
        None \<Rightarrow> None
      | Some (a1, released) \<Rightarrow>
          Some (a1\<lparr>fa_quarantine_released := fa_quarantine_released a1 + released,
                   fa_pending := (if fa_quarantined a1 = 0 then False else fa_pending a1)\<rparr>, released))"

text \<open>
  The frame with a given index, and what every allocation does with the free frame it found: set its
  bit, count it, charge it and zero it.
\<close>

definition frame_at :: "nat \<Rightarrow> frame option" where
  "frame_at index =
     (if index * PAGE_SIZE \<le> U64_MAX then Some (frame_containing (of_nat (index * PAGE_SIZE))) else None)"

definition zero_frame :: "frame \<Rightarrow> (u64 \<Rightarrow> u8) \<Rightarrow> u64 \<Rightarrow> u8" where
  "zero_frame f ram = (\<lambda>x. if unat (frame_addr f) \<le> unat x \<and> unat x < unat (frame_addr f) + PAGE_SIZE then 0 else ram x)"

definition take_frame :: "frame_allocator \<Rightarrow> nat \<Rightarrow> owner \<Rightarrow> (frame_allocator \<times> frame) option" where
  "take_frame a index own = do {
     a1 \<leftarrow> frame_set a index;
     c \<leftarrow> (if fa_free a1 = 0 then None else nth_opt (fa_charged a1) (owner_slot own));
     c' \<leftarrow> checked_add64 c 1;
     f \<leftarrow> frame_at index;
     Some (a1\<lparr>fa_free := fa_free a1 - 1,
              fa_charged := upd (owner_slot own) (\<lambda>_. c') (fa_charged a1),
              fa_ram := zero_frame f (fa_ram a1)\<rparr>, f)
   }"

fun scan_below :: "frame_allocator \<Rightarrow> owner \<Rightarrow> nat list \<Rightarrow> (frame_allocator \<times> (alloc_error + frame)) option" where
  "scan_below a own [] = Some (a, Inl OutOfMemory)"
| "scan_below a own (i # is) = do {
     busy \<leftarrow> frame_test a i;
     if busy then scan_below a own is
     else do { (a1, f) \<leftarrow> take_frame a i own; Some (a1, Inr f) }
   }"

definition alloc_below :: "frame_allocator \<Rightarrow> nat \<Rightarrow> owner \<Rightarrow> (frame_allocator \<times> (alloc_error + frame)) option" where
  "alloc_below a limit own = scan_below a own [1..<min (limit div PAGE_SIZE) (fa_frames a)]"

fun alloc_scan :: "nat \<Rightarrow> frame_allocator \<Rightarrow> owner \<Rightarrow> nat \<Rightarrow> nat \<Rightarrow> (frame_allocator \<times> (alloc_error + frame)) option" where
  "alloc_scan 0 a own start index = None"
| "alloc_scan (Suc n) a own start index = do {
     busy \<leftarrow> frame_test a index;
     if \<not> busy then do {
       (a1, f) \<leftarrow> take_frame a index own;
       Some (a1\<lparr>fa_hint := (if index + 1 \<ge> fa_frames a1 then 0 else index + 1)\<rparr>, Inr f)
     } else
       (let next = (if index + 1 \<ge> fa_frames a then 0 else index + 1)
        in if next = start then Some (a, Inl OutOfMemory) else alloc_scan n a own start next)
   }"

definition alloc :: "frame_allocator \<Rightarrow> nat \<Rightarrow> owner \<Rightarrow> (frame_allocator \<times> (alloc_error + frame)) option" where
  "alloc a safe own = do {
     a1 \<leftarrow> (if fa_free a = 0 then map_option fst (drain_quarantine a safe) else Some a);
     alloc_scan (Suc (fa_frames a1)) a1 own (fa_hint a1) (fa_hint a1)
   }"

text \<open>The length of the free run at \<open>index\<close>, cut off at \<open>count\<close>.\<close>

fun free_run :: "frame_allocator \<Rightarrow> nat \<Rightarrow> nat \<Rightarrow> nat option" where
  "free_run a index 0 = Some 0"
| "free_run a index (Suc n) = do {
     busy \<leftarrow> frame_test a index;
     if busy then Some 0 else map_option Suc (free_run a (index + 1) n)
   }"

definition take_each :: "owner \<Rightarrow> nat \<Rightarrow> frame_allocator \<Rightarrow> frame_allocator option" where
  "take_each own index a = map_option fst (take_frame a index own)"

function take_run :: "frame_allocator \<Rightarrow> nat \<Rightarrow> nat \<Rightarrow> nat \<Rightarrow> owner \<Rightarrow> (frame_allocator \<times> frame option) option" where
  "take_run a index to count own =
     (if index + count > U64_MAX then None
      else if index + count \<le> to then
        (case free_run a index count of
           None \<Rightarrow> None
         | Some run \<Rightarrow>
             if run = count then do {
               a1 \<leftarrow> fold_opt (take_each own) [index..<index + count] a;
               f \<leftarrow> frame_at index;
               Some (a1\<lparr>fa_hint := (if index + count \<ge> fa_frames a1 then 0 else index + count)\<rparr>, Some f)
             } else take_run a (index + (run + 1)) to count own)
      else Some (a, None))"
  by pat_completeness auto
termination
  by (relation "measure (\<lambda>(a, index, to, count, own). Suc to - index)") auto

declare take_run.simps [simp del]

definition alloc_contiguous :: "frame_allocator \<Rightarrow> nat \<Rightarrow> nat \<Rightarrow> owner \<Rightarrow> (frame_allocator \<times> (alloc_error + frame)) option" where
  "alloc_contiguous a safe count own =
     (if count = 0 then Some (a, Inl OutOfMemory)
      else do {
        (a1, _) \<leftarrow> drain_quarantine a safe;
        let start = min (fa_hint a1) (fa_frames a1);
        (a2, r) \<leftarrow> take_run a1 start (fa_frames a1) count own;
        case r of
          Some f \<Rightarrow> Some (a2, Inr f)
        | None \<Rightarrow> do {
            (a3, r') \<leftarrow> take_run a2 0 (min (sat_add64 start count) (fa_frames a2)) count own;
            case r' of Some f \<Rightarrow> Some (a3, Inr f) | None \<Rightarrow> Some (a3, Inl OutOfMemory)
          }
      })"

definition reclaim_one :: "nat \<Rightarrow> frame_allocator \<times> nat \<Rightarrow> (frame_allocator \<times> nat) option" where
  "reclaim_one index st =
     (case st of (a, recovered) \<Rightarrow> do {
        busy \<leftarrow> frame_test a index;
        if busy then do {
          a1 \<leftarrow> frame_clear a index;
          Some (a1\<lparr>fa_free := fa_free a1 + 1\<rparr>, recovered + 1)
        } else Some (a, recovered)
      })"

definition reclaim :: "frame_allocator \<Rightarrow> nat \<Rightarrow> nat \<Rightarrow> (frame_allocator \<times> nat) option" where
  "reclaim a base pages =
     (let first = base div PAGE_SIZE
      in fold_opt reclaim_one [first..<min (sat_add64 first pages) (fa_frames a)] (a, 0))"

section \<open>Construction from the loader's memory map\<close>

definition REGION_USABLE :: nat where "REGION_USABLE = 1"

record memory_region =
  mr_base :: nat
  mr_pages :: nat
  mr_kind :: nat
  mr_flags :: nat

definition div_ceil :: "nat \<Rightarrow> nat \<Rightarrow> nat" where
  "div_ceil n d = (if n mod d = 0 then n div d else n div d + 1)"

definition bitmap_frames :: "nat \<Rightarrow> nat" where
  "bitmap_frames limit_frames = div_ceil (div_ceil limit_frames 64 * 8) PAGE_SIZE"

definition free_one :: "nat \<Rightarrow> frame_allocator \<Rightarrow> frame_allocator option" where
  "free_one index a = do {
     busy \<leftarrow> frame_test a index;
     if busy then do {
       a1 \<leftarrow> frame_clear a index;
       Some (a1\<lparr>fa_free := fa_free a1 + 1, fa_usable := fa_usable a1 + 1\<rparr>)
     } else Some a
   }"

definition free_region :: "memory_region \<Rightarrow> frame_allocator \<Rightarrow> frame_allocator option" where
  "free_region region a =
     (if mr_kind region \<noteq> REGION_USABLE then Some a
      else let first = mr_base region div PAGE_SIZE
           in fold_opt free_one [first..<min (sat_add64 first (mr_pages region)) (fa_frames a)] a)"

definition take_back :: "nat \<Rightarrow> frame_allocator \<Rightarrow> frame_allocator option" where
  "take_back index a = do {
     busy \<leftarrow> frame_test a index;
     if busy then Some a
     else do {
       a1 \<leftarrow> frame_set a index;
       if fa_free a1 = 0 then None else Some (a1\<lparr>fa_free := fa_free a1 - 1\<rparr>)
     }
   }"

definition frame_allocator_start :: "nat \<Rightarrow> (u64 \<Rightarrow> u8) \<Rightarrow> frame_allocator" where
  "frame_allocator_start limit_frames ram =
     \<lparr>fa_bitmap = replicate (div_ceil limit_frames 64) (-1), fa_frames = limit_frames, fa_free = 0,
      fa_usable = 0, fa_hint = 0, fa_charged = replicate OWNER_SLOTS 0,
      fa_quarantine = replicate QUARANTINE_SLOTS quarantined_empty, fa_quarantined = 0,
      fa_quarantine_peak = 0, fa_quarantine_retained = 0, fa_quarantine_released = 0,
      fa_pending = False, fa_ram = ram\<rparr>"

text \<open>The inner option is the \<open>Option\<close> of the source: no usable region holds the bitmap.\<close>

definition frame_allocator_new :: "memory_region list \<Rightarrow> nat \<Rightarrow> (u64 \<Rightarrow> u8) \<Rightarrow> frame_allocator option option" where
  "frame_allocator_new regions limit_frames ram =
     (case position (\<lambda>r. mr_kind r = REGION_USABLE \<and> mr_pages r \<ge> bitmap_frames limit_frames) regions of
        None \<Rightarrow> Some None
      | Some k \<Rightarrow> do {
          let bitmap_first = mr_base (regions ! k) div PAGE_SIZE;
          a1 \<leftarrow> fold_opt free_region regions (frame_allocator_start limit_frames ram);
          a2 \<leftarrow> fold_opt take_back [bitmap_first..<bitmap_first + bitmap_frames limit_frames] a1;
          Some (Some (a2\<lparr>fa_charged := upd (owner_slot OwnKernel) (\<lambda>c. c + bitmap_frames limit_frames) (fa_charged a2)\<rparr>))
        })"

end
