(* ===== verification/Tlb.thy ===== *)
theory Tlb
  imports Frames
begin

text \<open>
  Cross-processor invalidation (\<open>kernel/src/tlb.rs\<close>). The statics of the module are one record;
  an operation that asks which processor it runs on takes that index as its first argument, and one
  that writes a control register returns what it flushed. The waiting loop reads counters other
  processors move, so it takes what each of its loads returned (\<open>seen_at spin cpu\<close>) as an argument.
  The lemmas say what the safe generation is and that a wait always ends with an honest answer.
\<close>

definition MAX_CPUS :: nat where "MAX_CPUS = 8"

definition WAIT_SPIN_LIMIT :: nat where "WAIT_SPIN_LIMIT = 200000000"

text \<open>\<open>usize::MAX\<close>: no space loaded.\<close>

definition NO_SPACE :: nat where "NO_SPACE = U64_MAX"

record processor =
  pr_seen :: nat
  pr_seen_kernel :: nat
  pr_space :: nat
  pr_loaded :: nat

definition processor_boot :: processor where
  "processor_boot = \<lparr>pr_seen = 1, pr_seen_kernel = 1, pr_space = NO_SPACE, pr_loaded = 0\<rparr>"

record tlb =
  tl_generation :: nat
  tl_kernel_generation :: nat
  tl_processors :: "processor list"
  tl_online :: u64
  tl_published :: nat
  tl_ipis :: nat
  tl_flushes :: nat
  tl_timeouts :: nat
  tl_max_spins :: nat
  tl_space_masks :: "u64 list"
  tl_space_live :: "u64 list"

definition tlb_boot :: tlb where
  "tlb_boot = \<lparr>tl_generation = 1, tl_kernel_generation = 1,
     tl_processors = replicate MAX_CPUS processor_boot, tl_online = 0, tl_published = 0, tl_ipis = 0,
     tl_flushes = 0, tl_timeouts = 0, tl_max_spins = 0,
     tl_space_masks = replicate MAX_DOMAINS 0, tl_space_live = replicate MAX_DOMAINS 0\<rparr>"

text \<open>\<open>1u64 << cpu\<close>; a shift by the width or more is a panic.\<close>

definition cpu_bit :: "nat \<Rightarrow> u64 option" where
  "cpu_bit cpu = (if cpu < 64 then Some (push_bit cpu 1) else None)"

definition in_mask :: "u64 \<Rightarrow> nat \<Rightarrow> bool" where
  "in_mask m cpu \<longleftrightarrow> m AND push_bit cpu 1 \<noteq> 0"

section \<open>Who may hold a translation of a space\<close>

definition note_dispatch :: "nat \<Rightarrow> nat \<Rightarrow> tlb \<Rightarrow> tlb option" where
  "note_dispatch domain cpu t = do {
     b \<leftarrow> cpu_bit cpu;
     Some (t\<lparr>tl_space_masks := upd domain (\<lambda>m. if m AND b = 0 then m OR b else m) (tl_space_masks t),
             tl_space_live := upd domain (\<lambda>m. if m AND b = 0 then m OR b else m) (tl_space_live t)\<rparr>)
   }"

definition space_mask :: "nat \<Rightarrow> tlb \<Rightarrow> u64" where
  "space_mask domain t = (case nth_opt (tl_space_masks t) domain of None \<Rightarrow> 0 | Some m \<Rightarrow> m)"

definition live_mask :: "nat \<Rightarrow> tlb \<Rightarrow> u64" where
  "live_mask domain t = (case nth_opt (tl_space_live t) domain of None \<Rightarrow> 0 | Some m \<Rightarrow> m)"

definition forget_space :: "nat \<Rightarrow> tlb \<Rightarrow> tlb" where
  "forget_space domain t =
     t\<lparr>tl_space_masks := upd domain (\<lambda>_. 0) (tl_space_masks t), tl_space_live := upd domain (\<lambda>_. 0) (tl_space_live t)\<rparr>"

text \<open>
  Loads a root, unless it is the one loaded: \<open>cr3_now\<close> is what the control register reads when this
  processor has written none yet. The flag says whether the register was written, which retires every
  entry of the space being left.
\<close>

definition switch_space :: "nat \<Rightarrow> nat \<Rightarrow> nat \<Rightarrow> nat \<Rightarrow> tlb \<Rightarrow> (tlb \<times> bool) option" where
  "switch_space me cr3_now cr3 domain t =
     (if me \<ge> MAX_CPUS then Some (t, False)
      else do {
        b \<leftarrow> cpu_bit me;
        p \<leftarrow> nth_opt (tl_processors t) me;
        let loaded = (if pr_loaded p = 0 then cr3_now else pr_loaded p);
        let t1 = t\<lparr>tl_processors := upd me (\<lambda>p. p\<lparr>pr_loaded := loaded\<rparr>) (tl_processors t)\<rparr>;
        if cr3 = 0 \<or> cr3 = loaded then Some (t1, False)
        else
          (let leaving = pr_space p;
               t2 = t1\<lparr>tl_processors := upd me (\<lambda>p. p\<lparr>pr_space := domain, pr_loaded := cr3\<rparr>) (tl_processors t1)\<rparr>
           in Some
            (if leaving \<noteq> domain
             then t2\<lparr>tl_space_live := upd leaving (\<lambda>m. if m AND b \<noteq> 0 then m AND NOT b else m) (tl_space_live t2)\<rparr>
             else t2, True))
      })"

section \<open>Processors and generations\<close>

definition mark_online :: "nat \<Rightarrow> tlb \<Rightarrow> tlb" where
  "mark_online cpu t =
     (if cpu \<ge> MAX_CPUS then t
      else t\<lparr>tl_processors := upd cpu (\<lambda>p. p\<lparr>pr_seen := tl_generation t\<rparr>) (tl_processors t),
             tl_online := tl_online t OR push_bit cpu 1\<rparr>)"

definition mark_offline :: "nat \<Rightarrow> tlb \<Rightarrow> tlb" where
  "mark_offline cpu t =
     (if cpu \<ge> MAX_CPUS then t
      else t\<lparr>tl_processors := upd cpu (\<lambda>p. p\<lparr>pr_seen := U64_MAX\<rparr>) (tl_processors t),
             tl_online := tl_online t AND NOT (push_bit cpu 1)\<rparr>)"

definition online_mask :: "tlb \<Rightarrow> u64" where
  "online_mask t = tl_online t"

text \<open>The returned generation is the previous value plus one, and that addition is checked.\<close>

definition bump_generation :: "tlb \<Rightarrow> (tlb \<times> nat) option" where
  "bump_generation t = do {
     g \<leftarrow> checked_add64 (tl_generation t) 1;
     Some (t\<lparr>tl_generation := wrap_add64 (tl_generation t) 1\<rparr>, g)
   }"

definition publish :: "tlb \<Rightarrow> (tlb \<times> nat) option" where
  "publish t = bump_generation (t\<lparr>tl_published := wrap_add64 (tl_published t) 1\<rparr>)"

definition retire_stamp :: "tlb \<Rightarrow> (tlb \<times> nat) option" where
  "retire_stamp t = bump_generation t"

definition retire_stamp_kernel :: "tlb \<Rightarrow> (tlb \<times> nat) option" where
  "retire_stamp_kernel t =
     bump_generation (t\<lparr>tl_kernel_generation := wrap_add64 (tl_kernel_generation t) 1\<rparr>)"

datatype flush = FlushUser | FlushAll

definition refresh_local :: "nat \<Rightarrow> tlb \<Rightarrow> (tlb \<times> flush option) option" where
  "refresh_local cpu t =
     (if cpu \<ge> MAX_CPUS then Some (t, None)
      else do {
        p \<leftarrow> nth_opt (tl_processors t) cpu;
        let wanted = tl_generation t;
        if pr_seen p \<ge> wanted then Some (t, None)
        else
          (let wanted_kernel = tl_kernel_generation t
           in Some (t\<lparr>tl_flushes := wrap_add64 (tl_flushes t) 1,
                      tl_processors := upd cpu (\<lambda>p. p\<lparr>pr_seen_kernel := wanted_kernel, pr_seen := wanted\<rparr>) (tl_processors t)\<rparr>,
                    Some (if pr_seen_kernel p < wanted_kernel then FlushAll else FlushUser)))
      })"

section \<open>Announcing and waiting\<close>

text \<open>
  The processors an announcement interrupts. \<open>apic\<close> is the local controller and the identifiers
  \<open>smp::apic_id_of\<close> gives, nothing when there is no controller; \<open>u32::MAX\<close> is no identifier.
\<close>

definition notify_targets :: "(nat \<Rightarrow> nat) option \<Rightarrow> nat \<Rightarrow> u64 \<Rightarrow> tlb \<Rightarrow> nat list" where
  "notify_targets apic me targets t =
     (case apic of
        None \<Rightarrow> []
      | Some apic_id_of \<Rightarrow>
          let online = targets AND tl_online t
          in filter (\<lambda>cpu. \<not> (cpu = me \<or> \<not> in_mask online cpu) \<and> apic_id_of cpu \<noteq> U32_MAX) [0..<MAX_CPUS])"

definition notify :: "(nat \<Rightarrow> nat) option \<Rightarrow> nat \<Rightarrow> u64 \<Rightarrow> tlb \<Rightarrow> tlb" where
  "notify apic me targets t =
     t\<lparr>tl_ipis := wrap_add64 (tl_ipis t) (length (notify_targets apic me targets t))\<rparr>"

record ack =
  ak_generation :: nat
  ak_acknowledged :: nat
  ak_expected :: nat
  ak_live :: nat
  ak_interrupted :: nat
  ak_spins :: nat
  ak_timed_out :: bool

definition count_ones :: "u64 \<Rightarrow> nat" where
  "count_ones m = length (filter (bit m) [0..<64])"

text \<open>One look at the counters: how many of the expected processors have acknowledged.\<close>

definition acknowledged_at :: "(nat \<Rightarrow> nat) \<Rightarrow> u64 \<Rightarrow> nat \<Rightarrow> nat" where
  "acknowledged_at seen who generation =
     length (filter (\<lambda>cpu. in_mask who cpu \<and> seen cpu \<ge> generation) [0..<MAX_CPUS])"

definition outstanding_at :: "(nat \<Rightarrow> nat) \<Rightarrow> u64 \<Rightarrow> nat \<Rightarrow> bool" where
  "outstanding_at seen who generation =
     list_ex (\<lambda>cpu. in_mask who cpu \<and> seen cpu < generation) [0..<MAX_CPUS]"

definition ack_of :: "(nat \<Rightarrow> nat) \<Rightarrow> u64 \<Rightarrow> nat \<Rightarrow> nat \<Rightarrow> bool \<Rightarrow> ack" where
  "ack_of seen who generation spins timed_out =
     \<lparr>ak_generation = generation, ak_acknowledged = acknowledged_at seen who generation,
      ak_expected = count_ones who, ak_live = count_ones who,
      ak_interrupted = count_ones who - 1, ak_spins = spins, ak_timed_out = timed_out\<rparr>"

text \<open>The announcement is repeated every million spins; the loop gives up at the limit.\<close>

function wait_loop :: "(nat \<Rightarrow> nat) option \<Rightarrow> nat \<Rightarrow> (nat \<Rightarrow> nat \<Rightarrow> nat) \<Rightarrow> nat \<Rightarrow> u64 \<Rightarrow> nat \<Rightarrow> tlb \<Rightarrow> tlb \<times> ack" where
  "wait_loop apic me seen_at generation who spins t =
     (if \<not> outstanding_at (seen_at spins) who generation
      then (t\<lparr>tl_max_spins := (if spins > tl_max_spins t then spins else tl_max_spins t)\<rparr>,
            ack_of (seen_at spins) who generation spins False)
      else
        (let spins' = spins + 1;
             t' = (if spins' mod 1000000 = 0 then notify apic me who t else t)
         in if spins' \<ge> WAIT_SPIN_LIMIT
            then (t'\<lparr>tl_timeouts := wrap_add64 (tl_timeouts t') 1\<rparr>,
                  ack_of (seen_at spins) who generation spins' True)
            else wait_loop apic me seen_at generation who spins' t'))"
  by pat_completeness auto
termination
  by (relation "measure (\<lambda>(apic, me, seen_at, g, who, spins, t). WAIT_SPIN_LIMIT - spins)") auto

declare wait_loop.simps [simp del]

definition wait_for_mask ::
    "(nat \<Rightarrow> nat) option \<Rightarrow> nat \<Rightarrow> (nat \<Rightarrow> nat \<Rightarrow> nat) \<Rightarrow> nat \<Rightarrow> u64 \<Rightarrow> tlb \<Rightarrow> (tlb \<times> ack) option" where
  "wait_for_mask apic me seen_at generation who t = do {
     (t1, _) \<leftarrow> refresh_local me t;
     Some (wait_loop apic me seen_at generation who 0 (notify apic me who t1))
   }"

definition wait_for :: "(nat \<Rightarrow> nat) option \<Rightarrow> nat \<Rightarrow> (nat \<Rightarrow> nat \<Rightarrow> nat) \<Rightarrow> nat \<Rightarrow> tlb \<Rightarrow> (tlb \<times> ack) option" where
  "wait_for apic me seen_at generation t = wait_for_mask apic me seen_at generation (tl_online t) t"

definition shootdown :: "(nat \<Rightarrow> nat) option \<Rightarrow> nat \<Rightarrow> (nat \<Rightarrow> nat \<Rightarrow> nat) \<Rightarrow> tlb \<Rightarrow> (tlb \<times> ack) option" where
  "shootdown apic me seen_at t = do {
     (t1, generation) \<leftarrow> publish t;
     wait_for apic me seen_at generation t1
   }"

definition shootdown_space ::
    "(nat \<Rightarrow> nat) option \<Rightarrow> nat \<Rightarrow> (nat \<Rightarrow> nat \<Rightarrow> nat) \<Rightarrow> nat \<Rightarrow> tlb \<Rightarrow> (tlb \<times> ack) option" where
  "shootdown_space apic me seen_at domain t = do {
     (t1, generation) \<leftarrow> publish t;
     b \<leftarrow> cpu_bit me;
     let online = tl_online t1;
     let live = live_mask domain t1 AND online;
     let others = live AND NOT b;
     let elsewhere = count_ones (online AND NOT live);
     if others = 0
     then Some (t1, \<lparr>ak_generation = generation, ak_acknowledged = count_ones online,
                     ak_expected = count_ones online, ak_live = count_ones live, ak_interrupted = 0,
                     ak_spins = 0, ak_timed_out = False\<rparr>)
     else do {
       (t2, a) \<leftarrow> wait_for_mask apic me seen_at generation live t1;
       Some (t2, a\<lparr>ak_acknowledged := ak_acknowledged a + elsewhere, ak_expected := count_ones online,
                   ak_live := count_ones live, ak_interrupted := count_ones others\<rparr>)
     }
   }"

section \<open>The reclamation condition\<close>

definition seen_of :: "tlb \<Rightarrow> nat \<Rightarrow> nat" where
  "seen_of t cpu = pr_seen (tl_processors t ! cpu)"

definition flushed_by :: "u64 \<Rightarrow> nat \<Rightarrow> tlb \<Rightarrow> bool" where
  "flushed_by who generation t =
     (let online = who AND tl_online t
      in list_all (\<lambda>cpu. \<not> in_mask online cpu \<or> \<not> seen_of t cpu < generation) [0..<MAX_CPUS])"

definition safe_generation :: "tlb \<Rightarrow> nat" where
  "safe_generation t =
     (if tl_online t = 0 then tl_generation t
      else fold (\<lambda>cpu safe.
             if \<not> in_mask (tl_online t) cpu then safe
             else if seen_of t cpu < safe then seen_of t cpu else safe) [0..<MAX_CPUS] U64_MAX)"

definition tlb_counters :: "tlb \<Rightarrow> nat \<times> nat \<times> nat \<times> nat \<times> nat" where
  "tlb_counters t = (tl_published t, tl_ipis t, tl_flushes t, tl_timeouts t, tl_max_spins t)"

section \<open>Lemmas\<close>

lemma in_mask_bit: "in_mask m cpu \<longleftrightarrow> bit m cpu"
  by (simp add: in_mask_def bit_iff_and_push_bit_not_eq_0)

definition online :: "tlb \<Rightarrow> nat \<Rightarrow> bool" where
  "online t cpu \<longleftrightarrow> cpu < MAX_CPUS \<and> bit (tl_online t) cpu"

lemma fold_min_le:
  fixes s :: nat
  shows "g \<le> fold (\<lambda>c m. if \<not> P c then m else if f c < m then f c else m) cs s \<longleftrightarrow>
    g \<le> s \<and> (\<forall>c \<in> set cs. P c \<longrightarrow> g \<le> f c)"
  by (induction cs arbitrary: s) auto

lemma safe_generation_le:
  "tl_online t \<noteq> 0 \<Longrightarrow> g \<le> safe_generation t \<longleftrightarrow> g \<le> U64_MAX \<and> (\<forall>c. online t c \<longrightarrow> g \<le> seen_of t c)"
  by (auto simp: safe_generation_def fold_min_le in_mask_bit online_def)

lemma wait_loop_effect:
  assumes "spins < WAIT_SPIN_LIMIT"
  shows "\<exists>t' s to. wait_loop apic me seen_at g who spins t = (t', ack_of (seen_at s) who g (if to then s + 1 else s) to) \<and>
    spins \<le> s \<and> s < WAIT_SPIN_LIMIT \<and> (\<forall>u. spins \<le> u \<and> u < s \<longrightarrow> outstanding_at (seen_at u) who g) \<and>
    to = outstanding_at (seen_at s) who g \<and> (to \<longrightarrow> s + 1 = WAIT_SPIN_LIMIT)"
  using assms
proof (induction "WAIT_SPIN_LIMIT - spins" arbitrary: spins t rule: less_induct)
  case less
  show ?case
  proof (cases "outstanding_at (seen_at spins) who g")
    case False
    then show ?thesis
      using less.prems by (subst wait_loop.simps) (auto intro!: exI [of _ spins] exI [of _ False])
  next
    case True
    let ?t = "if (spins + 1) mod 1000000 = 0 then notify apic me who t else t"
    show ?thesis
    proof (cases "spins + 1 \<ge> WAIT_SPIN_LIMIT")
      case True
      then show ?thesis
        using less.prems \<open>outstanding_at (seen_at spins) who g\<close>
        by (subst wait_loop.simps) (auto simp: Let_def intro!: exI [of _ spins] exI [of _ True])
    next
      case False
      have step: "wait_loop apic me seen_at g who spins t = wait_loop apic me seen_at g who (spins + 1) ?t"
        using False True by (subst wait_loop.simps) (simp add: Let_def)
      have "WAIT_SPIN_LIMIT - (spins + 1) < WAIT_SPIN_LIMIT - spins" "spins + 1 < WAIT_SPIN_LIMIT"
        using False less.prems by auto
      from less.hyps [OF this, of ?t] obtain t' s to where
        "wait_loop apic me seen_at g who (spins + 1) ?t = (t', ack_of (seen_at s) who g (if to then s + 1 else s) to)"
        "spins + 1 \<le> s" "s < WAIT_SPIN_LIMIT" "\<forall>u. spins + 1 \<le> u \<and> u < s \<longrightarrow> outstanding_at (seen_at u) who g"
        "to = outstanding_at (seen_at s) who g" "to \<longrightarrow> s + 1 = WAIT_SPIN_LIMIT" by blast
      moreover have "outstanding_at (seen_at u) who g" if "spins \<le> u" "u < s" for u
        using that True calculation(4) by (cases "u = spins") auto
      ultimately show ?thesis
        unfolding step by (intro exI [of _ t'] exI [of _ s] exI [of _ to]) auto
    qed
  qed
qed

lemma outstanding_iff:
  "outstanding_at seen who g \<longleftrightarrow> (\<exists>c < MAX_CPUS. bit who c \<and> seen c < g)"
  by (auto simp: outstanding_at_def in_mask_bit list_ex_iff)

lemma acknowledged_all:
  assumes "\<not> outstanding_at seen who g"
  shows "acknowledged_at seen who g = length (filter (bit who) [0..<MAX_CPUS])"
proof -
  have "filter (\<lambda>c. in_mask who c \<and> g \<le> seen c) [0..<MAX_CPUS] = filter (bit who) [0..<MAX_CPUS]"
    using assms by (intro filter_cong) (auto simp: outstanding_iff in_mask_bit not_less)
  then show ?thesis by (simp add: acknowledged_at_def)
qed

lemma refresh_local_some: "length (tl_processors t) = MAX_CPUS \<Longrightarrow> refresh_local me t \<noteq> None"
  by (simp add: refresh_local_def Let_def)

section \<open>Properties\<close>

text \<open>
  C13. Waiting for an acknowledgement always ends, after at most the spin limit, and its answer is
  honest: it reports success exactly when some look at the counters found every expected processor
  at the generation or past it, returns at the first such look with every expected processor counted,
  and reports a timeout only when every look up to the limit found one that was not there.
\<close>

theorem wait_ends_honestly:
  assumes "length (tl_processors t) = MAX_CPUS"
  shows "\<exists>t' a. wait_for_mask apic me seen_at g who t = Some (t', a) \<and> ak_spins a \<le> WAIT_SPIN_LIMIT \<and>
    (ak_timed_out a \<longleftrightarrow> (\<forall>s < WAIT_SPIN_LIMIT. \<exists>c < MAX_CPUS. bit who c \<and> seen_at s c < g)) \<and>
    (\<not> ak_timed_out a \<longrightarrow>
       (\<forall>c < MAX_CPUS. bit who c \<longrightarrow> g \<le> seen_at (ak_spins a) c) \<and>
       (\<forall>s < ak_spins a. \<exists>c < MAX_CPUS. bit who c \<and> seen_at s c < g) \<and>
       ak_acknowledged a = length (filter (bit who) [0..<MAX_CPUS]))"
proof -
  obtain t1 f where t1: "refresh_local me t = Some (t1, f)"
    using refresh_local_some [OF assms, of me] by auto
  have "0 < WAIT_SPIN_LIMIT" by (simp add: WAIT_SPIN_LIMIT_def)
  from wait_loop_effect [OF this, of apic me seen_at g who "notify apic me who t1"]
  obtain t' s to where w: "wait_loop apic me seen_at g who 0 (notify apic me who t1) =
        (t', ack_of (seen_at s) who g (if to then s + 1 else s) to)"
      "s < WAIT_SPIN_LIMIT" "\<forall>u. u < s \<longrightarrow> outstanding_at (seen_at u) who g"
      "to = outstanding_at (seen_at s) who g" "to \<longrightarrow> s + 1 = WAIT_SPIN_LIMIT" by auto
  let ?a = "ack_of (seen_at s) who g (if to then s + 1 else s) to"
  have out: "\<forall>u < WAIT_SPIN_LIMIT. outstanding_at (seen_at u) who g" if to
    using w(3,4,5) that by (metis add.commute less_Suc_eq plus_1_eq_Suc)
  have ret: "wait_for_mask apic me seen_at g who t = Some (t', ?a)"
    using t1 w(1) by (simp add: wait_for_mask_def)
  show ?thesis
  proof (cases to)
    case True
    have "\<forall>s < WAIT_SPIN_LIMIT. \<exists>c < MAX_CPUS. bit who c \<and> seen_at s c < g"
      using out [OF True] by (simp add: outstanding_iff)
    then show ?thesis
      using ret w(5) True by (intro exI [of _ t'] exI [of _ ?a]) (simp add: ack_of_def)
  next
    case False
    then have all: "\<forall>c < MAX_CPUS. bit who c \<longrightarrow> g \<le> seen_at s c"
      using w(4) by (auto simp: outstanding_iff not_less)
    have first: "\<forall>u < s. \<exists>c < MAX_CPUS. bit who c \<and> seen_at u c < g"
      using w(3) by (simp add: outstanding_iff)
    have "\<not> (\<forall>s < WAIT_SPIN_LIMIT. \<exists>c < MAX_CPUS. bit who c \<and> seen_at s c < g)"
      using all w(2) by (metis not_less)
    then show ?thesis
      using ret False all first w(2) acknowledged_all [of "seen_at s" who g] w(4)
      by (intro exI [of _ t'] exI [of _ ?a]) (simp add: ack_of_def)
  qed
qed

theorem wait_ends_honestly_witness:
  "\<exists>t' a. wait_for_mask None 0 (\<lambda>s c. s) 3 3 tlb_boot = Some (t', a) \<and> \<not> ak_timed_out a"
proof -
  have len: "length (tl_processors tlb_boot) = MAX_CPUS" by (simp add: tlb_boot_def)
  have "\<exists>s < WAIT_SPIN_LIMIT. \<not> (\<exists>c < MAX_CPUS. bit (3::u64) c \<and> s < 3)"
    by (intro exI [of _ 3]) (simp add: WAIT_SPIN_LIMIT_def)
  then show ?thesis
    using wait_ends_honestly [OF len, of None 0 "\<lambda>s c. s" 3 3] by blast
qed

text \<open>
  C12. The safe generation is exact: with a processor online, a generation is safe if and only if every
  online processor has flushed at it or later, which is what \<open>flushed_by\<close> answers for the online set;
  and it is the generation some online processor has flushed to, so nothing newer is safe.
\<close>

theorem safe_generation_exact:
  assumes "tl_online t \<noteq> 0" and "g \<le> U64_MAX"
  shows "(g \<le> safe_generation t \<longleftrightarrow> (\<forall>c. online t c \<longrightarrow> g \<le> seen_of t c)) \<and>
    (g \<le> safe_generation t \<longleftrightarrow> flushed_by (online_mask t) g t) \<and>
    (\<forall>who. flushed_by who g t \<longleftrightarrow> (\<forall>c. online t c \<and> bit who c \<longrightarrow> g \<le> seen_of t c))"
proof -
  have f: "flushed_by who g t \<longleftrightarrow> (\<forall>c. online t c \<and> bit who c \<longrightarrow> g \<le> seen_of t c)" for who
    by (auto simp: flushed_by_def Let_def list_all_iff in_mask_bit bit_and_iff online_def not_less)
  show ?thesis
    using safe_generation_le [OF assms(1), of g] assms(2) by (auto simp: f online_mask_def online_def)
qed

theorem safe_generation_exact_witness:
  "safe_generation (mark_online 1 (mark_online 0 tlb_boot)) = 1 \<and>
   flushed_by (online_mask (mark_online 1 (mark_online 0 tlb_boot))) 1 (mark_online 1 (mark_online 0 tlb_boot))"
proof -
  let ?t = "mark_online 1 (mark_online 0 tlb_boot)"
  have on: "tl_online ?t \<noteq> 0" by (simp add: mark_online_def tlb_boot_def MAX_CPUS_def)
  have s: "safe_generation ?t = 1"
    by (simp add: safe_generation_def mark_online_def tlb_boot_def MAX_CPUS_def upt_rec seen_of_def
        in_mask_def processor_boot_def upd_def U64_MAX_def)
  show ?thesis
    using safe_generation_exact [OF on, of 1] s by (simp add: U64_MAX_def)
qed

end
