(* ===== verification/Threads.thy ===== *)
theory Threads
  imports Tlb Scope_Table
begin

text \<open>
  Threads and the wait protocol (\<open>kernel/src/thread.rs\<close>), with the part of the scheduler a wake goes
  through (\<open>kernel/src/sched.rs\<close>: \<open>wake\<close>, \<open>defer_wake\<close>, \<open>flush_wakes\<close>, \<open>note_deadline\<close>,
  \<open>expire_waits\<close>). A sleeper and a waker agree on the sleeper's wait record; a claim consumes it and
  leaves the status the sleeper will return; the wake itself makes the thread ready and puts it in one
  processor's run queue. Which processor is the scheduler's choice and is an argument here, as the
  time-stamp counter is. Nothing interleaves with an operation, so the one spin of the wake path, on a
  thread another processor still stands on, never ends when it starts: it is the result \<open>None\<close>, as an
  index out of range is.
\<close>

definition MAX_THREADS :: nat where "MAX_THREADS = 8 + 40"
definition DEFERRED_WAKES :: nat where "DEFERRED_WAKES = 4"

section \<open>Thread records\<close>

datatype thread_state = TEmpty | THeld | TReady | TRunning | TBlocked | TDead

fun thread_state_from_u8 :: "nat \<Rightarrow> thread_state" where
  "thread_state_from_u8 v =
     (if v = 1 then THeld else if v = 2 then TReady else if v = 3 then TRunning
      else if v = 4 then TBlocked else if v = 5 then TDead else TEmpty)"

datatype thread_kind = Idle | User

text \<open>A table index and a generation, and for a signal the mask of bits waited for.\<close>

datatype wait = WaitNone | WaitReply nat u32 | WaitReceive nat u32 | WaitSignal nat u32 u64 | WaitLog nat u32

record handoff =
  ho_staging :: nat
  ho_handle :: u64

definition handoff_none :: handoff where
  "handoff_none = \<lparr>ho_staging = 0, ho_handle = 0\<rparr>"

record wait_record =
  wr_wait :: wait
  wr_deadline_ns :: nat
  wr_wake_status :: status
  wr_wake_aux :: nat
  wr_handoff :: handoff

definition wait_record_empty :: wait_record where
  "wait_record_empty = \<lparr>wr_wait = WaitNone, wr_deadline_ns = 0, wr_wake_status = OK, wr_wake_aux = 0,
     wr_handoff = handoff_none\<rparr>"

text \<open>The scheduling record, without the saved floating-point state, and the control record.\<close>

record sched_record =
  sd_saved_rsp :: nat
  sd_cpu_ns :: nat
  sd_dispatched_ns :: nat
  sd_reservation_end_ns :: nat
  sd_dispatch_reserved_ns :: nat
  sd_dispatch_charged_ns :: nat
  sd_dispatch_window :: nat
  sd_dispatch_scope :: scope_id
  sd_dispatch_recovery :: bool
  sd_dispatched :: bool
  sd_last_cpu :: nat
  sd_enqueued_tsc :: nat
  sd_migrations :: nat
  sd_preemptions :: nat
  sd_preempt_records :: nat

definition sched_record_empty :: sched_record where
  "sched_record_empty = \<lparr>sd_saved_rsp = 0, sd_cpu_ns = 0, sd_dispatched_ns = 0,
     sd_reservation_end_ns = 0, sd_dispatch_reserved_ns = 0, sd_dispatch_charged_ns = 0,
     sd_dispatch_window = 0, sd_dispatch_scope = 0, sd_dispatch_recovery = False, sd_dispatched = False,
     sd_last_cpu = U64_MAX, sd_enqueued_tsc = 0, sd_migrations = 0, sd_preemptions = 0,
     sd_preempt_records = 0\<rparr>"

record control_record =
  ct_domain :: nat
  ct_domain_generation :: u32
  ct_id :: nat
  ct_owner_scope :: scope_id
  ct_kstack_slot :: nat
  ct_kstack_top :: nat
  ct_cr3 :: nat

definition control_record_empty :: control_record where
  "control_record_empty = \<lparr>ct_domain = U64_MAX, ct_domain_generation = 0, ct_id = 0,
     ct_owner_scope = 0, ct_kstack_slot = U64_MAX, ct_kstack_top = 0, ct_cr3 = 0\<rparr>"

record thread_cell =
  tc_state :: thread_state
  tc_kind :: thread_kind
  tc_on_cpu :: nat
  tc_stop :: bool
  tc_ring3_confirmed :: bool
  tc_syscalls :: nat
  tc_effective_scope :: scope_id
  tc_recovery :: bool
  tc_parallelism_scope :: scope_id
  tc_bound_invocation :: u64
  tc_fs_base :: nat
  tc_deadline_ns :: nat
  tc_wait :: wait_record
  tc_sched :: sched_record
  tc_control :: control_record

definition thread_cell_empty :: thread_cell where
  "thread_cell_empty = \<lparr>tc_state = TEmpty, tc_kind = Idle, tc_on_cpu = 0, tc_stop = False,
     tc_ring3_confirmed = False, tc_syscalls = 0, tc_effective_scope = 0, tc_recovery = False,
     tc_parallelism_scope = NO_SCOPE, tc_bound_invocation = - 1, tc_fs_base = 0, tc_deadline_ns = 0,
     tc_wait = wait_record_empty, tc_sched = sched_record_empty, tc_control = control_record_empty\<rparr>"

text \<open>\<open>ThreadCell::reset\<close> writes every field of the slot.\<close>

definition thread_reset :: "thread_cell \<Rightarrow> thread_cell" where
  "thread_reset c =
     c\<lparr>tc_state := TEmpty, tc_kind := Idle, tc_on_cpu := 0, tc_stop := False,
       tc_ring3_confirmed := False, tc_syscalls := 0, tc_effective_scope := 0, tc_recovery := False,
       tc_parallelism_scope := NO_SCOPE, tc_bound_invocation := - 1, tc_fs_base := 0,
       tc_deadline_ns := 0, tc_wait := wait_record_empty, tc_sched := sched_record_empty,
       tc_control := control_record_empty\<rparr>"

definition is_user :: "thread_cell \<Rightarrow> bool" where
  "is_user c \<longleftrightarrow> tc_kind c = User"

text \<open>The invocation a worker is bound to: index and generation packed into one word.\<close>

definition bound :: "thread_cell \<Rightarrow> (16 word \<times> u32) option" where
  "bound c =
     (let packed = tc_bound_invocation c in
      if packed = - 1 then None else Some (ucast (drop_bit 32 packed), ucast packed))"

definition set_bound :: "(16 word \<times> u32) option \<Rightarrow> thread_cell \<Rightarrow> thread_cell" where
  "set_bound b c = c\<lparr>tc_bound_invocation :=
     (case b of None \<Rightarrow> - 1
      | Some (index, generation) \<Rightarrow> push_bit 32 (ucast index) OR ucast generation)\<rparr>"

definition take_parallelism_scope :: "thread_cell \<Rightarrow> scope_id option \<times> thread_cell" where
  "take_parallelism_scope c =
     ((if tc_parallelism_scope c = NO_SCOPE then None else Some (tc_parallelism_scope c)),
      c\<lparr>tc_parallelism_scope := NO_SCOPE\<rparr>)"

definition set_parallelism_scope :: "scope_id option \<Rightarrow> thread_cell \<Rightarrow> thread_cell" where
  "set_parallelism_scope s c =
     c\<lparr>tc_parallelism_scope := (case s of None \<Rightarrow> NO_SCOPE | Some i \<Rightarrow> i)\<rparr>"

section \<open>The thread table and the processors\<close>

datatype wake_hint = SyncHint | AnyHint

datatype idle_state = IDLE_RUNNING | IDLE_POLLING | IDLE_HALTED

record run_queue =
  rq_ready :: u64
  rq_cursor :: nat
  rq_hint :: nat

text \<open>What a wake reads and writes of a processor; a deferred entry's tag bit is the hint of the pair.\<close>

record cpu_sched =
  cs_rq :: run_queue
  cs_deferred :: "(nat \<times> wake_hint) list"
  cs_apic_id :: nat
  cs_idle :: idle_state
  cs_need_resched :: bool
  cs_sync_since :: nat
  cs_kicks :: nat

record thread_world =
  tw_threads :: "thread_cell list"
  tw_cpus :: "cpu_sched list"
  tw_next_deadline :: nat
  tw_lapic :: bool

text \<open>
  What the wake path asks of the machine: this processor, where the scheduler would place a thread that
  does not simply stay here (\<open>idle_cpu_for\<close> or this processor, \<open>select_cpu\<close>), and the time-stamp counter.
\<close>

record wake_env =
  we_me :: nat
  we_place :: "nat \<Rightarrow> wake_hint \<Rightarrow> nat"
  we_tsc :: nat

definition thread_slot :: "nat \<Rightarrow> nat" where
  "thread_slot index = min index (MAX_THREADS - 1)"

definition thread_get :: "thread_world \<Rightarrow> nat \<Rightarrow> thread_cell" where
  "thread_get w index = tw_threads w ! thread_slot index"

definition idle_thread :: "nat \<Rightarrow> nat" where "idle_thread cpu = cpu"

definition is_user_slot :: "nat \<Rightarrow> bool" where "is_user_slot index \<longleftrightarrow> index \<ge> MAX_CPUS"

definition find_empty :: "thread_world \<Rightarrow> nat option" where
  "find_empty w = find (\<lambda>i. tc_state (tw_threads w ! i) = TEmpty) [MAX_CPUS..<MAX_THREADS]"

section \<open>Claiming a wait\<close>

definition claim_handoff ::
    "nat \<Rightarrow> (wait_record \<Rightarrow> bool) \<Rightarrow> status \<Rightarrow> nat \<Rightarrow> thread_world \<Rightarrow> thread_world \<times> handoff option" where
  "claim_handoff index matches st aux w =
     (let cell = thread_get w index; record = tc_wait cell in
      if tc_state cell \<noteq> TBlocked \<or> \<not> matches record then (w, None)
      else
        (w\<lparr>tw_threads := (tw_threads w)[thread_slot index := cell\<lparr>
             tc_wait := record\<lparr>wr_wait := WaitNone, wr_deadline_ns := 0, wr_wake_status := st,
                               wr_wake_aux := aux, wr_handoff := handoff_none\<rparr>,
             tc_deadline_ns := 0\<rparr>]\<rparr>, Some (wr_handoff record)))"

definition claim_wake ::
    "nat \<Rightarrow> (wait_record \<Rightarrow> bool) \<Rightarrow> status \<Rightarrow> nat \<Rightarrow> thread_world \<Rightarrow> thread_world \<times> bool" where
  "claim_wake index matches st aux w =
     (case claim_handoff index matches st aux w of (w', h) \<Rightarrow> (w', h \<noteq> None))"

definition set_wake_aux :: "nat \<Rightarrow> nat \<Rightarrow> thread_world \<Rightarrow> thread_world" where
  "set_wake_aux index aux w =
     w\<lparr>tw_threads := upd (thread_slot index)
        (\<lambda>c. c\<lparr>tc_wait := (tc_wait c)\<lparr>wr_wake_aux := aux\<rparr>\<rparr>) (tw_threads w)\<rparr>"

definition note_deadline :: "nat \<Rightarrow> thread_world \<Rightarrow> thread_world" where
  "note_deadline deadline w = w\<lparr>tw_next_deadline := min (tw_next_deadline w) deadline\<rparr>"

definition prepare_wait_offering :: "nat \<Rightarrow> wait \<Rightarrow> nat \<Rightarrow> handoff \<Rightarrow> thread_world \<Rightarrow> thread_world" where
  "prepare_wait_offering index wt deadline offered w =
     (let w1 = w\<lparr>tw_threads := upd (thread_slot index) (\<lambda>c. c\<lparr>
            tc_wait := (tc_wait c)\<lparr>wr_wait := wt, wr_deadline_ns := deadline, wr_wake_status := OK,
                                   wr_wake_aux := 0, wr_handoff := offered\<rparr>,
            tc_deadline_ns := deadline, tc_state := TBlocked\<rparr>) (tw_threads w)\<rparr>
      in if deadline \<noteq> 0 then note_deadline deadline w1 else w1)"

definition prepare_wait :: "nat \<Rightarrow> wait \<Rightarrow> nat \<Rightarrow> thread_world \<Rightarrow> thread_world" where
  "prepare_wait index wt deadline w = prepare_wait_offering index wt deadline handoff_none w"

definition take_wake_status :: "nat \<Rightarrow> thread_world \<Rightarrow> thread_world \<times> status \<times> nat" where
  "take_wake_status index w =
     (let record = tc_wait (thread_get w index) in
      (w\<lparr>tw_threads := upd (thread_slot index)
          (\<lambda>c. c\<lparr>tc_wait := (tc_wait c)\<lparr>wr_wake_status := OK, wr_wake_aux := 0\<rparr>\<rparr>) (tw_threads w)\<rparr>,
       wr_wake_status record, wr_wake_aux record))"

section \<open>Waking\<close>

definition kick :: "nat \<Rightarrow> nat \<Rightarrow> thread_world \<Rightarrow> thread_world" where
  "kick me cpu w =
     (if \<not> tw_lapic w \<or> cs_apic_id (tw_cpus w ! cpu) = U32_MAX then w
      else w\<lparr>tw_cpus := upd me (\<lambda>c. c\<lparr>cs_kicks := wrap_add64 (cs_kicks c) 1\<rparr>) (tw_cpus w)\<rparr>)"

definition wake_target :: "wake_env \<Rightarrow> thread_world \<Rightarrow> nat \<Rightarrow> wake_hint \<Rightarrow> nat" where
  "wake_target e w index hint =
     (if hint = SyncHint \<and> rq_ready (cs_rq (tw_cpus w ! we_me e)) = 0 then we_me e
      else we_place e index hint)"

text \<open>The enqueue, under the target's queue lock.\<close>

definition enqueue :: "wake_env \<Rightarrow> nat \<Rightarrow> nat \<Rightarrow> wake_hint \<Rightarrow> thread_world \<Rightarrow> thread_world" where
  "enqueue e target index hint w =
     w\<lparr>tw_threads := upd (thread_slot index)
         (\<lambda>c. c\<lparr>tc_sched := (tc_sched c)\<lparr>sd_enqueued_tsc := we_tsc e\<rparr>\<rparr>) (tw_threads w),
       tw_cpus := upd target (\<lambda>c.
         let rq = (cs_rq c)\<lparr>rq_ready := rq_ready (cs_rq c) OR push_bit index 1\<rparr>
         in if hint = SyncHint \<and> target = we_me e
            then c\<lparr>cs_rq := rq\<lparr>rq_hint := index\<rparr>, cs_sync_since := max (we_tsc e) 1\<rparr>
            else c\<lparr>cs_rq := rq\<rparr>) (tw_cpus w)\<rparr>"

text \<open>What the target is told: nothing, an interrupt, or an interrupt and a request to reschedule.\<close>

definition announce :: "wake_env \<Rightarrow> nat \<Rightarrow> wake_hint \<Rightarrow> thread_world \<Rightarrow> thread_world" where
  "announce e target hint w =
     (let resched = (\<lambda>v. v\<lparr>tw_cpus := upd target (\<lambda>c. c\<lparr>cs_need_resched := True\<rparr>) (tw_cpus v)\<rparr>) in
      if target = we_me e then (if hint = AnyHint then resched w else w)
      else case cs_idle (tw_cpus w ! target) of
          IDLE_POLLING \<Rightarrow> w
        | IDLE_HALTED \<Rightarrow> kick (we_me e) target w
        | IDLE_RUNNING \<Rightarrow> kick (we_me e) target (resched w))"

definition wake :: "wake_env \<Rightarrow> nat \<Rightarrow> wake_hint \<Rightarrow> thread_world \<Rightarrow> thread_world option" where
  "wake e index hint w =
     (if tc_on_cpu (thread_get w index) \<noteq> 0 then None
      else if tc_state (thread_get w index) \<noteq> TBlocked \<and> tc_state (thread_get w index) \<noteq> THeld then Some w
      else
        let w1 = w\<lparr>tw_threads := upd (thread_slot index) (\<lambda>c. c\<lparr>tc_state := TReady\<rparr>) (tw_threads w)\<rparr>;
            target = wake_target e w1 index hint
        in if target < length (tw_cpus w1)
           then Some (announce e target hint (enqueue e target index hint w1)) else None)"

definition wake_if ::
    "wake_env \<Rightarrow> nat \<Rightarrow> (wait_record \<Rightarrow> bool) \<Rightarrow> status \<Rightarrow> nat \<Rightarrow> wake_hint \<Rightarrow> thread_world \<Rightarrow> (thread_world \<times> bool) option" where
  "wake_if e index matches st aux hint w =
     (case claim_wake index matches st aux w of
        (w1, False) \<Rightarrow> Some (w1, False)
      | (w1, True) \<Rightarrow> map_option (\<lambda>w2. (w2, True)) (wake e index hint w1))"

definition defer_wake :: "wake_env \<Rightarrow> nat \<Rightarrow> wake_hint \<Rightarrow> thread_world \<Rightarrow> thread_world option" where
  "defer_wake e index hint w =
     (if length (cs_deferred (tw_cpus w ! we_me e)) \<ge> DEFERRED_WAKES then wake e index hint w
      else Some (w\<lparr>tw_cpus := upd (we_me e) (\<lambda>c. c\<lparr>cs_deferred := cs_deferred c @ [(index, hint)]\<rparr>) (tw_cpus w)\<rparr>))"

definition defer_wake_if ::
    "wake_env \<Rightarrow> nat \<Rightarrow> (wait_record \<Rightarrow> bool) \<Rightarrow> status \<Rightarrow> nat \<Rightarrow> wake_hint \<Rightarrow> thread_world \<Rightarrow> (thread_world \<times> bool) option" where
  "defer_wake_if e index matches st aux hint w =
     (case claim_wake index matches st aux w of
        (w1, False) \<Rightarrow> Some (w1, False)
      | (w1, True) \<Rightarrow> map_option (\<lambda>w2. (w2, True)) (defer_wake e index hint w1))"

definition flush_wakes :: "wake_env \<Rightarrow> thread_world \<Rightarrow> thread_world option" where
  "flush_wakes e w =
     (let deferred = cs_deferred (tw_cpus w ! we_me e) in
      if deferred = [] then Some w
      else fold_opt (\<lambda>(index, hint). wake e index hint) (take DEFERRED_WAKES deferred)
             (w\<lparr>tw_cpus := upd (we_me e) (\<lambda>c. c\<lparr>cs_deferred := []\<rparr>) (tw_cpus w)\<rparr>))"

text \<open>The timeouts of a tick: one turn of the scan, and the scan behind its gate.\<close>

definition expire_one ::
    "wake_env \<Rightarrow> nat \<Rightarrow> nat \<Rightarrow> thread_world \<times> nat \<times> nat \<Rightarrow> (thread_world \<times> nat \<times> nat) option" where
  "expire_one e now index st =
     (case st of (w, woken, next) \<Rightarrow>
        let cell = tw_threads w ! index in
        if tc_state cell \<noteq> TBlocked \<or> tc_deadline_ns cell = 0 then Some (w, woken, next)
        else if tc_deadline_ns cell \<le> now then
          (case wake_if e index (\<lambda>r. wr_deadline_ns r \<noteq> 0 \<and> wr_deadline_ns r \<le> now) TIMED_OUT 0 AnyHint w of
             None \<Rightarrow> None
           | Some (w', True) \<Rightarrow> Some (w', woken + 1, next)
           | Some (w', False) \<Rightarrow> Some (w', woken, next))
        else Some (w, woken, min next (tc_deadline_ns cell)))"

definition expire_waits :: "wake_env \<Rightarrow> nat \<Rightarrow> thread_world \<Rightarrow> (thread_world \<times> nat) option" where
  "expire_waits e now w =
     (if tw_next_deadline w > now then Some (w, 0)
      else case fold_opt (expire_one e now) [0..<length (tw_threads w)] (w, 0, U64_MAX) of
          None \<Rightarrow> None
        | Some (w', woken, next) \<Rightarrow> Some (note_deadline next w', woken))"


section \<open>What a wake does\<close>

text \<open>A thread waits in a run queue; no wake takes another thread out of one.\<close>

definition queued :: "thread_world \<Rightarrow> nat \<Rightarrow> bool" where
  "queued w i \<longleftrightarrow> (\<exists>c < length (tw_cpus w). bit (rq_ready (cs_rq (tw_cpus w ! c))) i)"

definition queues_grow :: "thread_world \<Rightarrow> thread_world \<Rightarrow> bool" where
  "queues_grow w w' \<longleftrightarrow> length (tw_cpus w') = length (tw_cpus w) \<and>
     (\<forall>c < length (tw_cpus w). \<forall>i. bit (rq_ready (cs_rq (tw_cpus w ! c))) i \<longrightarrow> bit (rq_ready (cs_rq (tw_cpus w' ! c))) i)"

lemma queues_grow_refl [simp]: "queues_grow w w"
  by (simp add: queues_grow_def)

lemma queues_grow_trans: "queues_grow w w' \<Longrightarrow> queues_grow w' w'' \<Longrightarrow> queues_grow w w''"
  by (simp add: queues_grow_def)

lemma queues_grow_queued: "queues_grow w w' \<Longrightarrow> queued w i \<Longrightarrow> queued w' i"
  unfolding queues_grow_def queued_def by metis

lemma queues_grow_upd:
  assumes "tw_cpus w' = upd c f (tw_cpus w)"
    and "\<And>x i. bit (rq_ready (cs_rq x)) i \<Longrightarrow> bit (rq_ready (cs_rq (f x))) i"
  shows "queues_grow w w'"
  using assms by (auto simp: queues_grow_def nth_upd)

lemma kick_keeps: "tw_threads (kick me c w) = tw_threads w" "tw_next_deadline (kick me c w) = tw_next_deadline w"
    "queues_grow w (kick me c w)"
  by (simp_all add: kick_def) (auto intro: queues_grow_upd)

lemma announce_keeps:
  "tw_threads (announce e t h w) = tw_threads w" "tw_next_deadline (announce e t h w) = tw_next_deadline w"
  by (simp_all add: announce_def Let_def kick_keeps split: idle_state.splits)

lemma announce_grows: "queues_grow w (announce e t h w)"
proof -
  have r: "queues_grow w (w\<lparr>tw_cpus := upd t (\<lambda>c. c\<lparr>cs_need_resched := True\<rparr>) (tw_cpus w)\<rparr>)"
    by (rule queues_grow_upd [where c = t and f = "\<lambda>c. c\<lparr>cs_need_resched := True\<rparr>"]) simp_all
  then show ?thesis
    by (auto simp: announce_def Let_def kick_keeps split: idle_state.splits intro: queues_grow_trans [OF r])
qed

lemma enqueue_grows: "queues_grow w (enqueue e t i h w)"
  by (auto simp: enqueue_def queues_grow_def nth_upd Let_def bit_or_iff)

lemma enqueue_queued: "t < length (tw_cpus w) \<Longrightarrow> i < 64 \<Longrightarrow> queued (enqueue e t i h w) i"
  unfolding queued_def enqueue_def
  by (rule exI [of _ t]) (simp add: Let_def bit_or_iff bit_exp_iff)

definition woken_cell :: "wake_env \<Rightarrow> thread_cell \<Rightarrow> thread_cell" where
  "woken_cell e c = c\<lparr>tc_state := TReady, tc_sched := (tc_sched c)\<lparr>sd_enqueued_tsc := we_tsc e\<rparr>\<rparr>"

definition env_ok :: "wake_env \<Rightarrow> thread_world \<Rightarrow> bool" where
  "env_ok e w \<longleftrightarrow> we_me e < length (tw_cpus w) \<and> (\<forall>i h. we_place e i h < length (tw_cpus w)) \<and>
     length (tw_threads w) = MAX_THREADS"

lemma env_ok_keeps: "env_ok e w \<Longrightarrow> length (tw_cpus w') = length (tw_cpus w) \<Longrightarrow>
    length (tw_threads w') = length (tw_threads w) \<Longrightarrow> env_ok e w'"
  by (simp add: env_ok_def)

lemma thread_slot_in [simp]: "i < MAX_THREADS \<Longrightarrow> thread_slot i = i"
  by (simp add: thread_slot_def)

lemma max_threads_64: "i < MAX_THREADS \<Longrightarrow> i < 64"
  by (simp add: MAX_THREADS_def)

lemma wake_blocked:
  assumes "env_ok e w" and "i < MAX_THREADS" and "tc_on_cpu (tw_threads w ! i) = 0"
    and "tc_state (tw_threads w ! i) = TBlocked \<or> tc_state (tw_threads w ! i) = THeld"
  shows "\<exists>w'. wake e i h w = Some w' \<and> tw_threads w' = upd i (woken_cell e) (tw_threads w) \<and>
    queues_grow w w' \<and> queued w' i \<and> tw_next_deadline w' = tw_next_deadline w"
proof -
  define w1 where "w1 = w\<lparr>tw_threads := upd i (\<lambda>c. c\<lparr>tc_state := TReady\<rparr>) (tw_threads w)\<rparr>"
  define t where "t = wake_target e w1 i h"
  define w2 where "w2 = enqueue e t i h w1"
  have slot: "thread_get w i = tw_threads w ! i" using assms(2) by (simp add: thread_get_def)
  have t: "t < length (tw_cpus w1)" using assms(1) by (simp add: t_def w1_def wake_target_def env_ok_def)
  have "wake e i h w = Some (announce e t h w2)"
    using assms t by (auto simp: wake_def slot w1_def t_def w2_def Let_def)
  moreover have "tw_threads (announce e t h w2) = upd i (woken_cell e) (tw_threads w)"
    using assms(2) by (simp add: announce_keeps w2_def enqueue_def w1_def upd_upd comp_def woken_cell_def [abs_def])
  moreover have "queues_grow w (announce e t h w2)"
  proof -
    have "queues_grow w w1" by (simp add: w1_def queues_grow_def)
    then show ?thesis
      using enqueue_grows [of w1 e t i h] announce_grows [of w2 e t h] queues_grow_trans w2_def by blast
  qed
  moreover have "queued (announce e t h w2) i"
    using enqueue_queued [OF t max_threads_64 [OF assms(2)], of e h] queues_grow_queued [OF announce_grows] w2_def by simp
  moreover have "tw_next_deadline (announce e t h w2) = tw_next_deadline w"
    by (simp add: announce_keeps w2_def enqueue_def w1_def)
  ultimately show ?thesis by blast
qed

text \<open>A claim that finds its wait consumes it and leaves the status; one that does not changes nothing.\<close>

definition claimed_cell :: "status \<Rightarrow> nat \<Rightarrow> thread_cell \<Rightarrow> thread_cell" where
  "claimed_cell st aux c = c\<lparr>tc_wait := (tc_wait c)\<lparr>wr_wait := WaitNone, wr_deadline_ns := 0,
     wr_wake_status := st, wr_wake_aux := aux, wr_handoff := handoff_none\<rparr>, tc_deadline_ns := 0\<rparr>"

lemma claim_wake_cell:
  assumes "i < MAX_THREADS" and "length (tw_threads w) = MAX_THREADS"
  shows "claim_wake i matches st aux w =
    (if tc_state (tw_threads w ! i) = TBlocked \<and> matches (tc_wait (tw_threads w ! i))
     then (w\<lparr>tw_threads := upd i (claimed_cell st aux) (tw_threads w)\<rparr>, True) else (w, False))"
  using assms by (simp add: claim_wake_def claim_handoff_def thread_get_def Let_def upd_def claimed_cell_def)

lemma wake_if_claimed:
  assumes "env_ok e w" and "i < MAX_THREADS" and "tc_on_cpu (tw_threads w ! i) = 0"
    and "tc_state (tw_threads w ! i) = TBlocked" and "matches (tc_wait (tw_threads w ! i))"
  shows "\<exists>w'. wake_if e i matches st aux h w = Some (w', True) \<and>
    tw_threads w' = upd i (\<lambda>c. woken_cell e (claimed_cell st aux c)) (tw_threads w) \<and>
    queues_grow w w' \<and> queued w' i \<and> tw_next_deadline w' = tw_next_deadline w"
proof -
  let ?w1 = "w\<lparr>tw_threads := upd i (claimed_cell st aux) (tw_threads w)\<rparr>"
  have len: "length (tw_threads w) = MAX_THREADS" using assms(1) by (simp add: env_ok_def)
  have "tc_on_cpu (tw_threads ?w1 ! i) = 0" "tc_state (tw_threads ?w1 ! i) = TBlocked"
    using assms len by (simp_all add: claimed_cell_def)
  moreover have "env_ok e ?w1" using assms(1) by (simp add: env_ok_def)
  ultimately obtain w' where w': "wake e i h ?w1 = Some w'"
      "tw_threads w' = upd i (woken_cell e) (tw_threads ?w1)"
      "queues_grow ?w1 w'" "queued w' i" "tw_next_deadline w' = tw_next_deadline ?w1"
    using wake_blocked [of e ?w1 i h] assms(2) by blast
  have "wake_if e i matches st aux h w = Some (w', True)"
    using assms len w'(1) by (simp add: wake_if_def claim_wake_cell)
  moreover have "queues_grow w w'" using w'(3) by (simp add: queues_grow_def)
  ultimately show ?thesis using w' by (intro exI [of _ w']) (simp add: upd_upd comp_def)
qed

text \<open>
  A claim whose predicate accepts every record, as a fence's cancellation does, also takes a wait that
  another waker has already consumed and whose wake is still deferred: the status the first waker left
  is overwritten.
\<close>

lemma claim_overwrites:
  assumes "i < MAX_THREADS" and "length (tw_threads w) = MAX_THREADS"
    and "claim_wake i m OK aux w = (w1, True)"
  shows "\<exists>w2. claim_wake i (\<lambda>_. True) CANCELLED 0 w1 = (w2, True) \<and>
    wr_wake_status (tc_wait (tw_threads w1 ! i)) = OK \<and> wr_wake_status (tc_wait (tw_threads w2 ! i)) = CANCELLED"
  using assms by (auto simp: claim_wake_cell claimed_cell_def split: if_splits)

text \<open>A claim aimed at a wait finds it at most once.\<close>

lemma claim_once:
  assumes "i < MAX_THREADS" and "length (tw_threads w) = MAX_THREADS"
    and "claim_wake i m st aux w = (w1, True)" and "\<And>r. m' r \<Longrightarrow> wr_wait r \<noteq> WaitNone"
  shows "claim_wake i m' st' aux' w1 = (w1, False)"
proof -
  have w1: "w1 = w\<lparr>tw_threads := upd i (claimed_cell st aux) (tw_threads w)\<rparr>"
    using assms(1-3) by (simp add: claim_wake_cell split: if_splits)
  then have "wr_wait (tc_wait (tw_threads w1 ! i)) = WaitNone" using assms(1,2) by (simp add: claimed_cell_def)
  then have "\<not> m' (tc_wait (tw_threads w1 ! i))" using assms(4) by blast
  then show ?thesis using assms(1,2) w1 by (simp add: claim_wake_cell)
qed

section \<open>Timeouts\<close>

definition timed_wait :: "thread_cell \<Rightarrow> bool" where
  "timed_wait c \<longleftrightarrow> tc_state c = TBlocked \<and> tc_deadline_ns c \<noteq> 0"

definition due :: "nat \<Rightarrow> thread_cell \<Rightarrow> bool" where
  "due now c \<longleftrightarrow> timed_wait c \<and> tc_deadline_ns c \<le> now"

definition timed_out :: "wake_env \<Rightarrow> thread_cell \<Rightarrow> thread_cell" where
  "timed_out e c = woken_cell e (claimed_cell TIMED_OUT 0 c)"

text \<open>
  The two copies of a blocked thread's deadline agree, which is what \<open>prepare_wait\<close> and a claim leave;
  and the gate of the scan is no later than the deadline of any timed wait.
\<close>

definition deadlines_agree :: "thread_world \<Rightarrow> bool" where
  "deadlines_agree w \<longleftrightarrow> (\<forall>c \<in> set (tw_threads w). tc_state c = TBlocked \<longrightarrow>
     wr_deadline_ns (tc_wait c) = tc_deadline_ns c)"

definition gate_ok :: "thread_world \<Rightarrow> bool" where
  "gate_ok w \<longleftrightarrow> (\<forall>c \<in> set (tw_threads w). timed_wait c \<longrightarrow> tw_next_deadline w \<le> tc_deadline_ns c)"

lemma expire_one_step:
  assumes ok: "env_ok e w" and i: "i < MAX_THREADS" and ag: "deadlines_agree w"
    and off: "due now (tw_threads w ! i) \<Longrightarrow> tc_on_cpu (tw_threads w ! i) = 0"
  shows "\<exists>w'. expire_one e now i (w, k, m) =
      Some (w', if due now (tw_threads w ! i) then k + 1 else k,
            if timed_wait (tw_threads w ! i) \<and> \<not> due now (tw_threads w ! i)
            then min m (tc_deadline_ns (tw_threads w ! i)) else m) \<and>
    tw_threads w' = upd i (\<lambda>c. if due now c then timed_out e c else c) (tw_threads w) \<and>
    queues_grow w w' \<and> (due now (tw_threads w ! i) \<longrightarrow> queued w' i) \<and> tw_next_deadline w' = tw_next_deadline w"
proof (cases "due now (tw_threads w ! i)")
  case True
  let ?c = "tw_threads w ! i"
  let ?m = "\<lambda>r. wr_deadline_ns r \<noteq> 0 \<and> wr_deadline_ns r \<le> now"
  have st: "tc_state ?c = TBlocked" "tc_deadline_ns ?c \<noteq> 0" "tc_deadline_ns ?c \<le> now"
    using True by (simp_all add: due_def timed_wait_def)
  have "?c \<in> set (tw_threads w)" using ok i by (simp add: env_ok_def)
  then have "?m (tc_wait ?c)" using ag st by (simp add: deadlines_agree_def)
  then obtain w' where w': "wake_if e i ?m TIMED_OUT 0 AnyHint w = Some (w', True)"
      "tw_threads w' = upd i (\<lambda>c. woken_cell e (claimed_cell TIMED_OUT 0 c)) (tw_threads w)"
      "queues_grow w w'" "queued w' i" "tw_next_deadline w' = tw_next_deadline w"
    using wake_if_claimed [OF ok i off [OF True] st(1), of ?m TIMED_OUT 0 AnyHint] by blast
  have "tw_threads w' = upd i (\<lambda>c. if due now c then timed_out e c else c) (tw_threads w)"
    unfolding w'(2) using True by (simp add: upd_def timed_out_def)
  then show ?thesis using True st w' by (intro exI [of _ w']) (simp add: expire_one_def Let_def)
next
  case False
  then have "upd i (\<lambda>c. if due now c then timed_out e c else c) (tw_threads w) = tw_threads w"
    by (simp add: upd_def)
  moreover have "expire_one e now i (w, k, m) = Some (w, k,
      if timed_wait (tw_threads w ! i) then min m (tc_deadline_ns (tw_threads w ! i)) else m)"
    using False by (auto simp: expire_one_def Let_def due_def timed_wait_def)
  ultimately show ?thesis using False by (intro exI [of _ w]) simp
qed

lemma expire_prefix:
  assumes ok: "env_ok e w" and ag: "deadlines_agree w"
    and off: "\<And>i. i < MAX_THREADS \<Longrightarrow> due now (tw_threads w ! i) \<Longrightarrow> tc_on_cpu (tw_threads w ! i) = 0"
    and "n \<le> MAX_THREADS"
  shows "\<exists>w' m. fold_opt (expire_one e now) [0..<n] (w, 0, U64_MAX) =
      Some (w', card {i. i < n \<and> due now (tw_threads w ! i)}, m) \<and>
    tw_threads w' = upd_all [0..<n] (\<lambda>c. if due now c then timed_out e c else c) (tw_threads w) \<and>
    queues_grow w w' \<and> (\<forall>i < n. due now (tw_threads w ! i) \<longrightarrow> queued w' i) \<and>
    tw_next_deadline w' = tw_next_deadline w \<and>
    (\<forall>i < n. timed_wait (tw_threads w ! i) \<and> \<not> due now (tw_threads w ! i) \<longrightarrow> m \<le> tc_deadline_ns (tw_threads w ! i))"
  using \<open>n \<le> MAX_THREADS\<close>
proof (induction n)
  case 0
  then show ?case by simp
next
  case (Suc n)
  let ?f = "\<lambda>c. if due now c then timed_out e c else c"
  from Suc obtain w1 m where w1: "fold_opt (expire_one e now) [0..<n] (w, 0, U64_MAX) =
        Some (w1, card {i. i < n \<and> due now (tw_threads w ! i)}, m)"
      "tw_threads w1 = upd_all [0..<n] ?f (tw_threads w)" "queues_grow w w1"
      "\<forall>i < n. due now (tw_threads w ! i) \<longrightarrow> queued w1 i" "tw_next_deadline w1 = tw_next_deadline w"
      "\<forall>i < n. timed_wait (tw_threads w ! i) \<and> \<not> due now (tw_threads w ! i) \<longrightarrow> m \<le> tc_deadline_ns (tw_threads w ! i)"
    by auto
  have same: "tw_threads w1 ! n = tw_threads w ! n" by (simp add: w1(2))
  have nM: "n < MAX_THREADS" using Suc.prems by simp
  have ok1: "env_ok e w1" using ok w1(2,3) by (simp add: env_ok_def queues_grow_def)
  have ag1: "deadlines_agree w1"
    unfolding deadlines_agree_def w1(2)
    by (rule upd_all_keeps) (use ag in \<open>auto simp: deadlines_agree_def timed_out_def woken_cell_def claimed_cell_def\<close>)
  obtain w2 where w2: "expire_one e now n (w1, card {i. i < n \<and> due now (tw_threads w ! i)}, m) =
      Some (w2, if due now (tw_threads w ! n) then card {i. i < n \<and> due now (tw_threads w ! i)} + 1
                else card {i. i < n \<and> due now (tw_threads w ! i)},
            if timed_wait (tw_threads w ! n) \<and> \<not> due now (tw_threads w ! n)
            then min m (tc_deadline_ns (tw_threads w ! n)) else m)"
    "tw_threads w2 = upd n ?f (tw_threads w1)" "queues_grow w1 w2"
    "due now (tw_threads w ! n) \<longrightarrow> queued w2 n" "tw_next_deadline w2 = tw_next_deadline w1"
    using expire_one_step [OF ok1 nM ag1, of now "card {i. i < n \<and> due now (tw_threads w ! i)}" m, unfolded same, OF off [OF nM]]
    by blast
  have card: "card {i. i < Suc n \<and> due now (tw_threads w ! i)} =
      (if due now (tw_threads w ! n) then card {i. i < n \<and> due now (tw_threads w ! i)} + 1
       else card {i. i < n \<and> due now (tw_threads w ! i)})"
  proof -
    have "{i. i < Suc n \<and> due now (tw_threads w ! i)} =
        (if due now (tw_threads w ! n) then insert n {i. i < n \<and> due now (tw_threads w ! i)}
         else {i. i < n \<and> due now (tw_threads w ! i)})"
      by (auto simp: less_Suc_eq)
    then show ?thesis by simp
  qed
  have all: "upd_all [0..<Suc n] ?f (tw_threads w) = upd n ?f (tw_threads w1)"
    by (simp add: w1(2) upd_all_def)
  let ?m = "if timed_wait (tw_threads w ! n) \<and> \<not> due now (tw_threads w ! n)
            then min m (tc_deadline_ns (tw_threads w ! n)) else m"
  have run: "fold_opt (expire_one e now) [0..<Suc n] (w, 0, U64_MAX) =
      Some (w2, card {i. i < Suc n \<and> due now (tw_threads w ! i)}, ?m)"
    using w1(1) w2(1) card by (simp add: fold_opt_append)
  have grow: "queues_grow w w2" using queues_grow_trans [OF w1(3) w2(3)] .
  have q: "\<forall>i < Suc n. due now (tw_threads w ! i) \<longrightarrow> queued w2 i"
    using w1(4) w2(4) queues_grow_queued [OF w2(3)] by (simp add: less_Suc_eq)
  have m: "\<forall>i < Suc n. timed_wait (tw_threads w ! i) \<and> \<not> due now (tw_threads w ! i) \<longrightarrow> ?m \<le> tc_deadline_ns (tw_threads w ! i)"
    using w1(6) by (auto simp: less_Suc_eq min.coboundedI1)
  show ?case
    using run all grow q m w1(5) w2(2,5) by (intro exI [of _ w2] exI [of _ ?m]) simp
qed

section \<open>Properties\<close>

text \<open>
  C20. A tick's scan wakes exactly the threads whose timed wait has expired: each of them is ready, in a run
  queue and returns the timeout, every other thread is exactly as it was, the count is their number, and
  the gate stays no later than the deadline of every wait that is still pending, so none is missed.
\<close>

theorem expire_waits_exact:
  assumes "env_ok e w" and "deadlines_agree w" and "gate_ok w"
    and "\<forall>i < MAX_THREADS. due now (tw_threads w ! i) \<longrightarrow> tc_on_cpu (tw_threads w ! i) = 0"
  shows "\<exists>w' n. expire_waits e now w = Some (w', n) \<and> n = card {i. i < MAX_THREADS \<and> due now (tw_threads w ! i)} \<and>
    (\<forall>i < MAX_THREADS. if due now (tw_threads w ! i)
       then tc_state (tw_threads w' ! i) = TReady \<and> wr_wake_status (tc_wait (tw_threads w' ! i)) = TIMED_OUT \<and>
            wr_wait (tc_wait (tw_threads w' ! i)) = WaitNone \<and> queued w' i
       else tw_threads w' ! i = tw_threads w ! i) \<and> gate_ok w'"
proof (cases "tw_next_deadline w > now")
  case True
  have none: "\<not> due now (tw_threads w ! i)" if "i < MAX_THREADS" for i
  proof -
    have "tw_threads w ! i \<in> set (tw_threads w)" using assms(1) that by (simp add: env_ok_def)
    then show ?thesis using assms(3) True by (auto simp: gate_ok_def due_def)
  qed
  then have "{i. i < MAX_THREADS \<and> due now (tw_threads w ! i)} = {}" by blast
  then show ?thesis using none True assms(3) by (auto simp: expire_waits_def)
next
  case False
  let ?f = "\<lambda>c. if due now c then timed_out e c else c"
  have len: "length (tw_threads w) = MAX_THREADS" using assms(1) by (simp add: env_ok_def)
  obtain w1 m where w1: "fold_opt (expire_one e now) [0..<MAX_THREADS] (w, 0, U64_MAX) =
        Some (w1, card {i. i < MAX_THREADS \<and> due now (tw_threads w ! i)}, m)"
      "tw_threads w1 = upd_all [0..<MAX_THREADS] ?f (tw_threads w)"
      "\<forall>i < MAX_THREADS. due now (tw_threads w ! i) \<longrightarrow> queued w1 i" "tw_next_deadline w1 = tw_next_deadline w"
    using expire_prefix [OF assms(1,2), of now MAX_THREADS] assms(4) by blast
  have run: "expire_waits e now w = Some (note_deadline m w1, card {i. i < MAX_THREADS \<and> due now (tw_threads w ! i)})"
    using False w1(1) by (simp add: expire_waits_def len)
  have cell: "tw_threads w1 ! i = ?f (tw_threads w ! i)" if "i < MAX_THREADS" for i
    using that len by (simp add: w1(2) nth_upd_all)
  have "gate_ok (note_deadline m w1)"
    unfolding gate_ok_def all_set_conv_all_nth
  proof (intro allI impI)
    fix i assume i: "i < length (tw_threads (note_deadline m w1))" "timed_wait (tw_threads (note_deadline m w1) ! i)"
    then have lt: "i < MAX_THREADS" using len by (simp add: note_deadline_def w1(2))
    then have keep: "\<not> due now (tw_threads w ! i)" "tw_threads w1 ! i = tw_threads w ! i"
      using i(2) cell [OF lt] by (auto simp: note_deadline_def timed_wait_def timed_out_def woken_cell_def split: if_splits)
    moreover have "tw_threads w ! i \<in> set (tw_threads w)" using lt len by simp
    ultimately show "tw_next_deadline (note_deadline m w1) \<le> tc_deadline_ns (tw_threads (note_deadline m w1) ! i)"
      using assms(3) i(2) w1(4) by (auto simp: gate_ok_def note_deadline_def min.coboundedI1)
  qed
  moreover have "if due now (tw_threads w ! i)
       then tc_state (tw_threads (note_deadline m w1) ! i) = TReady \<and>
            wr_wake_status (tc_wait (tw_threads (note_deadline m w1) ! i)) = TIMED_OUT \<and>
            wr_wait (tc_wait (tw_threads (note_deadline m w1) ! i)) = WaitNone \<and> queued (note_deadline m w1) i
       else tw_threads (note_deadline m w1) ! i = tw_threads w ! i" if "i < MAX_THREADS" for i
    using cell [OF that] w1(3) that
    by (auto simp: note_deadline_def timed_out_def woken_cell_def claimed_cell_def queued_def)
  ultimately show ?thesis using run by blast
qed

text \<open>A machine in which thread 9 sleeps until 50.\<close>

definition sleeping_world :: thread_world where
  "sleeping_world =
     note_deadline 50 \<lparr>tw_threads = (replicate MAX_THREADS thread_cell_empty)[9 := thread_cell_empty\<lparr>
         tc_state := TBlocked, tc_deadline_ns := 50, tc_wait := wait_record_empty\<lparr>wr_deadline_ns := 50\<rparr>\<rparr>],
       tw_cpus = [\<lparr>cs_rq = \<lparr>rq_ready = 0, rq_cursor = 0, rq_hint = 0\<rparr>, cs_deferred = [], cs_apic_id = 0,
                   cs_idle = IDLE_RUNNING, cs_need_resched = False, cs_sync_since = 0, cs_kicks = 0\<rparr>],
       tw_next_deadline = U64_MAX, tw_lapic = True\<rparr>"

definition here :: wake_env where
  "here = \<lparr>we_me = 0, we_place = (\<lambda>_ _. 0), we_tsc = 7\<rparr>"

lemma sleeping_threads: "tw_threads sleeping_world ! i = (if i = 9 then thread_cell_empty\<lparr>
    tc_state := TBlocked, tc_deadline_ns := 50, tc_wait := wait_record_empty\<lparr>wr_deadline_ns := 50\<rparr>\<rparr>
    else thread_cell_empty)" if "i < MAX_THREADS"
  using that by (simp add: sleeping_world_def note_deadline_def nth_list_update)

lemma sleeping_len: "length (tw_threads sleeping_world) = MAX_THREADS" "tw_next_deadline sleeping_world = 50"
  by (simp_all add: sleeping_world_def note_deadline_def U64_MAX_def)

lemma sleeping_ok:
  "env_ok here sleeping_world" "deadlines_agree sleeping_world" "gate_ok sleeping_world"
proof -
  show "env_ok here sleeping_world"
    by (simp add: env_ok_def here_def sleeping_len) (simp add: sleeping_world_def note_deadline_def)
  show "deadlines_agree sleeping_world" "gate_ok sleeping_world"
    unfolding deadlines_agree_def gate_ok_def all_set_conv_all_nth sleeping_len
    using sleeping_threads by (simp_all add: thread_cell_empty_def timed_wait_def)
qed

theorem expire_waits_exact_witness:
  "\<exists>w' n. expire_waits here 60 sleeping_world = Some (w', n) \<and> tc_state (tw_threads w' ! 9) = TReady \<and> queued w' 9"
proof -
  have "\<forall>i < MAX_THREADS. due 60 (tw_threads sleeping_world ! i) \<longrightarrow> tc_on_cpu (tw_threads sleeping_world ! i) = 0"
    using sleeping_threads by (simp add: thread_cell_empty_def)
  moreover have "9 < MAX_THREADS" "due 60 (tw_threads sleeping_world ! 9)"
    using sleeping_threads [of 9] by (simp_all add: MAX_THREADS_def due_def timed_wait_def)
  ultimately show ?thesis using expire_waits_exact [OF sleeping_ok, of 60] by metis
qed

text \<open>
  The gate of the timeout scan never closes again: it only ever falls, whatever waits are prepared and
  whatever scans run, so once one deadline has passed every later tick scans the whole thread table, also
  when no timed wait is left.
\<close>

theorem deadline_gate_never_closes:
  assumes "tw_next_deadline w \<le> now" and "now \<le> later"
    and "env_ok e w" and "deadlines_agree w"
    and "\<forall>i < MAX_THREADS. due now (tw_threads w ! i) \<longrightarrow> tc_on_cpu (tw_threads w ! i) = 0"
  shows "\<exists>w' n. expire_waits e now w = Some (w', n) \<and> tw_next_deadline w' \<le> later \<and>
    tw_next_deadline (prepare_wait i wt d w') \<le> later"
proof -
  have len: "length (tw_threads w) = MAX_THREADS" using assms(3) by (simp add: env_ok_def)
  obtain w1 m where w1: "fold_opt (expire_one e now) [0..<MAX_THREADS] (w, 0, U64_MAX) =
        Some (w1, card {i. i < MAX_THREADS \<and> due now (tw_threads w ! i)}, m)"
      "tw_next_deadline w1 = tw_next_deadline w"
    using expire_prefix [OF assms(3,4), of now MAX_THREADS] assms(5) by blast
  have "expire_waits e now w = Some (note_deadline m w1, card {i. i < MAX_THREADS \<and> due now (tw_threads w ! i)})"
    using assms(1) w1(1) by (simp add: expire_waits_def len)
  moreover have "tw_next_deadline (note_deadline m w1) \<le> later"
    using assms(1,2) w1(2) by (simp add: note_deadline_def)
  moreover from this have "tw_next_deadline (prepare_wait i wt d (note_deadline m w1)) \<le> later"
    by (auto simp: prepare_wait_def prepare_wait_offering_def Let_def note_deadline_def min.coboundedI1)
  ultimately show ?thesis by blast
qed

theorem deadline_gate_never_closes_witness:
  "\<exists>w' n. expire_waits here 60 sleeping_world = Some (w', n) \<and> tw_next_deadline w' \<le> 1000"
proof -
  have "tw_next_deadline sleeping_world \<le> 60" by (simp add: sleeping_len)
  moreover have "\<forall>i < MAX_THREADS. due 60 (tw_threads sleeping_world ! i) \<longrightarrow> tc_on_cpu (tw_threads sleeping_world ! i) = 0"
    using sleeping_threads by (simp add: thread_cell_empty_def)
  ultimately show ?thesis
    using deadline_gate_never_closes [of sleeping_world 60 1000 here 0 WaitNone 0] sleeping_ok by auto
qed

end
