(* ===== verification/Dispatch.thy ===== *)
theory Dispatch
  imports Scope_Budget Threads
begin

text \<open>
  A dispatch from its reservation to its settlement (\<open>kernel/src/sched.rs\<close>: \<open>reserve_for\<close>, \<open>charge\<close>, \<open>settle\<close>,
  with \<open>take_grant\<close> and \<open>release_credit\<close>), on the processor-time accounts and the scheduling records of the
  threads. Each of these functions runs to completion; which processor calls which function next, for which
  thread and when, is free. The processor's deadline in counter units and the global statistics are left out.
\<close>

section \<open>Operations\<close>

type_synonym dispatch_state = "cpu_world \<times> thread_cell list"

definition set_sched :: "nat \<Rightarrow> (sched_record \<Rightarrow> sched_record) \<Rightarrow> thread_cell list \<Rightarrow> thread_cell list" where
  "set_sched index f ts = upd index (\<lambda>c. c\<lparr>tc_sched := f (tc_sched c)\<rparr>) ts"

definition count_dispatch :: "bool \<Rightarrow> scope_id \<Rightarrow> scope_table \<Rightarrow> scope_table" where
  "count_dispatch granted s = upd s (\<lambda>n.
     if granted then n\<lparr>sc_dispatch_grants := wrap_add64 (sc_dispatch_grants n) 1\<rparr>
     else n\<lparr>sc_dispatch_refusals := wrap_add64 (sc_dispatch_refusals n) 1\<rparr>)"

definition reserve_for :: "nat \<Rightarrow> nat \<Rightarrow> nat \<Rightarrow> dispatch_state \<Rightarrow> (dispatch_state \<times> bool) option" where
  "reserve_for cpu index now st = (case st of (w, ts) \<Rightarrow> do {
     cell \<leftarrow> nth_opt ts index;
     let s = tc_effective_scope cell;
     _ \<leftarrow> nth_opt (cw_scopes w) s;
     case take_running (cw_scopes w) s of
       (t, False) \<Rightarrow> Some ((w\<lparr>cw_scopes := count_dispatch False s t\<rparr>, ts), False)
     | (t, True) \<Rightarrow> do {
         (w1, grant) \<leftarrow> take_grant cpu s (tc_recovery cell) now (w\<lparr>cw_scopes := t\<rparr>);
         if grant = 0
         then Some ((w1\<lparr>cw_scopes := count_dispatch False s (drop_running (cw_scopes w1) s)\<rparr>, ts), False)
         else Some ((w1\<lparr>cw_scopes := count_dispatch True s (cw_scopes w1)\<rparr>,
           set_sched index (\<lambda>r. r\<lparr>sd_dispatch_reserved_ns := grant, sd_dispatch_charged_ns := 0,
             sd_dispatch_window := now div CPU_WINDOW_NS, sd_dispatch_scope := s, sd_dispatch_recovery := tc_recovery cell,
             sd_dispatched := True, sd_reservation_end_ns := sat_add64 now grant\<rparr>) ts), True) } })"

definition sched_charge :: "nat \<Rightarrow> nat \<Rightarrow> nat \<Rightarrow> dispatch_state \<Rightarrow> dispatch_state option" where
  "sched_charge cpu index now st = (case st of (w, ts) \<Rightarrow> do {
     cell \<leftarrow> nth_opt ts index;
     let r = tc_sched cell;
     let ran = now - sd_dispatched_ns r;
     cpu_ns \<leftarrow> checked_add64 (sd_cpu_ns r) ran;
     let ts1 = set_sched index (\<lambda>r. r\<lparr>sd_cpu_ns := cpu_ns, sd_dispatched_ns := now\<rparr>) ts;
     if \<not> is_user cell \<or> ran = 0 then Some (w, ts1)
     else do {
       let s = tc_effective_scope cell;
       ts2 \<leftarrow> (if sd_dispatched r
               then map_option (\<lambda>v. set_sched index (\<lambda>r. r\<lparr>sd_dispatch_charged_ns := v\<rparr>) ts1)
                      (checked_add64 (sd_dispatch_charged_ns r) ran)
               else Some ts1);
       if tc_recovery cell then Some (w\<lparr>cw_scopes := charge_cpu (cw_scopes w) s ran True\<rparr>, ts2)
       else if s \<ge> length (cw_scopes w) then None
       else Some (upd_credit cpu s (\<lambda>c. c\<lparr>cr_pending_ns := wrap_add64 (cr_pending_ns c) ran\<rparr>) w, ts2) } })"

definition sched_settle :: "nat \<Rightarrow> nat \<Rightarrow> dispatch_state \<Rightarrow> (dispatch_state \<times> scope_id) option" where
  "sched_settle cpu index st = (case st of (w, ts) \<Rightarrow> do {
     cell \<leftarrow> nth_opt ts index;
     let r = tc_sched cell;
     if \<not> sd_dispatched r then Some ((w, ts), NO_SCOPE)
     else do {
       let reserved = sd_dispatch_reserved_ns r;
       let charged = sd_dispatch_charged_ns r;
       let window = sd_dispatch_window r;
       let s = sd_dispatch_scope r;
       let recovery = sd_dispatch_recovery r;
       let ts1 = set_sched index (\<lambda>r. r\<lparr>sd_dispatched := False, sd_dispatch_reserved_ns := 0, sd_dispatch_charged_ns := 0\<rparr>) ts;
       let w1 = w\<lparr>cw_scopes := drop_running (cw_scopes w) s\<rparr>;
       if charged > reserved
       then Some ((w1\<lparr>cw_scopes := commit_excess (cw_scopes w1) s (charged - reserved) recovery\<rparr>, ts1), s)
       else do {
         let unused = reserved - charged;
         if unused = 0 then Some ((w1, ts1), s)
         else if recovery then Some ((w1\<lparr>cw_scopes := return_cpu (cw_scopes w1) s unused True window\<rparr>, ts1), s)
         else if s \<ge> length (cw_scopes w) then None
         else if cr_window (credit_at w1 cpu s) = window
         then Some ((upd_credit cpu s (\<lambda>c. c\<lparr>cr_reserved_ns := wrap_add64 (cr_reserved_ns c) unused\<rparr>) w1, ts1), s)
         else Some ((w1\<lparr>cw_scopes := return_cpu (cw_scopes w1) s unused False window\<rparr>, ts1), s) } } })"

section \<open>What a window's dispatches come to\<close>

text \<open>A live ordinary dispatch of window \<open>n\<close> for scope \<open>s\<close>, and what it was promised.\<close>

definition promised :: "nat \<Rightarrow> scope_id \<Rightarrow> thread_cell \<Rightarrow> nat" where
  "promised n s c = (let r = tc_sched c in
     if sd_dispatched r \<and> \<not> sd_dispatch_recovery r \<and> sd_dispatch_window r = n \<and> sd_dispatch_scope r = s
     then sd_dispatch_reserved_ns r else 0)"

definition outstanding_ns :: "nat \<Rightarrow> thread_cell list \<Rightarrow> scope_id \<Rightarrow> nat" where
  "outstanding_ns n ts s = sum_list (map (promised n s) ts)"

text \<open>The part of a settled dispatch's execution that its promise covered.\<close>

definition covered :: "nat \<Rightarrow> scope_id \<Rightarrow> thread_cell \<Rightarrow> nat" where
  "covered n s c = min (promised n s c) (sd_dispatch_charged_ns (tc_sched c))"

text \<open>
  The steps of the processors in window \<open>n\<close>: \<open>used\<close> adds up, scope by scope, what settled dispatches of the
  window ran within their promises. A thread is reserved for only once its last dispatch is settled; an excess
  is small enough not to overflow a counter; whatever else happens to a thread leaves its scheduling record.
\<close>

inductive sched_step :: "nat \<Rightarrow> cpu_world \<times> thread_cell list \<times> (scope_id \<Rightarrow> nat) \<Rightarrow> cpu_world \<times> thread_cell list \<times> (scope_id \<Rightarrow> nat) \<Rightarrow> bool"
  for n where
  reserves: "cpu < length (cw_credits w) \<Longrightarrow> index < length ts \<Longrightarrow> \<not> sd_dispatched (tc_sched (ts ! index)) \<Longrightarrow>
    sc_state (cw_scopes w ! tc_effective_scope (ts ! index)) \<noteq> SEmpty \<Longrightarrow> n = now div CPU_WINDOW_NS \<Longrightarrow>
    reserve_for cpu index now (w, ts) = Some ((w', ts'), ok) \<Longrightarrow> sched_step n (w, ts, used) (w', ts', used)"
| charges: "cpu < length (cw_credits w) \<Longrightarrow> sched_charge cpu index now (w, ts) = Some (w', ts') \<Longrightarrow>
    sched_step n (w, ts, used) (w', ts', used)"
| settles: "cpu < length (cw_credits w) \<Longrightarrow> index < length ts \<Longrightarrow> s = sd_dispatch_scope (tc_sched (ts ! index)) \<Longrightarrow>
    s < length (cw_scopes w) \<Longrightarrow> sc_state (cw_scopes w ! s) \<noteq> SEmpty \<Longrightarrow>
    \<forall>i \<in> set (chain_of (cw_scopes w) s). cpu_committed False (cw_scopes w ! i) + sd_dispatch_charged_ns (tc_sched (ts ! index)) \<le> U64_MAX \<Longrightarrow>
    sched_settle cpu index (w, ts) = Some ((w', ts'), settled) \<Longrightarrow>
    sched_step n (w, ts, used) (w', ts', used(s := used s + covered n s (ts ! index)))"
| releases: "cpu < length (cw_credits w) \<Longrightarrow> s < length (cw_scopes w) \<Longrightarrow> sc_state (cw_scopes w ! s) \<noteq> SEmpty \<Longrightarrow>
    sched_step n (w, ts, used) (release_credit cpu s w, ts, used)"
| moves: "map tc_sched ts' = map tc_sched ts \<Longrightarrow> sched_step n (w, ts, used) (w, ts', used)"

section \<open>Changes that leave ordinary promises alone\<close>

definition same_ordinary :: "scope_table \<Rightarrow> scope_table \<Rightarrow> bool" where
  "same_ordinary t t' \<longleftrightarrow> list_all2 (\<lambda>a b. same_structure a b \<and> sc_window_index a = sc_window_index b \<and>
     sc_cpu_committed_ns a = sc_cpu_committed_ns b) t' t"

lemma same_ordinary_iff:
  "same_ordinary t t' \<longleftrightarrow> length t' = length t \<and> (\<forall>i < length t. same_structure (t' ! i) (t ! i) \<and>
     sc_window_index (t' ! i) = sc_window_index (t ! i) \<and> sc_cpu_committed_ns (t' ! i) = sc_cpu_committed_ns (t ! i))"
  by (auto simp: same_ordinary_def list_all2_conv_all_nth)

lemma same_ordinary_refl [simp]: "same_ordinary t t"
  by (simp add: same_ordinary_iff same_structure_def)

lemma same_ordinary_trans: "same_ordinary a b \<Longrightarrow> same_ordinary b c \<Longrightarrow> same_ordinary a c"
  by (simp add: same_ordinary_iff same_structure_def)

lemma same_promises_ordinary: "same_promises_table t t' \<Longrightarrow> same_ordinary t t'"
  by (simp add: same_promises_table_iff same_ordinary_iff same_promises_def)

lemma same_ordinary_tree: "same_ordinary t t' \<Longrightarrow> same_tree t t'"
  by (simp add: same_ordinary_iff same_tree_def same_structure_def)

definition leaves_ordinary :: "(scope \<Rightarrow> scope) \<Rightarrow> bool" where
  "leaves_ordinary f \<longleftrightarrow> (\<forall>s. same_structure (f s) s \<and> sc_window_index (f s) = sc_window_index s \<and>
     sc_cpu_committed_ns (f s) = sc_cpu_committed_ns s)"

lemma same_ordinary_upd: "leaves_ordinary f \<Longrightarrow> same_ordinary t (upd i f t)"
  by (simp add: same_ordinary_iff leaves_ordinary_def nth_upd same_structure_def)

lemma same_ordinary_step: "leaves_ordinary f \<Longrightarrow> same_ordinary a b \<Longrightarrow> same_ordinary a (upd i f b)"
  by (rule same_ordinary_trans [OF _ same_ordinary_upd])

lemma same_ordinary_steps: "leaves_ordinary f \<Longrightarrow> same_ordinary a b \<Longrightarrow> same_ordinary a (upd_all is f b)"
  by (induction "is" arbitrary: b) (simp_all add: same_ordinary_step)

lemmas same_ordinary_upd_all = same_ordinary_steps [OF _ same_ordinary_refl]

lemma closure_ordinary: "leaves_ordinary (\<lambda>s. set_cpu_committed True (g s) s)"
  by (simp add: leaves_ordinary_def set_cpu_committed_def same_structure_def)

lemma running_ordinary:
  "leaves_ordinary (\<lambda>n. n\<lparr>sc_running := v n\<rparr>)" "leaves_ordinary (\<lambda>n. if c n then n\<lparr>sc_max_running := v n\<rparr> else n)"
  "leaves_ordinary (\<lambda>n. if c n then n\<lparr>sc_dispatch_grants := v n\<rparr> else n\<lparr>sc_dispatch_refusals := u n\<rparr>)"
  by (simp_all add: leaves_ordinary_def same_structure_def)

lemma count_dispatch_ordinary: "same_ordinary t (count_dispatch g s t)"
  unfolding count_dispatch_def using running_ordinary(3) by (rule same_ordinary_upd)

lemma drop_running_ordinary: "same_ordinary t (drop_running t s)"
  unfolding drop_running_def
  by (rule same_ordinary_upd_all) (simp add: leaves_ordinary_def same_structure_def Let_def)

lemma take_running_loop_ordinary: "same_ordinary a t \<Longrightarrow> same_ordinary a (fst (take_running_loop ns k t))"
proof (induction ns arbitrary: k t)
  case (Cons i ns)
  show ?case
    unfolding take_running_loop.simps Let_def
    by (simp, intro conjI impI Cons.IH same_ordinary_step running_ordinary Cons.prems)
qed simp

lemma take_running_ordinary: "same_ordinary t (fst (take_running t s))"
proof -
  obtain t' k where l: "take_running_loop (chain_of t s) 0 t = (t', k)" by fastforce
  then have "same_ordinary t t'" using take_running_loop_ordinary [of t t "chain_of t s" 0] by simp
  then show ?thesis
    by (simp add: take_running_def Let_def l same_ordinary_steps running_ordinary)
qed

lemma charge_nodes_ordinary:
  "same_ordinary a t \<Longrightarrow> same_ordinary a (fst (charge_nodes u (cpu_committed True) (set_cpu_committed True) l amount k ns t))"
proof (induction ns arbitrary: k t)
  case (Cons i ns)
  have "same_ordinary a (upd i (set_cpu_committed True v) t)" for v
    using closure_ordinary [of "\<lambda>_. v"] Cons.prems by (intro same_ordinary_step) simp_all
  then show ?case using Cons.IH Cons.prems by (auto simp: Let_def split: prod.splits sum.splits)
qed simp

lemma reserve_cpu_recovery:
  assumes "reserve_cpu w s amount True window = Some (w', ok)"
  shows "w' = w\<lparr>cw_scopes := cw_scopes w'\<rparr> \<and> same_ordinary (cw_scopes w) (cw_scopes w')"
proof -
  let ?t = "cw_scopes w"
  obtain t' k b where c: "charge_nodes (\<lambda>_. True) (cpu_committed True) (set_cpu_committed True) (cpu_limit True) amount 0 (chain_of ?t s) ?t = (t', k, b)"
    by (metis prod_cases3)
  have "same_ordinary ?t t'" using charge_nodes_ordinary [of ?t ?t] c by (metis fst_conv same_ordinary_refl)
  moreover have "same_ordinary ?t (uncharge_nodes (cpu_committed True) (set_cpu_committed True) amount ns t')" if "same_ordinary ?t t'" for ns
    unfolding uncharge_nodes_def using closure_ordinary that by (rule same_ordinary_steps)
  ultimately show ?thesis
    using assms c same_ordinary_refl [of ?t]
    by (auto simp: reserve_cpu_def Let_def bind_eq_Some_conv split: if_splits option.splits)
qed

lemma take_grant_recovery:
  assumes "take_grant cpu s True now w = Some (w', g)"
  shows "w' = w\<lparr>cw_scopes := cw_scopes w'\<rparr> \<and> same_ordinary (cw_scopes w) (cw_scopes w')"
proof -
  show ?thesis
    using assms reserve_cpu_recovery [of w s _ _ w'] same_ordinary_refl [of "cw_scopes w"]
    by (auto simp: take_grant_def Let_def bind_eq_Some_conv split: if_splits)
qed

lemma dispatch_inv_ordinary:
  assumes inv: "dispatch_inv n base (w, disp)" and t: "same_ordinary (cw_scopes w) t"
  shows "dispatch_inv n base (w\<lparr>cw_scopes := t\<rparr>, disp)"
proof -
  have tree: "same_tree (cw_scopes w) t" by (rule same_ordinary_tree [OF t])
  have "taken n (w\<lparr>cw_scopes := t\<rparr>) disp i = taken n w disp i" for i
    by (rule taken_same) (simp_all add: tree)
  then show ?thesis
    using inv t same_tree_wf [OF tree]
    by (auto simp: dispatch_inv_def cpu_ok_def credits_shape_scopes committed_ok_def all_set_conv_all_nth same_ordinary_iff
        same_structure_def cpu_committed_def cpu_limit_def)
qed

section \<open>The steps keep the balance\<close>

text \<open>What has been taken out of the window, dispatch by dispatch.\<close>

abbreviation dispatched_ns :: "nat \<Rightarrow> thread_cell list \<Rightarrow> (scope_id \<Rightarrow> nat) \<Rightarrow> scope_id \<Rightarrow> nat" where
  "dispatched_ns n ts used \<equiv> (\<lambda>s. used s + outstanding_ns n ts s)"

lemma outstanding_upd:
  "index < length ts \<Longrightarrow> outstanding_ns n (upd index f ts) s + promised n s (ts ! index) = outstanding_ns n ts s + promised n s (f (ts ! index))"
  unfolding outstanding_ns_def using sum_map_upd [of index ts "promised n s" f] by simp

lemma promised_sched: "tc_sched c' = tc_sched c \<Longrightarrow> promised n s c' = promised n s c"
  by (simp add: promised_def)

lemma outstanding_moves:
  assumes "map tc_sched ts' = map tc_sched ts"
  shows "outstanding_ns n ts' s = outstanding_ns n ts s"
proof -
  have "map (promised n s) ts' = map (promised n s) ts"
    using assms promised_sched by (intro nth_equalityI) (metis length_map, metis length_map nth_map)
  then show ?thesis by (simp add: outstanding_ns_def)
qed

lemma charge_keeps_outstanding:
  assumes "sched_charge cpu index now (w, ts) = Some (w', ts')"
  shows "outstanding_ns n ts' s = outstanding_ns n ts s"
proof -
  have keep: "outstanding_ns n (set_sched index f ts) s = outstanding_ns n ts s"
    if "\<And>r. sd_dispatched (f r) = sd_dispatched r \<and> sd_dispatch_recovery (f r) = sd_dispatch_recovery r \<and>
      sd_dispatch_window (f r) = sd_dispatch_window r \<and> sd_dispatch_scope (f r) = sd_dispatch_scope r \<and>
      sd_dispatch_reserved_ns (f r) = sd_dispatch_reserved_ns r" for f ts
  proof (cases "index < length ts")
    case True
    have "promised n s ((ts ! index)\<lparr>tc_sched := f (tc_sched (ts ! index))\<rparr>) = promised n s (ts ! index)"
      using that by (simp add: promised_def Let_def)
    then show ?thesis
      using outstanding_upd [OF True, of n "\<lambda>c. c\<lparr>tc_sched := f (tc_sched c)\<rparr>" s] by (simp add: set_sched_def)
  next
    case False
    then show ?thesis by (simp add: set_sched_def upd_def)
  qed
  show ?thesis
    using assms by (auto simp: sched_charge_def Let_def bind_eq_Some_conv keep split: if_splits)
qed

lemma reserve_step:
  assumes inv: "dispatch_inv n base (w, dispatched_ns n ts used)" and cpu: "cpu < length (cw_credits w)"
    and index: "index < length ts" "\<not> sd_dispatched (tc_sched (ts ! index))"
    and use: "sc_state (cw_scopes w ! tc_effective_scope (ts ! index)) \<noteq> SEmpty" and n: "n = now div CPU_WINDOW_NS"
    and run: "reserve_for cpu index now (w, ts) = Some ((w', ts'), ok)"
  shows "dispatch_inv n base (w', dispatched_ns n ts' used)"
proof -
  define s c disp where "s = tc_effective_scope (ts ! index)" and "c = ts ! index" and "disp = dispatched_ns n ts used"
  obtain t b where tr: "take_running (cw_scopes w) s = (t, b)" by fastforce
  have s: "s < length (cw_scopes w)" using run index by (auto simp: reserve_for_def nth_opt_def s_def Let_def bind_eq_Some_conv split: if_splits)
  have ord: "same_ordinary (cw_scopes w) t" using take_running_ordinary [of "cw_scopes w" s] tr by simp
  have inv0: "dispatch_inv n base (w\<lparr>cw_scopes := t\<rparr>, disp)"
    using dispatch_inv_ordinary [OF inv ord] by (simp add: disp_def)
  have s0: "s < length t" "sc_state (t ! s) \<noteq> SEmpty"
    using ord s use by (auto simp: same_ordinary_iff same_structure_def s_def)
  have count: "dispatch_inv n base (x, d) \<Longrightarrow> same_ordinary (cw_scopes x) t' \<Longrightarrow>
      dispatch_inv n base (x\<lparr>cw_scopes := count_dispatch g s t'\<rparr>, d)" for x d g t'
    using dispatch_inv_ordinary same_ordinary_trans count_dispatch_ordinary by blast
  show ?thesis
  proof (cases b)
    case False
    then have "w' = w\<lparr>cw_scopes := count_dispatch False s t\<rparr>" "ts' = ts"
      using run tr s index by (auto simp: reserve_for_def nth_opt_def s_def Let_def)
    then show ?thesis using count [OF inv0, of t] by (simp add: disp_def)
  next
    case True
    then obtain w1 g where tg: "take_grant cpu s (tc_recovery c) now (w\<lparr>cw_scopes := t\<rparr>) = Some (w1, g)"
      and rest: "(if g = 0 then Some ((w1\<lparr>cw_scopes := count_dispatch False s (drop_running (cw_scopes w1) s)\<rparr>, ts), False)
         else Some ((w1\<lparr>cw_scopes := count_dispatch True s (cw_scopes w1)\<rparr>,
           set_sched index (\<lambda>r. r\<lparr>sd_dispatch_reserved_ns := g, sd_dispatch_charged_ns := 0,
             sd_dispatch_window := n, sd_dispatch_scope := s, sd_dispatch_recovery := tc_recovery c,
             sd_dispatched := True, sd_reservation_end_ns := sat_add64 now g\<rparr>) ts), True)) = Some ((w', ts'), ok)"
      using run tr s index(1) s_def [folded c_def] unfolding n
      by (auto simp: reserve_for_def nth_opt_def c_def [symmetric] Let_def bind_eq_Some_conv)
    let ?g = "if tc_recovery c then 0 else g"
    have inv1: "dispatch_inv n base (w1, disp(s := disp s + ?g))"
    proof (cases "tc_recovery c")
      case True
      then have "w1 = w\<lparr>cw_scopes := cw_scopes w1\<rparr>" "same_ordinary t (cw_scopes w1)"
        using take_grant_recovery [of cpu s now "w\<lparr>cw_scopes := t\<rparr>"] tg by auto
      then show ?thesis using dispatch_inv_ordinary [OF inv0, of "cw_scopes w1"] True by simp
    next
      case False
      then show ?thesis using dispatch_granted [OF inv0 _ _ _ n, of cpu s w1 g] tg s0 cpu by simp
    qed
    show ?thesis
    proof (cases "g = 0")
      case True
      then have "w' = w1\<lparr>cw_scopes := count_dispatch False s (drop_running (cw_scopes w1) s)\<rparr>" "ts' = ts" using rest by auto
      then show ?thesis using count [OF inv1 drop_running_ordinary] True by (simp add: disp_def fun_upd_idem)
    next
      case False
      let ?f = "\<lambda>c. c\<lparr>tc_sched := (tc_sched c)\<lparr>sd_dispatch_reserved_ns := g, sd_dispatch_charged_ns := 0,
             sd_dispatch_window := n, sd_dispatch_scope := s, sd_dispatch_recovery := tc_recovery (ts ! index),
             sd_dispatched := True, sd_reservation_end_ns := sat_add64 now g\<rparr>\<rparr>"
      have w': "w' = w1\<lparr>cw_scopes := count_dispatch True s (cw_scopes w1)\<rparr>" "ts' = upd index ?f ts"
        using rest False by (auto simp: set_sched_def c_def)
      have "outstanding_ns n ts' q = outstanding_ns n ts q + (if q = s then ?g else 0)" for q
        using outstanding_upd [OF index(1), of n ?f q] index(2) unfolding w'(2) by (simp add: promised_def c_def)
      then have "dispatched_ns n ts' used = disp(s := disp s + ?g)" by (auto simp: disp_def)
      then show ?thesis using count [OF inv1 same_ordinary_refl] w'(1) by simp
    qed
  qed
qed

lemma dispatch_inv_le:
  assumes inv: "dispatch_inv n base (w, disp)" and le: "\<And>q. disp' q \<le> disp q"
  shows "dispatch_inv n base (w, disp')"
proof -
  have "taken n w disp' i \<le> taken n w disp i" for i
    unfolding taken_def using le by (intro sum_mono) simp
  then have "base i + taken n w disp' i \<le> x" if "base i + taken n w disp i \<le> x" for i x
    using that by (meson add_left_mono order_trans)
  then show ?thesis using inv by (simp add: dispatch_inv_def)
qed

text \<open>What is not used goes back: into this processor's credit, or to the scope and its ancestors.\<close>

lemma unused_to_credit:
  assumes inv: "dispatch_inv n base (w, disp)" and cpu: "cpu < length (cw_credits w)"
    and s: "s < length (cw_scopes w)" "sc_state (cw_scopes w ! s) \<noteq> SEmpty"
    and d: "disp' s + (if cr_window (credit_at w cpu s) = n then unused else 0) \<le> disp s" "\<And>q. q \<noteq> s \<Longrightarrow> disp' q = disp q"
  shows "dispatch_inv n base (upd_credit cpu s (\<lambda>c. c\<lparr>cr_reserved_ns := wrap_add64 (cr_reserved_ns c) unused\<rparr>) w, disp')"
proof -
  let ?f = "\<lambda>c. c\<lparr>cr_reserved_ns := wrap_add64 (cr_reserved_ns c) unused\<rparr>" and ?w = "upd_credit cpu s (\<lambda>c. c\<lparr>cr_reserved_ns := wrap_add64 (cr_reserved_ns c) unused\<rparr>) w"
  have row: "s < length (cw_credits w ! cpu)" using inv s cpu credits_shapeD by (simp add: dispatch_inv_def cpu_ok_def)
  have wrap: "wrap_add64 a b \<le> a + b" for a b by (simp add: wrap_add64_def)
  have grow: "cred n ?w s + disp' s \<le> cred n w s + disp s"
    using cred_upd [OF cpu row, of n ?f] d(1) wrap [of "cr_reserved_ns (credit_at w cpu s)" unused]
    by (auto simp: worth_def split: if_splits)
  show ?thesis
  proof (rule dispatch_inv_move [OF inv s])
    fix i assume i: "i < length (cw_scopes w)"
    have "base i + taken n w disp i \<le> cpu_committed False (cw_scopes w ! i)" using inv i by (simp add: dispatch_inv_def)
    then show "base i + taken n w disp i + cred n ?w s + disp' s \<le> cpu_committed False (cw_scopes ?w ! i) + cred n w s + disp s"
      using grow by simp
    show "(sc_state (cw_scopes ?w ! i) \<noteq> SEmpty \<longrightarrow> sc_window_index (cw_scopes ?w ! i) = n) \<and>
      cpu_limit False (cw_scopes ?w ! i) = cpu_limit False (cw_scopes w ! i) \<and> cpu_committed False (cw_scopes ?w ! i) \<le> U64_MAX"
      using inv i committed_okD by (auto simp: dispatch_inv_def cpu_ok_def)
    show "cred n ?w s + disp' s \<le> cred n w s + disp s \<or>
        base i + taken n w disp i + cred n ?w s + disp' s \<le> cpu_limit False (cw_scopes w ! i) + cred n w s + disp s"
      using grow by simp
  qed (use inv cred_upd_other [of _ s n cpu ?f w] d(2) in \<open>simp_all add: dispatch_inv_def cpu_ok_def\<close>)
qed

lemma unused_to_scopes:
  assumes inv: "dispatch_inv n base (w, disp)" and s: "s < length (cw_scopes w)" "sc_state (cw_scopes w ! s) \<noteq> SEmpty"
    and d: "disp' s + (if window = n then unused else 0) \<le> disp s" "\<And>q. q \<noteq> s \<Longrightarrow> disp' q = disp q"
  shows "dispatch_inv n base (w\<lparr>cw_scopes := return_cpu (cw_scopes w) s unused False window\<rparr>, disp')"
proof -
  let ?t = "cw_scopes w" and ?r = "return_cpu (cw_scopes w) s unused False window"
  have ok: "cpu_ok w" using inv by (simp add: dispatch_inv_def)
  then have wf: "wf_table ?t" and com: "committed_ok False ?t" by (simp_all add: cpu_ok_def)
  have fresh: "sc_window_index (?t ! i) = n" if "is_within ?t i s" for i
    using chain_depth [OF wf s] that inv by (auto simp: is_within_def dispatch_inv_def)
  have at: "?r ! i = (if is_within ?t i s \<and> window = n
      then saturating_take (cpu_committed False) (set_cpu_committed False) unused (?t ! i) else ?t ! i)" if "i < length ?t" for i
    using nth_upd_all [OF chain_distinct [OF wf s] that] fresh [of i]
    by (auto simp: return_cpu_def is_within_def saturating_take_def set_cpu_committed_def cpu_committed_def)
  have len: "length ?r = length ?t" by (simp add: return_cpu_def)
  have tree: "same_tree ?t ?r" using at len by (simp add: same_tree_def saturating_take_def)
  show ?thesis
  proof (rule dispatch_inv_move [OF inv s])
    fix i assume i: "i < length ?t"
    show "(sc_state (cw_scopes (w\<lparr>cw_scopes := ?r\<rparr>) ! i) \<noteq> SEmpty \<longrightarrow> sc_window_index (cw_scopes (w\<lparr>cw_scopes := ?r\<rparr>) ! i) = n) \<and>
        cpu_limit False (cw_scopes (w\<lparr>cw_scopes := ?r\<rparr>) ! i) = cpu_limit False (?t ! i) \<and>
        cpu_committed False (cw_scopes (w\<lparr>cw_scopes := ?r\<rparr>) ! i) \<le> U64_MAX"
      using at [OF i] inv i committed_okD [OF com i] by (auto simp: dispatch_inv_def saturating_take_def)
    have "base i + taken n w disp i \<le> cpu_committed False (?t ! i)" using inv i by (simp add: dispatch_inv_def)
    then show "base i + taken n w disp i + cred n (w\<lparr>cw_scopes := ?r\<rparr>) s + disp' s \<le>
        cpu_committed False (cw_scopes (w\<lparr>cw_scopes := ?r\<rparr>) ! i) + cred n w s + disp s"
      using at [OF i] d(1) by (auto simp: saturating_take_def split: if_splits)
  qed (use tree at d inv len in \<open>auto simp: credits_shape_scopes dispatch_inv_def cpu_ok_def split: if_splits\<close>)
qed

lemma settle_step:
  assumes inv: "dispatch_inv n base (w, dispatched_ns n ts used)" and cpu: "cpu < length (cw_credits w)"
    and index: "index < length ts" and sc: "s = sd_dispatch_scope (tc_sched (ts ! index))"
    and s: "s < length (cw_scopes w)" "sc_state (cw_scopes w ! s) \<noteq> SEmpty"
    and small: "\<forall>i \<in> set (chain_of (cw_scopes w) s). cpu_committed False (cw_scopes w ! i) + sd_dispatch_charged_ns (tc_sched (ts ! index)) \<le> U64_MAX"
    and run: "sched_settle cpu index (w, ts) = Some ((w', ts'), settled)"
  shows "dispatch_inv n base (w', dispatched_ns n ts' (used(s := used s + covered n s (ts ! index))))"
proof -
  define r where "r = tc_sched (ts ! index)"
  define disp where "disp = dispatched_ns n ts used"
  define disp' where "disp' = dispatched_ns n ts' (used(s := used s + covered n s (ts ! index)))"
  have r: "sd_dispatch_scope (tc_sched (ts ! index)) = s" "tc_sched (ts ! index) = r" "sd_dispatch_scope r = s" by (simp_all add: sc r_def)
  show ?thesis
  proof (cases "sd_dispatched r")
    case False
    then have "w' = w" "ts' = ts" using run index by (simp_all add: sched_settle_def nth_opt_def r_def Let_def)
    moreover have "covered n s (ts ! index) = 0" using False by (simp add: covered_def promised_def r)
    ultimately show ?thesis using inv by (simp add: fun_upd_idem)
  next
    case True
    let ?res = "sd_dispatch_reserved_ns r" and ?ch = "sd_dispatch_charged_ns r"
    let ?mine = "\<not> sd_dispatch_recovery r \<and> sd_dispatch_window r = n"
    let ?w1 = "w\<lparr>cw_scopes := drop_running (cw_scopes w) s\<rparr>"
    let ?f = "\<lambda>c. c\<lparr>tc_sched := (tc_sched c)\<lparr>sd_dispatched := False, sd_dispatch_reserved_ns := 0, sd_dispatch_charged_ns := 0\<rparr>\<rparr>"
    have ts': "ts' = upd index ?f ts"
      using run index True by (auto simp: sched_settle_def nth_opt_def r Let_def set_sched_def split: if_splits)
    have p: "promised n q (ts ! index) = (if q = s \<and> ?mine then ?res else 0)" for q
      using True by (auto simp: promised_def r)
    have out: "outstanding_ns n ts' q + promised n q (ts ! index) = outstanding_ns n ts q" for q
      using outstanding_upd [OF index, of n ?f q] by (simp add: ts' promised_def)
    have other: "disp' q = disp q" if "q \<noteq> s" for q using out [of q] p [of q] that by (simp add: disp'_def disp_def)
    have mine: "disp' s + (if ?mine then ?res - ?ch else 0) = disp s"
      using out [of s] p [of s] by (auto simp: disp'_def disp_def covered_def r)
    have ord: "same_ordinary (cw_scopes w) (cw_scopes ?w1)" using drop_running_ordinary by simp
    have inv1: "dispatch_inv n base (?w1, disp)" using dispatch_inv_ordinary [OF inv drop_running_ordinary] by (simp add: disp_def)
    have s1: "s < length (cw_scopes ?w1)" "sc_state (cw_scopes ?w1 ! s) \<noteq> SEmpty" "cpu < length (cw_credits ?w1)"
      using ord s cpu by (auto simp: same_ordinary_iff same_structure_def)
    have same: "disp' = disp" if "?ch \<ge> ?res \<or> \<not> ?mine" 
    proof
      show "disp' q = disp q" for q using other [of q] mine that by (cases "q = s") (auto split: if_splits)
    qed
    have give: "same_ordinary t (return_cpu t s a True m)" for t a m
      unfolding return_cpu_def using closure_ordinary
      by (auto intro!: same_ordinary_upd_all simp: leaves_ordinary_def saturating_take_def same_structure_def set_cpu_committed_def)
    show ?thesis unfolding disp'_def [symmetric]
    proof (cases "?ch > ?res")
      case over: True
      then have w': "w' = ?w1\<lparr>cw_scopes := commit_excess (cw_scopes ?w1) s (?ch - ?res) (sd_dispatch_recovery r)\<rparr>"
        using run index True by (auto simp: sched_settle_def nth_opt_def r Let_def)
      show "dispatch_inv n base (w', disp')"
      proof (cases "sd_dispatch_recovery r")
        case True
        have "same_ordinary (cw_scopes ?w1) (commit_excess (cw_scopes ?w1) s (?ch - ?res) True)"
          using closure_ordinary by (auto simp: commit_excess_def intro: same_ordinary_upd_all)
        then show ?thesis using dispatch_inv_ordinary [OF inv1] same over True by (simp add: w')
      next
        case False
        have "cpu_committed False (cw_scopes ?w1 ! i) + (?ch - ?res) \<le> U64_MAX" if "i \<in> set (chain_of (cw_scopes ?w1) s)" for i
        proof -
          have i: "i \<in> set (chain_of (cw_scopes w) s)" using that same_tree_chain [OF same_ordinary_tree [OF ord]] by simp
          have "cpu_committed False (cw_scopes ?w1 ! i) = cpu_committed False (cw_scopes w ! i)"
            using ord chain_in_range [OF i] by (simp add: same_ordinary_iff cpu_committed_def)
          then show ?thesis using small i r by fastforce
        qed
        then show ?thesis using dispatch_excess [OF inv1 s1(1,2), of "?ch - ?res"] same over False by (simp add: w')
      qed
    next
      case within: False
      show "dispatch_inv n base (w', disp')"
      proof (cases "?ch = ?res \<or> sd_dispatch_recovery r")
        case True
        then have "w' = ?w1 \<or> w' = ?w1\<lparr>cw_scopes := return_cpu (cw_scopes ?w1) s (?res - ?ch) True (sd_dispatch_window r)\<rparr>"
          using run index \<open>sd_dispatched r\<close> within by (auto simp: sched_settle_def nth_opt_def r Let_def split: if_splits)
        then show ?thesis using inv1 dispatch_inv_ordinary [OF inv1 give] same True by auto
      next
        case False
        have ends: "w' = (if cr_window (credit_at ?w1 cpu s) = sd_dispatch_window r
            then upd_credit cpu s (\<lambda>c. c\<lparr>cr_reserved_ns := wrap_add64 (cr_reserved_ns c) (?res - ?ch)\<rparr>) ?w1
            else ?w1\<lparr>cw_scopes := return_cpu (cw_scopes ?w1) s (?res - ?ch) False (sd_dispatch_window r)\<rparr>)"
          using run index \<open>sd_dispatched r\<close> within False s by (auto simp: sched_settle_def nth_opt_def r Let_def split: if_splits)
        have d: "disp' s + (if sd_dispatch_window r = n then ?res - ?ch else 0) \<le> disp s" using mine False by auto
        show ?thesis
          using unused_to_credit [OF inv1 s1(3,1,2) _ other, of "?res - ?ch"] unused_to_scopes [OF inv1 s1(1,2) d other] d
          by (simp add: ends)
      qed
    qed
  qed
qed

lemma sched_inv_step:
  "sched_step n x y \<Longrightarrow> (case x of (w, ts, used) \<Rightarrow> dispatch_inv n base (w, dispatched_ns n ts used)) \<Longrightarrow>
    (case y of (w, ts, used) \<Rightarrow> dispatch_inv n base (w, dispatched_ns n ts used))"
proof (induction rule: sched_step.induct)
  case (reserves cpu w index ts now w' ts' good used)
  then show ?case using reserve_step [of n base w used ts cpu index now w' ts' good] by simp
next
  case (charges cpu w index now ts w' ts' used)
  have row: "s < length (cw_credits w ! cpu)" if "s < length (cw_scopes w)" for s
    using charges that credits_shapeD by (simp add: dispatch_inv_def cpu_ok_def)
  have "keeps_promises n w (upd_credit cpu s (\<lambda>c. c\<lparr>cr_pending_ns := wrap_add64 (cr_pending_ns c) ran\<rparr>) w)"
    if "s < length (cw_scopes w)" for s ran
    using charges(1) row [OF that] by (intro upd_credit_keeps) (simp_all add: worth_def)
  moreover have "w' = w \<or> (\<exists>s ran. w' = w\<lparr>cw_scopes := charge_cpu (cw_scopes w) s ran True\<rparr>) \<or>
      (\<exists>s ran. s < length (cw_scopes w) \<and> w' = upd_credit cpu s (\<lambda>c. c\<lparr>cr_pending_ns := wrap_add64 (cr_pending_ns c) ran\<rparr>) w)"
    using charges(2) by (auto simp: sched_charge_def Let_def bind_eq_Some_conv not_le split: if_splits)
  ultimately have "keeps_promises n w w'" using charge_keeps_promises [of n w] keeps_promises_refl by blast
  then have "dispatch_inv n base (w', dispatched_ns n ts used)" using charges(3) dispatch_inv_keep by fastforce
  then show ?case by (simp add: charge_keeps_outstanding [OF charges(2)])
next
  case (settles cpu w index ts s w' ts' settled used)
  then show ?case using settle_step [of n base w used ts cpu index s w' ts' settled] by simp
next
  case (releases cpu w s ts used)
  then show ?case using dispatch_given_back [of n base w "dispatched_ns n ts used" cpu s] by simp
next
  case (moves ts' ts w used)
  show ?case using moves(2) by (simp only: prod.case outstanding_moves [OF moves(1)])
qed

lemma sched_inv_run:
  "(sched_step n)\<^sup>*\<^sup>* x y \<Longrightarrow> (case x of (w, ts, used) \<Rightarrow> dispatch_inv n base (w, dispatched_ns n ts used)) \<Longrightarrow>
    (case y of (w, ts, used) \<Rightarrow> dispatch_inv n base (w, dispatched_ns n ts used))"
  by (induction rule: rtranclp_induct) (simp, rule sched_inv_step)

section \<open>A small machine\<close>

text \<open>One processor and one thread: it is dispatched, runs, and gives back what it did not use.\<close>

definition one_thread :: thread_cell where
  "one_thread = thread_cell_empty\<lparr>tc_kind := User, tc_state := TRunning\<rparr>"

definition busy_scope :: scope where
  "busy_scope = scope_empty\<lparr>sc_state := SOpen, sc_limits := limits_default\<lparr>lm_cpu_budget_ns := 3000000, lm_parallelism := 1\<rparr>\<rparr>"

definition busy_cpu :: cpu_world where
  "busy_cpu = \<lparr>cw_scopes = [busy_scope], cw_roll_seq = 0, cw_credits = [[credit_empty]]\<rparr>"

lemma busy_chain: "sc_parent s = NO_SCOPE \<Longrightarrow> chain_of [s] 0 = [0]"
  by (simp add: chain_of_def scope_parent_def)

lemmas busy_eval = reserve_for_def busy_cpu_def one_thread_def thread_cell_empty_def take_running_def busy_chain busy_scope_def scope_empty_def limits_default_def Let_def
    upd_def count_dispatch_def take_grant_def refresh_credit_def credit_at_def credit_empty_def CPU_WINDOW_NS_def window_left_def credit_refill_ns_def CPU_QUANTUM_NS_def
    upd_credit_def charge_cpu_def credit_want_def available_ns_def cpu_usable_def cpu_limit_def cpu_committed_def U64_MAX_def reserve_cpu_def bounded_add_def sat_add64_def
    set_cpu_committed_def record_peak_def grant_from_credit_def checked_add64_def wrap_add64_def wrap_add32_def U32_MAX_def set_sched_def
    sched_charge_def sched_settle_def is_user_def sched_record_empty_def drop_running_def wrap_sub32_def covered_def promised_def outstanding_ns_def

lemma busy_run:
  "\<exists>w1 ts1 w2 ts2 w3 ts3. reserve_for 0 0 5 (busy_cpu, [one_thread]) = Some ((w1, ts1), True) \<and>
     sched_charge 0 0 505 (w1, ts1) = Some (w2, ts2) \<and> sched_settle 0 0 (w2, ts2) = Some ((w3, ts3), 0) \<and>
     length ts1 = 1 \<and> length ts2 = 1 \<and> length (cw_credits w1) = 1 \<and> length (cw_credits w2) = 1 \<and> covered 0 0 (ts2 ! 0) = 505 \<and>
     sd_dispatch_scope (tc_sched (ts2 ! 0)) = 0 \<and> sd_dispatch_charged_ns (tc_sched (ts2 ! 0)) = 505 \<and> outstanding_ns 0 ts3 0 = 0 \<and>
     length (cw_scopes w2) = 1 \<and> sc_state (cw_scopes w2 ! 0) = SOpen \<and> sc_parent (cw_scopes w2 ! 0) = NO_SCOPE \<and> cpu_committed False (cw_scopes w2 ! 0) \<le> 3000000 \<and>
     length (cw_scopes w3) = 1 \<and> sc_state (cw_scopes w3 ! 0) = SOpen \<and> sc_parent (cw_scopes w3 ! 0) = NO_SCOPE"
  by (simp add: busy_eval)

lemma busy_start: "cpu_ok busy_cpu" "cred 0 busy_cpu 0 = 0" "outstanding_ns 0 [one_thread] 0 = 0" "length (cw_scopes busy_cpu) = 1"
  "sc_window_index (cw_scopes busy_cpu ! 0) = 0" "cpu_committed False (cw_scopes busy_cpu ! 0) = 0" "length (cw_credits busy_cpu) = 1"
  "sc_state (cw_scopes busy_cpu ! 0) = SOpen"
  by (simp_all add: busy_eval cpu_ok_def wf_table_def wf_scope_def NO_SCOPE_def U16_MAX_def scope_parent_def MAX_SCOPE_DEPTH_def credits_shape_def
    committed_ok_def cred_def worth_def)

section \<open>Properties\<close>

text \<open>
  C6. A window's dispatches are paid for at every level. Start a window with no dispatch of it live and no
  current credit held; let the processors reserve for threads, charge what they ran, settle their dispatches,
  unused time going back to the credit or the scopes, and give credits back, in any order within the window,
  ordinary and recovery work alike. Then for every scope, all the ordinary execution that the settled
  dispatches of its subtree ran within their promises, plus everything promised to the dispatches that are
  live, plus what the scope had committed when the window opened, is at most its budget, or what it had
  committed if that was already more. Execution beyond a promise is committed on top and is not part of
  the sum.
\<close>

theorem dispatch_within_budget:
  assumes "(sched_step n)\<^sup>*\<^sup>* (w, ts, \<lambda>_. 0) (w', ts', used)" and "cpu_ok w"
    and "\<forall>i < length (cw_scopes w). sc_state (cw_scopes w ! i) \<noteq> SEmpty \<longrightarrow> sc_window_index (cw_scopes w ! i) = n"
    and "\<forall>s < length (cw_scopes w). cred n w s = 0 \<and> outstanding_ns n ts s = 0" and "i < length (cw_scopes w')"
  shows "cpu_committed False (cw_scopes w ! i) +
      (\<Sum>s < length (cw_scopes w'). if in_subtree (cw_scopes w') i s then used s + outstanding_ns n ts' s else 0)
    \<le> max (cpu_committed False (cw_scopes w ! i)) (lm_cpu_budget_ns (sc_limits (cw_scopes w' ! i)))"
proof -
  let ?base = "\<lambda>i. cpu_committed False (cw_scopes w ! i)"
  have "taken n w (dispatched_ns n ts (\<lambda>_. 0)) i = 0" for i using assms(4) by (simp add: taken_def)
  then have "dispatch_inv n ?base (w, dispatched_ns n ts (\<lambda>_. 0))" using assms(2,3) by (simp add: dispatch_inv_def)
  with sched_inv_run [OF assms(1), of ?base] have "dispatch_inv n ?base (w', dispatched_ns n ts' used)" by simp
  then have "?base i + taken n w' (dispatched_ns n ts' used) i \<le> max (?base i) (cpu_limit False (cw_scopes w' ! i))"
    using assms(5) by (simp add: dispatch_inv_def)
  moreover have "(\<Sum>s < length (cw_scopes w'). if in_subtree (cw_scopes w') i s then used s + outstanding_ns n ts' s else 0)
      \<le> taken n w' (dispatched_ns n ts' used) i"
    unfolding taken_def by (rule sum_mono) simp
  ultimately show ?thesis by (simp add: cpu_limit_def)
qed

lemma dispatch_within_budget_witness:
  "\<exists>w1 ts1 w2 ts2 w3 ts3. reserve_for 0 0 5 (busy_cpu, [one_thread]) = Some ((w1, ts1), True) \<and>
     sched_charge 0 0 505 (w1, ts1) = Some (w2, ts2) \<and> sched_settle 0 0 (w2, ts2) = Some ((w3, ts3), 0) \<and>
     505 \<le> max 0 (lm_cpu_budget_ns (sc_limits (cw_scopes w3 ! 0)))"
proof -
  obtain w1 ts1 w2 ts2 w3 ts3 where run: "reserve_for 0 0 5 (busy_cpu, [one_thread]) = Some ((w1, ts1), True)"
     "sched_charge 0 0 505 (w1, ts1) = Some (w2, ts2)" "sched_settle 0 0 (w2, ts2) = Some ((w3, ts3), 0)"
     and l: "length ts1 = 1" "length ts2 = 1" "length (cw_credits w1) = 1" "length (cw_credits w2) = 1"
     and c: "covered 0 0 (ts2 ! 0) = 505" "sd_dispatch_scope (tc_sched (ts2 ! 0)) = 0" "sd_dispatch_charged_ns (tc_sched (ts2 ! 0)) = 505" "outstanding_ns 0 ts3 0 = 0"
     and s2: "length (cw_scopes w2) = 1" "sc_state (cw_scopes w2 ! 0) = SOpen" "sc_parent (cw_scopes w2 ! 0) = NO_SCOPE" "cpu_committed False (cw_scopes w2 ! 0) \<le> 3000000"
     and s3: "length (cw_scopes w3) = 1" "sc_state (cw_scopes w3 ! 0) = SOpen" "sc_parent (cw_scopes w3 ! 0) = NO_SCOPE"
    using busy_run by blast
  have at: "cw_scopes w2 = [cw_scopes w2 ! 0]" "cw_scopes w3 = [cw_scopes w3 ! 0]"
    using s2(1) s3(1) by (simp_all add: length_Suc_conv) auto
  have chain: "chain_of (cw_scopes w2) 0 = [0]" "chain_of (cw_scopes w3) 0 = [0]"
    using busy_chain [OF s2(3)] busy_chain [OF s3(3)] at by metis+
  let ?used = "(\<lambda>_. 0)(0 := 505) :: scope_id \<Rightarrow> nat"
  have "sched_step 0 (busy_cpu, [one_thread], \<lambda>_. 0) (w1, ts1, \<lambda>_. 0)"
    by (rule sched_step.reserves [OF _ _ _ _ _ run(1)]) (use busy_start in \<open>simp_all add: busy_eval\<close>)
  moreover have "sched_step 0 (w1, ts1, \<lambda>_. 0) (w2, ts2, \<lambda>_. 0)"
    by (rule sched_step.charges [OF _ run(2)]) (use l in simp)
  moreover have "sched_step 0 (w2, ts2, \<lambda>_. 0) (w3, ts3, (\<lambda>_. 0)(0 := 0 + covered 0 0 (ts2 ! 0)))"
    by (rule sched_step.settles [OF _ _ c(2) [symmetric] _ _ _ run(3)]) (use l s2 c chain in \<open>simp_all add: U64_MAX_def\<close>)
  ultimately have steps: "(sched_step 0)\<^sup>*\<^sup>* (busy_cpu, [one_thread], \<lambda>_. 0) (w3, ts3, ?used)"
    unfolding c(1) add_0 by (meson converse_rtranclp_into_rtranclp rtranclp.rtrancl_refl)
  have sub: "in_subtree (cw_scopes w3) 0 0" using chain(2) s3 by (simp add: in_subtree_def is_within_def)
  have i: "0 < length (cw_scopes w3)" using s3(1) by simp
  note b = dispatch_within_budget [OF steps busy_start(1) _ _ i]
  have "505 \<le> max 0 (lm_cpu_budget_ns (sc_limits (cw_scopes w3 ! 0)))"
    using b busy_start(2-6) sub c(4) s3(1) by simp
  with run show ?thesis by blast
qed

end
