(* ===== verification/Frame_Ledger.thy ===== *)
theory Frame_Ledger
  imports Frames
begin

text \<open>
  What the frame allocator promises. A ledger names the owner of every frame that was handed out and
  has not come back (\<open>held\<close>), and the allocator agrees with it: the free count is the number of clear
  bits, every account is its initial charge plus the frames held in its name, and the quarantine
  holds held frames only, each once. Every operation keeps the agreement, an allocation hands out a
  frame nobody holds, and a drain returns exactly the frames whose generation has passed.
\<close>

section \<open>The bitmap as a set of frames\<close>

definition busy :: "frame_allocator \<Rightarrow> nat \<Rightarrow> bool" where
  "busy a i = bit (fa_bitmap a ! (i div 64)) (i mod 64)"

definition mark_bit :: "nat \<Rightarrow> u64 list \<Rightarrow> u64 list" where
  "mark_bit i = upd (i div 64) (\<lambda>w. w OR push_bit (i mod 64) 1)"

definition unmark_bit :: "nat \<Rightarrow> u64 list \<Rightarrow> u64 list" where
  "unmark_bit i = upd (i div 64) (\<lambda>w. w AND NOT (push_bit (i mod 64) 1))"

lemma length_mark [simp]: "length (mark_bit i bm) = length bm" "length (unmark_bit i bm) = length bm"
  by (simp_all add: mark_bit_def unmark_bit_def)

lemma same_bit_iff: "i div 64 = j div 64 \<and> i mod 64 = j mod 64 \<longleftrightarrow> i = (j::nat)"
  by (metis div_mult_mod_eq)

lemma bit_mark:
  assumes "i div 64 < length bm"
  shows "bit (mark_bit i bm ! (j div 64)) (j mod 64) \<longleftrightarrow> j = i \<or> bit (bm ! (j div 64)) (j mod 64)"
proof (cases "i div 64 = j div 64")
  case True
  then have "mark_bit i bm ! (j div 64) = (bm ! (j div 64)) OR push_bit (i mod 64) 1"
    using assms by (simp add: mark_bit_def)
  then show ?thesis
    using same_bit_iff [of i j] True by (auto simp: bit_simps)
next
  case False
  then show ?thesis by (auto simp: mark_bit_def)
qed

lemma bit_unmark:
  assumes "i div 64 < length bm"
  shows "bit (unmark_bit i bm ! (j div 64)) (j mod 64) \<longleftrightarrow> j \<noteq> i \<and> bit (bm ! (j div 64)) (j mod 64)"
proof (cases "i div 64 = j div 64")
  case True
  then have "unmark_bit i bm ! (j div 64) = (bm ! (j div 64)) AND NOT (push_bit (i mod 64) 1)"
    using assms by (simp add: unmark_bit_def)
  then show ?thesis
    using same_bit_iff [of i j] True by (auto simp: bit_simps)
next
  case False
  then show ?thesis by (auto simp: unmark_bit_def)
qed

lemma frame_test_busy: "i div 64 < length (fa_bitmap a) \<Longrightarrow> frame_test a i = Some (busy a i)"
  by (simp add: frame_test_def busy_def bit_iff_and_push_bit_not_eq_0)

lemma frame_set_mark:
  "i div 64 < length (fa_bitmap a) \<Longrightarrow> frame_set a i = Some (a\<lparr>fa_bitmap := mark_bit i (fa_bitmap a)\<rparr>)"
  by (simp add: frame_set_def mark_bit_def)

lemma frame_clear_unmark:
  "i div 64 < length (fa_bitmap a) \<Longrightarrow> frame_clear a i = Some (a\<lparr>fa_bitmap := unmark_bit i (fa_bitmap a)\<rparr>)"
  by (simp add: frame_clear_def unmark_bit_def)

text \<open>The address of a frame determines its index.\<close>

definition frame_of :: "nat \<Rightarrow> frame" where
  "frame_of i = frame_containing (of_nat (i * PAGE_SIZE))"

lemma page_mask: "(of_nat PAGE_SIZE - 1 :: u64) = mask 12"
  by (simp add: PAGE_SIZE_def mask_eq_exp_minus_1)

lemma frame_addr_containing: "frame_addr (frame_containing x) = push_bit 12 (drop_bit 12 x)"
  unfolding frame_containing_def page_mask
  by (simp, rule bit_word_eqI) (auto simp: bit_simps)

lemma unat_frame_containing: "unat (frame_addr (frame_containing x)) = unat x div PAGE_SIZE * PAGE_SIZE"
proof -
  have le: "unat x div 4096 * 4096 \<le> unat x" by simp
  have "unat (push_bit 12 (drop_bit 12 x)) = take_bit 64 (unat x div 4096 * 4096)"
    by (simp add: unat_word_ariths unat_div_distrib take_bit_eq_mod push_bit_eq_mult drop_bit_eq_div mod_mult_left_eq)
  also have "\<dots> = unat x div 4096 * 4096"
    using le unsigned_less [of x] by (intro take_bit_nat_eq_self) (rule le_less_trans, simp_all)
  finally show ?thesis by (simp add: frame_addr_containing PAGE_SIZE_def)
qed

lemma unat_page: "unat (of_nat PAGE_SIZE :: u64) = PAGE_SIZE"
  by (simp add: PAGE_SIZE_def)

lemma unat_of_nat_u64: "n \<le> U64_MAX \<Longrightarrow> unat (of_nat n :: u64) = n"
  by (simp add: unsigned_of_nat take_bit_nat_eq_self U64_MAX_def)

lemma unat_frame_of: "i * PAGE_SIZE \<le> U64_MAX \<Longrightarrow> unat (frame_addr (frame_of i)) = i * PAGE_SIZE"
  unfolding frame_of_def unat_frame_containing
  by (subst (1) unat_of_nat_u64, simp) (simp add: PAGE_SIZE_def)

lemma frame_index_frame_of: "i * PAGE_SIZE \<le> U64_MAX \<Longrightarrow> frame_index (frame_of i) = i"
  unfolding frame_index_def by (simp only: unat_div_distrib unat_page unat_frame_of) (simp add: PAGE_SIZE_def)

section \<open>The ledger\<close>

definition div64_ok :: "frame_allocator \<Rightarrow> bool" where
  "div64_ok a \<longleftrightarrow> length (fa_bitmap a) = div_ceil (fa_frames a) 64 \<and> fa_frames a * PAGE_SIZE \<le> U64_MAX"

definition free_set :: "frame_allocator \<Rightarrow> nat set" where
  "free_set a = {i. i < fa_frames a \<and> \<not> busy a i}"

definition pool_ok :: "frame_allocator \<Rightarrow> bool" where
  "pool_ok a \<longleftrightarrow> div64_ok a \<and> fa_hint a < fa_frames a \<and> fa_free a = card (free_set a)"

definition held_in :: "(nat \<rightharpoonup> owner) \<Rightarrow> nat \<Rightarrow> nat set" where
  "held_in held s = {i. map_option owner_slot (held i) = Some s}"

definition charges_ok :: "nat list \<Rightarrow> (nat \<rightharpoonup> owner) \<Rightarrow> frame_allocator \<Rightarrow> bool" where
  "charges_ok base held a \<longleftrightarrow>
     length (fa_charged a) = OWNER_SLOTS \<and> length base = OWNER_SLOTS \<and>
     (\<forall>i own. held i = Some own \<longrightarrow> i < fa_frames a \<and> busy a i \<and> owner_slot own < OWNER_SLOTS) \<and>
     (\<forall>s < OWNER_SLOTS. base ! s + fa_frames a \<le> U64_MAX \<and>
        fa_charged a ! s = base ! s + card (held_in held s))"

definition slot_used :: "frame_allocator \<Rightarrow> nat \<Rightarrow> bool" where
  "slot_used a k \<longleftrightarrow> k < length (fa_quarantine a) \<and> qu_used (fa_quarantine a ! k)"

definition slot_index :: "frame_allocator \<Rightarrow> nat \<Rightarrow> nat" where
  "slot_index a k = frame_index (qu_frame (fa_quarantine a ! k))"

definition quarantine_ok :: "(nat \<rightharpoonup> owner) \<Rightarrow> frame_allocator \<Rightarrow> bool" where
  "quarantine_ok held a \<longleftrightarrow>
     (\<forall>k. slot_used a k \<longrightarrow> held (slot_index a k) = Some (qu_owner (fa_quarantine a ! k))) \<and>
     inj_on (slot_index a) {k. slot_used a k} \<and>
     fa_quarantined a = card {k. slot_used a k} \<and>
     fa_quarantined a \<le> fa_quarantine_peak a \<and>
     (fa_quarantined a > 0 \<longrightarrow> fa_pending a)"

definition ledger :: "nat list \<Rightarrow> (nat \<rightharpoonup> owner) \<Rightarrow> frame_allocator \<Rightarrow> bool" where
  "ledger base held a \<longleftrightarrow> pool_ok a \<and> charges_ok base held a \<and> quarantine_ok held a"

lemmas ledger_defs = ledger_def pool_ok_def charges_ok_def quarantine_ok_def

lemma in_bitmap: "div64_ok a \<Longrightarrow> i < fa_frames a \<Longrightarrow> i div 64 < length (fa_bitmap a)"
  by (auto simp: div64_ok_def div_ceil_def less_mult_imp_div_less)

lemma addr_in: "div64_ok a \<Longrightarrow> i \<le> fa_frames a \<Longrightarrow> i * PAGE_SIZE \<le> U64_MAX"
  by (metis div64_ok_def le_trans mult_le_mono1)

lemma finite_free [simp]: "finite (free_set a)"
  by (simp add: free_set_def)

lemma held_in_upd:
  "held_in (held(i \<mapsto> own)) s = (if owner_slot own = s then insert i (held_in held s) else held_in held s - {i})"
  "held_in (held(i := None)) s = held_in held s - {i}"
  by (auto simp: held_in_def)

lemma held_in_finite: "charges_ok base held a \<Longrightarrow> finite (held_in held s)"
  by (rule finite_subset [of _ "{..<fa_frames a}"]) (auto simp: charges_ok_def held_in_def)

lemma held_in_card: "charges_ok base held a \<Longrightarrow> card (held_in held s) \<le> fa_frames a"
  using card_mono [of "{..<fa_frames a}" "held_in held s"]
  by (auto simp: charges_ok_def held_in_def)

lemma slot_used_len: "slot_used a k \<Longrightarrow> k < length (fa_quarantine a)"
  by (simp add: slot_used_def)

lemma finite_used [simp]: "finite {k. slot_used a k}"
  by (simp add: slot_used_def)

subsection \<open>Handing a frame out\<close>

definition taken :: "frame_allocator \<Rightarrow> nat \<Rightarrow> owner \<Rightarrow> frame_allocator" where
  "taken a i own = a\<lparr>fa_bitmap := mark_bit i (fa_bitmap a), fa_free := fa_free a - 1,
     fa_charged := upd (owner_slot own) Suc (fa_charged a),
     fa_ram := zero_frame (frame_of i) (fa_ram a)\<rparr>"

lemma taken_simps [simp]:
  "fa_frames (taken a i own) = fa_frames a" "fa_hint (taken a i own) = fa_hint a"
  "fa_quarantine (taken a i own) = fa_quarantine a" "fa_quarantined (taken a i own) = fa_quarantined a"
  "fa_quarantine_peak (taken a i own) = fa_quarantine_peak a" "fa_pending (taken a i own) = fa_pending a"
  "fa_free (taken a i own) = fa_free a - 1"
  "fa_ram (taken a i own) = zero_frame (frame_of i) (fa_ram a)"
  "slot_used (taken a i own) = slot_used a" "slot_index (taken a i own) = slot_index a"
  by (simp_all add: taken_def slot_used_def slot_index_def fun_eq_iff)

lemma busy_taken:
  "div64_ok a \<Longrightarrow> i < fa_frames a \<Longrightarrow> busy (taken a i own) j \<longleftrightarrow> j = i \<or> busy a j"
  using in_bitmap [of a i] by (simp add: busy_def taken_def bit_mark)

lemma div64_taken [simp]: "div64_ok (taken a i own) = div64_ok a"
  by (simp add: div64_ok_def taken_def)

lemma free_set_taken:
  "div64_ok a \<Longrightarrow> i < fa_frames a \<Longrightarrow> free_set (taken a i own) = free_set a - {i}"
  by (auto simp: free_set_def busy_taken)

lemma take_frame_eq:
  assumes "ledger base held a" and "i < fa_frames a" and "\<not> busy a i" and "owner_slot own < OWNER_SLOTS"
  shows "take_frame a i own = Some (taken a i own, frame_of i)"
proof -
  have ok: "div64_ok a" and free: "fa_free a \<noteq> 0"
    using assms by (auto simp: ledger_def pool_ok_def free_set_def)
  have at: "i * PAGE_SIZE \<le> U64_MAX"
    using addr_in [OF ok, of i] assms(2) by simp
  have i: "i \<in> {..<fa_frames a} - held_in held (owner_slot own)"
    using assms by (auto simp: ledger_def charges_ok_def held_in_def)
  have "card (held_in held (owner_slot own)) < card {..<fa_frames a}"
    using assms i by (intro psubset_card_mono) (auto simp: ledger_def charges_ok_def held_in_def)
  then have c: "fa_charged a ! owner_slot own + 1 \<le> U64_MAX"
    using assms(1,4) by (fastforce simp: ledger_def charges_ok_def)
  have l: "owner_slot own < length (fa_charged a)"
    using assms(1,4) by (simp add: ledger_def charges_ok_def)
  show ?thesis
    using in_bitmap [OF ok assms(2)] free c l at
    by (simp add: take_frame_def frame_set_mark frame_at_def checked_add64_def taken_def frame_of_def
        upd_def)
qed

lemma ledger_taken:
  assumes "ledger base held a" and "i < fa_frames a" and "\<not> busy a i" and "owner_slot own < OWNER_SLOTS"
  shows "ledger base (held(i \<mapsto> own)) (taken a i own)"
proof -
  have ok: "div64_ok a" and ch: "charges_ok base held a" and q: "quarantine_ok held a"
    using assms by (simp_all add: ledger_def pool_ok_def)
  have fresh: "held i = None"
    using ch assms(3) by (cases "held i") (auto simp: charges_ok_def)
  have i: "i \<in> free_set a" using assms by (simp add: free_set_def)
  have "pool_ok (taken a i own)"
    using assms(1) i by (simp add: ledger_def pool_ok_def free_set_taken [OF ok assms(2)])
  moreover have "charges_ok base (held(i \<mapsto> own)) (taken a i own)"
  proof -
    have notin: "i \<notin> held_in held s" for s using fresh by (simp add: held_in_def)
    have l: "length (fa_charged (taken a i own)) = OWNER_SLOTS"
      using ch by (simp add: taken_def charges_ok_def)
    have "fa_charged (taken a i own) ! s = base ! s + card (held_in (held(i \<mapsto> own)) s)"
      if "s < OWNER_SLOTS" for s
      using ch that notin [of s] held_in_finite [OF ch, of s]
      by (simp add: charges_ok_def taken_def held_in_upd nth_upd)
    then show ?thesis
      using ch assms(2,4) l by (auto simp: charges_ok_def busy_taken [OF ok assms(2)])
  qed
  moreover have "quarantine_ok (held(i \<mapsto> own)) (taken a i own)"
    using q fresh by (auto simp: quarantine_ok_def)
  ultimately show ?thesis by (simp add: ledger_def)
qed

subsection \<open>Taking a frame back\<close>

definition given :: "frame_allocator \<Rightarrow> nat \<Rightarrow> owner \<Rightarrow> frame_allocator" where
  "given a i own = a\<lparr>fa_bitmap := unmark_bit i (fa_bitmap a), fa_free := fa_free a + 1,
     fa_hint := min i (fa_hint a), fa_charged := upd (owner_slot own) (\<lambda>c. c - 1) (fa_charged a)\<rparr>"

lemma given_simps [simp]:
  "fa_frames (given a i own) = fa_frames a" "fa_hint (given a i own) = min i (fa_hint a)"
  "fa_quarantine (given a i own) = fa_quarantine a" "fa_quarantined (given a i own) = fa_quarantined a"
  "fa_quarantine_peak (given a i own) = fa_quarantine_peak a" "fa_pending (given a i own) = fa_pending a"
  "fa_quarantine_released (given a i own) = fa_quarantine_released a"
  "fa_free (given a i own) = fa_free a + 1" "fa_ram (given a i own) = fa_ram a"
  "slot_used (given a i own) = slot_used a" "slot_index (given a i own) = slot_index a"
  by (simp_all add: given_def slot_used_def slot_index_def fun_eq_iff)

lemma busy_given:
  "div64_ok a \<Longrightarrow> i < fa_frames a \<Longrightarrow> busy (given a i own) j \<longleftrightarrow> j \<noteq> i \<and> busy a j"
  using in_bitmap [of a i] by (simp add: busy_def given_def bit_unmark)

lemma div64_given [simp]: "div64_ok (given a i own) = div64_ok a"
  by (simp add: div64_ok_def given_def)

lemma free_set_given:
  "div64_ok a \<Longrightarrow> i < fa_frames a \<Longrightarrow> free_set (given a i own) = insert i (free_set a)"
  by (auto simp: free_set_def busy_given)

lemma ledger_held:
  "ledger base held a \<Longrightarrow> held i = Some own \<Longrightarrow> i < fa_frames a \<and> busy a i \<and> owner_slot own < OWNER_SLOTS"
  by (simp add: ledger_def charges_ok_def)

lemma frame_release_eq:
  assumes "ledger base held a" and "held (frame_index f) = Some own"
  shows "frame_release a f own = Some (given a (frame_index f) own)"
proof -
  have ok: "div64_ok a" and l: "length (fa_charged a) = OWNER_SLOTS"
    using assms(1) by (simp_all add: ledger_defs)
  show ?thesis
    using ledger_held [OF assms] in_bitmap [OF ok, of "frame_index f"] l
    by (simp add: frame_release_def Let_def frame_test_busy frame_clear_unmark given_def min_def)
qed

lemma ledger_given:
  assumes "ledger base held a" and "held i = Some own" and "\<forall>k. slot_used a k \<longrightarrow> slot_index a k \<noteq> i"
  shows "ledger base (held(i := None)) (given a i own)"
proof -
  have ok: "div64_ok a" and ch: "charges_ok base held a" and q: "quarantine_ok held a"
    using assms by (simp_all add: ledger_def pool_ok_def)
  have i: "i < fa_frames a" "busy a i" "owner_slot own < OWNER_SLOTS"
    using ledger_held [OF assms(1,2)] by auto
  have "i \<notin> free_set a" using i by (simp add: free_set_def)
  then have "pool_ok (given a i own)"
    using assms(1) i(1) by (simp add: ledger_def pool_ok_def free_set_given [OF ok i(1)] min_less_iff_disj)
  moreover have "charges_ok base (held(i := None)) (given a i own)"
  proof -
    have mem: "i \<in> held_in held s \<longleftrightarrow> s = owner_slot own" for s
      using assms(2) by (auto simp: held_in_def)
    have l: "length (fa_charged (given a i own)) = OWNER_SLOTS"
      using ch by (simp add: given_def charges_ok_def)
    have "fa_charged (given a i own) ! s = base ! s + card (held_in (held(i := None)) s)"
      if s: "s < OWNER_SLOTS" for s
    proof -
      have "card (held_in held s) > 0" if "s = owner_slot own"
        using mem [of s] that held_in_finite [OF ch, of s] card_gt_0_iff by blast
      then show ?thesis
        using ch s mem [of s] held_in_finite [OF ch, of s]
        by (auto simp: charges_ok_def given_def held_in_upd nth_upd)
    qed
    then show ?thesis
      using ch l by (auto simp: charges_ok_def busy_given [OF ok i(1)])
  qed
  moreover have "quarantine_ok (held(i := None)) (given a i own)"
    using q assms(3) by (auto simp: quarantine_ok_def)
  ultimately show ?thesis by (simp add: ledger_def)
qed

subsection \<open>The quarantine\<close>

text \<open>Emptying one slot of the quarantine.\<close>

definition unslot :: "frame_allocator \<Rightarrow> nat \<Rightarrow> frame_allocator" where
  "unslot a k = a\<lparr>fa_quarantine := upd k (\<lambda>q. q\<lparr>qu_used := False\<rparr>) (fa_quarantine a),
     fa_quarantined := fa_quarantined a - 1\<rparr>"

lemma unslot_simps [simp]:
  "fa_frames (unslot a k) = fa_frames a" "fa_hint (unslot a k) = fa_hint a"
  "fa_free (unslot a k) = fa_free a" "fa_charged (unslot a k) = fa_charged a"
  "fa_quarantined (unslot a k) = fa_quarantined a - 1"
  "fa_ram (unslot a k) = fa_ram a" "fa_bitmap (unslot a k) = fa_bitmap a"
  "fa_pending (unslot a k) = fa_pending a" "fa_quarantine_peak (unslot a k) = fa_quarantine_peak a"
  "busy (unslot a k) = busy a" "free_set (unslot a k) = free_set a" "div64_ok (unslot a k) = div64_ok a"
  "length (fa_quarantine (unslot a k)) = length (fa_quarantine a)"
  by (simp_all add: unslot_def busy_def fun_eq_iff free_set_def div64_ok_def)

lemma nth_unslot:
  "j < length (fa_quarantine a) \<Longrightarrow> fa_quarantine (unslot a k) ! j =
     (if j = k then (fa_quarantine a ! j)\<lparr>qu_used := False\<rparr> else fa_quarantine a ! j)"
  by (auto simp: unslot_def nth_upd)

lemma slot_used_unslot: "slot_used (unslot a k) j \<longleftrightarrow> slot_used a j \<and> j \<noteq> k"
  by (cases "j = k") (auto simp: slot_used_def nth_unslot)

lemma slot_index_unslot: "j < length (fa_quarantine a) \<Longrightarrow> slot_index (unslot a k) j = slot_index a j"
  by (simp add: slot_index_def nth_unslot)

lemma ledger_unslot:
  assumes "ledger base held a" and "slot_used a k"
  shows "ledger base held (unslot a k)"
proof -
  have q: "quarantine_ok held a" using assms by (simp add: ledger_def)
  have used: "{j. slot_used (unslot a k) j} = {j. slot_used a j} - {k}"
    by (auto simp: slot_used_unslot)
  have "inj_on (slot_index (unslot a k)) ({j. slot_used a j} - {k})"
    using q by (auto simp: quarantine_ok_def inj_on_def slot_index_unslot slot_used_len)
  moreover have "fa_quarantined (unslot a k) = card ({j. slot_used a j} - {k})"
    using q assms(2) by (simp add: quarantine_ok_def)
  ultimately have "quarantine_ok held (unslot a k)"
    using q assms(2) unfolding quarantine_ok_def used
    by (auto simp: slot_used_unslot slot_index_unslot slot_used_len nth_unslot)
  then show ?thesis
    using assms(1) by (simp add: ledger_def pool_ok_def charges_ok_def)
qed

lemma unslot_frees_index:
  assumes "ledger base held a" and "slot_used a k"
  shows "\<forall>j. slot_used (unslot a k) j \<longrightarrow> slot_index (unslot a k) j \<noteq> slot_index a k"
proof (intro allI impI)
  fix j
  assume "slot_used (unslot a k) j"
  then have j: "slot_used a j" "j \<noteq> k" "j < length (fa_quarantine a)"
    by (simp_all add: slot_used_unslot slot_used_len)
  have "inj_on (slot_index a) {j. slot_used a j}"
    using assms(1) by (simp add: ledger_def quarantine_ok_def)
  then show "slot_index (unslot a k) j \<noteq> slot_index a k"
    using j assms(2) by (auto simp: slot_index_unslot dest: inj_onD)
qed

text \<open>The frames a drain at \<open>safe\<close> gives back, looking at the first \<open>n\<close> slots.\<close>

definition due_upto :: "nat \<Rightarrow> frame_allocator \<Rightarrow> nat \<Rightarrow> nat set" where
  "due_upto safe a n = slot_index a ` {k. k < n \<and> slot_used a k \<and> qu_generation (fa_quarantine a ! k) \<le> safe}"

definition due :: "nat \<Rightarrow> frame_allocator \<Rightarrow> nat set" where
  "due safe a = due_upto safe a (length (fa_quarantine a))"

lemma drain_one_skip:
  assumes "k < length (fa_quarantine a)" and "\<not> (slot_used a k \<and> qu_generation (fa_quarantine a ! k) \<le> safe)"
  shows "drain_one safe k (a, r) = Some (a, r)"
  using assms by (auto simp: drain_one_def slot_used_def)

lemma drain_one_take:
  assumes "ledger base held a" and "slot_used a k" and "qu_generation (fa_quarantine a ! k) \<le> safe"
  shows "drain_one safe k (a, r) =
    Some (given (unslot a k) (slot_index a k) (qu_owner (fa_quarantine a ! k)), r + 1)"
proof -
  let ?q = "fa_quarantine a ! k"
  have "held (slot_index a k) = Some (qu_owner ?q)" and n: "fa_quarantined a \<noteq> 0"
    using assms by (auto simp: ledger_def quarantine_ok_def)
  then have "frame_release (unslot a k) (qu_frame ?q) (qu_owner ?q)
      = Some (given (unslot a k) (slot_index a k) (qu_owner ?q))"
    using frame_release_eq [OF ledger_unslot [OF assms(1,2)]] by (simp add: slot_index_def)
  then show ?thesis
    using assms n by (simp add: drain_one_def slot_used_def unslot_def)
qed

lemma due_upto_Suc:
  "due_upto safe a (Suc k) =
     (if slot_used a k \<and> qu_generation (fa_quarantine a ! k) \<le> safe
      then insert (slot_index a k) (due_upto safe a k) else due_upto safe a k)"
  by (auto simp: due_upto_def less_Suc_eq)

lemma due_fresh:
  assumes "ledger base held a" and "slot_used a k"
  shows "slot_index a k \<notin> due_upto safe a k"
  using assms by (auto simp: due_upto_def ledger_def quarantine_ok_def dest: inj_onD)

text \<open>What a drain has done after the first \<open>k\<close> slots.\<close>

definition drained :: "nat list \<Rightarrow> (nat \<rightharpoonup> owner) \<Rightarrow> nat \<Rightarrow> frame_allocator \<Rightarrow> nat \<Rightarrow> frame_allocator \<times> nat \<Rightarrow> bool" where
  "drained base held safe a k st \<longleftrightarrow>
     ledger base (held |` (- due_upto safe a k)) (fst st) \<and>
     fa_frames (fst st) = fa_frames a \<and> fa_ram (fst st) = fa_ram a \<and>
     length (fa_quarantine (fst st)) = length (fa_quarantine a) \<and>
     (\<forall>j. slot_used (fst st) j \<longleftrightarrow> slot_used a j \<and> \<not> (j < k \<and> qu_generation (fa_quarantine a ! j) \<le> safe)) \<and>
     (\<forall>j. slot_used (fst st) j \<longrightarrow> fa_quarantine (fst st) ! j = fa_quarantine a ! j) \<and>
     (\<forall>i. busy (fst st) i \<longleftrightarrow> busy a i \<and> i \<notin> due_upto safe a k) \<and>
     snd st = card (due_upto safe a k)"

lemma drained_step:
  assumes inv: "ledger base held a" and "drained base held safe a k (b, r)" and k: "k < length (fa_quarantine a)"
  shows "\<exists>st. drain_one safe k (b, r) = Some st \<and> drained base held safe a (Suc k) st"
proof (cases "slot_used a k \<and> qu_generation (fa_quarantine a ! k) \<le> safe")
  case False
  then have "\<not> (slot_used b k \<and> qu_generation (fa_quarantine b ! k) \<le> safe)"
    using assms(2) by (auto simp: drained_def)
  then have "drain_one safe k (b, r) = Some (b, r)"
    using k assms(2) by (intro drain_one_skip) (simp_all add: drained_def)
  then show ?thesis
    using assms(2) False by (auto simp: drained_def due_upto_Suc less_Suc_eq)
next
  case True
  have lb: "ledger base (held |` (- due_upto safe a k)) b" using assms(2) by (simp add: drained_def)
  have bk: "slot_used b k" and qk: "fa_quarantine b ! k = fa_quarantine a ! k"
    using assms(2) True by (auto simp: drained_def)
  have ik: "slot_index b k = slot_index a k" by (simp add: slot_index_def qk)
  let ?i = "slot_index a k" and ?own = "qu_owner (fa_quarantine a ! k)"
  have step: "drain_one safe k (b, r) = Some (given (unslot b k) ?i ?own, r + 1)"
    using drain_one_take [OF lb bk] True by (simp add: qk ik)
  have held: "(held |` (- due_upto safe a k)) ?i = Some ?own"
    using lb bk ik qk by (auto simp: ledger_def quarantine_ok_def)
  have ok: "div64_ok (unslot b k)" "?i < fa_frames (unslot b k)"
    using lb ledger_held [OF lb held] by (auto simp: ledger_def pool_ok_def)
  have "ledger base ((held |` (- due_upto safe a k))(?i := None)) (given (unslot b k) ?i ?own)"
    using ledger_given [OF ledger_unslot [OF lb bk] held] unslot_frees_index [OF lb bk] ik by simp
  moreover have "(held |` (- due_upto safe a k))(?i := None) = held |` (- due_upto safe a (Suc k))"
    using True by (auto simp: due_upto_Suc restrict_map_def fun_eq_iff)
  moreover have "card (due_upto safe a (Suc k)) = Suc (card (due_upto safe a k))"
    using True due_fresh [OF inv, of k safe] by (simp add: due_upto_Suc) (simp add: due_upto_def)
  ultimately have "drained base held safe a (Suc k) (given (unslot b k) ?i ?own, r + 1)"
    using assms(2) True k
    by (auto simp: drained_def due_upto_Suc busy_given [OF ok] slot_used_unslot less_Suc_eq nth_unslot slot_used_len)
  then show ?thesis using step by blast
qed

lemma drained_all:
  assumes "ledger base held a" and "k \<le> length (fa_quarantine a)"
  shows "\<exists>st. fold_opt (drain_one safe) [0..<k] (a, 0) = Some st \<and> drained base held safe a k st"
  using assms(2)
proof (induction k)
  case 0
  have "held |` UNIV = held" by (simp add: restrict_map_def)
  then show ?case using assms(1) by (auto simp: drained_def due_upto_def)
next
  case (Suc k)
  then obtain b r where "fold_opt (drain_one safe) [0..<k] (a, 0) = Some (b, r)"
      "drained base held safe a k (b, r)" by force
  then show ?case
    using drained_step [OF assms(1), of safe k b r] Suc.prems by (simp add: fold_opt_append) force
qed

text \<open>Counters the ledger does not read.\<close>

lemma ledger_released:
  assumes "ledger base held a" and "fa_quarantined a > 0 \<longrightarrow> p"
  shows "ledger base held (a\<lparr>fa_quarantine_released := n, fa_pending := p\<rparr>)"
  using assms
  by (simp add: ledger_defs div64_ok_def free_set_def busy_def slot_used_def [abs_def] slot_index_def [abs_def])

lemma drain_effect:
  assumes "ledger base held a"
  shows "\<exists>b. drain_quarantine a safe = Some (b, card (due safe a)) \<and>
     ledger base (held |` (- due safe a)) b \<and> fa_frames b = fa_frames a \<and> fa_ram b = fa_ram a \<and>
     (\<forall>i. busy b i \<longleftrightarrow> busy a i \<and> i \<notin> due safe a) \<and>
     (\<forall>k. slot_used b k \<longleftrightarrow> slot_used a k \<and> qu_generation (fa_quarantine a ! k) > safe) \<and>
     (\<forall>k. slot_used b k \<longrightarrow> fa_quarantine b ! k = fa_quarantine a ! k)"
proof -
  obtain b r where b: "fold_opt (drain_one safe) [0..<length (fa_quarantine a)] (a, 0) = Some (b, r)"
      and d: "drained base held safe a (length (fa_quarantine a)) (b, r)"
    using drained_all [OF assms, of _ safe] by (metis order_refl surj_pair)
  let ?b = "b\<lparr>fa_quarantine_released := fa_quarantine_released b + r,
               fa_pending := (if fa_quarantined b = 0 then False else fa_pending b)\<rparr>"
  have lb: "ledger base (held |` (- due safe a)) b"
    using d by (simp add: drained_def due_def)
  then have "fa_quarantined b > 0 \<longrightarrow> fa_pending b" by (simp add: ledger_def quarantine_ok_def)
  then have "ledger base (held |` (- due safe a)) ?b"
    by (intro ledger_released [OF lb]) auto
  moreover have "drain_quarantine a safe = Some (?b, card (due safe a))"
    using b d by (simp add: drain_quarantine_def drained_def due_def)
  moreover have "busy ?b = busy b" "slot_used ?b = slot_used b"
    by (simp_all add: busy_def slot_used_def fun_eq_iff)
  ultimately show ?thesis
    using d by (intro exI [of _ ?b]) (auto simp: drained_def due_def slot_used_len not_le)
qed

text \<open>Retiring a held frame that is not in the quarantine yet: it stays held, and waits.\<close>

definition in_quarantine :: "frame_allocator \<Rightarrow> nat \<Rightarrow> bool" where
  "in_quarantine a i \<longleftrightarrow> (\<exists>k. slot_used a k \<and> slot_index a k = i)"

lemma ledger_quarantine_update:
  assumes "ledger base held a" and "quarantine_ok held b"
    and "fa_bitmap b = fa_bitmap a" "fa_frames b = fa_frames a" "fa_free b = fa_free a"
      "fa_hint b = fa_hint a" "fa_charged b = fa_charged a"
  shows "ledger base held b"
  using assms by (simp add: ledger_def pool_ok_def charges_ok_def div64_ok_def free_set_def busy_def)

lemma retire_slot:
  assumes "position (\<lambda>q. \<not> qu_used q) (fa_quarantine a) = Some k"
  shows "slot_used (retire_at a f own gen) j \<longleftrightarrow> slot_used a j \<or> j = k"
    and "slot_index (retire_at a f own gen) j = (if j = k then frame_index f else slot_index a j)"
    and "k < length (fa_quarantine a)" and "\<not> slot_used a k"
    and "fa_quarantine (retire_at a f own gen) ! j =
      (if j = k then \<lparr>qu_used = True, qu_frame = f, qu_owner = own, qu_generation = gen\<rparr> else fa_quarantine a ! j)"
proof -
  have k: "k < length (fa_quarantine a)" "\<not> qu_used (fa_quarantine a ! k)"
    using assms by (simp_all add: position_Some_iff)
  let ?q = "\<lparr>qu_used = True, qu_frame = f, qu_owner = own, qu_generation = gen\<rparr>"
  have q: "fa_quarantine (retire_at a f own gen) = (fa_quarantine a)[k := ?q]"
    using assms by (simp add: retire_at_def)
  show "slot_used (retire_at a f own gen) j \<longleftrightarrow> slot_used a j \<or> j = k"
    "slot_index (retire_at a f own gen) j = (if j = k then frame_index f else slot_index a j)"
    "k < length (fa_quarantine a)" "\<not> slot_used a k"
    "fa_quarantine (retire_at a f own gen) ! j = (if j = k then ?q else fa_quarantine a ! j)"
    using k unfolding slot_used_def slot_index_def q by (auto simp: nth_list_update)
qed

lemma retire_full:
  assumes "position (\<lambda>q. \<not> qu_used q) (fa_quarantine a) = None"
  shows "retire_at a f own gen = a\<lparr>fa_pending := True, fa_quarantine_retained := fa_quarantine_retained a + 1\<rparr>"
  using assms by (simp add: retire_at_def)

lemma retire_keeps:
  "fa_bitmap (retire_at a f own gen) = fa_bitmap a" "fa_frames (retire_at a f own gen) = fa_frames a"
  "fa_free (retire_at a f own gen) = fa_free a" "fa_hint (retire_at a f own gen) = fa_hint a"
  "fa_charged (retire_at a f own gen) = fa_charged a" "fa_pending (retire_at a f own gen)"
  "fa_ram (retire_at a f own gen) = fa_ram a"
  by (simp_all add: retire_at_def Let_def split: option.splits)

lemma ledger_retire:
  assumes "ledger base held a" and "held (frame_index f) = Some own" and "\<not> in_quarantine a (frame_index f)"
  shows "ledger base held (retire_at a f own gen)"
proof -
  let ?b = "retire_at a f own gen"
  have q: "quarantine_ok held a" using assms(1) by (simp add: ledger_def)
  have "quarantine_ok held ?b"
  proof (cases "position (\<lambda>q. \<not> qu_used q) (fa_quarantine a)")
    case None
    then show ?thesis
      using q unfolding retire_full [OF None]
      by (simp add: quarantine_ok_def slot_used_def [abs_def] slot_index_def [abs_def])
  next
    case (Some k)
    note slot = retire_slot [OF Some]
    have used: "{j. slot_used ?b j} = insert k {j. slot_used a j}" using slot(1) by auto
    have "inj_on (slot_index ?b) (insert k {j. slot_used a j})"
    proof -
      have keep: "slot_index ?b j = slot_index a j" if "slot_used a j" for j
        using that slot(2,4) by auto
      have "inj_on (slot_index ?b) {j. slot_used a j}"
        using q inj_on_cong [of "{j. slot_used a j}" "slot_index ?b" "slot_index a"] keep
        by (simp add: quarantine_ok_def)
      moreover have "slot_index ?b k \<notin> slot_index ?b ` {j. slot_used a j}"
        using assms(3) keep by (auto simp: slot(2) in_quarantine_def split: if_splits)
      ultimately show ?thesis by (auto simp: inj_on_insert)
    qed
    moreover have "fa_quarantined ?b = fa_quarantined a + 1" "fa_quarantined ?b \<le> fa_quarantine_peak ?b"
      using Some by (simp_all add: retire_at_def)
    ultimately show ?thesis
      using q slot(4) assms(2) retire_keeps(6) unfolding quarantine_ok_def used
      by (auto simp: slot(1,2,5))
  qed
  then show ?thesis
    by (rule ledger_quarantine_update [OF assms(1)]) (simp_all add: retire_keeps)
qed

subsection \<open>Allocation\<close>

lemma ledger_hint: "ledger base held a \<Longrightarrow> h < fa_frames a \<Longrightarrow> ledger base held (a\<lparr>fa_hint := h\<rparr>)"
  by (simp add: ledger_defs div64_ok_def free_set_def busy_def slot_used_def [abs_def] slot_index_def [abs_def])

text \<open>
  What an allocation that succeeds has done to the state \<open>a\<close>: a frame that was free and that nobody
  held is the caller's, zeroed, and nothing else changed hands. A search that fails has left the
  state alone and has seen every frame of the set \<open>S\<close> busy.
\<close>

definition got_frame :: "nat list \<Rightarrow> (nat \<rightharpoonup> owner) \<Rightarrow> frame_allocator \<Rightarrow> owner \<Rightarrow> frame_allocator \<Rightarrow> frame \<Rightarrow> bool" where
  "got_frame base held a own b f \<longleftrightarrow>
     ledger base (held(frame_index f \<mapsto> own)) b \<and> frame_index f < fa_frames a \<and> \<not> busy a (frame_index f) \<and>
     held (frame_index f) = None \<and>
     f = frame_of (frame_index f) \<and> fa_frames b = fa_frames a \<and> fa_quarantine b = fa_quarantine a \<and>
     fa_ram b = zero_frame f (fa_ram a) \<and> (\<forall>i. busy b i \<longleftrightarrow> i = frame_index f \<or> busy a i)"

definition alloc_result :: "nat list \<Rightarrow> (nat \<rightharpoonup> owner) \<Rightarrow> frame_allocator \<Rightarrow> owner \<Rightarrow> nat set \<Rightarrow>
    frame_allocator \<Rightarrow> alloc_error + frame \<Rightarrow> bool" where
  "alloc_result base held a own S b r \<longleftrightarrow>
     (case r of Inl _ \<Rightarrow> b = a \<and> (\<forall>j \<in> S. busy a j) | Inr f \<Rightarrow> got_frame base held a own b f)"

lemma alloc_result_simps [simp]:
  "alloc_result base held a own S b (Inl e) \<longleftrightarrow> b = a \<and> (\<forall>j \<in> S. busy a j)"
  "alloc_result base held a own S b (Inr f) \<longleftrightarrow> got_frame base held a own b f"
  by (simp_all add: alloc_result_def)

lemma alloc_result_insert:
  "busy a i \<Longrightarrow> alloc_result base held a own S b r \<Longrightarrow> alloc_result base held a own (insert i S) b r"
  by (cases r) auto

lemma frame_index_in:
  "div64_ok a \<Longrightarrow> i < fa_frames a \<Longrightarrow> frame_index (frame_of i) = i"
  by (simp add: frame_index_frame_of addr_in)

lemma got_frame_taken:
  assumes "ledger base held a" and "i < fa_frames a" and "\<not> busy a i" and "owner_slot own < OWNER_SLOTS"
  shows "got_frame base held a own (taken a i own) (frame_of i)"
proof -
  have ok: "div64_ok a" using assms(1) by (simp add: ledger_def pool_ok_def)
  have "held i = None" using assms(1,3) ledger_held [OF assms(1), of i] by (cases "held i") auto
  then show ?thesis
    using ledger_taken [OF assms] assms(2,3) busy_taken [OF ok assms(2)]
    by (simp add: got_frame_def frame_index_in [OF ok assms(2)])
qed

lemma got_frame_hint:
  "got_frame base held a own b f \<Longrightarrow> h < fa_frames b \<Longrightarrow> got_frame base held a own (b\<lparr>fa_hint := h\<rparr>) f"
  by (auto simp: got_frame_def ledger_hint busy_def)

text \<open>The indices the circular search still visits.\<close>

definition ring_left :: "nat \<Rightarrow> nat \<Rightarrow> nat \<Rightarrow> nat" where
  "ring_left n start i = (if start \<le> i then n - i + start else start - i)"

definition ring_set :: "nat \<Rightarrow> nat \<Rightarrow> nat \<Rightarrow> nat set" where
  "ring_set n start i = (if start \<le> i then {i..<n} \<union> {0..<start} else {i..<start})"

lemma alloc_scan_effect:
  assumes "ledger base held a" and "owner_slot own < OWNER_SLOTS"
    and "start < fa_frames a" and "i < fa_frames a" and "ring_left (fa_frames a) start i < n"
  shows "\<exists>b r. alloc_scan n a own start i = Some (b, r) \<and>
     alloc_result base held a own (ring_set (fa_frames a) start i) b r"
  using assms(4,5)
proof (induction n arbitrary: i)
  case (Suc n)
  have ok: "div64_ok a" using assms(1) by (simp add: ledger_def pool_ok_def)
  note test = frame_test_busy [OF in_bitmap [OF ok Suc.prems(1)]]
  let ?next = "if i + 1 \<ge> fa_frames a then 0 else i + 1"
  show ?case
  proof (cases "busy a i")
    case False
    let ?b = "(taken a i own)\<lparr>fa_hint := ?next\<rparr>"
    have "got_frame base held a own ?b (frame_of i)"
      using got_frame_hint [OF got_frame_taken [OF assms(1) Suc.prems(1) False assms(2)], of ?next] Suc.prems(1)
      by simp
    moreover have "alloc_scan (Suc n) a own start i = Some (?b, Inr (frame_of i))"
      using False take_frame_eq [OF assms(1) Suc.prems(1) False assms(2)] by (simp add: test)
    ultimately show ?thesis by simp
  next
    case True
    show ?thesis
    proof (cases "?next = start")
      case True
      then have "ring_set (fa_frames a) start i = {i}"
        using Suc.prems(1) by (auto simp: ring_set_def split: if_splits)
      then show ?thesis using True \<open>busy a i\<close> by (simp add: test)
    next
      case False
      have "ring_left (fa_frames a) start ?next < n"
        using Suc.prems False assms(3) by (auto simp: ring_left_def split: if_splits)
      moreover have "?next < fa_frames a" using Suc.prems(1) by simp
      moreover have "ring_set (fa_frames a) start i = insert i (ring_set (fa_frames a) start ?next)"
        using Suc.prems(1) False assms(3) by (auto simp: ring_set_def split: if_splits)
      moreover have "alloc_scan (Suc n) a own start i = alloc_scan n a own start ?next"
        using False \<open>busy a i\<close> by (simp add: test)
      ultimately show ?thesis
        using Suc.IH [of ?next] alloc_result_insert [OF \<open>busy a i\<close>] by metis
    qed
  qed
qed simp

lemma alloc_effect:
  assumes "ledger base held a" and "owner_slot own < OWNER_SLOTS" and "fa_free a > 0"
  shows "\<exists>b f. alloc a safe own = Some (b, Inr f) \<and> got_frame base held a own b f"
proof -
  have h: "fa_hint a < fa_frames a" and free: "free_set a \<noteq> {}"
    using assms by (auto simp: ledger_def pool_ok_def)
  obtain b r where b: "alloc_scan (Suc (fa_frames a)) a own (fa_hint a) (fa_hint a) = Some (b, r)"
      and r: "alloc_result base held a own (ring_set (fa_frames a) (fa_hint a) (fa_hint a)) b r"
    using alloc_scan_effect [OF assms(1,2) h h, of "Suc (fa_frames a)"] h by (auto simp: ring_left_def)
  have "ring_set (fa_frames a) (fa_hint a) (fa_hint a) = {..<fa_frames a}"
    using h by (auto simp: ring_set_def)
  then show ?thesis
    using b r free assms(3) by (cases r) (auto simp: alloc_def free_set_def)
qed

lemma alloc_exhausted:
  assumes "ledger base held a" and "owner_slot own < OWNER_SLOTS" and "fa_free a = 0"
  obtains b r where "drain_quarantine a safe = Some (b, card (due safe a))"
    "ledger base (held |` (- due safe a)) b" "fa_frames b = fa_frames a" "fa_ram b = fa_ram a"
    "free_set b = due safe a"
    "(\<exists>c f. alloc a safe own = Some (c, Inr f) \<and> got_frame base (held |` (- due safe a)) b own c f) \<or>
     (due safe a = {} \<and> alloc a safe own = Some (b, Inl OutOfMemory))"
proof -
  obtain b where b: "drain_quarantine a safe = Some (b, card (due safe a))"
      "ledger base (held |` (- due safe a)) b" "fa_frames b = fa_frames a" "fa_ram b = fa_ram a"
      "\<And>i. busy b i \<longleftrightarrow> busy a i \<and> i \<notin> due safe a"
    using drain_effect [OF assms(1), of safe] by blast
  have h: "fa_hint b < fa_frames b" using b(2) by (simp add: ledger_def pool_ok_def)
  have "held i \<noteq> None" if "i \<in> due safe a" for i
    using that assms(1) by (auto simp: due_def due_upto_def ledger_def quarantine_ok_def)
  then have "i < fa_frames a" if "i \<in> due safe a" for i
    using that ledger_held [OF assms(1), of i] by fastforce
  moreover have "free_set a = {}" using assms(1,3) by (simp add: ledger_def pool_ok_def)
  ultimately have free: "free_set b = due safe a" using b(3,5) by (auto simp: free_set_def)
  obtain c r where c: "alloc_scan (Suc (fa_frames b)) b own (fa_hint b) (fa_hint b) = Some (c, r)"
      and r: "alloc_result base (held |` (- due safe a)) b own (ring_set (fa_frames b) (fa_hint b) (fa_hint b)) c r"
    using alloc_scan_effect [OF b(2) assms(2) h h, of "Suc (fa_frames b)"] h by (auto simp: ring_left_def)
  have ring: "ring_set (fa_frames b) (fa_hint b) (fa_hint b) = {..<fa_frames b}"
    using h by (auto simp: ring_set_def)
  have al: "alloc a safe own = Some (c, r)" using assms(3) b(1) c by (simp add: alloc_def)
  show ?thesis
  proof (rule that [OF b(1-4) free], cases r)
    case (Inl e)
    then have "c = b" "free_set b = {}" using r ring by (auto simp: free_set_def)
    then show "(\<exists>c f. alloc a safe own = Some (c, Inr f) \<and> got_frame base (held |` (- due safe a)) b own c f) \<or>
     (due safe a = {} \<and> alloc a safe own = Some (b, Inl OutOfMemory))"
      using al Inl free by (cases e) auto
  next
    case (Inr f)
    then show "(\<exists>c f. alloc a safe own = Some (c, Inr f) \<and> got_frame base (held |` (- due safe a)) b own c f) \<or>
     (due safe a = {} \<and> alloc a safe own = Some (b, Inl OutOfMemory))"
      using al r by auto
  qed
qed

lemma scan_below_effect:
  assumes "ledger base held a" and "owner_slot own < OWNER_SLOTS" and "\<forall>i \<in> set is. i < fa_frames a"
  shows "\<exists>b r. scan_below a own is = Some (b, r) \<and> alloc_result base held a own (set is) b r"
  using assms(3)
proof (induction "is")
  case (Cons i "is")
  have ok: "div64_ok a" using assms(1) by (simp add: ledger_def pool_ok_def)
  have i: "i < fa_frames a" using Cons.prems by simp
  note test = frame_test_busy [OF in_bitmap [OF ok i]]
  show ?case
  proof (cases "busy a i")
    case True
    then show ?thesis using Cons alloc_result_insert [OF True] by (simp add: test) blast
  next
    case False
    then show ?thesis
      using take_frame_eq [OF assms(1) i False assms(2)] got_frame_taken [OF assms(1) i False assms(2)]
      by (simp add: test)
  qed
qed simp

subsection \<open>Contiguous runs\<close>

definition with_run :: "(nat \<rightharpoonup> owner) \<Rightarrow> nat \<Rightarrow> nat \<Rightarrow> owner \<Rightarrow> nat \<rightharpoonup> owner" where
  "with_run held i n own = (\<lambda>j. if i \<le> j \<and> j < i + n then Some own else held j)"

lemma with_run_0 [simp]: "with_run held i 0 own = held"
  by (auto simp: with_run_def fun_eq_iff)

lemma with_run_Suc: "with_run held i (Suc n) own = (with_run held i n own)(i + n \<mapsto> own)"
  by (auto simp: with_run_def fun_eq_iff)

lemma free_run_effect:
  assumes "div64_ok a" and "i + n \<le> fa_frames a"
  shows "\<exists>m \<le> n. free_run a i n = Some m \<and> (\<forall>j. i \<le> j \<and> j < i + m \<longrightarrow> \<not> busy a j) \<and> (m < n \<longrightarrow> busy a (i + m))"
  using assms(2)
proof (induction n arbitrary: i)
  case (Suc n)
  have test: "frame_test a i = Some (busy a i)"
    using Suc.prems by (intro frame_test_busy in_bitmap [OF assms(1)]) simp
  show ?case
  proof (cases "busy a i")
    case False
    obtain m where "m \<le> n" "free_run a (Suc i) n = Some m"
        "\<forall>j. Suc i \<le> j \<and> j < Suc i + m \<longrightarrow> \<not> busy a j" "m < n \<longrightarrow> busy a (Suc i + m)"
      using Suc.IH [of "Suc i"] Suc.prems by auto
    moreover have "\<not> busy a j" if "i \<le> j" "j < i + Suc m" for j
      using that False calculation(3) by (cases "j = i") auto
    ultimately show ?thesis using False by (intro exI [of _ "Suc m"]) (simp add: test)
  qed (auto simp: test)
qed auto

text \<open>The state after the frames of a run have been taken one by one.\<close>

definition got_run :: "nat list \<Rightarrow> (nat \<rightharpoonup> owner) \<Rightarrow> frame_allocator \<Rightarrow> owner \<Rightarrow> nat \<Rightarrow> nat \<Rightarrow> frame_allocator \<Rightarrow> bool" where
  "got_run base held a own i n b \<longleftrightarrow>
     ledger base (with_run held i n own) b \<and> fa_frames b = fa_frames a \<and> fa_quarantine b = fa_quarantine a \<and>
     (\<forall>j. busy b j \<longleftrightarrow> busy a j \<or> i \<le> j \<and> j < i + n) \<and>
     (\<forall>x. fa_ram b x = (if i * PAGE_SIZE \<le> unat x \<and> unat x < (i + n) * PAGE_SIZE then 0 else fa_ram a x))"

lemma take_each_run:
  assumes "ledger base held a" and "owner_slot own < OWNER_SLOTS"
    and "i + n \<le> fa_frames a" and "\<forall>j. i \<le> j \<and> j < i + n \<longrightarrow> \<not> busy a j"
  shows "\<exists>b. fold_opt (take_each own) [i..<i + n] a = Some b \<and> got_run base held a own i n b"
  using assms(3,4)
proof (induction n)
  case 0
  then show ?case using assms(1) by (auto simp: got_run_def)
next
  case (Suc n)
  then obtain b where b: "fold_opt (take_each own) [i..<i + n] a = Some b" "got_run base held a own i n b"
    by auto
  let ?k = "i + n"
  have lb: "ledger base (with_run held i n own) b" and k: "?k < fa_frames b" "\<not> busy b ?k"
    using b(2) Suc.prems by (auto simp: got_run_def)
  have ok: "div64_ok b" using lb by (simp add: ledger_def pool_ok_def)
  note addr = unat_frame_of [OF addr_in [OF ok less_imp_le [OF k(1)]]]
  have "got_run base held a own i (Suc n) (taken b ?k own)"
    using ledger_taken [OF lb k assms(2)] b(2) busy_taken [OF ok k(1)]
    by (auto simp: got_run_def with_run_Suc zero_frame_def addr algebra_simps)
  moreover have "take_each own ?k b = Some (taken b ?k own)"
    using take_frame_eq [OF lb k assms(2)] by (simp add: take_each_def)
  ultimately show ?case using b(1) by (simp add: fold_opt_append)
qed

lemma got_run_hint:
  "got_run base held a own i n b \<Longrightarrow> h < fa_frames b \<Longrightarrow> got_run base held a own i n (b\<lparr>fa_hint := h\<rparr>)"
  by (auto simp: got_run_def ledger_hint busy_def)

definition run_result :: "nat list \<Rightarrow> (nat \<rightharpoonup> owner) \<Rightarrow> frame_allocator \<Rightarrow> owner \<Rightarrow> nat \<Rightarrow> nat \<Rightarrow> nat \<Rightarrow>
    frame_allocator \<Rightarrow> frame option \<Rightarrow> bool" where
  "run_result base held a own n from to b r \<longleftrightarrow>
     (case r of
        None \<Rightarrow> b = a \<and> (\<forall>i. from \<le> i \<and> i + n \<le> to \<longrightarrow> (\<exists>j. i \<le> j \<and> j < i + n \<and> busy a j))
      | Some f \<Rightarrow> \<exists>i. f = frame_of i \<and> i + n \<le> fa_frames a \<and>
                   (\<forall>j. i \<le> j \<and> j < i + n \<longrightarrow> \<not> busy a j) \<and> got_run base held a own i n b)"

lemma take_run_effect:
  assumes "ledger base held a" and "owner_slot own < OWNER_SLOTS" and "0 < n"
    and "to \<le> fa_frames a" and "to + n \<le> U64_MAX" and "i \<le> to"
  shows "\<exists>b r. take_run a i to n own = Some (b, r) \<and> run_result base held a own n i to b r"
  using assms(6)
proof (induction "to - i" arbitrary: i rule: less_induct)
  case less
  have ok: "div64_ok a" using assms(1) by (simp add: ledger_def pool_ok_def)
  have no: "\<not> i + n > U64_MAX" using less.prems assms(5) by simp
  show ?case
  proof (cases "i + n \<le> to")
    case False
    then show ?thesis
      using no by (subst take_run.simps) (auto simp: run_result_def)
  next
    case True
    then have "i + n \<le> fa_frames a" using assms(4) by simp
    then obtain m where m: "m \<le> n" "free_run a i n = Some m"
        "\<forall>j. i \<le> j \<and> j < i + m \<longrightarrow> \<not> busy a j" "m < n \<longrightarrow> busy a (i + m)"
      using free_run_effect [OF ok, of i n] by blast
    show ?thesis
    proof (cases "m = n")
      case True
      obtain b where b: "fold_opt (take_each own) [i..<i + n] a = Some b" "got_run base held a own i n b"
        using take_each_run [OF assms(1,2) \<open>i + n \<le> fa_frames a\<close>] m(3) True by blast
      let ?h = "if i + n \<ge> fa_frames b then 0 else i + n"
      have at: "frame_at i = Some (frame_of i)"
        using addr_in [OF ok, of i] \<open>i + n \<le> fa_frames a\<close> by (simp add: frame_at_def frame_of_def)
      have "got_run base held a own i n (b\<lparr>fa_hint := ?h\<rparr>)"
        using b(2) \<open>i + n \<le> fa_frames a\<close> assms(3) by (intro got_run_hint) (auto simp: got_run_def)
      then have "run_result base held a own n i to (b\<lparr>fa_hint := ?h\<rparr>) (Some (frame_of i))"
        using \<open>i + n \<le> fa_frames a\<close> m(3) True by (auto simp: run_result_def)
      moreover have "take_run a i to n own = Some (b\<lparr>fa_hint := ?h\<rparr>, Some (frame_of i))"
        using no \<open>i + n \<le> to\<close> m(2) True b(1) at by (subst take_run.simps) simp
      ultimately show ?thesis by blast
    next
      case False
      let ?k = "i + (m + 1)"
      have k: "?k \<le> to" "to - ?k < to - i" using False m(1) \<open>i + n \<le> to\<close> by auto
      obtain b r where b: "take_run a ?k to n own = Some (b, r)" "run_result base held a own n ?k to b r"
        using less.hyps [OF k(2,1)] by blast
      have "\<exists>j. p \<le> j \<and> j < p + n \<and> busy a j" if "i \<le> p" "p < ?k" for p
        using that False m(1,4) by (intro exI [of _ "i + m"]) auto
      then have "run_result base held a own n i to b r"
        using b(2) by (auto simp: run_result_def not_le [symmetric] split: option.splits)
      moreover have "take_run a i to n own = Some (b, r)"
        using no \<open>i + n \<le> to\<close> m(2) False b(1) by (subst take_run.simps) simp
      ultimately show ?thesis by blast
    qed
  qed
qed

end
