(* ===== verification/Frame_Pool.thy ===== *)
theory Frame_Pool
  imports Frame_Ledger
begin

text \<open>
  The remaining operations of the frame allocator against the ledger: contiguous allocation, the
  reassignment of quarantined frames, the reclaiming of boot memory and construction from the
  loader's map; then the ledger as an invariant of every sequence of operations, and the properties
  of the allocator.
\<close>

section \<open>Contiguous allocation\<close>

lemma alloc_contiguous_effect:
  assumes "ledger base held a" and "owner_slot own < OWNER_SLOTS" and "0 < n"
    and "fa_frames a + n \<le> U64_MAX"
  obtains b c r where "drain_quarantine a safe = Some (b, card (due safe a))"
    "ledger base (held |` (- due safe a)) b" "\<And>i. busy b i \<longleftrightarrow> busy a i \<and> i \<notin> due safe a"
    "fa_frames b = fa_frames a"
    "alloc_contiguous a safe n own = Some (c, case r of None \<Rightarrow> Inl OutOfMemory | Some f \<Rightarrow> Inr f)"
    "run_result base (held |` (- due safe a)) b own n 0 (fa_frames b) c r"
proof -
  obtain b where b: "drain_quarantine a safe = Some (b, card (due safe a))"
      "ledger base (held |` (- due safe a)) b" "fa_frames b = fa_frames a"
      "\<And>i. busy b i \<longleftrightarrow> busy a i \<and> i \<notin> due safe a"
    using drain_effect [OF assms(1), of safe] by blast
  let ?start = "fa_hint b" and ?to = "min (fa_hint b + n) (fa_frames b)"
  have h: "?start \<le> fa_frames b" using b(2) by (simp add: ledger_def pool_ok_def)
  have start: "min (fa_hint b) (fa_frames b) = ?start" using h by simp
  have to: "min (sat_add64 ?start n) (fa_frames b) = ?to"
    using h assms(4) b(3) by (simp add: sat_add64_def)
  have fits: "fa_frames b + n \<le> U64_MAX" using assms(4) b(3) by simp
  obtain c r where c: "take_run b ?start (fa_frames b) n own = Some (c, r)"
      "run_result base (held |` (- due safe a)) b own n ?start (fa_frames b) c r"
    using take_run_effect [OF b(2) assms(2,3) order_refl fits h] by blast
  show ?thesis
  proof (cases r)
    case (Some f)
    then have "alloc_contiguous a safe n own = Some (c, Inr f)"
      using c(1) b(1) assms(3) start by (simp add: alloc_contiguous_def Let_def)
    then show ?thesis
      using that [OF b(1,2,4,3), of c "Some f"] c(2) Some by (simp add: run_result_def)
  next
    case None
    then have cb: "c = b" using c(2) by (simp add: run_result_def)
    obtain d r' where d: "take_run b 0 ?to n own = Some (d, r')"
        "run_result base (held |` (- due safe a)) b own n 0 ?to d r'"
      using take_run_effect [OF b(2) assms(2,3) min.cobounded2 _ le0, of "fa_hint b + n"]
        le_trans [OF add_le_mono1 [OF min.cobounded2] fits] by blast
    have "alloc_contiguous a safe n own = Some (d, case r' of None \<Rightarrow> Inl OutOfMemory | Some f \<Rightarrow> Inr f)"
      using assms(3) b(1) c(1) None d(1) unfolding cb
      by (simp add: alloc_contiguous_def Let_def start to cb split: option.splits)
    moreover have "run_result base (held |` (- due safe a)) b own n 0 (fa_frames b) d r'"
    proof (cases r')
      case None
      have "\<exists>j. i \<le> j \<and> j < i + n \<and> busy b j" if "i + n \<le> fa_frames b" for i
      proof (cases "?start \<le> i")
        case True
        then show ?thesis using c(2) \<open>r = None\<close> that by (simp add: run_result_def)
      next
        case False
        then have "i + n \<le> ?to" using that by simp
        then show ?thesis using d(2) None by (simp add: run_result_def)
      qed
      then show ?thesis using d(2) None by (simp add: run_result_def)
    next
      case (Some f)
      then show ?thesis using d(2) by (simp add: run_result_def)
    qed
    ultimately show ?thesis using that [OF b(1,2,4,3)] by blast
  qed
qed

section \<open>Moving quarantined frames to another account\<close>

definition moving :: "frame_allocator \<Rightarrow> owner \<Rightarrow> nat set" where
  "moving a from = slot_index a ` {k. slot_used a k \<and> qu_owner (fa_quarantine a ! k) = from}"

definition moved_to :: "(nat \<rightharpoonup> owner) \<Rightarrow> nat set \<Rightarrow> owner \<Rightarrow> nat \<rightharpoonup> owner" where
  "moved_to held M to = (\<lambda>i. if i \<in> M then Some to else held i)"

lemma card_moving:
  assumes "ledger base held a"
  shows "quarantined_for a from = card (moving a from)"
proof -
  let ?K = "{k. slot_used a k \<and> qu_owner (fa_quarantine a ! k) = from}"
  have "inj_on (slot_index a) ?K"
    using assms by (auto simp: ledger_def quarantine_ok_def intro: inj_on_subset)
  then have "card (moving a from) = card ?K" by (simp add: moving_def card_image)
  also have "?K = {k. k < length (fa_quarantine a) \<and>
      (qu_used (fa_quarantine a ! k) \<and> qu_owner (fa_quarantine a ! k) = from)}"
    by (auto simp: slot_used_def)
  finally show ?thesis by (simp add: quarantined_for_def length_filter_conv_card)
qed

lemma held_in_moved:
  "held_in (moved_to held M to) s = (held_in held s - M) \<union> (if owner_slot to = s then M else {})"
  by (auto simp: held_in_def moved_to_def)

lemma reassign_effect:
  assumes "ledger base held a" and "owner_slot from < OWNER_SLOTS" and "owner_slot to < OWNER_SLOTS"
  shows "\<exists>b. reassign_quarantine a from to = Some (b, card (moving a from)) \<and>
     ledger base (moved_to held (moving a from) to) b \<and> fa_bitmap b = fa_bitmap a"
proof -
  let ?M = "moving a from" and ?f = "owner_slot from" and ?t = "owner_slot to"
  let ?h = "\<lambda>q. if qu_used q \<and> qu_owner q = from then q\<lparr>qu_owner := to\<rparr> else q"
  let ?c = "upd ?t (\<lambda>c. sat_add64 c (card ?M)) (upd ?f (\<lambda>c. c - card ?M) (fa_charged a))"
  let ?b = "a\<lparr>fa_quarantine := map ?h (fa_quarantine a), fa_charged := ?c\<rparr>"
  have ch: "charges_ok base held a" and q: "quarantine_ok held a" and p: "pool_ok a"
    using assms(1) by (simp_all add: ledger_def)
  have M: "held i = Some from" if "i \<in> ?M" for i
    using that q by (auto simp: moving_def quarantine_ok_def)
  then have sub: "?M \<subseteq> held_in held ?f" by (auto simp: held_in_def)
  have fin: "finite ?M" using finite_subset [OF sub held_in_finite [OF ch]] .
  have charged: "?c ! s = base ! s + card (held_in (moved_to held ?M to) s)" if s: "s < OWNER_SLOTS" for s
  proof -
    have cs: "fa_charged a ! s = base ! s + card (held_in held s)" "base ! s + fa_frames a \<le> U64_MAX"
      and len: "length (fa_charged a) = OWNER_SLOTS"
      using ch s by (simp_all add: charges_ok_def)
    have other: "s \<noteq> ?f \<Longrightarrow> held_in held s \<inter> ?M = {}" using sub by (auto simp: held_in_def)
    have all: "held_in held s \<union> ?M \<subseteq> {..<fa_frames a}"
      using ch M by (fastforce simp: charges_ok_def held_in_def)
    have small: "card (held_in held s \<union> ?M) \<le> fa_frames a"
      using card_mono [OF _ all] by simp
    show ?thesis
    proof (cases "?t = s")
      case True
      have u: "held_in (moved_to held ?M to) s = held_in held s \<union> ?M"
        using True by (auto simp: held_in_moved)
      show ?thesis
      proof (cases "?f = s")
        case True
        then have "held_in held s \<union> ?M = held_in held s" "card ?M \<le> card (held_in held s)"
          using sub card_mono [OF held_in_finite [OF ch] sub] by auto
        then show ?thesis
          using cs small True \<open>?t = s\<close> s len u by (simp add: nth_upd sat_add64_def)
      next
        case False
        then have "card (held_in held s \<union> ?M) = card (held_in held s) + card ?M"
          using other fin held_in_finite [OF ch] by (intro card_Un_disjoint) auto
        then show ?thesis
          using cs small False True s len u by (simp add: nth_upd sat_add64_def)
      qed
    next
      case False
      then have "held_in (moved_to held ?M to) s = held_in held s - ?M" by (simp add: held_in_moved)
      moreover have "card (held_in held s - ?M) = (if ?f = s then card (held_in held s) - card ?M else card (held_in held s))"
        using sub fin other by (auto simp: card_Diff_subset Diff_triv)
      moreover have "?f = s \<Longrightarrow> card ?M \<le> card (held_in held s)"
        using card_mono [OF held_in_finite [OF ch] sub] by simp
      ultimately show ?thesis using cs False s len by (simp add: nth_upd)
    qed
  qed
  have bits: "busy ?b = busy a" "free_set ?b = free_set a" "div64_ok ?b = div64_ok a"
    by (auto simp: busy_def free_set_def div64_ok_def fun_eq_iff)
  have "charges_ok base (moved_to held ?M to) ?b"
    using ch charged assms(3) M by (auto simp: charges_ok_def bits moved_to_def)
  moreover have "pool_ok ?b" using p by (simp add: pool_ok_def bits)
  moreover have "quarantine_ok (moved_to held ?M to) ?b"
  proof -
    have used: "slot_used ?b = slot_used a" and idx: "slot_used a k \<Longrightarrow> slot_index ?b k = slot_index a k" for k
      by (auto simp: slot_used_def slot_index_def fun_eq_iff split: if_splits)
    have inj: "inj_on (slot_index a) {k. slot_used a k}" using q by (simp add: quarantine_ok_def)
    have mem: "slot_index a k \<in> ?M \<longleftrightarrow> qu_owner (fa_quarantine a ! k) = from" if "slot_used a k" for k
      using that inj by (auto simp: moving_def dest: inj_onD)
    have "inj_on (slot_index ?b) {k. slot_used a k}"
      using inj inj_on_cong [of "{k. slot_used a k}" "slot_index ?b" "slot_index a"] idx by simp
    moreover have "qu_owner (fa_quarantine ?b ! k) =
        (if qu_owner (fa_quarantine a ! k) = from then to else qu_owner (fa_quarantine a ! k))"
      if "slot_used a k" for k
      using that by (auto simp: slot_used_def)
    ultimately show ?thesis
      using q unfolding quarantine_ok_def used
      by (auto simp: idx mem moved_to_def)
  qed
  moreover have "reassign_quarantine a from to = Some (?b, card ?M)"
    using ch assms card_moving [OF assms(1), of "from"] by (simp add: reassign_quarantine_def Let_def charges_ok_def)
  ultimately show ?thesis by (intro exI [of _ ?b]) (simp add: ledger_def)
qed

section \<open>Opening frames\<close>

text \<open>What \<open>reclaim\<close> and the construction do to a frame that is marked and that nobody holds.\<close>

definition opened :: "frame_allocator \<Rightarrow> nat \<Rightarrow> nat \<Rightarrow> frame_allocator" where
  "opened a i u = a\<lparr>fa_bitmap := unmark_bit i (fa_bitmap a), fa_free := fa_free a + 1, fa_usable := fa_usable a + u\<rparr>"

lemma opened_simps [simp]:
  "fa_frames (opened a i u) = fa_frames a" "fa_hint (opened a i u) = fa_hint a"
  "fa_free (opened a i u) = fa_free a + 1" "fa_usable (opened a i u) = fa_usable a + u"
  "fa_charged (opened a i u) = fa_charged a" "fa_quarantine (opened a i u) = fa_quarantine a"
  "fa_quarantined (opened a i u) = fa_quarantined a" "fa_pending (opened a i u) = fa_pending a"
  "fa_quarantine_peak (opened a i u) = fa_quarantine_peak a" "fa_ram (opened a i u) = fa_ram a"
  "slot_used (opened a i u) = slot_used a" "slot_index (opened a i u) = slot_index a"
  "div64_ok (opened a i u) = div64_ok a"
  by (simp_all add: opened_def slot_used_def slot_index_def fun_eq_iff div64_ok_def)

lemma busy_opened:
  "div64_ok a \<Longrightarrow> i < fa_frames a \<Longrightarrow> busy (opened a i u) j \<longleftrightarrow> j \<noteq> i \<and> busy a j"
  using in_bitmap [of a i] by (simp add: busy_def opened_def bit_unmark)

lemma ledger_opened:
  assumes "ledger base held a" and "i < fa_frames a" and "busy a i" and "held i = None"
  shows "ledger base held (opened a i u)"
proof -
  have ok: "div64_ok a" using assms(1) by (simp add: ledger_def pool_ok_def)
  have "free_set (opened a i u) = insert i (free_set a)" "i \<notin> free_set a"
    using assms(2,3) by (auto simp: free_set_def busy_opened [OF ok assms(2)])
  then have "pool_ok (opened a i u)" using assms(1) by (simp add: ledger_def pool_ok_def)
  moreover have "charges_ok base held (opened a i u)"
    using assms(1,4) by (auto simp: ledger_def charges_ok_def busy_opened [OF ok assms(2)])
  moreover have "quarantine_ok held (opened a i u)"
    using assms(1) by (simp add: ledger_def quarantine_ok_def)
  ultimately show ?thesis by (simp add: ledger_def)
qed

lemma reclaim_one_eq:
  "div64_ok a \<Longrightarrow> i < fa_frames a \<Longrightarrow>
   reclaim_one i (a, n) = Some (if busy a i then (opened a i 0, n + 1) else (a, n))"
  using in_bitmap [of a i] by (simp add: reclaim_one_def frame_test_busy frame_clear_unmark opened_def)

lemma free_one_eq:
  "div64_ok a \<Longrightarrow> i < fa_frames a \<Longrightarrow> free_one i a = Some (if busy a i then opened a i 1 else a)"
  using in_bitmap [of a i] by (simp add: free_one_def frame_test_busy frame_clear_unmark opened_def)

text \<open>A range \<open>[first, first + n)\<close> of frames opened, and what it was before.\<close>

definition range_opened :: "nat list \<Rightarrow> (nat \<rightharpoonup> owner) \<Rightarrow> frame_allocator \<Rightarrow> nat set \<Rightarrow> frame_allocator \<Rightarrow> bool" where
  "range_opened base held a S b \<longleftrightarrow>
     ledger base held b \<and> fa_frames b = fa_frames a \<and> fa_charged b = fa_charged a \<and>
     fa_quarantine b = fa_quarantine a \<and> fa_ram b = fa_ram a \<and> (\<forall>j. busy b j \<longleftrightarrow> busy a j \<and> j \<notin> S)"

lemma range_opened_step:
  assumes "range_opened base held a S b" and "i < fa_frames a" and "held i = None"
  shows "range_opened base held a (insert i S) (if busy b i then opened b i u else b)"
proof -
  have ok: "div64_ok b" "i < fa_frames b" and l: "ledger base held b"
    using assms by (auto simp: range_opened_def ledger_def pool_ok_def)
  show ?thesis
    using assms ledger_opened [OF l ok(2) _ assms(3)]
    by (auto simp: range_opened_def busy_opened [OF ok])
qed

lemma reclaim_fold:
  assumes "ledger base held a" and "\<forall>i \<in> set is. i < fa_frames a \<and> held i = None" and "distinct is"
  shows "\<exists>b. fold_opt reclaim_one is (a, n) = Some (b, n + card {i \<in> set is. busy a i}) \<and>
    range_opened base held a (set is) b"
  using assms(2,3)
proof (induction "is" rule: rev_induct)
  case Nil
  then show ?case using assms(1) by (simp add: range_opened_def)
next
  case (snoc i "is")
  then obtain b where b: "fold_opt reclaim_one is (a, n) = Some (b, n + card {i \<in> set is. busy a i})"
      "range_opened base held a (set is) b" by auto
  have i: "i < fa_frames a" "held i = None" "i \<notin> set is" using snoc.prems by auto
  have ok: "div64_ok b" "i < fa_frames b" and same: "busy b i = busy a i"
    using b(2) i by (auto simp: range_opened_def ledger_def pool_ok_def)
  have "{j \<in> set (is @ [i]). busy a j} = (if busy a i then insert i {j \<in> set is. busy a j} else {j \<in> set is. busy a j})"
    by auto
  then have "card {j \<in> set (is @ [i]). busy a j} = card {j \<in> set is. busy a j} + (if busy a i then 1 else 0)"
    using i(3) by simp
  then have "fold_opt reclaim_one (is @ [i]) (a, n) =
      Some (if busy b i then opened b i 0 else b, n + card {j \<in> set (is @ [i]). busy a j})"
    using b(1) reclaim_one_eq [OF ok] same by (simp add: fold_opt_append)
  then show ?case using range_opened_step [OF b(2) i(1,2), of 0] by (simp add: insert_commute)
qed

text \<open>A boot range: the frame indices a base address and a page count name below the limit.\<close>

definition frame_range :: "nat \<Rightarrow> nat \<Rightarrow> nat \<Rightarrow> nat set" where
  "frame_range limit base pages = {base div PAGE_SIZE..<min (base div PAGE_SIZE + pages) limit}"

lemma sat_range:
  "limit \<le> U64_MAX \<Longrightarrow> set [base div PAGE_SIZE..<min (sat_add64 (base div PAGE_SIZE) pages) limit] = frame_range limit base pages"
  by (auto simp: frame_range_def sat_add64_def min_def)

lemma frames_small: "div64_ok a \<Longrightarrow> fa_frames a \<le> U64_MAX"
  using le_trans [of "fa_frames a" "fa_frames a * PAGE_SIZE" U64_MAX] by (simp add: div64_ok_def PAGE_SIZE_def)

lemma reclaim_effect:
  assumes "ledger base held a" and "\<forall>i \<in> frame_range (fa_frames a) start pages. held i = None"
  shows "\<exists>b. reclaim a start pages = Some (b, card {i \<in> frame_range (fa_frames a) start pages. busy a i}) \<and>
    range_opened base held a (frame_range (fa_frames a) start pages) b"
proof -
  have ok: "div64_ok a" using assms(1) by (simp add: ledger_def pool_ok_def)
  let ?is = "[start div PAGE_SIZE..<min (sat_add64 (start div PAGE_SIZE) pages) (fa_frames a)]"
  have s: "set ?is = frame_range (fa_frames a) start pages" by (rule sat_range [OF frames_small [OF ok]])
  have free: "\<forall>i \<in> set ?is. i < fa_frames a \<and> held i = None"
    using assms(2) unfolding s by (auto simp: frame_range_def)
  obtain b where "fold_opt reclaim_one ?is (a, 0) = Some (b, 0 + card {i \<in> set ?is. busy a i})"
      "range_opened base held a (set ?is) b"
    using reclaim_fold [OF assms(1) free distinct_upt, of 0] by blast
  then show ?thesis unfolding s by (simp add: reclaim_def Let_def)
qed

section \<open>Construction\<close>

definition region_frames :: "nat \<Rightarrow> memory_region \<Rightarrow> nat set" where
  "region_frames limit r =
     (if mr_kind r = REGION_USABLE then frame_range limit (mr_base r) (mr_pages r) else {})"

lemma free_fold:
  assumes "range_opened base held a S b" and "\<forall>i \<in> set is. i < fa_frames a \<and> held i = None"
    and "fa_usable b = fa_free b"
  shows "\<exists>c. fold_opt free_one is b = Some c \<and> range_opened base held a (S \<union> set is) c \<and> fa_usable c = fa_free c"
  using assms
proof (induction "is" arbitrary: S b)
  case (Cons i "is")
  have ok: "div64_ok b" "i < fa_frames b"
    using Cons.prems by (auto simp: range_opened_def ledger_def pool_ok_def)
  let ?c = "if busy b i then opened b i 1 else b"
  have "range_opened base held a (insert i S) ?c"
    using Cons.prems(2) range_opened_step [OF Cons.prems(1)] by simp
  then show ?case
    using Cons.IH [of "insert i S" ?c] Cons.prems(2,3) by (simp add: free_one_eq [OF ok])
qed simp

lemma free_regions:
  assumes "range_opened base Map.empty a S b" and "fa_usable b = fa_free b"
  shows "\<exists>c. fold_opt free_region rs b = Some c \<and>
    range_opened base Map.empty a (S \<union> (\<Union>r \<in> set rs. region_frames (fa_frames a) r)) c \<and> fa_usable c = fa_free c"
  using assms
proof (induction rs arbitrary: S b)
  case (Cons r rs)
  have fr: "fa_frames b = fa_frames a" and ok: "div64_ok b"
    using Cons.prems by (auto simp: range_opened_def ledger_def pool_ok_def)
  let ?is = "[mr_base r div PAGE_SIZE..<min (sat_add64 (mr_base r div PAGE_SIZE) (mr_pages r)) (fa_frames b)]"
  have s: "set ?is = frame_range (fa_frames a) (mr_base r) (mr_pages r)"
    using sat_range [OF frames_small [OF ok]] unfolding fr .
  obtain c where "free_region r b = Some c" "range_opened base Map.empty a (S \<union> region_frames (fa_frames a) r) c"
      "fa_usable c = fa_free c"
  proof (cases "mr_kind r = REGION_USABLE")
    case True
    have "\<forall>i \<in> set ?is. i < fa_frames a \<and> Map.empty i = None"
      unfolding s by (auto simp: frame_range_def)
    from free_fold [OF Cons.prems(1) this Cons.prems(2)] that True show ?thesis
      unfolding s by (auto simp: free_region_def region_frames_def Let_def)
  next
    case False
    then show ?thesis using that Cons.prems by (simp add: free_region_def region_frames_def)
  qed
  then show ?case using Cons.IH [of "S \<union> region_frames (fa_frames a) r" c] by (simp add: Un_assoc)
qed simp

text \<open>The bitmap's own frames, taken back without a charge of their own.\<close>

definition closed_frame :: "frame_allocator \<Rightarrow> nat \<Rightarrow> frame_allocator" where
  "closed_frame a i = a\<lparr>fa_bitmap := mark_bit i (fa_bitmap a), fa_free := fa_free a - 1\<rparr>"

lemma ledger_closed:
  assumes "ledger base held a" and "i < fa_frames a" and "\<not> busy a i"
  shows "ledger base held (closed_frame a i)" and "busy (closed_frame a i) j \<longleftrightarrow> j = i \<or> busy a j"
proof -
  have ok: "div64_ok a" using assms(1) by (simp add: ledger_def pool_ok_def)
  have b: "busy (closed_frame a i) j \<longleftrightarrow> j = i \<or> busy a j" for j
    using in_bitmap [OF ok assms(2)] by (simp add: busy_def closed_frame_def bit_mark)
  then show "busy (closed_frame a i) j \<longleftrightarrow> j = i \<or> busy a j" .
  have f: "free_set (closed_frame a i) = free_set a - {i}" "i \<in> free_set a"
    using assms(2,3) b by (auto simp: free_set_def closed_frame_def)
  have d: "div64_ok (closed_frame a i) = div64_ok a" by (simp add: div64_ok_def closed_frame_def)
  have slots: "slot_used (closed_frame a i) = slot_used a" "slot_index (closed_frame a i) = slot_index a"
    by (simp_all add: slot_used_def slot_index_def closed_frame_def fun_eq_iff)
  have "pool_ok (closed_frame a i)"
    using assms(1) f d by (simp add: ledger_def pool_ok_def closed_frame_def)
  moreover have "charges_ok base held (closed_frame a i)"
    using assms(1) unfolding ledger_def charges_ok_def b by (simp add: closed_frame_def)
  moreover have "quarantine_ok held (closed_frame a i)"
    using assms(1) unfolding ledger_def quarantine_ok_def slots by (simp add: closed_frame_def)
  ultimately show "ledger base held (closed_frame a i)" by (simp add: ledger_def)
qed

lemma take_back_fold:
  assumes "ledger base held a" and "\<forall>i \<in> set is. i < fa_frames a"
  shows "\<exists>b. fold_opt take_back is a = Some b \<and> ledger base held b \<and> fa_frames b = fa_frames a \<and>
    fa_usable b = fa_usable a \<and> fa_ram b = fa_ram a \<and> fa_charged b = fa_charged a \<and>
    fa_quarantine b = fa_quarantine a \<and> (\<forall>j. busy b j \<longleftrightarrow> busy a j \<or> j \<in> set is)"
  using assms
proof (induction "is" arbitrary: a)
  case (Cons i "is")
  have ok: "div64_ok a" and i: "i < fa_frames a" using Cons.prems by (auto simp: ledger_def pool_ok_def)
  note bm = in_bitmap [OF ok i]
  show ?case
  proof (cases "busy a i")
    case True
    then have "take_back i a = Some a" by (simp add: take_back_def frame_test_busy [OF bm])
    then show ?thesis using Cons.IH [OF Cons.prems(1)] Cons.prems(2) True by fastforce
  next
    case False
    have "fa_free a \<noteq> 0"
      using Cons.prems(1) False i by (auto simp: ledger_def pool_ok_def free_set_def)
    then have "take_back i a = Some (closed_frame a i)"
      using False by (simp add: take_back_def frame_test_busy [OF bm] frame_set_mark [OF bm] closed_frame_def)
    moreover have "fa_frames (closed_frame a i) = fa_frames a" "fa_usable (closed_frame a i) = fa_usable a"
      "fa_ram (closed_frame a i) = fa_ram a" "fa_charged (closed_frame a i) = fa_charged a"
      "fa_quarantine (closed_frame a i) = fa_quarantine a"
      by (simp_all add: closed_frame_def)
    ultimately show ?thesis
      using Cons.IH [OF ledger_closed(1) [OF Cons.prems(1) i False]] Cons.prems(2)
        ledger_closed(2) [OF Cons.prems(1) i False] by fastforce
  qed
qed simp

lemma start_ledger:
  assumes "0 < limit" and "limit * PAGE_SIZE \<le> U64_MAX"
  shows "ledger (replicate OWNER_SLOTS 0) Map.empty (frame_allocator_start limit ram)"
    and "i < limit \<Longrightarrow> busy (frame_allocator_start limit ram) i"
proof -
  let ?a = "frame_allocator_start limit ram"
  have ok: "div64_ok ?a" using assms(2) by (simp add: div64_ok_def frame_allocator_start_def)
  have b: "busy ?a i" if "i < limit" for i
    using in_bitmap [OF ok, of i] that by (simp add: busy_def frame_allocator_start_def)
  then have "free_set ?a = {}" by (auto simp: free_set_def frame_allocator_start_def)
  moreover have "\<not> slot_used ?a k" for k
    by (auto simp: slot_used_def frame_allocator_start_def quarantined_empty_def)
  moreover have "limit \<le> U64_MAX" using frames_small [OF ok] by (simp add: frame_allocator_start_def)
  ultimately show "ledger (replicate OWNER_SLOTS 0) Map.empty ?a"
    using assms(1) ok
    by (simp add: ledger_defs frame_allocator_start_def [of limit] held_in_def)
  show "i < limit \<Longrightarrow> busy ?a i" by (rule b)
qed

definition bitmap_charge :: "nat \<Rightarrow> nat list" where
  "bitmap_charge limit = (replicate OWNER_SLOTS 0)[0 := bitmap_frames limit]"

text \<open>The region the constructor places the bitmap in, and the frames it takes there.\<close>

definition bitmap_home :: "memory_region list \<Rightarrow> nat \<Rightarrow> nat option" where
  "bitmap_home regions limit =
     position (\<lambda>r. mr_kind r = REGION_USABLE \<and> mr_pages r \<ge> bitmap_frames limit) regions"

definition bitmap_range :: "memory_region list \<Rightarrow> nat \<Rightarrow> nat \<Rightarrow> nat set" where
  "bitmap_range regions limit k =
     {mr_base (regions ! k) div PAGE_SIZE..<mr_base (regions ! k) div PAGE_SIZE + bitmap_frames limit}"

lemma ledger_charge:
  assumes "ledger (replicate OWNER_SLOTS 0) Map.empty a" and "n + fa_frames a \<le> U64_MAX"
  shows "ledger ((replicate OWNER_SLOTS 0)[0 := n]) Map.empty
    (a\<lparr>fa_charged := upd 0 (\<lambda>c. c + n) (fa_charged a)\<rparr>)"
proof -
  let ?b = "a\<lparr>fa_charged := upd 0 (\<lambda>c. c + n) (fa_charged a)\<rparr>"
  have same: "busy ?b = busy a" "free_set ?b = free_set a" "div64_ok ?b = div64_ok a"
      "slot_used ?b = slot_used a" "slot_index ?b = slot_index a"
    by (simp_all add: busy_def free_set_def div64_ok_def slot_used_def slot_index_def fun_eq_iff)
  show ?thesis
    using assms unfolding ledger_defs same
    by (auto simp: held_in_def nth_upd nth_list_update)
qed

lemma new_effect:
  assumes "bitmap_home regions limit = Some k" and "0 < limit" and "limit * PAGE_SIZE \<le> U64_MAX"
    and "mr_base (regions ! k) div PAGE_SIZE + bitmap_frames limit \<le> limit"
  shows "\<exists>a. frame_allocator_new regions limit ram = Some (Some a) \<and>
    ledger (bitmap_charge limit) Map.empty a \<and> fa_frames a = limit \<and> fa_ram a = ram \<and>
    fa_quarantine a = replicate QUARANTINE_SLOTS quarantined_empty \<and>
    free_set a = (\<Union>r \<in> set regions. region_frames limit r) - bitmap_range regions limit k \<and>
    fa_usable a = card (\<Union>r \<in> set regions. region_frames limit r)"
proof -
  let ?a = "frame_allocator_start limit ram" and ?U = "\<Union>r \<in> set regions. region_frames limit r"
  let ?base = "replicate OWNER_SLOTS 0"
  have fr: "fa_frames ?a = limit" "fa_ram ?a = ram" "fa_usable ?a = fa_free ?a"
    by (simp_all add: frame_allocator_start_def)
  have "range_opened ?base Map.empty ?a {} ?a"
    using start_ledger(1) [OF assms(2,3)] by (simp add: range_opened_def)
  from free_regions [OF this fr(3), of regions]
  obtain b where b: "fold_opt free_region regions ?a = Some b" "range_opened ?base Map.empty ?a ?U b"
      "fa_usable b = fa_free b"
    by (auto simp: fr)
  have lb: "ledger ?base Map.empty b" and fb: "fa_frames b = limit" "fa_ram b = ram"
    and bb: "\<And>j. busy b j \<longleftrightarrow> busy ?a j \<and> j \<notin> ?U"
    and qb: "fa_quarantine b = replicate QUARANTINE_SLOTS quarantined_empty"
    using b(2) by (auto simp: range_opened_def fr) (simp add: frame_allocator_start_def)
  have "?U \<subseteq> {..<limit}" by (auto simp: region_frames_def frame_range_def split: if_splits)
  then have freeb: "free_set b = ?U"
    using start_ledger(2) [OF assms(2,3), of _ ram] by (auto simp: free_set_def fb bb)
  have "\<forall>i \<in> set [mr_base (regions ! k) div PAGE_SIZE..<mr_base (regions ! k) div PAGE_SIZE + bitmap_frames limit].
      i < fa_frames b"
    using assms(4) by (auto simp: fb)
  from take_back_fold [OF lb this]
  obtain c where c: "fold_opt take_back [mr_base (regions ! k) div PAGE_SIZE..<mr_base (regions ! k) div PAGE_SIZE + bitmap_frames limit] b = Some c"
      "ledger ?base Map.empty c" "fa_frames c = limit" "fa_usable c = fa_usable b" "fa_ram c = ram"
      "fa_quarantine c = replicate QUARANTINE_SLOTS quarantined_empty"
      "\<And>j. busy c j \<longleftrightarrow> busy b j \<or> j \<in> bitmap_range regions limit k"
    by (auto simp: fb qb bitmap_range_def)
  let ?d = "c\<lparr>fa_charged := upd 0 (\<lambda>x. x + bitmap_frames limit) (fa_charged c)\<rparr>"
  have "frame_allocator_new regions limit ram = Some (Some ?d)"
    using assms(1) b(1) c(1) by (simp add: frame_allocator_new_def bitmap_home_def Let_def)
  moreover have "bitmap_frames limit + limit \<le> U64_MAX"
    using assms(3,4) by (simp add: PAGE_SIZE_def)
  then have "ledger (bitmap_charge limit) Map.empty ?d"
    using ledger_charge [OF c(2)] c(3) by (simp add: bitmap_charge_def)
  moreover have "free_set ?d = ?U - bitmap_range regions limit k"
    using freeb by (auto simp: free_set_def busy_def c(3) fb c(7) [unfolded busy_def])
  moreover have "fa_usable ?d = card ?U"
    using c(4) b(3) lb freeb by (simp add: ledger_def pool_ok_def)
  ultimately show ?thesis using c(3,5,6) by (intro exI [of _ ?d]) simp
qed

section \<open>Every sequence of operations\<close>

text \<open>
  One operation of the allocator, with the ledger its callers keep. The side conditions are what the
  callers are obliged to: a frame is retired or released by the owner that holds it and once, and
  memory that is reclaimed is held by nobody.
\<close>

inductive frame_step :: "frame_allocator \<times> (nat \<rightharpoonup> owner) \<Rightarrow> frame_allocator \<times> (nat \<rightharpoonup> owner) \<Rightarrow> bool" where
  step_alloc: "owner_slot own < OWNER_SLOTS \<Longrightarrow> alloc a safe own = Some (b, Inr f) \<Longrightarrow>
    frame_step (a, h) (b, (if fa_free a = 0 then h |` (- due safe a) else h)(frame_index f \<mapsto> own))"
| step_alloc_refused: "owner_slot own < OWNER_SLOTS \<Longrightarrow> alloc a safe own = Some (b, Inl e) \<Longrightarrow> frame_step (a, h) (b, h)"
| step_below: "owner_slot own < OWNER_SLOTS \<Longrightarrow> alloc_below a limit own = Some (b, Inr f) \<Longrightarrow>
    frame_step (a, h) (b, h(frame_index f \<mapsto> own))"
| step_run: "owner_slot own < OWNER_SLOTS \<Longrightarrow> fa_frames a + n \<le> U64_MAX \<Longrightarrow>
    alloc_contiguous a safe n own = Some (b, Inr f) \<Longrightarrow>
    frame_step (a, h) (b, with_run (h |` (- due safe a)) (frame_index f) n own)"
| step_retire: "h (frame_index f) = Some own \<Longrightarrow> \<not> in_quarantine a (frame_index f) \<Longrightarrow>
    frame_step (a, h) (retire_at a f own gen, h)"
| step_drain: "drain_quarantine a safe = Some (b, n) \<Longrightarrow> frame_step (a, h) (b, h |` (- due safe a))"
| step_release: "h (frame_index f) = Some own \<Longrightarrow> \<not> in_quarantine a (frame_index f) \<Longrightarrow>
    frame_release a f own = Some b \<Longrightarrow> frame_step (a, h) (b, h(frame_index f := None))"
| step_reassign: "owner_slot from < OWNER_SLOTS \<Longrightarrow> owner_slot to < OWNER_SLOTS \<Longrightarrow>
    reassign_quarantine a from to = Some (b, n) \<Longrightarrow> frame_step (a, h) (b, moved_to h (moving a from) to)"
| step_reclaim: "\<forall>i \<in> frame_range (fa_frames a) start pages. h i = None \<Longrightarrow>
    reclaim a start pages = Some (b, n) \<Longrightarrow> frame_step (a, h) (b, h)"

lemma restrict_due_empty: "h |` (- {}) = h"
  by (simp add: restrict_map_def)

lemma step_alloc_ledger:
  assumes "ledger base h a" and "owner_slot own < OWNER_SLOTS" and "alloc a safe own = Some (b, Inr f)"
  shows "got_frame base (if fa_free a = 0 then h |` (- due safe a) else h)
    (if fa_free a = 0 then fst (the (drain_quarantine a safe)) else a) own b f"
proof (cases "fa_free a = 0")
  case True
  obtain c where "drain_quarantine a safe = Some (c, card (due safe a))"
      "(\<exists>d g. alloc a safe own = Some (d, Inr g) \<and> got_frame base (h |` (- due safe a)) c own d g) \<or>
       (due safe a = {} \<and> alloc a safe own = Some (c, Inl OutOfMemory))"
    by (rule alloc_exhausted [OF assms(1,2) True, of safe]) blast
  then show ?thesis using assms(3) True by auto
next
  case False
  then show ?thesis using alloc_effect [OF assms(1,2), of safe] assms(3) by auto
qed

lemma alloc_refused:
  assumes "ledger base h a" and "owner_slot own < OWNER_SLOTS" and "alloc a safe own = Some (b, Inl e)"
  shows "fa_free a = 0 \<and> due safe a = {} \<and> ledger base h b \<and> free_set b = {}"
proof (cases "fa_free a = 0")
  case True
  obtain c where "ledger base (h |` (- due safe a)) c" "free_set c = due safe a"
      "(\<exists>d g. alloc a safe own = Some (d, Inr g) \<and> got_frame base (h |` (- due safe a)) c own d g) \<or>
       (due safe a = {} \<and> alloc a safe own = Some (c, Inl OutOfMemory))"
    by (rule alloc_exhausted [OF assms(1,2) True, of safe]) blast
  then show ?thesis using assms(3) True restrict_due_empty [of h] by auto
next
  case False
  then show ?thesis using alloc_effect [OF assms(1,2), of safe] assms(3) by auto
qed

lemma alloc_below_effect:
  assumes "ledger base h a" and "owner_slot own < OWNER_SLOTS"
  shows "\<exists>b r. alloc_below a limit own = Some (b, r) \<and>
    alloc_result base h a own {1..<min (limit div PAGE_SIZE) (fa_frames a)} b r"
  using scan_below_effect [OF assms, of "[1..<min (limit div PAGE_SIZE) (fa_frames a)]"]
  by (auto simp: alloc_below_def)

lemma contiguous_got:
  assumes "ledger base h a" and "owner_slot own < OWNER_SLOTS" and "fa_frames a + n \<le> U64_MAX"
    and "alloc_contiguous a safe n own = Some (b, Inr f)"
  shows "\<exists>c. drain_quarantine a safe = Some (c, card (due safe a)) \<and>
    (\<forall>j. busy c j \<longleftrightarrow> busy a j \<and> j \<notin> due safe a) \<and> fa_frames c = fa_frames a \<and>
    frame_index f + n \<le> fa_frames a \<and> f = frame_of (frame_index f) \<and>
    (\<forall>j. frame_index f \<le> j \<and> j < frame_index f + n \<longrightarrow> \<not> busy c j) \<and>
    got_run base (h |` (- due safe a)) c own (frame_index f) n b"
proof -
  have n: "0 < n" using assms(4) by (cases n) (auto simp: alloc_contiguous_def)
  obtain c d r where c: "drain_quarantine a safe = Some (c, card (due safe a))"
      "ledger base (h |` (- due safe a)) c" "\<And>i. busy c i \<longleftrightarrow> busy a i \<and> i \<notin> due safe a"
      "fa_frames c = fa_frames a"
      "alloc_contiguous a safe n own = Some (d, case r of None \<Rightarrow> Inl OutOfMemory | Some f \<Rightarrow> Inr f)"
      "run_result base (h |` (- due safe a)) c own n 0 (fa_frames c) d r"
    by (rule alloc_contiguous_effect [OF assms(1,2) n assms(3), of safe]) blast
  then have r: "r = Some f" "d = b" using assms(4) by (cases r; simp)+
  then obtain i where i: "f = frame_of i" "i + n \<le> fa_frames c"
      "\<forall>j. i \<le> j \<and> j < i + n \<longrightarrow> \<not> busy c j" "got_run base (h |` (- due safe a)) c own i n b"
    using c(6) by (auto simp: run_result_def)
  have "div64_ok c" using c(2) by (simp add: ledger_def pool_ok_def)
  then have "frame_index f = i" using frame_index_in [of c i] i(1,2) n by simp
  then show ?thesis using c i by (intro exI [of _ c]) simp
qed

lemma frame_step_ledger:
  assumes "frame_step s t" and "ledger base (snd s) (fst s)"
  shows "ledger base (snd t) (fst t)"
  using assms
proof (induction rule: frame_step.induct)
  case (step_alloc own a safe b f h)
  then show ?case
    using step_alloc_ledger [of base h a own safe b f]
    by (cases "fa_free a = 0") (simp_all add: got_frame_def fun_upd_def)
next
  case (step_alloc_refused own a safe b e h)
  then show ?case using alloc_refused [of base h a own safe b e] by simp
next
  case (step_below own a limit b f h)
  then show ?case using alloc_below_effect [of base h a own limit] by (auto simp: got_frame_def fun_upd_def)
next
  case (step_run own a n safe b f h)
  then show ?case using contiguous_got [of base h a own n safe b f] by (auto simp: got_run_def)
next
  case (step_retire h f own a gen)
  then show ?case using ledger_retire by simp
next
  case (step_drain a safe b n h)
  then show ?case using drain_effect [of base h a safe] by auto
next
  case (step_release h f own a b)
  then show ?case
    using frame_release_eq [of base h a f own] ledger_given [of base h a "frame_index f" own]
    by (auto simp: in_quarantine_def fun_upd_def)
next
  case (step_reassign "from" to a b n h)
  then show ?case using reassign_effect [of base h a "from" to] by auto
next
  case (step_reclaim a start pages h b n)
  then show ?case using reclaim_effect [of base h a start pages] by (auto simp: range_opened_def)
qed

lemma frame_steps_ledger:
  "frame_step\<^sup>*\<^sup>* s t \<Longrightarrow> ledger base (snd s) (fst s) \<Longrightarrow> ledger base (snd t) (fst t)"
  by (induction rule: rtranclp_induct) (auto intro: frame_step_ledger)

section \<open>Properties\<close>

text \<open>A memory map of eight usable frames, the allocator built from it, and a frame taken from it.\<close>

definition small_map :: "memory_region list" where
  "small_map = [\<lparr>mr_base = 0, mr_pages = 8, mr_kind = 1, mr_flags = 0\<rparr>]"

lemma small_bitmap: "bitmap_frames 8 = 1"
  by (simp add: bitmap_frames_def div_ceil_def PAGE_SIZE_def)

lemma small_home: "bitmap_home small_map 8 = Some 0" "mr_base (small_map ! 0) div PAGE_SIZE + bitmap_frames 8 \<le> 8"
    "8 * PAGE_SIZE \<le> U64_MAX"
  by (simp_all add: bitmap_home_def small_map_def REGION_USABLE_def small_bitmap PAGE_SIZE_def U64_MAX_def)

lemma small_frames:
  "(\<Union>r \<in> set small_map. region_frames 8 r) - bitmap_range small_map 8 0 = {1..<8}"
  by (auto simp: small_map_def region_frames_def REGION_USABLE_def frame_range_def bitmap_range_def small_bitmap)

lemma small_pool:
  obtains a where "frame_allocator_new small_map 8 (\<lambda>_. 7) = Some (Some a)"
    "ledger (bitmap_charge 8) Map.empty a" "fa_free a = 7" "fa_frames a = 8"
    "fa_ram a = (\<lambda>_. 7)" "fa_quarantine a = replicate QUARANTINE_SLOTS quarantined_empty"
proof -
  obtain a where a: "frame_allocator_new small_map 8 (\<lambda>_. 7) = Some (Some a)"
      "ledger (bitmap_charge 8) Map.empty a" "free_set a = {1..<8}" "fa_frames a = 8"
      "fa_ram a = (\<lambda>_. 7)" "fa_quarantine a = replicate QUARANTINE_SLOTS quarantined_empty"
    using new_effect [OF small_home(1) _ small_home(3,2), of "\<lambda>_. 7"] unfolding small_frames by auto
  then have "fa_free a = 7" by (simp add: ledger_def pool_ok_def)
  then show ?thesis using that a by blast
qed

lemma own_ok: "owner_slot OwnKernel < OWNER_SLOTS" "owner_slot (OwnScope 3) < OWNER_SLOTS"
  by (simp_all add: OWNER_SLOTS_def MAX_DOMAINS_def MAX_SCOPES_def)

text \<open>
  C9. Frames are conserved. Build the allocator from a memory map, then run any sequence of
  allocations, contiguous allocations, retirements, drains, releases, reassignments and reclaims:
  the free count is the number of clear bits, every frame somebody holds is marked and in range, and
  what each owner slot is charged is what it was charged at construction plus the number of frames
  held in its name, so a teardown that returns every frame it holds returns exactly its charge.
\<close>

theorem frames_conserved:
  assumes "bitmap_home regions limit = Some k" and "0 < limit" and "limit * PAGE_SIZE \<le> U64_MAX"
    and "mr_base (regions ! k) div PAGE_SIZE + bitmap_frames limit \<le> limit"
    and "frame_allocator_new regions limit ram = Some (Some a0)"
    and "frame_step\<^sup>*\<^sup>* (a0, Map.empty) (a, held)"
  shows "fa_free a = card {i. i < fa_frames a \<and> frame_test a i = Some False} \<and>
    (\<forall>i own. held i = Some own \<longrightarrow> i < fa_frames a \<and> frame_test a i = Some True) \<and>
    (\<forall>own. owner_slot own < OWNER_SLOTS \<longrightarrow>
       charged_to a own = Some ((if owner_slot own = 0 then bitmap_frames limit else 0) +
         card {i. map_option owner_slot (held i) = Some (owner_slot own)}))"
proof -
  have "ledger (bitmap_charge limit) Map.empty a0"
    using new_effect [OF assms(1-4), of ram] assms(5) by auto
  from frame_steps_ledger [OF assms(6), of "bitmap_charge limit"] this
  have l: "ledger (bitmap_charge limit) held a" by simp
  then have ok: "div64_ok a" by (simp add: ledger_def pool_ok_def)
  have test: "i < fa_frames a \<Longrightarrow> frame_test a i = Some (busy a i)" for i
    by (rule frame_test_busy [OF in_bitmap [OF ok]])
  have "{i. i < fa_frames a \<and> frame_test a i = Some False} = free_set a"
    by (auto simp: free_set_def test)
  moreover have "charged_to a own = Some ((if owner_slot own = 0 then bitmap_frames limit else 0) +
         card (held_in held (owner_slot own)))" if "owner_slot own < OWNER_SLOTS" for own
    using l that by (auto simp: charged_to_def ledger_def charges_ok_def bitmap_charge_def nth_list_update)
  ultimately show ?thesis
    using l ledger_held [OF l] test by (simp add: ledger_def pool_ok_def held_in_def)
qed

theorem frames_conserved_witness:
  "\<exists>a0 a held. frame_allocator_new small_map 8 (\<lambda>_. 7) = Some (Some a0) \<and>
     frame_step\<^sup>*\<^sup>* (a0, Map.empty) (a, held) \<and> held \<noteq> Map.empty \<and>
     fa_free a = card {i. i < fa_frames a \<and> frame_test a i = Some False}"
proof -
  obtain a0 where a0: "frame_allocator_new small_map 8 (\<lambda>_. 7) = Some (Some a0)"
      "ledger (bitmap_charge 8) Map.empty a0" "fa_free a0 = 7"
    by (rule small_pool)
  obtain a f where a: "alloc a0 0 (OwnScope 3) = Some (a, Inr f)"
    using alloc_effect [OF a0(2) own_ok(2), of 0] a0(3) by auto
  let ?held = "[frame_index f \<mapsto> OwnScope 3] :: nat \<rightharpoonup> owner"
  have steps: "frame_step\<^sup>*\<^sup>* (a0, Map.empty) (a, ?held)"
    using step_alloc [OF own_ok(2) a, of Map.empty] a0(3) by (intro r_into_rtranclp) simp
  from frames_conserved [OF small_home(1) _ small_home(3,2) a0(1) steps] a0(1) steps
  show ?thesis by (intro exI [of _ a0] exI [of _ a] exI [of _ ?held]) auto
qed

text \<open>
  C11. Draining the quarantine never panics and gives back exactly the frames whose generation every
  processor has flushed past: their bits are cleared, the rest of the bitmap and every frame still
  waiting stay as they were, and the count returned is the number of frames that came back.
\<close>

theorem drain_exact:
  assumes "ledger base held a"
  shows "\<exists>b. drain_quarantine a safe = Some (b, card (due safe a)) \<and>
     ledger base (held |` (- due safe a)) b \<and>
     (\<forall>i. busy b i \<longleftrightarrow> busy a i \<and> i \<notin> due safe a) \<and>
     (\<forall>k. slot_used b k \<longleftrightarrow> slot_used a k \<and> qu_generation (fa_quarantine a ! k) > safe) \<and>
     (\<forall>k. slot_used b k \<longrightarrow> fa_quarantine b ! k = fa_quarantine a ! k)"
  using drain_effect [OF assms, of safe] by blast

theorem drain_exact_witness:
  "\<exists>a b f. frame_allocator_new small_map 8 (\<lambda>_. 7) = Some (Some a) \<and> alloc a 0 OwnKernel = Some (b, Inr f) \<and>
    (\<exists>c. drain_quarantine (retire_at b f OwnKernel 4) 4 = Some (c, card (due 4 (retire_at b f OwnKernel 4))) \<and>
      \<not> busy c (frame_index f) \<and> busy b (frame_index f))"
proof -
  obtain a where a: "frame_allocator_new small_map 8 (\<lambda>_. 7) = Some (Some a)"
      "ledger (bitmap_charge 8) Map.empty a" "fa_free a = 7"
      "fa_quarantine a = replicate QUARANTINE_SLOTS quarantined_empty"
    by (rule small_pool)
  obtain b f where b: "alloc a 0 OwnKernel = Some (b, Inr f)"
      and g: "got_frame (bitmap_charge 8) Map.empty a OwnKernel b f"
    using alloc_effect [OF a(2) own_ok(1), of 0] a(3) by auto
  let ?held = "[frame_index f \<mapsto> OwnKernel] :: nat \<rightharpoonup> owner" and ?r = "retire_at b f OwnKernel 4"
  have lb: "ledger (bitmap_charge 8) ?held b" and busy: "busy b (frame_index f)"
    and qb: "fa_quarantine b = replicate (Suc 1023) quarantined_empty"
    using g a(4) by (simp_all add: got_frame_def QUARANTINE_SLOTS_def)
  have pos: "position (\<lambda>q. \<not> qu_used q) (fa_quarantine b) = Some 0"
    unfolding qb replicate_Suc by (simp add: quarantined_empty_def)
  have "\<not> slot_used b k" for k
    unfolding slot_used_def qb by (auto simp: quarantined_empty_def nth_Cons split: nat.splits)
  then have "ledger (bitmap_charge 8) ?held ?r"
    by (intro ledger_retire [OF lb]) (auto simp: in_quarantine_def)
  from drain_exact [OF this, of 4]
  obtain c where c: "drain_quarantine ?r 4 = Some (c, card (due 4 ?r))"
      "\<And>i. busy c i \<longleftrightarrow> busy ?r i \<and> i \<notin> due 4 ?r" by blast
  have "frame_index f \<in> due 4 ?r"
    using retire_slot(1,2,5) [OF pos, of f OwnKernel 4 0] slot_used_len [of ?r 0]
    unfolding due_def due_upto_def by (intro image_eqI [of _ _ 0]) auto
  then show ?thesis using a(1) b busy c by blast
qed

text \<open>
  C10. An allocation always returns. It hands out a frame that was free or has just come out of the
  quarantine, that nobody holds, marked, charged to the caller and zeroed from end to end; and it
  reports out of memory exactly when no frame is free and no quarantined frame is due.
\<close>

theorem alloc_fresh_zeroed:
  assumes "ledger base held a" and "owner_slot own < OWNER_SLOTS"
  shows "alloc a safe own \<noteq> None \<and>
    ((\<exists>b e. alloc a safe own = Some (b, Inl e)) \<longleftrightarrow> fa_free a = 0 \<and> due safe a = {}) \<and>
    (\<forall>b f. alloc a safe own = Some (b, Inr f) \<longrightarrow>
       (\<exists>i < fa_frames a. f = frame_of i \<and> (\<not> busy a i \<or> i \<in> due safe a) \<and>
          ledger base ((if fa_free a = 0 then held |` (- due safe a) else held)(i \<mapsto> own)) b \<and>
          (\<forall>x. i * PAGE_SIZE \<le> unat x \<and> unat x < (i + 1) * PAGE_SIZE \<longrightarrow> fa_ram b x = 0)))"
proof -
  have some: "\<exists>b r. alloc a safe own = Some (b, r)"
  proof (cases "fa_free a = 0")
    case True
    show ?thesis by (rule alloc_exhausted [OF assms True, of safe]) blast
  next
    case False
    then show ?thesis using alloc_effect [OF assms, of safe] by auto
  qed
  have fresh: "\<exists>i < fa_frames a. f = frame_of i \<and> (\<not> busy a i \<or> i \<in> due safe a) \<and>
          ledger base ((if fa_free a = 0 then held |` (- due safe a) else held)(i \<mapsto> own)) b \<and>
          (\<forall>x. i * PAGE_SIZE \<le> unat x \<and> unat x < (i + 1) * PAGE_SIZE \<longrightarrow> fa_ram b x = 0)"
    if got: "alloc a safe own = Some (b, Inr f)" for b f
  proof -
    let ?c = "if fa_free a = 0 then fst (the (drain_quarantine a safe)) else a"
    have ok: "div64_ok a" using assms(1) by (simp add: ledger_def pool_ok_def)
    obtain d where d: "drain_quarantine a safe = Some (d, card (due safe a))" "fa_frames d = fa_frames a"
        "\<And>i. busy d i \<longleftrightarrow> busy a i \<and> i \<notin> due safe a"
      using drain_effect [OF assms(1), of safe] by blast
    note g = step_alloc_ledger [OF assms got, unfolded got_frame_def]
    have i: "frame_index f < fa_frames a" "\<not> busy a (frame_index f) \<or> frame_index f \<in> due safe a"
      using g d by (auto split: if_splits)
    have "unat (frame_addr f) = frame_index f * PAGE_SIZE"
      using g unat_frame_of [OF addr_in [OF ok less_imp_le [OF i(1)]]] by metis
    then have "\<forall>x. frame_index f * PAGE_SIZE \<le> unat x \<and> unat x < (frame_index f + 1) * PAGE_SIZE \<longrightarrow> fa_ram b x = 0"
      using g by (simp add: zero_frame_def)
    then show ?thesis using g i by blast
  qed
  have "(\<exists>b e. alloc a safe own = Some (b, Inl e)) \<longleftrightarrow> fa_free a = 0 \<and> due safe a = {}"
  proof
    assume "\<exists>b e. alloc a safe own = Some (b, Inl e)"
    then show "fa_free a = 0 \<and> due safe a = {}" using alloc_refused [OF assms, of safe] by blast
  next
    assume none: "fa_free a = 0 \<and> due safe a = {}"
    then have "free_set a = {}" using assms(1) by (simp add: ledger_def pool_ok_def)
    then have "i < fa_frames a \<Longrightarrow> busy a i \<and> i \<notin> due safe a" for i using none by (auto simp: free_set_def)
    moreover obtain b r where br: "alloc a safe own = Some (b, r)" using some by blast
    ultimately have "r \<noteq> Inr f" for f using fresh [of b f] by auto
    then show "\<exists>b e. alloc a safe own = Some (b, Inl e)" using br by (cases r) auto
  qed
  then show ?thesis using some fresh by auto
qed

theorem alloc_fresh_zeroed_witness:
  "\<exists>a b f i. frame_allocator_new small_map 8 (\<lambda>_. 7) = Some (Some a) \<and>
     alloc a 0 (OwnScope 3) = Some (b, Inr f) \<and> i < 8 \<and> f = frame_of i \<and>
     fa_ram a (of_nat (i * PAGE_SIZE)) = 7 \<and> fa_ram b (of_nat (i * PAGE_SIZE)) = 0"
proof -
  obtain a where a: "frame_allocator_new small_map 8 (\<lambda>_. 7) = Some (Some a)"
      "ledger (bitmap_charge 8) Map.empty a" "fa_free a = 7" "fa_frames a = 8" "fa_ram a = (\<lambda>_. 7)"
    by (rule small_pool)
  note t = alloc_fresh_zeroed [OF a(2) own_ok(2), of 0]
  then obtain b r where br: "alloc a 0 (OwnScope 3) = Some (b, r)" by auto
  then obtain f where f: "r = Inr f" using t a(3) by (cases r) auto
  with t br obtain i where i: "i < 8" "f = frame_of i"
      "\<forall>x. i * PAGE_SIZE \<le> unat x \<and> unat x < (i + 1) * PAGE_SIZE \<longrightarrow> fa_ram b x = 0"
    using a(4) by metis
  have "unat (of_nat (i * PAGE_SIZE) :: u64) = i * PAGE_SIZE"
    using i(1) by (intro unat_of_nat_u64) (simp add: PAGE_SIZE_def U64_MAX_def)
  then have "fa_ram b (of_nat (i * PAGE_SIZE)) = 0" using i(3) by (simp add: PAGE_SIZE_def)
  then show ?thesis using a(1,5) br f i(1,2) by auto
qed

text \<open>
  A contiguous allocation always returns, for a count the address space can hold. It hands out a
  run of free frames, zeroed and charged frame by frame; and it is refused exactly when the pool,
  after the quarantine has given back what is due, has no run of that length anywhere: the search
  that starts at the hint and comes back round misses none.
\<close>

theorem contiguous_complete:
  assumes "ledger base held a" and "owner_slot own < OWNER_SLOTS" and "0 < n" and "fa_frames a + n \<le> U64_MAX"
  shows "((\<exists>b. alloc_contiguous a safe n own = Some (b, Inl OutOfMemory)) \<longleftrightarrow>
      (\<nexists>i. i + n \<le> fa_frames a \<and> (\<forall>j. i \<le> j \<and> j < i + n \<longrightarrow> \<not> busy a j \<or> j \<in> due safe a))) \<and>
    ((\<exists>b f. alloc_contiguous a safe n own = Some (b, Inr f)) \<longleftrightarrow>
      (\<exists>i. i + n \<le> fa_frames a \<and> (\<forall>j. i \<le> j \<and> j < i + n \<longrightarrow> \<not> busy a j \<or> j \<in> due safe a))) \<and>
    (\<forall>b f. alloc_contiguous a safe n own = Some (b, Inr f) \<longrightarrow>
      (\<exists>i. i + n \<le> fa_frames a \<and> f = frame_of i \<and>
         (\<forall>j. i \<le> j \<and> j < i + n \<longrightarrow> \<not> busy a j \<or> j \<in> due safe a) \<and>
         ledger base (with_run (held |` (- due safe a)) i n own) b \<and>
         (\<forall>x. i * PAGE_SIZE \<le> unat x \<and> unat x < (i + n) * PAGE_SIZE \<longrightarrow> fa_ram b x = 0)))"
proof -
  obtain c d r where c: "\<And>i. busy c i \<longleftrightarrow> busy a i \<and> i \<notin> due safe a" "fa_frames c = fa_frames a"
      "alloc_contiguous a safe n own = Some (d, case r of None \<Rightarrow> Inl OutOfMemory | Some f \<Rightarrow> Inr f)"
      "run_result base (held |` (- due safe a)) c own n 0 (fa_frames c) d r"
    by (rule alloc_contiguous_effect [OF assms, of safe]) blast
  show ?thesis
  proof (cases r)
    case None
    then have "\<nexists>i. i + n \<le> fa_frames a \<and> (\<forall>j. i \<le> j \<and> j < i + n \<longrightarrow> \<not> busy a j \<or> j \<in> due safe a)"
      using c(1,2,4) by (force simp: run_result_def)
    then show ?thesis using c(3) None by auto
  next
    case (Some f)
    then obtain i where i: "f = frame_of i" "i + n \<le> fa_frames a"
        "\<forall>j. i \<le> j \<and> j < i + n \<longrightarrow> \<not> busy a j \<or> j \<in> due safe a"
        "got_run base (held |` (- due safe a)) c own i n d"
      using c(1,2,4) by (auto simp: run_result_def)
    then show ?thesis
      using c(3) Some by (auto simp: got_run_def intro!: exI [of _ i])
  qed
qed

theorem contiguous_complete_witness:
  "\<exists>a b f. frame_allocator_new small_map 8 (\<lambda>_. 7) = Some (Some a) \<and>
     alloc_contiguous a 0 3 (OwnScope 3) = Some (b, Inr f)"
proof -
  obtain a where a: "frame_allocator_new small_map 8 (\<lambda>_. 7) = Some (Some a)"
      "ledger (bitmap_charge 8) Map.empty a" "fa_frames a = 8" "free_set a = {1..<8}"
    using small_frames new_effect [OF small_home(1) _ small_home(3,2), of "\<lambda>_. 7"] by auto
  have "\<not> busy a j" if "1 \<le> j" "j < 1 + 3" for j
  proof -
    have "j \<in> free_set a" using a(4) that by simp
    then show ?thesis by (simp add: free_set_def)
  qed
  then show ?thesis
    using a contiguous_complete [OF a(2) own_ok(2), of 3 0] by (auto simp: U64_MAX_def intro!: exI [of _ 1])
qed

text \<open>
  The allocator built from the loader's map tracks every frame below the limit and starts with
  exactly the usable frames free, less the frames of its own bitmap, which are charged to the kernel;
  without a usable region that can hold the bitmap there is no allocator.
\<close>

theorem construction_exact:
  assumes "0 < limit" and "limit * PAGE_SIZE \<le> U64_MAX"
    and "\<And>k. bitmap_home regions limit = Some k \<Longrightarrow> mr_base (regions ! k) div PAGE_SIZE + bitmap_frames limit \<le> limit"
  shows "(frame_allocator_new regions limit ram = Some None \<longleftrightarrow>
      (\<nexists>r. r \<in> set regions \<and> mr_kind r = REGION_USABLE \<and> mr_pages r \<ge> bitmap_frames limit)) \<and>
    (\<forall>k. bitmap_home regions limit = Some k \<longrightarrow>
      (\<exists>a. frame_allocator_new regions limit ram = Some (Some a) \<and>
        {i. i < limit \<and> frame_test a i = Some False} =
          (\<Union>r \<in> set regions. region_frames limit r) - bitmap_range regions limit k \<and>
        charged_to a OwnKernel = Some (bitmap_frames limit) \<and>
        fa_usable a = card (\<Union>r \<in> set regions. region_frames limit r)))"
proof (cases "bitmap_home regions limit")
  case None
  then have "frame_allocator_new regions limit ram = Some None"
    by (simp add: frame_allocator_new_def bitmap_home_def)
  moreover have "\<nexists>r. r \<in> set regions \<and> mr_kind r = REGION_USABLE \<and> mr_pages r \<ge> bitmap_frames limit"
    using None by (auto simp: bitmap_home_def position_None_iff)
  ultimately show ?thesis using None by simp
next
  case (Some k)
  obtain a where a: "frame_allocator_new regions limit ram = Some (Some a)"
      "ledger (bitmap_charge limit) Map.empty a" "fa_frames a = limit"
      "free_set a = (\<Union>r \<in> set regions. region_frames limit r) - bitmap_range regions limit k"
      "fa_usable a = card (\<Union>r \<in> set regions. region_frames limit r)"
    using new_effect [OF Some assms(1,2) assms(3) [OF Some], of ram] by blast
  have ok: "div64_ok a" using a(2) by (simp add: ledger_def pool_ok_def)
  have "{i. i < limit \<and> frame_test a i = Some False} = free_set a"
    using frame_test_busy [OF in_bitmap [OF ok]] a(3) by (auto simp: free_set_def)
  moreover have "charged_to a OwnKernel = Some (bitmap_frames limit)"
    using a(2) by (simp add: charged_to_def ledger_def charges_ok_def bitmap_charge_def held_in_def OWNER_SLOTS_def)
  moreover have "\<exists>r \<in> set regions. mr_kind r = REGION_USABLE \<and> mr_pages r \<ge> bitmap_frames limit"
    using Some by (auto simp: bitmap_home_def position_Some_iff)
  ultimately show ?thesis using a Some by auto
qed

theorem construction_exact_witness:
  "\<exists>a. frame_allocator_new small_map 8 (\<lambda>_. 7) = Some (Some a) \<and>
     {i. i < 8 \<and> frame_test a i = Some False} = {1..<8} \<and> charged_to a OwnKernel = Some 1 \<and> fa_usable a = 8"
proof -
  have u: "(\<Union>r \<in> set small_map. region_frames 8 r) = {0..<8}"
    by (auto simp: small_map_def region_frames_def REGION_USABLE_def frame_range_def)
  show ?thesis
    using construction_exact [of 8 small_map "\<lambda>_. 7"] small_home small_frames
    by (simp add: u small_bitmap)
qed

end
