(* ===== verification/Frame_Reuse.thy ===== *)
theory Frame_Reuse
  imports Frame_Pool Tlb
begin

text \<open>
  The frame allocator and the invalidation module together, for callers that clear every entry to a frame
  before they take the stamp it is retired with: processors cache translations, refresh
  in their own time, and frames come back through the quarantine. The steps are the atomic actions of
  the code, interleaved freely: \<open>refresh_local\<close> is its two loads, its flush and its store, and a
  kernel-half retirement steps the two counters one after the other. What the processors cache and
  what the page tables map is the ghost part of the state; a translation names a frame and the half
  of the address space it was in (\<open>True\<close> the kernel half, whose entries survive a \<open>CR3\<close> reload).
\<close>

datatype phase = Idle | Loaded nat | KLoaded nat nat | Flushed nat nat

record reuse =
  ru_tlb :: tlb
  ru_pool :: frame_allocator
  ru_held :: "nat \<rightharpoonup> owner"
  ru_mapped :: "(nat \<times> bool) set"
  ru_cache :: "nat \<Rightarrow> (nat \<times> bool) set"
  ru_global :: "nat set"
  ru_kstamp :: "nat \<rightharpoonup> nat"
  ru_phase :: "nat \<Rightarrow> phase"

definition flush_cache :: "bool \<Rightarrow> (nat \<times> bool) set \<Rightarrow> (nat \<times> bool) set" where
  "flush_cache all S = (if all then {} else {x \<in> S. snd x})"

definition seen_kernel_of :: "tlb \<Rightarrow> nat \<Rightarrow> nat" where
  "seen_kernel_of t c = pr_seen_kernel (tl_processors t ! c)"

definition store_seen :: "nat \<Rightarrow> nat \<Rightarrow> nat \<Rightarrow> tlb \<Rightarrow> tlb" where
  "store_seen c w wk t = t\<lparr>tl_flushes := wrap_add64 (tl_flushes t) 1,
     tl_processors := upd c (\<lambda>p. p\<lparr>pr_seen_kernel := wk, pr_seen := w\<rparr>) (tl_processors t)\<rparr>"

inductive reuse_step :: "reuse \<Rightarrow> reuse \<Rightarrow> bool" where
  \<comment> \<open>the page tables and the translations processors cache from them\<close>
  map_frame: "f \<in> dom (ru_held s) \<Longrightarrow> \<not> in_quarantine (ru_pool s) f \<Longrightarrow> ru_kstamp s f = None \<Longrightarrow>
    reuse_step s (s\<lparr>ru_mapped := insert (f, h) (ru_mapped s),
                    ru_global := (if h then insert f (ru_global s) else ru_global s)\<rparr>)"
| unmap_frame: "reuse_step s (s\<lparr>ru_mapped := ru_mapped s - {x}\<rparr>)"
| fill: "online (ru_tlb s) c \<Longrightarrow> x \<in> ru_mapped s \<Longrightarrow>
    reuse_step s (s\<lparr>ru_cache := (ru_cache s)(c := insert x (ru_cache s c))\<rparr>)"
  \<comment> \<open>\<open>refresh_local\<close>, access by access\<close>
| load: "online (ru_tlb s) c \<Longrightarrow> ru_phase s c = Idle \<Longrightarrow> seen_of (ru_tlb s) c < tl_generation (ru_tlb s) \<Longrightarrow>
    reuse_step s (s\<lparr>ru_phase := (ru_phase s)(c := Loaded (tl_generation (ru_tlb s)))\<rparr>)"
| load_kernel: "ru_phase s c = Loaded w \<Longrightarrow>
    reuse_step s (s\<lparr>ru_phase := (ru_phase s)(c := KLoaded w (tl_kernel_generation (ru_tlb s)))\<rparr>)"
| flush: "ru_phase s c = KLoaded w wk \<Longrightarrow>
    reuse_step s (s\<lparr>ru_phase := (ru_phase s)(c := Flushed w wk),
      ru_cache := (ru_cache s)(c := flush_cache (seen_kernel_of (ru_tlb s) c < wk) (ru_cache s c))\<rparr>)"
| store: "ru_phase s c = Flushed w wk \<Longrightarrow>
    reuse_step s (s\<lparr>ru_phase := (ru_phase s)(c := Idle), ru_tlb := store_seen c w wk (ru_tlb s)\<rparr>)"
  \<comment> \<open>retirement: the entries are gone, then the stamp is taken\<close>
| retire_user: "ru_held s (frame_index f) = Some own \<Longrightarrow> \<not> in_quarantine (ru_pool s) (frame_index f) \<Longrightarrow>
    (frame_index f, False) \<notin> ru_mapped s \<Longrightarrow> frame_index f \<notin> ru_global s \<Longrightarrow>
    retire_stamp (ru_tlb s) = Some (t, g) \<Longrightarrow>
    reuse_step s (s\<lparr>ru_tlb := t, ru_pool := retire_at (ru_pool s) f own g\<rparr>)"
| bump_kernel: "f \<in> dom (ru_held s) \<Longrightarrow> \<not> in_quarantine (ru_pool s) f \<Longrightarrow>
    (f, True) \<notin> ru_mapped s \<Longrightarrow> (f, False) \<notin> ru_mapped s \<Longrightarrow> tl_kernel_generation (ru_tlb s) < U64_MAX \<Longrightarrow>
    reuse_step s (s\<lparr>ru_tlb := (ru_tlb s)\<lparr>tl_kernel_generation := wrap_add64 (tl_kernel_generation (ru_tlb s)) 1\<rparr>,
      ru_kstamp := (ru_kstamp s)(f \<mapsto> tl_kernel_generation (ru_tlb s) + 1)\<rparr>)"
| retire_kernel: "ru_held s (frame_index f) = Some own \<Longrightarrow> \<not> in_quarantine (ru_pool s) (frame_index f) \<Longrightarrow>
    ru_kstamp s (frame_index f) \<noteq> None \<Longrightarrow> bump_generation (ru_tlb s) = Some (t, g) \<Longrightarrow>
    reuse_step s (s\<lparr>ru_tlb := t, ru_pool := retire_at (ru_pool s) f own g\<rparr>)"
| publish_step: "publish (ru_tlb s) = Some (t, g) \<Longrightarrow> reuse_step s (s\<lparr>ru_tlb := t\<rparr>)"
  \<comment> \<open>the pool\<close>
| drain_step: "drain_quarantine (ru_pool s) (safe_generation (ru_tlb s)) = Some (b, n) \<Longrightarrow>
    reuse_step s (s\<lparr>ru_pool := b, ru_held := ru_held s |` (- due (safe_generation (ru_tlb s)) (ru_pool s))\<rparr>)"
| alloc_step: "fa_free (ru_pool s) > 0 \<Longrightarrow> owner_slot own < OWNER_SLOTS \<Longrightarrow>
    alloc (ru_pool s) (safe_generation (ru_tlb s)) own = Some (b, Inr f) \<Longrightarrow>
    reuse_step s (s\<lparr>ru_pool := b, ru_held := (ru_held s)(frame_index f \<mapsto> own),
      ru_global := ru_global s - {frame_index f}, ru_kstamp := (ru_kstamp s)(frame_index f := None)\<rparr>)"
  \<comment> \<open>processors join flushed and leave parked\<close>
| online_step: "c < MAX_CPUS \<Longrightarrow> \<not> online (ru_tlb s) c \<Longrightarrow> reuse_step s (s\<lparr>ru_tlb := mark_online c (ru_tlb s)\<rparr>)"
| offline_step: "online (ru_tlb s) c \<Longrightarrow> ru_cache s c = {} \<Longrightarrow>
    reuse_step s (s\<lparr>ru_tlb := mark_offline c (ru_tlb s), ru_phase := (ru_phase s)(c := Idle)\<rparr>)"

section \<open>The invariant\<close>

definition quar :: "frame_allocator \<Rightarrow> nat \<Rightarrow> nat \<Rightarrow> bool" where
  "quar a f g \<longleftrightarrow> (\<exists>k. slot_used a k \<and> slot_index a k = f \<and> qu_generation (fa_quarantine a ! k) = g)"

text \<open>The translations of a frame a processor may still hold.\<close>

definition holds :: "reuse \<Rightarrow> nat \<Rightarrow> nat \<Rightarrow> bool" where
  "holds s c f \<longleftrightarrow> (\<exists>h. (f, h) \<in> ru_cache s c)"

definition inv_map :: "reuse \<Rightarrow> bool" where
  "inv_map s \<longleftrightarrow> (\<forall>f h. (f, h) \<in> ru_mapped s \<longrightarrow> f \<in> dom (ru_held s) \<and> \<not> in_quarantine (ru_pool s) f \<and>
     ru_kstamp s f = None \<and> (h \<longrightarrow> f \<in> ru_global s))"

definition inv_cache :: "reuse \<Rightarrow> bool" where
  "inv_cache s \<longleftrightarrow> (\<forall>c f h. (f, h) \<in> ru_cache s c \<longrightarrow>
     online (ru_tlb s) c \<and> f \<in> dom (ru_held s) \<and> (h \<longrightarrow> f \<in> ru_global s))"

definition stamp_ok :: "reuse \<Rightarrow> nat \<Rightarrow> nat \<Rightarrow> bool" where
  "stamp_ok s f g \<longleftrightarrow> g \<le> tl_generation (ru_tlb s) \<and>
     (f \<in> ru_global s \<longrightarrow> ru_kstamp s f \<noteq> None) \<and>
     (\<forall>c. online (ru_tlb s) c \<and> g \<le> seen_of (ru_tlb s) c \<longrightarrow> \<not> holds s c f) \<and>
     (\<forall>c w wk. ru_phase s c = Flushed w wk \<and> g \<le> w \<longrightarrow> \<not> holds s c f) \<and>
     (\<forall>ks c w wk. ru_kstamp s f = Some ks \<and> ru_phase s c = KLoaded w wk \<and> g \<le> w \<longrightarrow> ks \<le> wk)"

definition inv_stamp :: "reuse \<Rightarrow> bool" where
  "inv_stamp s \<longleftrightarrow> (\<forall>f g. quar (ru_pool s) f g \<longrightarrow> stamp_ok s f g)"

definition inv_kernel :: "reuse \<Rightarrow> bool" where
  "inv_kernel s \<longleftrightarrow> (\<forall>f ks. ru_kstamp s f = Some ks \<longrightarrow> ks \<le> tl_kernel_generation (ru_tlb s) \<and>
     (\<forall>c. online (ru_tlb s) c \<and> ks \<le> seen_kernel_of (ru_tlb s) c \<longrightarrow> (f, True) \<notin> ru_cache s c) \<and>
     (\<forall>c w wk. ru_phase s c = Flushed w wk \<and> ks \<le> wk \<longrightarrow> (f, True) \<notin> ru_cache s c))"

fun phase_ok :: "nat \<Rightarrow> nat \<Rightarrow> phase \<Rightarrow> bool" where
  "phase_ok g kg Idle = True"
| "phase_ok g kg (Loaded w) = (w \<le> g)"
| "phase_ok g kg (KLoaded w wk) = (w \<le> g \<and> wk \<le> kg)"
| "phase_ok g kg (Flushed w wk) = (w \<le> g \<and> wk \<le> kg)"

definition inv_phase :: "reuse \<Rightarrow> bool" where
  "inv_phase s \<longleftrightarrow> length (tl_processors (ru_tlb s)) = MAX_CPUS \<and>
     (\<forall>c. (ru_phase s c \<noteq> Idle \<longrightarrow> online (ru_tlb s) c) \<and>
        phase_ok (tl_generation (ru_tlb s)) (tl_kernel_generation (ru_tlb s)) (ru_phase s c) \<and>
        (online (ru_tlb s) c \<longrightarrow> seen_of (ru_tlb s) c \<le> tl_generation (ru_tlb s)) \<and>
        (c < MAX_CPUS \<longrightarrow> seen_kernel_of (ru_tlb s) c \<le> tl_kernel_generation (ru_tlb s)))"

definition reuse_inv :: "nat list \<Rightarrow> reuse \<Rightarrow> bool" where
  "reuse_inv base s \<longleftrightarrow> ledger base (ru_held s) (ru_pool s) \<and> inv_map s \<and> inv_cache s \<and> inv_stamp s \<and>
     inv_kernel s \<and> inv_phase s"

lemmas reuse_invs = inv_map_def inv_cache_def inv_stamp_def stamp_ok_def inv_kernel_def inv_phase_def

lemma online_cpu: "online t c \<Longrightarrow> c < MAX_CPUS"
  by (simp add: online_def)

lemma quar_in: "quar a f g \<Longrightarrow> in_quarantine a f"
  by (auto simp: quar_def in_quarantine_def)

lemma phase_ok_mono: "phase_ok g kg p \<Longrightarrow> g \<le> g' \<Longrightarrow> kg \<le> kg' \<Longrightarrow> phase_ok g' kg' p"
  by (cases p) auto

section \<open>Steps of the processors\<close>

lemma reuse_map_frame:
  assumes "reuse_inv base s" "f \<in> dom (ru_held s)" "\<not> in_quarantine (ru_pool s) f" "ru_kstamp s f = None"
  shows "reuse_inv base (s\<lparr>ru_mapped := insert (f, h) (ru_mapped s),
                    ru_global := (if h then insert f (ru_global s) else ru_global s)\<rparr>)"
  using assms unfolding reuse_inv_def reuse_invs holds_def by (auto dest: quar_in)

lemma reuse_unmap_frame:
  "reuse_inv base s \<Longrightarrow> reuse_inv base (s\<lparr>ru_mapped := ru_mapped s - {x}\<rparr>)"
  unfolding reuse_inv_def reuse_invs holds_def by auto

lemma reuse_fill:
  assumes "reuse_inv base s" "online (ru_tlb s) c" "x \<in> ru_mapped s"
  shows "reuse_inv base (s\<lparr>ru_cache := (ru_cache s)(c := insert x (ru_cache s c))\<rparr>)"
proof -
  obtain f h where x: "x = (f, h)" by force
  have m: "f \<in> dom (ru_held s)" "\<And>g. \<not> quar (ru_pool s) f g" "ru_kstamp s f = None" "h \<longrightarrow> f \<in> ru_global s"
    using assms(1,3) by (auto simp: x reuse_inv_def inv_map_def dest: quar_in)
  let ?s = "s\<lparr>ru_cache := (ru_cache s)(c := insert x (ru_cache s c))\<rparr>"
  have holds: "holds ?s d e \<longleftrightarrow> holds s d e \<or> d = c \<and> e = f" for d e
    by (auto simp: holds_def x)
  have "inv_stamp ?s"
    using assms(1) m(2) unfolding reuse_inv_def inv_stamp_def stamp_ok_def holds by auto
  moreover have "inv_cache ?s" "inv_kernel ?s" "inv_map ?s" "inv_phase ?s"
    using assms(1,2) m by (auto simp: x reuse_inv_def reuse_invs)
  ultimately show ?thesis using assms(1) by (simp add: reuse_inv_def)
qed

lemma reuse_load:
  assumes "reuse_inv base s" "online (ru_tlb s) c"
  shows "reuse_inv base (s\<lparr>ru_phase := (ru_phase s)(c := Loaded (tl_generation (ru_tlb s)))\<rparr>)"
  using assms unfolding reuse_inv_def reuse_invs holds_def by (auto split: if_splits)

lemma reuse_load_kernel:
  assumes "reuse_inv base s" "ru_phase s c = Loaded w"
  shows "reuse_inv base (s\<lparr>ru_phase := (ru_phase s)(c := KLoaded w (tl_kernel_generation (ru_tlb s)))\<rparr>)"
proof -
  let ?s = "s\<lparr>ru_phase := (ru_phase s)(c := KLoaded w (tl_kernel_generation (ru_tlb s)))\<rparr>"
  have ks: "ks \<le> tl_kernel_generation (ru_tlb s)" if "ru_kstamp s f = Some ks" for f ks
    using assms(1) that by (auto simp: reuse_inv_def inv_kernel_def)
  have w: "w \<le> tl_generation (ru_tlb s)" "online (ru_tlb s) c"
  proof -
    have "phase_ok (tl_generation (ru_tlb s)) (tl_kernel_generation (ru_tlb s)) (ru_phase s c)"
      "ru_phase s c \<noteq> Idle \<longrightarrow> online (ru_tlb s) c"
      using assms(1) by (auto simp: reuse_inv_def inv_phase_def)
    then show "w \<le> tl_generation (ru_tlb s)" "online (ru_tlb s) c" using assms(2) by auto
  qed
  have "inv_stamp ?s"
    using assms(1) ks unfolding reuse_inv_def inv_stamp_def stamp_ok_def holds_def by (auto split: if_splits)
  moreover have "inv_map ?s" "inv_cache ?s" "inv_kernel ?s"
    using assms(1) by (auto simp: reuse_inv_def reuse_invs split: if_splits)
  moreover have "inv_phase ?s" using assms(1) w by (auto simp: reuse_inv_def inv_phase_def)
  ultimately show ?thesis using assms(1) by (simp add: reuse_inv_def)
qed

lemma holds_flush:
  "x \<in> flush_cache all S \<longleftrightarrow> x \<in> S \<and> snd x \<and> \<not> all"
  by (auto simp: flush_cache_def)

lemma reuse_phase_in:
  assumes "reuse_inv base s"
  shows "phase_ok (tl_generation (ru_tlb s)) (tl_kernel_generation (ru_tlb s)) (ru_phase s c)"
    and "ru_phase s c \<noteq> Idle \<Longrightarrow> online (ru_tlb s) c"
  using assms by (auto simp: reuse_inv_def inv_phase_def)

lemma reuse_flush:
  assumes "reuse_inv base s" "ru_phase s c = KLoaded w wk"
  shows "reuse_inv base (s\<lparr>ru_phase := (ru_phase s)(c := Flushed w wk),
      ru_cache := (ru_cache s)(c := flush_cache (seen_kernel_of (ru_tlb s) c < wk) (ru_cache s c))\<rparr>)"
    (is "reuse_inv base ?s")
proof -
  have on: "online (ru_tlb s) c" and w: "w \<le> tl_generation (ru_tlb s)" "wk \<le> tl_kernel_generation (ru_tlb s)"
    using reuse_phase_in [OF assms(1), of c] assms(2) by auto
  have stamp: "inv_stamp s" and kern: "inv_kernel s" and cache: "inv_cache s"
    using assms(1) by (simp_all add: reuse_inv_def)
  have sub: "ru_cache ?s d \<subseteq> ru_cache s d" for d by (auto simp: holds_flush)
  then have less: "holds ?s d f \<Longrightarrow> holds s d f" for d f by (auto simp: holds_def)
  \<comment> \<open>the flush retires the user half, and the kernel half too when it has to\<close>
  have gone: "\<not> holds ?s c f" if q: "quar (ru_pool s) f g" "g \<le> w" for f g
  proof
    assume "holds ?s c f"
    then have k: "(f, True) \<in> ru_cache s c" "\<not> seen_kernel_of (ru_tlb s) c < wk"
      by (auto simp: holds_def holds_flush)
    then have "f \<in> ru_global s" using cache by (auto simp: inv_cache_def)
    then obtain ks where ks: "ru_kstamp s f = Some ks"
      using stamp q(1) unfolding inv_stamp_def stamp_ok_def by (metis not_None_eq)
    then have "ks \<le> wk" using stamp q assms(2) unfolding inv_stamp_def stamp_ok_def by blast
    then have "(f, True) \<notin> ru_cache s c"
      using kern ks on k(2) by (auto simp: inv_kernel_def)
    then show False using k(1) by simp
  qed
  have kgone: "(f, True) \<notin> ru_cache ?s c" if "ru_kstamp s f = Some ks" "ks \<le> wk" for f ks
  proof
    assume "(f, True) \<in> ru_cache ?s c"
    then have "(f, True) \<in> ru_cache s c" "ks \<le> seen_kernel_of (ru_tlb s) c"
      using that(2) by (auto simp: holds_flush)
    then show False using kern that(1) on unfolding inv_kernel_def by blast
  qed
  have "inv_stamp ?s"
    unfolding inv_stamp_def
  proof (intro allI impI)
    fix f g
    assume q: "quar (ru_pool ?s) f g"
    then have ok: "stamp_ok s f g" using stamp by (simp add: inv_stamp_def)
    have "\<not> holds ?s d f" if "online (ru_tlb s) d" "g \<le> seen_of (ru_tlb s) d" for d
      using ok less [of d f] that unfolding stamp_ok_def by blast
    moreover have "\<not> holds ?s d f" if "ru_phase ?s d = Flushed v vk" "g \<le> v" for d v vk
    proof (cases "d = c")
      case True
      then show ?thesis using gone [of f g] q that by simp
    next
      case False
      then have "ru_phase s d = Flushed v vk" using that(1) by simp
      then show ?thesis using ok less [of d f] that(2) unfolding stamp_ok_def by blast
    qed
    ultimately show "stamp_ok ?s f g"
      using ok unfolding stamp_ok_def by (simp split: if_splits) blast
  qed
  moreover have "inv_kernel ?s"
    using kern kgone unfolding inv_kernel_def by (auto simp: holds_flush split: if_splits)
  moreover have "inv_cache ?s"
    using cache sub unfolding inv_cache_def by (auto split: if_splits simp: holds_flush)
  moreover have "inv_map ?s" "inv_phase ?s"
    using assms(1) on w by (auto simp: reuse_inv_def inv_map_def inv_phase_def)
  ultimately show ?thesis using assms(1) by (simp add: reuse_inv_def)
qed

lemma store_seen_simps [simp]:
  "tl_generation (store_seen c w wk t) = tl_generation t"
  "tl_kernel_generation (store_seen c w wk t) = tl_kernel_generation t"
  "online (store_seen c w wk t) = online t"
  "length (tl_processors (store_seen c w wk t)) = length (tl_processors t)"
  by (simp_all add: store_seen_def online_def fun_eq_iff)

lemma store_seen_of:
  "c < length (tl_processors t) \<Longrightarrow> d < length (tl_processors t) \<Longrightarrow>
     seen_of (store_seen c w wk t) d = (if d = c then w else seen_of t d)"
  "c < length (tl_processors t) \<Longrightarrow> d < length (tl_processors t) \<Longrightarrow>
     seen_kernel_of (store_seen c w wk t) d = (if d = c then wk else seen_kernel_of t d)"
  by (auto simp: store_seen_def seen_of_def seen_kernel_of_def nth_upd)

lemma reuse_store:
  assumes "reuse_inv base s" "ru_phase s c = Flushed w wk"
  shows "reuse_inv base (s\<lparr>ru_phase := (ru_phase s)(c := Idle), ru_tlb := store_seen c w wk (ru_tlb s)\<rparr>)"
    (is "reuse_inv base ?s")
proof -
  have on: "online (ru_tlb s) c" and w: "w \<le> tl_generation (ru_tlb s)" "wk \<le> tl_kernel_generation (ru_tlb s)"
    and len: "length (tl_processors (ru_tlb s)) = MAX_CPUS"
    using reuse_phase_in [OF assms(1), of c] assms by (auto simp: reuse_inv_def inv_phase_def)
  have cl: "c < length (tl_processors (ru_tlb s))" using online_cpu [OF on] len by simp
  note seen = store_seen_of [OF cl, unfolded len]
  have holds: "holds ?s = holds s" by (simp add: holds_def fun_eq_iff)
  have "inv_stamp ?s"
    using assms unfolding reuse_inv_def inv_stamp_def stamp_ok_def holds
    by (auto simp: seen online_cpu split: if_splits)
  moreover have "inv_kernel ?s"
    using assms unfolding reuse_inv_def inv_kernel_def
    by (auto simp: seen online_cpu split: if_splits)
  moreover have "inv_map ?s" "inv_cache ?s"
    using assms(1) by (auto simp: reuse_inv_def inv_map_def inv_cache_def)
  moreover have "inv_phase ?s"
    using assms(1) w unfolding reuse_inv_def inv_phase_def by (auto simp: seen online_cpu)
  ultimately show ?thesis using assms(1) by (simp add: reuse_inv_def)
qed

section \<open>Steps of the counters and of the pool\<close>

lemma reuse_newer:
  assumes "reuse_inv base s"
    and "tl_processors t = tl_processors (ru_tlb s)" "tl_online t = tl_online (ru_tlb s)"
    and "tl_generation (ru_tlb s) \<le> tl_generation t" "tl_kernel_generation (ru_tlb s) \<le> tl_kernel_generation t"
  shows "reuse_inv base (s\<lparr>ru_tlb := t\<rparr>)" (is "reuse_inv base ?s")
proof -
  have on: "online t = online (ru_tlb s)" "seen_of t = seen_of (ru_tlb s)" "seen_kernel_of t = seen_kernel_of (ru_tlb s)"
    using assms(2,3) by (simp_all add: online_def seen_of_def seen_kernel_of_def fun_eq_iff)
  have holds: "holds ?s = holds s" by (simp add: holds_def fun_eq_iff)
  have "inv_stamp ?s"
    using assms(1,4) unfolding reuse_inv_def inv_stamp_def stamp_ok_def holds
    by (auto simp: on intro: le_trans)
  moreover have "inv_kernel ?s"
  proof -
    have "inv_kernel s" using assms(1) by (simp add: reuse_inv_def)
    then show ?thesis unfolding inv_kernel_def by (simp add: on) (meson assms(5) le_trans)
  qed
  moreover have "inv_cache ?s" "inv_map ?s"
    using assms(1) unfolding reuse_inv_def by (auto simp: on inv_cache_def inv_map_def)
  moreover have "inv_phase ?s"
    using assms phase_ok_mono unfolding reuse_inv_def inv_phase_def
    by (simp add: on) (meson le_trans)
  ultimately show ?thesis using assms(1) by (simp add: reuse_inv_def)
qed

lemma bump_generation_eq:
  "bump_generation t = Some (t', g) \<Longrightarrow> g = tl_generation t + 1 \<and> t' = t\<lparr>tl_generation := g\<rparr>"
  by (auto simp: bump_generation_def checked_add64_def split: if_splits)

lemma quar_retire:
  "quar (retire_at a f own g) f' g' \<Longrightarrow> quar a f' g' \<or> f' = frame_index f \<and> g' = g"
  "in_quarantine (retire_at a f own g) f' \<Longrightarrow> in_quarantine a f' \<or> f' = frame_index f"
proof -
  consider k where "position (\<lambda>q. \<not> qu_used q) (fa_quarantine a) = Some k"
    | "position (\<lambda>q. \<not> qu_used q) (fa_quarantine a) = None" by fastforce
  then have "(quar (retire_at a f own g) f' g' \<longrightarrow> quar a f' g' \<or> f' = frame_index f \<and> g' = g) \<and>
      (in_quarantine (retire_at a f own g) f' \<longrightarrow> in_quarantine a f' \<or> f' = frame_index f)"
  proof cases
    case (1 k)
    note slot = retire_slot(1,2,5) [OF 1, of f own g]
    show ?thesis
      unfolding quar_def in_quarantine_def slot by (auto split: if_splits)
  next
    case 2
    then show ?thesis
      unfolding quar_def in_quarantine_def retire_full [OF 2] slot_used_def slot_index_def by auto
  qed
  then show "quar (retire_at a f own g) f' g' \<Longrightarrow> quar a f' g' \<or> f' = frame_index f \<and> g' = g"
    "in_quarantine (retire_at a f own g) f' \<Longrightarrow> in_quarantine a f' \<or> f' = frame_index f" by auto
qed

lemma reuse_retire:
  assumes "reuse_inv base s" "ru_held s (frame_index f) = Some own" "\<not> in_quarantine (ru_pool s) (frame_index f)"
    and "\<And>h. (frame_index f, h) \<notin> ru_mapped s" "frame_index f \<in> ru_global s \<Longrightarrow> ru_kstamp s (frame_index f) \<noteq> None"
    and "bump_generation (ru_tlb s) = Some (t, g)"
  shows "reuse_inv base (s\<lparr>ru_tlb := t, ru_pool := retire_at (ru_pool s) f own g\<rparr>)" (is "reuse_inv base ?s")
proof -
  let ?m = "s\<lparr>ru_tlb := t\<rparr>"
  have t: "g = tl_generation (ru_tlb s) + 1" "t = (ru_tlb s)\<lparr>tl_generation := g\<rparr>"
    using bump_generation_eq [OF assms(6)] by auto
  have m: "reuse_inv base ?m" by (rule reuse_newer [OF assms(1)]) (simp_all add: t)
  have on: "online t = online (ru_tlb s)" "seen_of t = seen_of (ru_tlb s)"
    by (simp_all add: t(2) online_def seen_of_def fun_eq_iff)
  have ph: "inv_phase s" using assms(1) by (simp add: reuse_inv_def)
  have late: "\<not> g \<le> seen_of t c" if "online t c" for c
    using ph that t(1) by (auto simp: inv_phase_def on not_le less_Suc_eq_le)
  have late': "ru_phase s c = Flushed w wk \<Longrightarrow> \<not> g \<le> w" "ru_phase s c = KLoaded w wk \<Longrightarrow> \<not> g \<le> w" for c w wk
    using reuse_phase_in(1) [OF assms(1), of c] t(1) by auto
  have holds: "holds ?s = holds ?m" by (simp add: holds_def fun_eq_iff)
  have "inv_stamp ?s"
    unfolding inv_stamp_def
  proof (intro allI impI)
    fix f' g'
    assume "quar (ru_pool ?s) f' g'"
    then consider "quar (ru_pool ?m) f' g'" | "f' = frame_index f" "g' = g"
      using quar_retire(1) by fastforce
    then show "stamp_ok ?s f' g'"
    proof cases
      case 1
      then have "stamp_ok ?m f' g'" using m by (simp add: reuse_inv_def inv_stamp_def)
      then show ?thesis unfolding stamp_ok_def holds by auto
    next
      case 2
      then show ?thesis
        using late late' assms(5) unfolding stamp_ok_def by (auto simp: t(2))
    qed
  qed
  moreover have "inv_map ?s"
    using m assms(4) quar_retire(2) [of "ru_pool s" f own g] by (auto simp: reuse_inv_def inv_map_def)
  moreover have "inv_cache ?s" "inv_kernel ?s" "inv_phase ?s"
    using m by (auto simp: reuse_inv_def inv_cache_def inv_kernel_def inv_phase_def)
  moreover have "ledger base (ru_held ?s) (ru_pool ?s)"
    using assms(1-3) ledger_retire by (simp add: reuse_inv_def)
  ultimately show ?thesis by (simp add: reuse_inv_def)
qed

lemma reuse_bump_kernel:
  assumes "reuse_inv base s" "\<not> in_quarantine (ru_pool s) f" "(f, True) \<notin> ru_mapped s" "(f, False) \<notin> ru_mapped s"
    and "tl_kernel_generation (ru_tlb s) < U64_MAX"
  shows "reuse_inv base (s\<lparr>ru_tlb := (ru_tlb s)\<lparr>tl_kernel_generation := wrap_add64 (tl_kernel_generation (ru_tlb s)) 1\<rparr>,
      ru_kstamp := (ru_kstamp s)(f \<mapsto> tl_kernel_generation (ru_tlb s) + 1)\<rparr>)"
proof -
  have wrap: "wrap_add64 (tl_kernel_generation (ru_tlb s)) 1 = Suc (tl_kernel_generation (ru_tlb s))"
    using assms(5) by simp
  let ?t = "(ru_tlb s)\<lparr>tl_kernel_generation := Suc (tl_kernel_generation (ru_tlb s))\<rparr>"
  let ?m = "s\<lparr>ru_tlb := ?t\<rparr>" and ?k = "tl_kernel_generation (ru_tlb s) + 1"
  let ?s = "?m\<lparr>ru_kstamp := (ru_kstamp s)(f \<mapsto> Suc (tl_kernel_generation (ru_tlb s)))\<rparr>"
  have m: "reuse_inv base ?m" by (rule reuse_newer [OF assms(1)]) simp_all
  have on: "online ?t = online (ru_tlb s)" "seen_kernel_of ?t = seen_kernel_of (ru_tlb s)"
    by (simp_all add: online_def seen_kernel_of_def fun_eq_iff)
  have ph: "inv_phase s" using assms(1) by (simp add: reuse_inv_def)
  have late: "\<not> ?k \<le> seen_kernel_of (ru_tlb s) c" if "online (ru_tlb s) c" for c
    using ph online_cpu [OF that] by (auto simp: inv_phase_def not_le less_Suc_eq_le)
  have late': "\<not> ?k \<le> wk" if "ru_phase s c = Flushed w wk" for c w wk
    using reuse_phase_in(1) [OF assms(1), of c] that by auto
  have holds: "holds ?s = holds ?m" by (simp add: holds_def fun_eq_iff)
  have notq: "\<not> quar (ru_pool s) f g" for g using assms(2) quar_in by blast
  have "inv_kernel ?s"
    using m late late' unfolding reuse_inv_def inv_kernel_def
    by (auto simp: on split: if_splits)
  moreover have "inv_stamp ?s"
    using m notq unfolding reuse_inv_def inv_stamp_def stamp_ok_def holds by (auto split: if_splits)
  moreover have "inv_map ?s"
  proof -
    have "(f, h) \<notin> ru_mapped s" for h using assms(3,4) by (cases h) auto
    then show ?thesis using m unfolding reuse_inv_def inv_map_def by (auto split: if_splits)
  qed
  moreover have "inv_cache ?s" "inv_phase ?s"
    using m unfolding reuse_inv_def by (auto simp: inv_cache_def inv_phase_def)
  ultimately have "reuse_inv base ?s" using m by (simp add: reuse_inv_def)
  then show ?thesis unfolding wrap by simp
qed

lemma due_quar:
  "f \<in> due g a \<longleftrightarrow> (\<exists>h \<le> g. quar a f h)"
  by (auto simp: due_def due_upto_def quar_def slot_used_len)

text \<open>
  The heart of it: a frame whose generation is safe is in no processor's cache, because every online
  processor has flushed at that generation or later.
\<close>

lemma due_not_cached:
  assumes "reuse_inv base s" and "f \<in> due (safe_generation (ru_tlb s)) (ru_pool s)"
  shows "\<not> holds s c f"
proof
  assume h: "holds s c f"
  then have on: "online (ru_tlb s) c"
    using assms(1) by (auto simp: holds_def reuse_inv_def inv_cache_def)
  then have nz: "tl_online (ru_tlb s) \<noteq> 0" by (auto simp: online_def)
  obtain g where g: "g \<le> safe_generation (ru_tlb s)" "quar (ru_pool s) f g"
    using assms(2) by (auto simp: due_quar)
  then have "g \<le> seen_of (ru_tlb s) c"
    using safe_generation_le [OF nz, of g] on by simp
  moreover have "stamp_ok s f g" using assms(1) g(2) by (simp add: reuse_inv_def inv_stamp_def)
  ultimately show False using h on unfolding stamp_ok_def by blast
qed

lemma reuse_drain:
  assumes "reuse_inv base s"
    and "drain_quarantine (ru_pool s) (safe_generation (ru_tlb s)) = Some (b, n)"
  shows "reuse_inv base (s\<lparr>ru_pool := b, ru_held := ru_held s |` (- due (safe_generation (ru_tlb s)) (ru_pool s))\<rparr>)"
    (is "reuse_inv base ?s")
proof -
  let ?D = "due (safe_generation (ru_tlb s)) (ru_pool s)"
  have l: "ledger base (ru_held s) (ru_pool s)" using assms(1) by (simp add: reuse_inv_def)
  have b: "ledger base (ru_held s |` (- ?D)) b"
      "\<And>k. slot_used b k \<Longrightarrow> slot_used (ru_pool s) k"
      "\<And>k. slot_used b k \<Longrightarrow> fa_quarantine b ! k = fa_quarantine (ru_pool s) ! k"
    using drain_effect [OF l, of "safe_generation (ru_tlb s)"] assms(2) by auto
  have q: "quar b f g \<Longrightarrow> quar (ru_pool s) f g" for f g
    using b(2,3) unfolding quar_def slot_index_def by metis
  have iq: "in_quarantine b f \<Longrightarrow> in_quarantine (ru_pool s) f" for f
    using b(2,3) unfolding in_quarantine_def slot_index_def by metis
  have out: "f \<notin> ?D" if "(f, h) \<in> ru_cache s c" for f h c
    using due_not_cached [OF assms(1), of f c] that by (auto simp: holds_def)
  have outm: "f \<notin> ?D" if "(f, h) \<in> ru_mapped s" for f h
    using assms(1) that by (auto simp: reuse_inv_def inv_map_def due_quar dest: quar_in)
  have "inv_map ?s"
    using assms(1) outm unfolding reuse_inv_def inv_map_def by (auto dest!: iq)
  moreover have "inv_cache ?s"
    using assms(1) out unfolding reuse_inv_def inv_cache_def by auto
  moreover have "inv_stamp ?s"
  proof -
    have "stamp_ok ?s f g = stamp_ok s f g" for f g by (simp add: stamp_ok_def holds_def)
    then show ?thesis using assms(1) q unfolding reuse_inv_def inv_stamp_def by simp
  qed
  moreover have "inv_kernel ?s" "inv_phase ?s"
    using assms(1) by (auto simp: reuse_inv_def inv_kernel_def inv_phase_def)
  ultimately show ?thesis using b(1) by (simp add: reuse_inv_def)
qed

lemma reuse_alloc:
  assumes "reuse_inv base s" and "fa_free (ru_pool s) > 0" and "owner_slot own < OWNER_SLOTS"
    and "alloc (ru_pool s) safe own = Some (b, Inr f)"
  shows "reuse_inv base (s\<lparr>ru_pool := b, ru_held := (ru_held s)(frame_index f \<mapsto> own),
      ru_global := ru_global s - {frame_index f}, ru_kstamp := (ru_kstamp s)(frame_index f := None)\<rparr>)"
    (is "reuse_inv base ?s")
proof -
  have l: "ledger base (ru_held s) (ru_pool s)" using assms(1) by (simp add: reuse_inv_def)
  have g: "got_frame base (ru_held s) (ru_pool s) own b f"
    using alloc_effect [OF l assms(3,2), of safe] assms(4) by auto
  let ?i = "frame_index f"
  have free: "ru_held s ?i = None" and lb: "ledger base ((ru_held s)(?i \<mapsto> own)) b"
    and fq: "fa_quarantine b = fa_quarantine (ru_pool s)"
    using g by (auto simp: got_frame_def)
  have q: "quar b = quar (ru_pool s)" "in_quarantine b = in_quarantine (ru_pool s)"
    by (simp_all add: quar_def in_quarantine_def slot_used_def slot_index_def fq fun_eq_iff)
  have notq: "\<not> in_quarantine (ru_pool s) ?i"
    using l free by (auto simp: in_quarantine_def ledger_def quarantine_ok_def)
  have nm: "(?i, h) \<notin> ru_mapped s" for h
    using assms(1) free by (auto simp: reuse_inv_def inv_map_def)
  have nc: "(?i, h) \<notin> ru_cache s c" for h c
    using assms(1) free by (auto simp: reuse_inv_def inv_cache_def)
  have "inv_map ?s"
    using assms(1) nm unfolding reuse_inv_def inv_map_def by (auto simp: q)
  moreover have "inv_cache ?s"
    using assms(1) nc unfolding reuse_inv_def inv_cache_def by auto
  moreover have "inv_stamp ?s"
  proof -
    have "stamp_ok ?s e g" if "stamp_ok s e g" "e \<noteq> ?i" for e g
      using that by (auto simp: stamp_ok_def holds_def)
    then show ?thesis
      using assms(1) notq quar_in unfolding reuse_inv_def inv_stamp_def by (simp add: q) metis
  qed
  moreover have "inv_kernel ?s" "inv_phase ?s"
    using assms(1) by (auto simp: reuse_inv_def inv_kernel_def inv_phase_def)
  ultimately show ?thesis using lb by (simp add: reuse_inv_def)
qed

lemma online_mark:
  "c < MAX_CPUS \<Longrightarrow> online (mark_online c t) d \<longleftrightarrow> online t d \<or> d = c"
  "online (mark_offline c t) d \<longleftrightarrow> online t d \<and> d \<noteq> c"
  by (auto simp: online_def mark_online_def mark_offline_def bit_simps MAX_CPUS_def)

lemma seen_mark:
  "c < MAX_CPUS \<Longrightarrow> length (tl_processors t) = MAX_CPUS \<Longrightarrow> d < MAX_CPUS \<Longrightarrow>
     seen_of (mark_online c t) d = (if d = c then tl_generation t else seen_of t d)"
  "d \<noteq> c \<Longrightarrow> seen_of (mark_offline c t) d = seen_of t d"
  "length (tl_processors t) = MAX_CPUS \<Longrightarrow> d < MAX_CPUS \<Longrightarrow> seen_kernel_of (mark_online c t) d = seen_kernel_of t d"
  "length (tl_processors t) = MAX_CPUS \<Longrightarrow> d < MAX_CPUS \<Longrightarrow> seen_kernel_of (mark_offline c t) d = seen_kernel_of t d"
  by (auto simp: seen_of_def seen_kernel_of_def mark_online_def mark_offline_def nth_upd)

lemma mark_keeps [simp]:
  "tl_generation (mark_online c t) = tl_generation t" "tl_generation (mark_offline c t) = tl_generation t"
  "tl_kernel_generation (mark_online c t) = tl_kernel_generation t"
  "tl_kernel_generation (mark_offline c t) = tl_kernel_generation t"
  "length (tl_processors (mark_online c t)) = length (tl_processors t)"
  "length (tl_processors (mark_offline c t)) = length (tl_processors t)"
  by (simp_all add: mark_online_def mark_offline_def)

lemma reuse_online:
  assumes "reuse_inv base s" and "c < MAX_CPUS" and "\<not> online (ru_tlb s) c"
  shows "reuse_inv base (s\<lparr>ru_tlb := mark_online c (ru_tlb s)\<rparr>)" (is "reuse_inv base ?s")
proof -
  have len: "length (tl_processors (ru_tlb s)) = MAX_CPUS"
    and idle: "ru_phase s c = Idle" and empty: "ru_cache s c = {}"
    using assms(1,3) by (auto simp: reuse_inv_def inv_phase_def inv_cache_def)
  note mark = online_mark(1) [OF assms(2)] seen_mark(1) [OF assms(2) len] seen_mark(3) [OF len]
  have holds: "holds ?s = holds s" "\<And>f. \<not> holds s c f" using empty by (simp_all add: holds_def fun_eq_iff)
  have "inv_stamp ?s"
    using assms(1) holds(2) unfolding reuse_inv_def inv_stamp_def stamp_ok_def holds(1)
    by (auto simp: mark online_cpu assms(2) split: if_splits)
  moreover have "inv_kernel ?s"
    using assms(1) empty unfolding reuse_inv_def inv_kernel_def
    by (auto simp: mark online_cpu assms(2))
  moreover have "inv_cache ?s" "inv_map ?s"
    using assms(1) by (auto simp: reuse_inv_def inv_cache_def inv_map_def mark)
  moreover have "inv_phase ?s"
    using assms(1) idle unfolding reuse_inv_def inv_phase_def
    by (auto simp: mark online_cpu assms(2))
  ultimately show ?thesis using assms(1) by (simp add: reuse_inv_def)
qed

lemma reuse_offline:
  assumes "reuse_inv base s" and "online (ru_tlb s) c" and "ru_cache s c = {}"
  shows "reuse_inv base (s\<lparr>ru_tlb := mark_offline c (ru_tlb s), ru_phase := (ru_phase s)(c := Idle)\<rparr>)"
    (is "reuse_inv base ?s")
proof -
  have len: "length (tl_processors (ru_tlb s)) = MAX_CPUS"
    using assms(1) by (auto simp: reuse_inv_def inv_phase_def)
  note mark = online_mark(2) seen_mark(2) seen_mark(4) [OF len]
  have holds: "holds ?s = holds s" by (simp add: holds_def fun_eq_iff)
  have "inv_stamp ?s"
    using assms(1) unfolding reuse_inv_def inv_stamp_def stamp_ok_def holds
    by (auto simp: mark split: if_splits)
  moreover have "inv_kernel ?s"
    using assms(1) unfolding reuse_inv_def inv_kernel_def
    by (auto simp: mark online_cpu split: if_splits)
  moreover have "inv_cache ?s" "inv_map ?s"
    using assms(1,3) by (auto simp: reuse_inv_def inv_cache_def inv_map_def mark)
  moreover have "inv_phase ?s"
    using assms(1) unfolding reuse_inv_def inv_phase_def by (auto simp: mark)
  ultimately show ?thesis using assms(1) by (simp add: reuse_inv_def)
qed

lemma reuse_step_inv:
  assumes "reuse_step s s'" and "reuse_inv base s"
  shows "reuse_inv base s'"
  using assms
proof (induction rule: reuse_step.induct)
  case (retire_user s f own t g)
  have nm: "(frame_index f, h) \<notin> ru_mapped s" for h
    using retire_user.hyps(3,4) retire_user.prems
    by (cases h) (auto simp: reuse_inv_def inv_map_def)
  show ?case
    using reuse_retire [OF retire_user.prems retire_user.hyps(1,2) nm] retire_user.hyps(4,5)
    by (simp add: retire_stamp_def)
next
  case (retire_kernel s f own t g)
  then have nm: "(frame_index f, h) \<notin> ru_mapped s" for h by (auto simp: reuse_inv_def inv_map_def)
  show ?case
    using reuse_retire [OF retire_kernel.prems retire_kernel.hyps(1,2) nm retire_kernel.hyps(3,4)] .
next
  case (publish_step s t g)
  show ?case
    using bump_generation_eq [OF publish_step.hyps [unfolded publish_def]]
    by (intro reuse_newer [OF publish_step.prems]) simp_all
qed (blast intro: reuse_map_frame reuse_unmap_frame reuse_fill reuse_load reuse_load_kernel reuse_flush
      reuse_store reuse_bump_kernel reuse_drain reuse_alloc reuse_online reuse_offline)+

lemma reuse_steps_inv: "reuse_step\<^sup>*\<^sup>* s t \<Longrightarrow> reuse_inv base s \<Longrightarrow> reuse_inv base t"
  by (induction rule: rtranclp_induct) (auto intro: reuse_step_inv)

definition reuse_boot :: "frame_allocator \<Rightarrow> reuse" where
  "reuse_boot a = \<lparr>ru_tlb = tlb_boot, ru_pool = a, ru_held = Map.empty, ru_mapped = {}, ru_cache = (\<lambda>_. {}),
     ru_global = {}, ru_kstamp = Map.empty, ru_phase = (\<lambda>_. Idle)\<rparr>"

lemma reuse_boot_inv:
  assumes "ledger base Map.empty a"
  shows "reuse_inv base (reuse_boot a)"
proof -
  have "\<not> quar a f g" for f g
    using assms by (auto simp: quar_def ledger_def quarantine_ok_def)
  moreover have "\<not> online tlb_boot c" for c by (simp add: online_def tlb_boot_def)
  moreover have "seen_kernel_of tlb_boot c \<le> tl_kernel_generation tlb_boot" if "c < MAX_CPUS" for c
    using that by (simp add: seen_kernel_of_def tlb_boot_def processor_boot_def)
  ultimately show ?thesis
    using assms unfolding reuse_inv_def reuse_invs reuse_boot_def by (simp add: tlb_boot_def)
qed

section \<open>Properties\<close>

text \<open>
  What the quarantine gives callers that keep its discipline. From boot, let processors map and unmap
  frames, cache translations, refresh access by access, join and leave, and let frames be retired only with a
  stamp taken after their entries are gone, drained and allocated again, in any interleaving: a frame the
  allocator returns is mapped nowhere and no processor holds a translation to it, in the user half or in the
  kernel half. Not every caller keeps it: \<open>release_kernel_stack\<close> and \<open>destroy_user_half\<close> take the stamp first, and
  frames that are released directly do not pass the quarantine.
\<close>

theorem no_reuse_while_cached:
  assumes "frame_allocator_new regions limit ram = Some (Some a)" and "bitmap_home regions limit = Some k"
    and "0 < limit" and "limit * PAGE_SIZE \<le> U64_MAX"
    and "mr_base (regions ! k) div PAGE_SIZE + bitmap_frames limit \<le> limit"
    and "reuse_step\<^sup>*\<^sup>* (reuse_boot a) s"
    and "owner_slot own < OWNER_SLOTS"
    and "alloc (ru_pool s) (safe_generation (ru_tlb s)) own = Some (b, Inr f)"
  shows "\<forall>h. (frame_index f, h) \<notin> ru_mapped s \<and> (\<forall>c. (frame_index f, h) \<notin> ru_cache s c)"
proof -
  have "ledger (bitmap_charge limit) Map.empty a"
    using new_effect [OF assms(2-5), of ram] assms(1) by auto
  then have inv: "reuse_inv (bitmap_charge limit) s"
    using reuse_steps_inv [OF assms(6)] reuse_boot_inv by blast
  then have l: "ledger (bitmap_charge limit) (ru_held s) (ru_pool s)" by (simp add: reuse_inv_def)
  let ?D = "due (safe_generation (ru_tlb s)) (ru_pool s)"
  have "(if fa_free (ru_pool s) = 0 then ru_held s |` (- ?D) else ru_held s) (frame_index f) = None"
    using step_alloc_ledger [OF l assms(7,8)] by (simp add: got_frame_def)
  then consider "frame_index f \<in> ?D" | "ru_held s (frame_index f) = None"
    by (auto simp: restrict_map_def split: if_splits)
  then show ?thesis
  proof cases
    case 1
    then have "in_quarantine (ru_pool s) (frame_index f)" by (auto simp: due_quar dest: quar_in)
    then show ?thesis
      using inv due_not_cached [OF inv 1] by (auto simp: reuse_inv_def inv_map_def holds_def)
  next
    case 2
    then show ?thesis using inv unfolding reuse_inv_def inv_map_def inv_cache_def domIff by metis
  qed
qed

theorem no_reuse_while_cached_witness:
  "\<exists>a s b f. frame_allocator_new small_map 8 (\<lambda>_. 7) = Some (Some a) \<and> reuse_step\<^sup>*\<^sup>* (reuse_boot a) s \<and>
     online (ru_tlb s) 0 \<and> alloc (ru_pool s) (safe_generation (ru_tlb s)) OwnKernel = Some (b, Inr f) \<and>
     (\<forall>h c. (frame_index f, h) \<notin> ru_cache s c)"
proof -
  obtain a where a: "frame_allocator_new small_map 8 (\<lambda>_. 7) = Some (Some a)"
      "ledger (bitmap_charge 8) Map.empty a" "fa_free a = 7"
    by (rule small_pool)
  let ?s = "(reuse_boot a)\<lparr>ru_tlb := mark_online 0 (ru_tlb (reuse_boot a))\<rparr>"
  have "reuse_step (reuse_boot a) ?s"
    by (intro online_step) (simp_all add: MAX_CPUS_def reuse_boot_def online_def tlb_boot_def)
  then have st: "reuse_step\<^sup>*\<^sup>* (reuse_boot a) ?s" by simp
  obtain b f where b: "alloc (ru_pool ?s) (safe_generation (ru_tlb ?s)) OwnKernel = Some (b, Inr f)"
    using alloc_effect [OF a(2) own_ok(1), of "safe_generation (ru_tlb ?s)"] a(3)
    by (auto simp: reuse_boot_def)
  have "online (ru_tlb ?s) 0"
    using online_mark(1) [of 0 "ru_tlb (reuse_boot a)" 0] by (simp add: MAX_CPUS_def)
  moreover note no_reuse_while_cached [OF a(1) small_home(1) _ small_home(3,2) st own_ok(1) b]
  ultimately show ?thesis using a(1) st b by auto
qed

text \<open>
  Running alone, the accesses of \<open>refresh_local\<close> add up to the function: whenever it flushes, its
  state change is the load, the kernel load, the flush and the store of the interleaved model, one
  after the other.
\<close>

theorem refresh_refines_steps:
  assumes "online (ru_tlb s) c" and "ru_phase s c = Idle" and "length (tl_processors (ru_tlb s)) = MAX_CPUS"
    and "refresh_local c (ru_tlb s) = Some (t, Some fl)"
  shows "reuse_step\<^sup>*\<^sup>* s (s\<lparr>ru_cache := (ru_cache s)(c := flush_cache (fl = FlushAll) (ru_cache s c)),
    ru_phase := (ru_phase s)(c := Idle), ru_tlb := t\<rparr>)"
proof -
  let ?w = "tl_generation (ru_tlb s)" and ?wk = "tl_kernel_generation (ru_tlb s)"
  let ?s1 = "s\<lparr>ru_phase := (ru_phase s)(c := Loaded ?w)\<rparr>"
  let ?s2 = "s\<lparr>ru_phase := (ru_phase s)(c := KLoaded ?w ?wk)\<rparr>"
  let ?C = "(ru_cache s)(c := flush_cache (seen_kernel_of (ru_tlb s) c < ?wk) (ru_cache s c))"
  let ?s3 = "s\<lparr>ru_phase := (ru_phase s)(c := Flushed ?w ?wk), ru_cache := ?C\<rparr>"
  let ?s4 = "s\<lparr>ru_cache := ?C, ru_phase := (ru_phase s)(c := Idle), ru_tlb := store_seen c ?w ?wk (ru_tlb s)\<rparr>"
  have c: "c < MAX_CPUS" using assms(1) by (rule online_cpu)
  have r: "seen_of (ru_tlb s) c < ?w" "t = store_seen c ?w ?wk (ru_tlb s)"
      "fl = (if seen_kernel_of (ru_tlb s) c < ?wk then FlushAll else FlushUser)"
    using assms(3,4) c
    by (auto simp: refresh_local_def Let_def seen_of_def seen_kernel_of_def store_seen_def split: if_splits)
  have 1: "reuse_step s ?s1" using load [OF assms(1,2) r(1)] .
  have 2: "reuse_step ?s1 ?s2" using load_kernel [of ?s1 c ?w] by simp
  have 3: "reuse_step ?s2 ?s3" using flush [of ?s2 c ?w ?wk] by simp
  have 4: "reuse_step ?s3 ?s4" using store [of ?s3 c ?w ?wk] by simp
  note into = rtranclp.rtrancl_into_rtrancl [where r = reuse_step]
  have "reuse_step\<^sup>*\<^sup>* s ?s4"
    by (rule into [OF into [OF into [OF r_into_rtranclp [where r = reuse_step, OF 1] 2] 3] 4])
  moreover have "(fl = FlushAll) = (seen_kernel_of (ru_tlb s) c < ?wk)" using r(3) by simp
  ultimately show ?thesis using r(2) by simp
qed

theorem refresh_refines_steps_witness:
  "\<exists>s t. refresh_local 0 (ru_tlb s) = Some (t, Some FlushUser) \<and> reuse_step\<^sup>*\<^sup>* s
    (s\<lparr>ru_cache := (ru_cache s)(0 := {(5, True)}), ru_phase := (ru_phase s)(0 := Idle), ru_tlb := t\<rparr>)"
proof -
  let ?t = "(mark_online 0 tlb_boot)\<lparr>tl_generation := 2\<rparr>"
  let ?s = "\<lparr>ru_tlb = ?t, ru_pool = frame_allocator_start 8 (\<lambda>_. 7), ru_held = Map.empty, ru_mapped = {},
     ru_cache = (\<lambda>_. {(4, False), (5, True)}), ru_global = {}, ru_kstamp = Map.empty, ru_phase = (\<lambda>_. Idle)\<rparr>"
  have "online ?t 0" "length (tl_processors ?t) = MAX_CPUS"
    by (simp_all add: online_def mark_online_def tlb_boot_def MAX_CPUS_def)
  moreover obtain t where "refresh_local 0 ?t = Some (t, Some FlushUser)"
    by (simp add: refresh_local_def mark_online_def tlb_boot_def MAX_CPUS_def processor_boot_def upd_def)
  moreover have "flush_cache False {(4, False), (5, True)} = {(5, True)}"
    by (auto simp: flush_cache_def)
  ultimately show ?thesis
    using refresh_refines_steps [of ?s 0 t FlushUser] by (intro exI [of _ ?s] exI [of _ t]) simp
qed

text \<open>
  A stamp taken before the entries are removed guards nothing. When every online processor
  refreshes after the stamp, the stamp is safe at once, whatever is still mapped: a quarantined frame
  with that stamp would be released although a processor may have cached its entry since. Releasing a
  kernel stack takes its stamp first and unmaps the pages afterwards.
\<close>

theorem early_stamp_is_safe_at_once:
  "\<exists>t1 g t2 f2 t3 f3. retire_stamp_kernel (mark_online 1 (mark_online 0 tlb_boot)) = Some (t1, g) \<and>
     refresh_local 1 t1 = Some (t2, Some f2) \<and> refresh_local 0 t2 = Some (t3, Some f3) \<and>
     g \<le> safe_generation t3"
  by (simp add: retire_stamp_kernel_def bump_generation_def refresh_local_def mark_online_def tlb_boot_def
      MAX_CPUS_def processor_boot_def upd_def checked_add64_def wrap_add64_def U64_MAX_def safe_generation_def
      seen_of_def in_mask_def upt_rec)

end
