(* ===== verification/Elf.thy ===== *)
theory Elf
  imports Frames
begin

text \<open>
  The bounded ELF64 reader of the initial package (\<open>kernel/src/elf.rs\<close>). Offsets and lengths are
  natural numbers; the additions the source checks return a refusal on overflow, the ones it does not
  check would panic, and the outer option is that panic. The properties: the reader never panics,
  whatever the bytes; and an image it accepts has only segments that are inside the file, page aligned,
  inside the user range, readable and never both writable and executable, on disjoint pages.
\<close>

definition MAX_SEGMENTS :: nat where "MAX_SEGMENTS = 8"
definition MAX_IMAGE_BYTES :: nat where "MAX_IMAGE_BYTES = 16 * 1024 * 1024"
definition MAX_IMAGE_PAGES :: nat where "MAX_IMAGE_PAGES = 4096"
definition HEADER_LEN :: nat where "HEADER_LEN = 64"
definition PROGRAM_HEADER_LEN :: nat where "PROGRAM_HEADER_LEN = 56"
definition ET_EXEC :: nat where "ET_EXEC = 2"
definition EM_X86_64 :: nat where "EM_X86_64 = 0x3E"
definition PT_LOAD :: nat where "PT_LOAD = 1"
definition USER_MIN_ADDR :: nat where "USER_MIN_ADDR = 0x1000"
definition USER_MAX_ADDR :: nat where "USER_MAX_ADDR = 0x800000000000"

datatype reject =
    TooShort | TooLarge | NotElf64 | WrongObjectType | BadProgramHeaders | SegmentOutsideImage
  | SegmentUnaligned | SegmentFileLargerThanMemory | SegmentOutsideUserRange | SegmentWriteAndExecute
  | SegmentWriteOrExecuteWithoutRead | SegmentOverlap | SegmentCount | ImageTooManyPages | EntryNotExecutable

fun reject_name :: "reject \<Rightarrow> string" where
  "reject_name TooShort = ''too_short''"
| "reject_name TooLarge = ''too_large''"
| "reject_name NotElf64 = ''not_elf64''"
| "reject_name WrongObjectType = ''wrong_object_type''"
| "reject_name BadProgramHeaders = ''bad_program_headers''"
| "reject_name SegmentOutsideImage = ''segment_outside_image''"
| "reject_name SegmentUnaligned = ''segment_unaligned''"
| "reject_name SegmentFileLargerThanMemory = ''segment_filesz_gt_memsz''"
| "reject_name SegmentOutsideUserRange = ''segment_outside_user_range''"
| "reject_name SegmentWriteAndExecute = ''segment_write_and_execute''"
| "reject_name SegmentWriteOrExecuteWithoutRead = ''segment_write_or_execute_without_read''"
| "reject_name SegmentOverlap = ''segment_overlap''"
| "reject_name SegmentCount = ''segment_count''"
| "reject_name ImageTooManyPages = ''image_too_many_pages''"
| "reject_name EntryNotExecutable = ''entry_not_executable''"

record segment =
  sg_vaddr :: nat
  sg_file_offset :: nat
  sg_file_len :: nat
  sg_mem_len :: nat
  sg_read :: bool
  sg_write :: bool
  sg_execute :: bool

definition segment_pages :: "segment \<Rightarrow> nat" where
  "segment_pages s = div_ceil (sg_mem_len s) PAGE_SIZE"

text \<open>The segments are the valid entries of the source's array, so their number is \<open>segment_count\<close>.\<close>

record elf_image =
  im_entry :: nat
  im_segments :: "segment list"
  im_pages :: nat

section \<open>Reading\<close>

definition le_value :: "u8 list \<Rightarrow> nat" where
  "le_value bs = foldr (\<lambda>b acc. unat b + 256 * acc) bs 0"

definition read_le :: "nat \<Rightarrow> u8 list \<Rightarrow> nat \<Rightarrow> nat option" where
  "read_le n bytes off =
     (if off + n \<le> length bytes then Some (le_value (take n (drop off bytes))) else None)"

definition read_u16 :: "u8 list \<Rightarrow> nat \<Rightarrow> nat option" where
  "read_u16 = read_le 2"

definition read_u32 :: "u8 list \<Rightarrow> nat \<Rightarrow> nat option" where
  "read_u32 = read_le 4"

definition read_u64 :: "u8 list \<Rightarrow> nat \<Rightarrow> nat option" where
  "read_u64 = read_le 8"

text \<open>\<open>ok_or(r)?\<close> and the early returns: a result is a refusal or a value.\<close>

definition bind_result :: "'e + 'a \<Rightarrow> ('a \<Rightarrow> 'e + 'b) \<Rightarrow> 'e + 'b" where
  "bind_result r f = (case r of Inl e \<Rightarrow> Inl e | Inr v \<Rightarrow> f v)"

definition ok_or :: "'a option \<Rightarrow> 'e \<Rightarrow> 'e + 'a" where
  "ok_or v e = (case v of None \<Rightarrow> Inl e | Some x \<Rightarrow> Inr x)"

definition refuse_if :: "bool \<Rightarrow> 'e \<Rightarrow> 'e + unit" where
  "refuse_if b e = (if b then Inl e else Inr ())"

section \<open>One program header\<close>

text \<open>The fields of the program header at \<open>base\<close> that the reader uses.\<close>

record program_header =
  ph_flags :: nat
  ph_offset :: nat
  ph_vaddr :: nat
  ph_filesz :: nat
  ph_memsz :: nat

definition read_program_header :: "u8 list \<Rightarrow> nat \<Rightarrow> reject + program_header" where
  "read_program_header img base =
     bind_result (ok_or (read_u32 img (base + 4)) BadProgramHeaders) (\<lambda>fl.
     bind_result (ok_or (read_u64 img (base + 8)) BadProgramHeaders) (\<lambda>off.
     bind_result (ok_or (read_u64 img (base + 16)) BadProgramHeaders) (\<lambda>va.
     bind_result (ok_or (read_u64 img (base + 32)) BadProgramHeaders) (\<lambda>fs.
     bind_result (ok_or (read_u64 img (base + 40)) BadProgramHeaders) (\<lambda>ms.
       Inr \<lparr>ph_flags = fl, ph_offset = off, ph_vaddr = va, ph_filesz = fs, ph_memsz = ms\<rparr>)))))"

definition PF_X :: nat where "PF_X = 1"
definition PF_W :: nat where "PF_W = 2"
definition PF_R :: nat where "PF_R = 4"

definition has_flag :: "nat \<Rightarrow> nat \<Rightarrow> bool" where
  "has_flag flags f = (flags AND f \<noteq> 0)"

definition check_segment :: "nat \<Rightarrow> program_header \<Rightarrow> reject + segment" where
  "check_segment len h =
     bind_result (refuse_if (ph_filesz h > ph_memsz h) SegmentFileLargerThanMemory) (\<lambda>_.
     bind_result (ok_or (checked_add64 (ph_offset h) (ph_filesz h)) SegmentOutsideImage) (\<lambda>file_end.
     bind_result (refuse_if (file_end > len) SegmentOutsideImage) (\<lambda>_.
     bind_result (refuse_if (ph_vaddr h mod PAGE_SIZE \<noteq> 0) SegmentUnaligned) (\<lambda>_.
     bind_result (ok_or (checked_add64 (ph_vaddr h) (ph_memsz h)) SegmentOutsideUserRange) (\<lambda>mem_end.
     bind_result (refuse_if (ph_vaddr h < USER_MIN_ADDR \<or> mem_end > USER_MAX_ADDR) SegmentOutsideUserRange) (\<lambda>_.
     let r = has_flag (ph_flags h) PF_R; w = has_flag (ph_flags h) PF_W; x = has_flag (ph_flags h) PF_X in
     bind_result (refuse_if (w \<and> x) SegmentWriteAndExecute) (\<lambda>_.
     bind_result (refuse_if (\<not> r \<and> (w \<or> x)) SegmentWriteOrExecuteWithoutRead) (\<lambda>_.
     bind_result (refuse_if (\<not> r) SegmentWriteOrExecuteWithoutRead) (\<lambda>_.
       Inr \<lparr>sg_vaddr = ph_vaddr h, sg_file_offset = ph_offset h, sg_file_len = ph_filesz h,
            sg_mem_len = ph_memsz h, sg_read = r, sg_write = w, sg_execute = x\<rparr>)))))))))"

text \<open>The end of a segment's last page; the source adds and multiplies unchecked.\<close>

definition segment_end :: "segment \<Rightarrow> nat option" where
  "segment_end s =
     (if segment_pages s * PAGE_SIZE \<le> U64_MAX then checked_add64 (sg_vaddr s) (segment_pages s * PAGE_SIZE)
      else None)"

fun overlaps_any :: "nat \<Rightarrow> nat \<Rightarrow> segment list \<Rightarrow> bool option" where
  "overlaps_any start stop [] = Some False"
| "overlaps_any start stop (e # es) = do {
     other_end \<leftarrow> segment_end e;
     if start < other_end \<and> sg_vaddr e < stop then Some True else overlaps_any start stop es
   }"

section \<open>The image\<close>

text \<open>
  One turn of the loop over the program headers: the segments found so far and their pages. The outer
  option is a panic, the sum the refusal.
\<close>

type_synonym elf_state = "segment list \<times> nat"

definition elf_header :: "u8 list \<Rightarrow> nat \<Rightarrow> nat \<Rightarrow> elf_state \<Rightarrow> (reject + elf_state) option" where
  "elf_header img phoff index st = do {
     base \<leftarrow> checked_add64 phoff (index * PROGRAM_HEADER_LEN);
     case st of (segments, pages) \<Rightarrow>
     (case read_u32 img base of
        None \<Rightarrow> Some (Inl BadProgramHeaders)
      | Some p_type \<Rightarrow>
          if p_type \<noteq> PT_LOAD then Some (Inr st)
          else if length segments = MAX_SEGMENTS then Some (Inl SegmentCount)
          else (case read_program_header img base of
             Inl e \<Rightarrow> Some (Inl e)
           | Inr h \<Rightarrow>
               if ph_memsz h = 0 then Some (Inr st)
               else (case check_segment (length img) h of
                  Inl e \<Rightarrow> Some (Inl e)
                | Inr s \<Rightarrow> do {
                    stop \<leftarrow> segment_end s;
                    clash \<leftarrow> overlaps_any (sg_vaddr s) stop segments;
                    if clash then Some (Inl SegmentOverlap)
                    else (case checked_add64 pages (segment_pages s) of
                        None \<Rightarrow> Some (Inl ImageTooManyPages)
                      | Some p \<Rightarrow>
                          if p > MAX_IMAGE_PAGES then Some (Inl ImageTooManyPages)
                          else Some (Inr (segments @ [s], p)))
                  })))
   }"

fun elf_loop :: "u8 list \<Rightarrow> nat \<Rightarrow> nat list \<Rightarrow> elf_state \<Rightarrow> (reject + elf_state) option" where
  "elf_loop img phoff [] st = Some (Inr st)"
| "elf_loop img phoff (i # is) st = do {
     r \<leftarrow> elf_header img phoff i st;
     case r of Inl e \<Rightarrow> Some (Inl e) | Inr st' \<Rightarrow> elf_loop img phoff is st'
   }"

fun entry_in :: "nat \<Rightarrow> segment list \<Rightarrow> bool option" where
  "entry_in entry [] = Some False"
| "entry_in entry (s # ss) =
     (if sg_execute s \<and> entry \<ge> sg_vaddr s then
        (case checked_add64 (sg_vaddr s) (sg_mem_len s) of
           None \<Rightarrow> None
         | Some e \<Rightarrow> if entry < e then Some True else entry_in entry ss)
      else entry_in entry ss)"

text \<open>The header: entry point, table offset and number of entries, or the refusal.\<close>

definition elf_ident :: "u8 list \<Rightarrow> bool" where
  "elf_ident img \<longleftrightarrow> take 4 img = [0x7F, 0x45, 0x4C, 0x46] \<and> img ! 4 = 2 \<and> img ! 5 = 1 \<and> img ! 6 = 1"

definition parse_header :: "u8 list \<Rightarrow> reject + nat \<times> nat \<times> nat" where
  "parse_header img =
     bind_result (refuse_if (length img > MAX_IMAGE_BYTES) TooLarge) (\<lambda>_.
     bind_result (refuse_if (length img < HEADER_LEN) TooShort) (\<lambda>_.
     bind_result (refuse_if (\<not> elf_ident img) NotElf64) (\<lambda>_.
     bind_result (ok_or (read_u16 img 16) TooShort) (\<lambda>e_type.
     bind_result (refuse_if (e_type \<noteq> ET_EXEC) WrongObjectType) (\<lambda>_.
     bind_result (ok_or (read_u16 img 18) TooShort) (\<lambda>e_machine.
     bind_result (refuse_if (e_machine \<noteq> EM_X86_64) WrongObjectType) (\<lambda>_.
     bind_result (ok_or (read_u64 img 24) TooShort) (\<lambda>entry.
     bind_result (ok_or (read_u64 img 32) TooShort) (\<lambda>phoff.
     bind_result (ok_or (read_u16 img 54) TooShort) (\<lambda>phentsize.
     bind_result (ok_or (read_u16 img 56) TooShort) (\<lambda>phnum.
     bind_result (refuse_if (phentsize \<noteq> PROGRAM_HEADER_LEN \<or> phnum = 0 \<or> phnum > 64) BadProgramHeaders) (\<lambda>_.
     bind_result (ok_or (checked_add64 phoff (phnum * PROGRAM_HEADER_LEN)) BadProgramHeaders) (\<lambda>table_end.
     bind_result (refuse_if (table_end > length img) BadProgramHeaders) (\<lambda>_.
       Inr (entry, phoff, phnum)))))))))))))))"

definition parse_user_image :: "u8 list \<Rightarrow> (reject + elf_image) option" where
  "parse_user_image img =
     (case parse_header img of
        Inl e \<Rightarrow> Some (Inl e)
      | Inr (entry, phoff, phnum) \<Rightarrow> do {
          r \<leftarrow> elf_loop img phoff [0..<phnum] ([], 0);
          case r of
            Inl e \<Rightarrow> Some (Inl e)
          | Inr (segments, pages) \<Rightarrow>
              if segments = [] then Some (Inl SegmentCount)
              else do {
                ok \<leftarrow> entry_in entry segments;
                if \<not> ok then Some (Inl EntryNotExecutable)
                else Some (Inr \<lparr>im_entry = entry, im_segments = segments, im_pages = pages\<rparr>)
              }
        })"

section \<open>What the checks establish\<close>

definition segment_ok :: "nat \<Rightarrow> segment \<Rightarrow> bool" where
  "segment_ok len s \<longleftrightarrow> 0 < sg_mem_len s \<and> sg_file_len s \<le> sg_mem_len s \<and>
     sg_file_offset s + sg_file_len s \<le> len \<and> sg_vaddr s mod PAGE_SIZE = 0 \<and>
     USER_MIN_ADDR \<le> sg_vaddr s \<and> sg_vaddr s + sg_mem_len s \<le> USER_MAX_ADDR \<and>
     sg_read s \<and> \<not> (sg_write s \<and> sg_execute s)"

definition segment_addrs :: "segment \<Rightarrow> nat set" where
  "segment_addrs s = {sg_vaddr s..<sg_vaddr s + segment_pages s * PAGE_SIZE}"

lemma bind_result_Inr:
  "bind_result r f = Inr v \<longleftrightarrow> (\<exists>x. r = Inr x \<and> f x = Inr v)"
  by (cases r) (auto simp: bind_result_def)

lemma ok_or_Inr: "ok_or v e = Inr x \<longleftrightarrow> v = Some x"
  by (cases v) (auto simp: ok_or_def)

lemma refuse_if_Inr: "refuse_if b e = Inr x \<longleftrightarrow> \<not> b"
  by (auto simp: refuse_if_def)

lemma checked_add64_Some: "checked_add64 a b = Some c \<longleftrightarrow> c = a + b \<and> a + b \<le> U64_MAX"
  by (auto simp: checked_add64_def)

lemmas result_simps = bind_result_Inr ok_or_Inr refuse_if_Inr checked_add64_Some

lemma check_segment_ok:
  "check_segment len h = Inr s \<Longrightarrow> ph_memsz h \<noteq> 0 \<Longrightarrow> segment_ok len s"
  by (auto simp: check_segment_def result_simps Let_def segment_ok_def)

lemma pages_cover: "n \<le> div_ceil n PAGE_SIZE * PAGE_SIZE" "div_ceil n PAGE_SIZE * PAGE_SIZE < n + PAGE_SIZE"
proof -
  obtain q m where qm: "n div PAGE_SIZE = q" "n mod PAGE_SIZE = m" "q * PAGE_SIZE + m = n" "m < PAGE_SIZE"
    by (simp add: PAGE_SIZE_def)
  then have "n \<le> div_ceil n PAGE_SIZE * PAGE_SIZE \<and> div_ceil n PAGE_SIZE * PAGE_SIZE < n + PAGE_SIZE"
    unfolding div_ceil_def qm(1,2) by (cases "m = 0") auto
  then show "n \<le> div_ceil n PAGE_SIZE * PAGE_SIZE" "div_ceil n PAGE_SIZE * PAGE_SIZE < n + PAGE_SIZE"
    by blast+
qed

lemma segment_end_ok:
  assumes "segment_ok len s"
  shows "segment_end s = Some (sg_vaddr s + segment_pages s * PAGE_SIZE)"
proof -
  have "sg_vaddr s + segment_pages s * PAGE_SIZE \<le> USER_MAX_ADDR + PAGE_SIZE"
    using assms pages_cover(2) [of "sg_mem_len s"] by (simp add: segment_ok_def segment_pages_def)
  also have "\<dots> \<le> U64_MAX" by (simp add: USER_MAX_ADDR_def PAGE_SIZE_def U64_MAX_def)
  finally show ?thesis by (simp add: segment_end_def checked_add64_def)
qed

lemma overlaps_any_ok:
  assumes "\<forall>e \<in> set es. segment_ok len e" and "segment_ok len s" and "segment_end s = Some t"
  shows "\<exists>b. overlaps_any (sg_vaddr s) t es = Some b \<and> (b \<longleftrightarrow> (\<exists>e \<in> set es. segment_addrs s \<inter> segment_addrs e \<noteq> {}))"
  using assms(1)
proof (induction es)
  case (Cons e es)
  have t: "t = sg_vaddr s + segment_pages s * PAGE_SIZE"
    using assms(2,3) segment_end_ok by simp
  have pos: "0 < segment_pages x * PAGE_SIZE" if "segment_ok len x" for x
  proof -
    have "0 < sg_mem_len x" using that by (simp add: segment_ok_def)
    then show ?thesis
      using pages_cover(1) [of "sg_mem_len x"] unfolding segment_pages_def by (rule less_le_trans)
  qed
  have e: "segment_end e = Some (sg_vaddr e + segment_pages e * PAGE_SIZE)"
    using segment_end_ok [of len e] Cons.prems by simp
  have "sg_vaddr s < sg_vaddr e + segment_pages e * PAGE_SIZE \<and> sg_vaddr e < t \<longleftrightarrow>
      segment_addrs s \<inter> segment_addrs e \<noteq> {}"
  proof
    assume "sg_vaddr s < sg_vaddr e + segment_pages e * PAGE_SIZE \<and> sg_vaddr e < t"
    then have "max (sg_vaddr s) (sg_vaddr e) \<in> segment_addrs s \<inter> segment_addrs e"
      using pos [OF assms(2)] pos [of e] Cons.prems by (auto simp: segment_addrs_def t)
    then show "segment_addrs s \<inter> segment_addrs e \<noteq> {}" by blast
  qed (auto simp: segment_addrs_def t)
  then show ?case using Cons e by auto
qed (auto intro: exI [of _ False])

text \<open>The invariant of the loop over the program headers.\<close>

definition elf_inv :: "nat \<Rightarrow> elf_state \<Rightarrow> bool" where
  "elf_inv len st \<longleftrightarrow> (\<forall>s \<in> set (fst st). segment_ok len s) \<and> length (fst st) \<le> MAX_SEGMENTS \<and>
     sorted_wrt (\<lambda>a b. segment_addrs a \<inter> segment_addrs b = {}) (fst st) \<and>
     snd st = sum_list (map segment_pages (fst st)) \<and> snd st \<le> MAX_IMAGE_PAGES"

text \<open>What one header contributes, when nothing is wrong with it.\<close>

definition load_of :: "u8 list \<Rightarrow> nat \<Rightarrow> nat \<Rightarrow> segment list" where
  "load_of img phoff i =
     (case read_program_header img (phoff + i * PROGRAM_HEADER_LEN) of
        Inl _ \<Rightarrow> []
      | Inr h \<Rightarrow>
          if read_u32 img (phoff + i * PROGRAM_HEADER_LEN) = Some PT_LOAD \<and> ph_memsz h \<noteq> 0
          then (case check_segment (length img) h of Inl _ \<Rightarrow> [] | Inr s \<Rightarrow> [s]) else [])"

lemma elf_header_step:
  assumes "elf_inv (length img) st" and "phoff + i * PROGRAM_HEADER_LEN \<le> U64_MAX"
  shows "\<exists>r. elf_header img phoff i st = Some r \<and>
    (\<forall>st'. r = Inr st' \<longrightarrow> elf_inv (length img) st' \<and> fst st' = fst st @ load_of img phoff i)"
proof -
  obtain segs pages where st: "st = (segs, pages)" by force
  let ?base = "phoff + i * PROGRAM_HEADER_LEN"
  have base: "checked_add64 phoff (i * PROGRAM_HEADER_LEN) = Some ?base"
    using assms(2) by (simp add: checked_add64_def)
  show ?thesis
  proof (cases "read_u32 img ?base = Some PT_LOAD \<and> length segs \<noteq> MAX_SEGMENTS")
    case False
    then show ?thesis
      using assms(1) base unfolding st elf_header_def
      by (auto simp: load_of_def split: option.splits sum.splits if_splits)
  next
    case True
    show ?thesis
    proof (cases "read_program_header img ?base")
      case (Inl e)
      then show ?thesis using True base unfolding st elf_header_def by simp
    next
      case (Inr h)
      show ?thesis
      proof (cases "ph_memsz h = 0")
        case True
        then show ?thesis
          using Inr \<open>read_u32 img ?base = Some PT_LOAD \<and> _\<close> base assms(1)
          unfolding st elf_header_def by (simp add: load_of_def)
      next
        case False
        show ?thesis
        proof (cases "check_segment (length img) h")
          case (Inl e)
          then show ?thesis
            using Inr False True base unfolding st elf_header_def by simp
        next
          case chk: (Inr s)
          have ok: "segment_ok (length img) s" using check_segment_ok [OF chk False] .
          have segs: "\<forall>e \<in> set segs. segment_ok (length img) e" using assms(1) by (simp add: elf_inv_def st)
          obtain b where b: "overlaps_any (sg_vaddr s) (sg_vaddr s + segment_pages s * PAGE_SIZE) segs = Some b"
              "b \<longleftrightarrow> (\<exists>e \<in> set segs. segment_addrs s \<inter> segment_addrs e \<noteq> {})"
            using overlaps_any_ok [OF segs ok segment_end_ok [OF ok]] by blast
          have load: "load_of img phoff i = [s]" using True Inr False chk by (simp add: load_of_def)
          have new: "elf_inv (length img) (segs @ [s], pages + segment_pages s)"
            if "\<not> b" "pages + segment_pages s \<le> MAX_IMAGE_PAGES"
            using assms(1) ok that b(2) True by (auto simp: elf_inv_def st sorted_wrt_append)
          show ?thesis
            using True Inr False chk base b(1) segment_end_ok [OF ok] new load
            unfolding st elf_header_def by (auto simp: checked_add64_def)
        qed
      qed
    qed
  qed
qed

lemma elf_loop_ok:
  assumes "elf_inv (length img) st" and "\<forall>i \<in> set is. phoff + i * PROGRAM_HEADER_LEN \<le> U64_MAX"
  shows "\<exists>r. elf_loop img phoff is st = Some r \<and>
    (\<forall>st'. r = Inr st' \<longrightarrow> elf_inv (length img) st' \<and> fst st' = fst st @ concat (map (load_of img phoff) is))"
  using assms
proof (induction "is" arbitrary: st)
  case (Cons i "is")
  obtain r where r: "elf_header img phoff i st = Some r"
      "\<And>st'. r = Inr st' \<Longrightarrow> elf_inv (length img) st' \<and> fst st' = fst st @ load_of img phoff i"
    using elf_header_step [OF Cons.prems(1), of phoff i] Cons.prems(2) by auto
  show ?case
  proof (cases r)
    case (Inl e)
    then show ?thesis using r(1) by simp
  next
    case (Inr st')
    then show ?thesis using r Cons.IH [of st'] Cons.prems(2) by auto
  qed
qed auto

lemma entry_in_ok:
  assumes "\<forall>s \<in> set ss. segment_ok len s"
  shows "entry_in entry ss = Some (\<exists>s \<in> set ss. sg_execute s \<and> sg_vaddr s \<le> entry \<and> entry < sg_vaddr s + sg_mem_len s)"
  using assms
proof (induction ss)
  case (Cons s ss)
  have "sg_vaddr s + sg_mem_len s \<le> USER_MAX_ADDR" using Cons.prems by (simp add: segment_ok_def)
  also have "\<dots> \<le> U64_MAX" by (simp add: USER_MAX_ADDR_def U64_MAX_def)
  finally have "checked_add64 (sg_vaddr s) (sg_mem_len s) = Some (sg_vaddr s + sg_mem_len s)"
    by (simp add: checked_add64_def)
  then show ?case using Cons by auto
qed simp

lemma parse_header_ok:
  assumes "parse_header img = Inr (entry, phoff, phnum)"
  shows "phoff + phnum * PROGRAM_HEADER_LEN \<le> length img" "length img \<le> MAX_IMAGE_BYTES" "0 < phnum" "phnum \<le> 64"
    "elf_ident img" "read_u64 img 24 = Some entry"
  using assms by (auto simp: parse_header_def result_simps)

lemma header_in_range:
  assumes "parse_header img = Inr (entry, phoff, phnum)"
  shows "\<forall>i \<in> set [0..<phnum]. phoff + i * PROGRAM_HEADER_LEN \<le> U64_MAX"
proof
  fix i
  assume "i \<in> set [0..<phnum]"
  then have "i * PROGRAM_HEADER_LEN \<le> phnum * PROGRAM_HEADER_LEN" by simp
  then have "phoff + i * PROGRAM_HEADER_LEN \<le> MAX_IMAGE_BYTES"
    using parse_header_ok(1,2) [OF assms] by linarith
  then show "phoff + i * PROGRAM_HEADER_LEN \<le> U64_MAX" by (simp add: MAX_IMAGE_BYTES_def U64_MAX_def)
qed

lemma elf_inv_start: "elf_inv len ([], 0)"
  by (simp add: elf_inv_def)

section \<open>Properties\<close>

text \<open>
  C17. The ELF reader never panics, and it accepts an image only with the guarantees the loader relies on:
  at least one and at most the allowed number of segments, exactly the non-empty loadable ones of the
  program header table in order; each inside the file, page aligned, inside the user range, readable and
  never writable and executable at once; no two of them on a common page; the page total what they add up
  to and within the bound; and the entry point inside an executable segment.
\<close>

theorem elf_accepts_only_safe:
  "parse_user_image img \<noteq> None \<and>
   (\<forall>im. parse_user_image img = Some (Inr im) \<longrightarrow>
      im_segments im \<noteq> [] \<and> length (im_segments im) \<le> MAX_SEGMENTS \<and>
      (\<exists>phoff phnum. parse_header img = Inr (im_entry im, phoff, phnum) \<and>
         im_segments im = concat (map (load_of img phoff) [0..<phnum])) \<and>
      (\<forall>s \<in> set (im_segments im). sg_file_offset s + sg_file_len s \<le> length img \<and>
         sg_file_len s \<le> sg_mem_len s \<and> sg_vaddr s mod PAGE_SIZE = 0 \<and>
         USER_MIN_ADDR \<le> sg_vaddr s \<and> sg_vaddr s + sg_mem_len s \<le> USER_MAX_ADDR \<and>
         rights_validate (rights_user (sg_read s) (sg_write s) (sg_execute s)) = Inr ()) \<and>
      (\<forall>i j. i < j \<and> j < length (im_segments im) \<longrightarrow>
         segment_addrs (im_segments im ! i) \<inter> segment_addrs (im_segments im ! j) = {}) \<and>
      im_pages im = sum_list (map segment_pages (im_segments im)) \<and> im_pages im \<le> MAX_IMAGE_PAGES \<and>
      (\<exists>s \<in> set (im_segments im). sg_execute s \<and> sg_vaddr s \<le> im_entry im \<and> im_entry im < sg_vaddr s + sg_mem_len s))"
proof (cases "parse_header img")
  case (Inl e)
  then show ?thesis by (simp add: parse_user_image_def)
next
  case (Inr h)
  obtain entry phoff phnum where h: "h = (entry, phoff, phnum)" by (cases h)
  obtain r where r: "elf_loop img phoff [0..<phnum] ([], 0) = Some r"
      "\<And>st'. r = Inr st' \<Longrightarrow> elf_inv (length img) st' \<and> fst st' = concat (map (load_of img phoff) [0..<phnum])"
    using elf_loop_ok [where img = img, OF elf_inv_start header_in_range [OF Inr [unfolded h]]] by auto
  show ?thesis
  proof (cases r)
    case (Inl e)
    then show ?thesis using Inr r(1) by (simp add: parse_user_image_def h)
  next
    case ok: (Inr st)
    obtain segs pages where st: "st = (segs, pages)" by force
    have inv: "elf_inv (length img) (segs, pages)" and segs: "segs = concat (map (load_of img phoff) [0..<phnum])"
      using r(2) ok st by auto
    have good: "\<forall>s \<in> set segs. segment_ok (length img) s" using inv by (simp add: elf_inv_def)
    have rights: "rights_validate (rights_user (sg_read s) (sg_write s) (sg_execute s)) = Inr ()" if "s \<in> set segs" for s
      using good that by (auto simp: rights_validate_def rights_user_def segment_ok_def)
    have "sorted_wrt (\<lambda>a b. segment_addrs a \<inter> segment_addrs b = {}) segs" using inv by (simp add: elf_inv_def)
    then have apart: "i < j \<Longrightarrow> j < length segs \<Longrightarrow> segment_addrs (segs ! i) \<inter> segment_addrs (segs ! j) = {}" for i j
      by (simp add: sorted_wrt_iff_nth_less)
    have "parse_user_image img = Some (if segs = [] then Inl SegmentCount
        else if \<not> (\<exists>s \<in> set segs. sg_execute s \<and> sg_vaddr s \<le> entry \<and> entry < sg_vaddr s + sg_mem_len s)
          then Inl EntryNotExecutable
        else Inr \<lparr>im_entry = entry, im_segments = segs, im_pages = pages\<rparr>)"
      using Inr r(1) ok st entry_in_ok [OF good, of entry] by (auto simp: parse_user_image_def h)
    then show ?thesis
      using inv good rights apart Inr segs
      by (auto simp: h elf_inv_def segment_ok_def split: if_splits)
  qed
qed

text \<open>A file of one header and one read-execute segment that covers the file.\<close>

definition tiny_elf :: "u8 list" where
  "tiny_elf =
    [127, 69, 76, 70, 2, 1, 1, 0, 0, 0, 0, 0, 0, 0, 0, 0, 2, 0, 62, 0,
     1, 0, 0, 0, 0, 16, 0, 0, 0, 0, 0, 0, 64, 0, 0, 0, 0, 0, 0, 0,
     0, 0, 0, 0, 0, 0, 0, 0, 0, 0, 0, 0, 64, 0, 56, 0, 1, 0, 0, 0,
     0, 0, 0, 0, 1, 0, 0, 0, 5, 0, 0, 0, 0, 0, 0, 0, 0, 0, 0, 0,
     0, 16, 0, 0, 0, 0, 0, 0, 0, 0, 0, 0, 0, 0, 0, 0, 120, 0, 0, 0,
     0, 0, 0, 0, 120, 0, 0, 0, 0, 0, 0, 0, 0, 16, 0, 0, 0, 0, 0, 0]"

lemma tiny_elf_accepted:
  "parse_user_image tiny_elf = Some (Inr \<lparr>im_entry = 4096,
     im_segments = [\<lparr>sg_vaddr = 4096, sg_file_offset = 0, sg_file_len = 120, sg_mem_len = 120,
       sg_read = True, sg_write = False, sg_execute = True\<rparr>], im_pages = 1\<rparr>)"
proof -
  have read: "read_u16 tiny_elf 16 = Some 2" "read_u16 tiny_elf 18 = Some 62" "read_u64 tiny_elf 24 = Some 4096"
    "read_u64 tiny_elf 32 = Some 64" "read_u16 tiny_elf 54 = Some 56" "read_u16 tiny_elf 56 = Some 1"
    "read_u32 tiny_elf 64 = Some 1" "read_u32 tiny_elf 68 = Some 5" "read_u64 tiny_elf 72 = Some 0"
    "read_u64 tiny_elf 80 = Some 4096" "read_u64 tiny_elf 96 = Some 120" "read_u64 tiny_elf 104 = Some 120"
    by (simp_all add: read_u16_def read_u32_def read_u64_def read_le_def tiny_elf_def le_value_def)
  have len: "length tiny_elf = 120" "elf_ident tiny_elf" by (simp_all add: tiny_elf_def elf_ident_def)
  note bounds = PAGE_SIZE_def U64_MAX_def MAX_IMAGE_BYTES_def MAX_IMAGE_PAGES_def HEADER_LEN_def PROGRAM_HEADER_LEN_def
    ET_EXEC_def EM_X86_64_def PT_LOAD_def USER_MIN_ADDR_def USER_MAX_ADDR_def MAX_SEGMENTS_def PF_R_def PF_W_def PF_X_def
  have head: "parse_header tiny_elf = Inr (4096, 64, 1)"
    by (simp add: parse_header_def bind_result_def ok_or_def refuse_if_def checked_add64_def read len bounds)
  have ph: "read_program_header tiny_elf 64 =
      Inr \<lparr>ph_flags = 5, ph_offset = 0, ph_vaddr = 4096, ph_filesz = 120, ph_memsz = 120\<rparr>"
    by (simp add: read_program_header_def bind_result_def ok_or_def read)
  have "elf_header tiny_elf 64 0 ([], 0) = Some (Inr ([\<lparr>sg_vaddr = 4096, sg_file_offset = 0, sg_file_len = 120,
      sg_mem_len = 120, sg_read = True, sg_write = False, sg_execute = True\<rparr>], 1))"
    by (simp add: elf_header_def read ph len check_segment_def bind_result_def ok_or_def refuse_if_def Let_def
        checked_add64_def has_flag_def segment_end_def segment_pages_def div_ceil_def bounds)
  then show ?thesis
    by (simp add: parse_user_image_def head checked_add64_def bounds)
qed

theorem elf_accepts_only_safe_witness:
  "\<exists>im. parse_user_image tiny_elf = Some (Inr im) \<and> im_segments im \<noteq> [] \<and> im_pages im \<le> MAX_IMAGE_PAGES"
  using elf_accepts_only_safe [of tiny_elf] tiny_elf_accepted by blast

end
