(* ===== verification/Sync.thy ===== *)
theory Sync
  imports Tlb
begin

text \<open>
  The kernel's locks (\<open>kernel/src/sync.rs\<close>) as step relations of their atomic operations: the spin lock
  with its flag, and the lock the hot paths hold shared and the control plane exclusive, with its ticket,
  its exclusion flag and one reader count per processor. A processor that spins takes no step; a program
  counter per processor says where in \<open>lock\<close>, \<open>read\<close> or \<open>write\<close> it is. Statistics and the invalidation
  service of the spin loops do not touch the lock and are left out.
\<close>

section \<open>The spin lock\<close>

datatype spin_pc = SOut | SSpin | STry | SHold

record spin_lock =
  sl_held :: u32
  sl_pc :: "nat \<Rightarrow> spin_pc"

definition spin_new :: spin_lock where
  "spin_new = \<lparr>sl_held = 0, sl_pc = (\<lambda>_. SOut)\<rparr>"

inductive spin_step :: "nat \<Rightarrow> spin_lock \<Rightarrow> spin_lock \<Rightarrow> bool" where
  lock_fast: "sl_pc l c = SOut \<Longrightarrow> sl_held l = 0 \<Longrightarrow> spin_step c l (l\<lparr>sl_held := 1, sl_pc := (sl_pc l)(c := SHold)\<rparr>)"
| lock_slow: "sl_pc l c = SOut \<Longrightarrow> sl_held l \<noteq> 0 \<Longrightarrow> spin_step c l (l\<lparr>sl_pc := (sl_pc l)(c := STry)\<rparr>)"
| exchange_ok: "sl_pc l c = STry \<Longrightarrow> sl_held l = 0 \<Longrightarrow> spin_step c l (l\<lparr>sl_held := 1, sl_pc := (sl_pc l)(c := SHold)\<rparr>)"
| exchange_failed: "sl_pc l c = STry \<Longrightarrow> spin_step c l (l\<lparr>sl_pc := (sl_pc l)(c := SSpin)\<rparr>)"
| looks_free: "sl_pc l c = SSpin \<Longrightarrow> sl_held l = 0 \<Longrightarrow> spin_step c l (l\<lparr>sl_pc := (sl_pc l)(c := STry)\<rparr>)"
| try_lock_ok: "sl_pc l c = SOut \<Longrightarrow> sl_held l = 0 \<Longrightarrow> spin_step c l (l\<lparr>sl_held := 1, sl_pc := (sl_pc l)(c := SHold)\<rparr>)"
| try_lock_refused: "sl_pc l c = SOut \<Longrightarrow> sl_held l \<noteq> 0 \<Longrightarrow> spin_step c l l"
| unlock: "sl_pc l c = SHold \<Longrightarrow> spin_step c l (l\<lparr>sl_held := 0, sl_pc := (sl_pc l)(c := SOut)\<rparr>)"

definition spin_next :: "spin_lock \<Rightarrow> spin_lock \<Rightarrow> bool" where
  "spin_next l l' \<longleftrightarrow> (\<exists>c. spin_step c l l')"

definition spin_inv :: "spin_lock \<Rightarrow> bool" where
  "spin_inv l \<longleftrightarrow>
     (\<forall>c d. sl_pc l c = SHold \<and> sl_pc l d = SHold \<longrightarrow> c = d) \<and> (sl_held l \<noteq> 0 \<longleftrightarrow> (\<exists>c. sl_pc l c = SHold))"

lemma spin_step_inv: "spin_step c l l' \<Longrightarrow> spin_inv l \<Longrightarrow> spin_inv l'"
  by (induction rule: spin_step.induct)
     (auto simp: spin_inv_def split: if_splits, (metis spin_pc.distinct)+)

lemma spin_reach_inv: "spin_next\<^sup>*\<^sup>* spin_new l \<Longrightarrow> spin_inv l"
proof (induction rule: rtranclp_induct)
  case base
  then show ?case by (simp add: spin_inv_def spin_new_def)
next
  case (step y z)
  then show ?case using spin_step_inv by (auto simp: spin_next_def)
qed

section \<open>The shared and exclusive lock\<close>

datatype br_pc =
    BOut
  | RStart | RStored | RWithdraw | RWait | RHold
  | WWait u32 | WIn u32 | WScan u32 nat | WHold u32 | WDrop u32

record brlock =
  br_next :: u32
  br_serving :: u32
  br_excluding :: u32
  br_readers :: "nat \<Rightarrow> u32"
  br_pc :: "nat \<Rightarrow> br_pc"
  br_queue :: "nat list"

text \<open>\<open>br_queue\<close> is not of the source: the processors that hold a ticket, in the order they took it.\<close>

definition br_new :: brlock where
  "br_new = \<lparr>br_next = 0, br_serving = 0, br_excluding = 0, br_readers = (\<lambda>_. 0), br_pc = (\<lambda>_. BOut), br_queue = []\<rparr>"

inductive br_step :: "nat \<Rightarrow> brlock \<Rightarrow> brlock \<Rightarrow> bool" where
  \<comment> \<open>\<open>read\<close>: store the count, then look at the flag; withdraw and wait when somebody excludes\<close>
  read_call: "c < MAX_CPUS \<Longrightarrow> br_pc l c = BOut \<Longrightarrow> br_step c l (l\<lparr>br_pc := (br_pc l)(c := RStart)\<rparr>)"
| read_store: "br_pc l c = RStart \<Longrightarrow>
    br_step c l (l\<lparr>br_readers := (br_readers l)(c := 1), br_pc := (br_pc l)(c := RStored)\<rparr>)"
| read_in: "br_pc l c = RStored \<Longrightarrow> br_excluding l = 0 \<Longrightarrow> br_step c l (l\<lparr>br_pc := (br_pc l)(c := RHold)\<rparr>)"
| read_excluded: "br_pc l c = RStored \<Longrightarrow> br_excluding l \<noteq> 0 \<Longrightarrow> br_step c l (l\<lparr>br_pc := (br_pc l)(c := RWithdraw)\<rparr>)"
| read_withdraw: "br_pc l c = RWithdraw \<Longrightarrow>
    br_step c l (l\<lparr>br_readers := (br_readers l)(c := 0), br_pc := (br_pc l)(c := RWait)\<rparr>)"
| read_retry: "br_pc l c = RWait \<Longrightarrow> br_excluding l = 0 \<Longrightarrow> br_step c l (l\<lparr>br_pc := (br_pc l)(c := RStart)\<rparr>)"
| read_drop: "br_pc l c = RHold \<Longrightarrow>
    br_step c l (l\<lparr>br_readers := (br_readers l)(c := 0), br_pc := (br_pc l)(c := BOut)\<rparr>)"
  \<comment> \<open>\<open>write\<close>: a ticket, its turn, the flag, then every count in order\<close>
| write_call: "c < MAX_CPUS \<Longrightarrow> br_pc l c = BOut \<Longrightarrow>
    br_step c l (l\<lparr>br_next := br_next l + 1, br_pc := (br_pc l)(c := WWait (br_next l)), br_queue := br_queue l @ [c]\<rparr>)"
| write_turn: "br_pc l c = WWait t \<Longrightarrow> br_serving l = t \<Longrightarrow> br_step c l (l\<lparr>br_pc := (br_pc l)(c := WIn t)\<rparr>)"
| write_exclude: "br_pc l c = WIn t \<Longrightarrow>
    br_step c l (l\<lparr>br_excluding := 1, br_pc := (br_pc l)(c := WScan t 0)\<rparr>)"
| write_scan: "br_pc l c = WScan t i \<Longrightarrow> i < MAX_CPUS \<Longrightarrow> br_readers l i = 0 \<Longrightarrow>
    br_step c l (l\<lparr>br_pc := (br_pc l)(c := WScan t (i + 1))\<rparr>)"
| write_in: "br_pc l c = WScan t i \<Longrightarrow> i = MAX_CPUS \<Longrightarrow> br_step c l (l\<lparr>br_pc := (br_pc l)(c := WHold t)\<rparr>)"
| write_drop: "br_pc l c = WHold t \<Longrightarrow>
    br_step c l (l\<lparr>br_excluding := 0, br_pc := (br_pc l)(c := WDrop t)\<rparr>)"
| write_serve: "br_pc l c = WDrop t \<Longrightarrow>
    br_step c l (l\<lparr>br_serving := br_serving l + 1, br_pc := (br_pc l)(c := BOut), br_queue := tl (br_queue l)\<rparr>)"

definition br_any :: "brlock \<Rightarrow> brlock \<Rightarrow> bool" where
  "br_any l l' \<longleftrightarrow> (\<exists>c. br_step c l l')"

fun ticket_of :: "br_pc \<Rightarrow> u32 option" where
  "ticket_of (WWait t) = Some t"
| "ticket_of (WIn t) = Some t"
| "ticket_of (WScan t i) = Some t"
| "ticket_of (WHold t) = Some t"
| "ticket_of (WDrop t) = Some t"
| "ticket_of _ = None"

fun admitted :: "br_pc \<Rightarrow> bool" where
  "admitted (WIn t) = True"
| "admitted (WScan t i) = True"
| "admitted (WHold t) = True"
| "admitted (WDrop t) = True"
| "admitted _ = False"

fun excludes :: "br_pc \<Rightarrow> bool" where
  "excludes (WScan t i) = True"
| "excludes (WHold t) = True"
| "excludes _ = False"

fun counted :: "br_pc \<Rightarrow> bool" where
  "counted RStored = True"
| "counted RWithdraw = True"
| "counted RHold = True"
| "counted _ = False"

text \<open>The processors a writer has already found without a shared hold.\<close>

fun cleared :: "br_pc \<Rightarrow> nat" where
  "cleared (WScan t i) = i"
| "cleared (WHold t) = MAX_CPUS"
| "cleared _ = 0"

definition br_queue_ok :: "brlock \<Rightarrow> bool" where
  "br_queue_ok l \<longleftrightarrow> distinct (br_queue l) \<and> set (br_queue l) \<subseteq> {..<MAX_CPUS} \<and>
     (\<forall>c. c \<in> set (br_queue l) \<longleftrightarrow> ticket_of (br_pc l c) \<noteq> None) \<and>
     (\<forall>k < length (br_queue l). ticket_of (br_pc l (br_queue l ! k)) = Some (br_serving l + of_nat k)) \<and>
     br_next l = br_serving l + of_nat (length (br_queue l))"

definition br_hold_ok :: "brlock \<Rightarrow> bool" where
  "br_hold_ok l \<longleftrightarrow>
     (\<forall>c. admitted (br_pc l c) \<longrightarrow> (\<exists>q. br_queue l = c # q)) \<and>
     (br_excluding l \<noteq> 0 \<longleftrightarrow> (\<exists>c. excludes (br_pc l c))) \<and>
     (\<forall>c. br_readers l c = (if counted (br_pc l c) then 1 else 0)) \<and>
     (\<forall>c d. d < cleared (br_pc l c) \<longrightarrow> br_pc l d \<noteq> RHold) \<and>
     (\<forall>c. br_pc l c \<noteq> BOut \<longrightarrow> c < MAX_CPUS) \<and>
     (\<forall>c t i. br_pc l c = WScan t i \<longrightarrow> i \<le> MAX_CPUS)"

definition br_inv :: "brlock \<Rightarrow> bool" where
  "br_inv l \<longleftrightarrow> br_queue_ok l \<and> br_hold_ok l"

section \<open>The queue of tickets\<close>

lemma br_queue_short: "br_queue_ok l \<Longrightarrow> length (br_queue l) \<le> MAX_CPUS"
  using card_mono [of "{..<MAX_CPUS}" "set (br_queue l)"] by (simp add: br_queue_ok_def distinct_card)

lemma small_word_eq: "k < 100 \<Longrightarrow> m < 100 \<Longrightarrow> (of_nat k :: u32) = of_nat m \<longleftrightarrow> k = m"
  by (auto simp: word_of_nat_eq_iff take_bit_nat_eq_self)

lemma queue_ok_same:
  assumes "br_queue_ok l" and "ticket_of (br_pc l' c) = ticket_of (br_pc l c)"
    and "\<And>d. d \<noteq> c \<Longrightarrow> br_pc l' d = br_pc l d"
    and "br_queue l' = br_queue l" "br_serving l' = br_serving l" "br_next l' = br_next l"
  shows "br_queue_ok l'"
proof -
  have "ticket_of (br_pc l' d) = ticket_of (br_pc l d)" for d using assms(2,3) by (cases "d = c") auto
  then show ?thesis using assms(1,4-6) by (simp add: br_queue_ok_def)
qed

lemma queue_ok_call:
  assumes "br_queue_ok l" and "c < MAX_CPUS" and "br_pc l c = BOut"
  shows "br_queue_ok (l\<lparr>br_next := br_next l + 1, br_pc := (br_pc l)(c := WWait (br_next l)),
    br_queue := br_queue l @ [c]\<rparr>)"
proof -
  have fresh: "c \<notin> set (br_queue l)" using assms(1,3) by (simp add: br_queue_ok_def)
  then have "br_queue l ! k \<noteq> c" if "k < length (br_queue l)" for k
    using that nth_mem by fastforce
  then show ?thesis
    using assms fresh by (auto simp: br_queue_ok_def nth_append less_Suc_eq)
qed

lemma queue_ok_serve:
  assumes "br_queue_ok l" and "br_queue l = c # q"
  shows "br_queue_ok (l\<lparr>br_serving := br_serving l + 1, br_pc := (br_pc l)(c := BOut), br_queue := tl (br_queue l)\<rparr>)"
proof -
  have q: "c \<notin> set q" using assms by (simp add: br_queue_ok_def)
  have "ticket_of (br_pc l (q ! k)) = Some (br_serving l + 1 + of_nat k)" "q ! k \<noteq> c" if "k < length q" for k
  proof -
    have "\<forall>k < length (c # q). ticket_of (br_pc l ((c # q) ! k)) = Some (br_serving l + of_nat k)"
      using assms by (simp add: br_queue_ok_def del: All_less_Suc2)
    from this [rule_format, of "Suc k"] that
    show "ticket_of (br_pc l (q ! k)) = Some (br_serving l + 1 + of_nat k)" by (simp add: add.assoc)
    show "q ! k \<noteq> c" using q that nth_mem by metis
  qed
  then show ?thesis
    using assms q by (auto simp: br_queue_ok_def add.assoc)
qed

text \<open>The ticket being served is the head of the queue's.\<close>

lemma served_is_head:
  assumes "br_queue_ok l" and "ticket_of (br_pc l c) = Some (br_serving l)"
  shows "\<exists>q. br_queue l = c # q"
proof -
  have "c \<in> set (br_queue l)" using assms by (simp add: br_queue_ok_def)
  then obtain k where k: "k < length (br_queue l)" "br_queue l ! k = c" by (auto simp: in_set_conv_nth)
  then have "(of_nat k :: u32) = of_nat 0" using assms by (auto simp: br_queue_ok_def)
  moreover have "k < 100" using k(1) br_queue_short [OF assms(1)] by (simp add: MAX_CPUS_def)
  ultimately have "k = 0" using small_word_eq [of k 0] by simp
  then show ?thesis using k by (cases "br_queue l") auto
qed

lemma head_ticket:
  assumes "br_queue_ok l" and "br_queue l = c # q"
  shows "ticket_of (br_pc l c) = Some (br_serving l)"
proof -
  have "\<forall>k < length (br_queue l). ticket_of (br_pc l (br_queue l ! k)) = Some (br_serving l + of_nat k)"
    using assms(1) by (simp add: br_queue_ok_def)
  from this [rule_format, of 0] show ?thesis using assms(2) by simp
qed

lemma one_admitted:
  "br_hold_ok l \<Longrightarrow> admitted (br_pc l c) \<Longrightarrow> admitted (br_pc l d) \<Longrightarrow> c = d"
  unfolding br_hold_ok_def by (metis list.inject)

lemma excludes_admitted: "excludes p \<Longrightarrow> admitted p"
  by (cases p) auto

lemma cleared_excludes: "0 < cleared p \<Longrightarrow> excludes p"
  by (cases p) auto

text \<open>One processor moves to \<open>p\<close>; what has to hold for the lock to stay in order.\<close>

lemma hold_ok_step:
  assumes inv: "br_hold_ok l" and c: "c < MAX_CPUS"
    and l': "br_pc l' = (br_pc l)(c := p)" "br_queue l' = br_queue l"
      "br_readers l' = (br_readers l)(c := if counted p then 1 else 0)"
    and adm: "admitted p \<Longrightarrow> \<exists>q. br_queue l = c # q"
    and exc: "br_excluding l' \<noteq> 0 \<longleftrightarrow> (\<exists>d. excludes (br_pc l' d))"
    and clr: "\<And>d. d < cleared p \<Longrightarrow> br_pc l d \<noteq> RHold"
    and hold: "p = RHold \<Longrightarrow> br_excluding l = 0"
    and scan: "\<And>t i. p = WScan t i \<Longrightarrow> i \<le> MAX_CPUS"
  shows "br_hold_ok l'"
proof -
  have "br_pc l' d \<noteq> RHold" if "d < cleared (br_pc l' e)" for e d
  proof (cases "d = c \<and> p = RHold")
    case True
    then have "\<not> excludes (br_pc l e)" using hold inv by (auto simp: br_hold_ok_def)
    then have "cleared (br_pc l e) = 0" using cleared_excludes by blast
    moreover have "e \<noteq> c" using that True l'(1) by auto
    ultimately show ?thesis using that l'(1) by simp
  next
    case False
    then show ?thesis
      using that clr inv l'(1) by (cases "e = c"; cases "d = c") (auto simp: br_hold_ok_def)
  qed
  then show ?thesis
    using inv c l' adm exc scan unfolding br_hold_ok_def by (auto split: if_splits)
qed

lemma excluding_same:
  assumes "br_hold_ok l" and "excludes p = excludes (br_pc l c)"
  shows "br_excluding l \<noteq> 0 \<longleftrightarrow> (\<exists>d. excludes (((br_pc l)(c := p)) d))"
proof -
  have "excludes (((br_pc l)(c := p)) d) = excludes (br_pc l d)" for d using assms(2) by simp
  then show ?thesis using assms(1) by (simp add: br_hold_ok_def)
qed

lemma br_inv_cpu: "br_inv l \<Longrightarrow> br_pc l c \<noteq> BOut \<Longrightarrow> c < MAX_CPUS"
  by (simp add: br_inv_def br_hold_ok_def)

lemma no_ticket: "ticket_of p = None \<Longrightarrow> \<not> admitted p \<and> \<not> excludes p \<and> cleared p = 0 \<and> (\<forall>t i. p \<noteq> WScan t i)"
  by (cases p) auto

lemma with_ticket: "ticket_of p = Some t \<Longrightarrow> \<not> counted p \<and> p \<noteq> RHold \<and> p \<noteq> BOut"
  by (cases p) auto

lemma br_step_reader:
  assumes "br_inv l" and "c < MAX_CPUS" and "ticket_of (br_pc l c) = None" and "ticket_of p = None"
    and "p = RHold \<Longrightarrow> br_excluding l = 0"
    and "readers = (br_readers l)(c := if counted p then 1 else 0)"
  shows "br_inv (l\<lparr>br_readers := readers, br_pc := (br_pc l)(c := p)\<rparr>)"
proof -
  have p: "\<not> admitted p" "\<not> excludes p" "cleared p = 0" "\<not> excludes (br_pc l c)" "\<And>t i. p \<noteq> WScan t i"
    using no_ticket [OF assms(3)] no_ticket [OF assms(4)] by auto
  have h: "br_hold_ok l" using assms(1) by (simp add: br_inv_def)
  have "br_hold_ok (l\<lparr>br_readers := readers, br_pc := (br_pc l)(c := p)\<rparr>)"
  proof (rule hold_ok_step [OF h assms(2), where p = p])
    show "br_excluding (l\<lparr>br_readers := readers, br_pc := (br_pc l)(c := p)\<rparr>) \<noteq> 0 \<longleftrightarrow>
        (\<exists>d. excludes (br_pc (l\<lparr>br_readers := readers, br_pc := (br_pc l)(c := p)\<rparr>) d))"
      using excluding_same [OF h, of p c] p(2,4) by simp
  qed (use p assms(5,6) in simp_all)
  moreover have "br_queue_ok (l\<lparr>br_readers := readers, br_pc := (br_pc l)(c := p)\<rparr>)"
    by (rule queue_ok_same [where l = l and c = c]) (use assms(1,3,4) in \<open>simp_all add: br_inv_def\<close>)
  ultimately show ?thesis by (simp add: br_inv_def)
qed

lemma readers_same:
  "br_inv l \<Longrightarrow> counted p = counted (br_pc l c) \<Longrightarrow> br_readers l = (br_readers l)(c := if counted p then 1 else 0)"
  by (simp add: br_inv_def br_hold_ok_def fun_eq_iff)

lemma br_step_writer:
  assumes "br_inv l" and "ticket_of p = Some t" and "ticket_of (br_pc l c) = Some t"
    and "\<exists>q. br_queue l = c # q"
    and "e \<noteq> 0 \<longleftrightarrow> (\<exists>d. excludes (((br_pc l)(c := p)) d))"
    and "\<And>d. d < cleared p \<Longrightarrow> br_pc l d \<noteq> RHold" and "\<And>t i. p = WScan t i \<Longrightarrow> i \<le> MAX_CPUS"
  shows "br_inv (l\<lparr>br_excluding := e, br_pc := (br_pc l)(c := p)\<rparr>)"
proof -
  have h: "br_hold_ok l" using assms(1) by (simp add: br_inv_def)
  have c: "c < MAX_CPUS" using br_inv_cpu [OF assms(1), of c] with_ticket [OF assms(3)] by simp
  have nc: "\<not> counted p" "\<not> counted (br_pc l c)" "p \<noteq> RHold"
    using with_ticket [OF assms(2)] with_ticket [OF assms(3)] by auto
  have "br_hold_ok (l\<lparr>br_excluding := e, br_pc := (br_pc l)(c := p)\<rparr>)"
  proof (rule hold_ok_step [OF h c, where p = p])
    show "br_excluding (l\<lparr>br_excluding := e, br_pc := (br_pc l)(c := p)\<rparr>) \<noteq> 0 \<longleftrightarrow>
        (\<exists>d. excludes (br_pc (l\<lparr>br_excluding := e, br_pc := (br_pc l)(c := p)\<rparr>) d))"
      using assms(5) by simp
    show "br_readers (l\<lparr>br_excluding := e, br_pc := (br_pc l)(c := p)\<rparr>) =
        (br_readers l)(c := if counted p then 1 else 0)"
      using readers_same [OF assms(1), of p c] nc by simp
  qed (use assms(4,6,7) nc in simp_all)
  moreover have "br_queue_ok (l\<lparr>br_excluding := e, br_pc := (br_pc l)(c := p)\<rparr>)"
    by (rule queue_ok_same [where l = l and c = c]) (use assms(1,2,3) in \<open>simp_all add: br_inv_def\<close>)
  ultimately show ?thesis by (simp add: br_inv_def)
qed

lemma admitted_head:
  "br_inv l \<Longrightarrow> admitted (br_pc l c) \<Longrightarrow> \<exists>q. br_queue l = c # q"
  by (simp add: br_inv_def br_hold_ok_def)

lemma br_step_inv:
  assumes "br_step c l l'" and "br_inv l"
  shows "br_inv l'"
  using assms
proof (induction rule: br_step.induct)
  case (read_call c l)
  then show ?case
    using br_step_reader [of l c RStart "br_readers l"] readers_same [of l RStart c] by simp
next
  case (read_store l c)
  then show ?case using br_step_reader [of l c RStored] br_inv_cpu [of l c] by simp
next
  case (read_in l c)
  then show ?case
    using br_step_reader [of l c RHold "br_readers l"] readers_same [of l RHold c] br_inv_cpu [of l c] by simp
next
  case (read_excluded l c)
  then show ?case
    using br_step_reader [of l c RWithdraw "br_readers l"] readers_same [of l RWithdraw c] br_inv_cpu [of l c] by simp
next
  case (read_withdraw l c)
  then show ?case using br_step_reader [of l c RWait] br_inv_cpu [of l c] by simp
next
  case (read_retry l c)
  then show ?case
    using br_step_reader [of l c RStart "br_readers l"] readers_same [of l RStart c] br_inv_cpu [of l c] by simp
next
  case (read_drop l c)
  then show ?case using br_step_reader [of l c BOut] br_inv_cpu [of l c] by simp
next
  case (write_call c l)
  let ?l = "l\<lparr>br_next := br_next l + 1, br_pc := (br_pc l)(c := WWait (br_next l)), br_queue := br_queue l @ [c]\<rparr>"
  have h: "br_hold_ok l" using write_call by (simp add: br_inv_def)
  have same: "excludes (br_pc ?l d) = excludes (br_pc l d)" "admitted (br_pc ?l d) = admitted (br_pc l d)"
      "counted (br_pc ?l d) = counted (br_pc l d)" "cleared (br_pc ?l d) = cleared (br_pc l d)"
      "(br_pc ?l d = RHold) = (br_pc l d = RHold)" "\<And>t i. (br_pc ?l d = WScan t i) = (br_pc l d = WScan t i)" for d
    using write_call.hyps(2) by auto
  have "br_hold_ok ?l"
    using h write_call.hyps(1) unfolding br_hold_ok_def same by auto
  then show ?case
    using write_call queue_ok_call [of l c] by (simp add: br_inv_def)
next
  case (write_turn l c t)
  then show ?case
    using br_step_writer [of l "WIn t" t c "br_excluding l"] served_is_head [of l c]
      excluding_same [of l "WIn t" c] by (simp add: br_inv_def)
next
  case (write_exclude l c t)
  show ?case
  proof -
    have "\<exists>d. excludes (((br_pc l)(c := WScan t 0)) d)" by (rule exI [of _ c]) simp
    then show ?thesis
      using write_exclude br_step_writer [of l "WScan t 0" t c 1] admitted_head [of l c] by simp
  qed
next
  case (write_scan l c t i)
  have h: "br_hold_ok l" using write_scan by (simp add: br_inv_def)
  have "br_pc l i \<noteq> RHold" using write_scan.hyps(3) h by (auto simp: br_hold_ok_def)
  then have "br_pc l d \<noteq> RHold" if "d < i + 1" for d
  proof (cases "d = i")
    case False
    then have "d < cleared (br_pc l c)" using that write_scan.hyps(1) by simp
    then show ?thesis using h by (simp add: br_hold_ok_def)
  qed simp
  then show ?case
    using write_scan br_step_writer [of l "WScan t (i + 1)" t c "br_excluding l"] admitted_head [of l c]
      excluding_same [OF h, of "WScan t (i + 1)" c] by simp
next
  case (write_in l c t i)
  have h: "br_hold_ok l" using write_in by (simp add: br_inv_def)
  have "br_pc l d \<noteq> RHold" if "d < MAX_CPUS" for d
    using that h write_in.hyps unfolding br_hold_ok_def by (metis cleared.simps(1))
  then show ?case
    using write_in br_step_writer [of l "WHold t" t c "br_excluding l"] admitted_head [of l c]
      excluding_same [OF h, of "WHold t" c] by simp
next
  case (write_drop l c t)
  have h: "br_hold_ok l" using write_drop by (simp add: br_inv_def)
  have "\<not> excludes (br_pc l d)" if "d \<noteq> c" for d
    using one_admitted [OF h, of c d] excludes_admitted write_drop.hyps that by auto
  then show ?case
    using write_drop br_step_writer [of l "WDrop t" t c 0] admitted_head [of l c] by simp
next
  case (write_serve l c t)
  let ?l = "l\<lparr>br_serving := br_serving l + 1, br_pc := (br_pc l)(c := BOut), br_queue := tl (br_queue l)\<rparr>"
  have h: "br_hold_ok l" using write_serve by (simp add: br_inv_def)
  obtain q where q: "br_queue l = c # q" using admitted_head [of l c] write_serve by auto
  have alone: "\<not> admitted (br_pc l d)" if "d \<noteq> c" for d
    using one_admitted [OF h, of c d] write_serve.hyps that by auto
  have none: "\<not> admitted (br_pc ?l d)" for d using alone by (cases "d = c") auto
  have same: "excludes (br_pc ?l d) = excludes (br_pc l d)"
      "counted (br_pc ?l d) = counted (br_pc l d)" "cleared (br_pc ?l d) = cleared (br_pc l d)"
      "(br_pc ?l d = RHold) = (br_pc l d = RHold)" "\<And>t i. (br_pc ?l d = WScan t i) = (br_pc l d = WScan t i)" for d
    using write_serve.hyps by auto
  have "br_hold_ok ?l"
    using h none unfolding br_hold_ok_def same by auto
  then show ?case using queue_ok_serve [OF _ q] write_serve by (simp add: br_inv_def)
qed

lemma br_reach_inv: "br_any\<^sup>*\<^sup>* br_new l \<Longrightarrow> br_inv l"
proof (induction rule: rtranclp_induct)
  case base
  then show ?case by (simp add: br_inv_def br_queue_ok_def br_hold_ok_def br_new_def)
next
  case (step y z)
  then show ?case using br_step_inv by (auto simp: br_any_def)
qed

section \<open>Properties\<close>

text \<open>
  A spin lock has at most one holder, whatever the interleaving of the processors' exchanges, looks
  and releases, and its flag is set exactly while somebody holds it, so a try that is refused found a
  holder.
\<close>

theorem spin_lock_exclusive:
  assumes "spin_next\<^sup>*\<^sup>* spin_new l"
  shows "(\<forall>c d. sl_pc l c = SHold \<and> sl_pc l d = SHold \<longrightarrow> c = d) \<and> (sl_held l = 0 \<longleftrightarrow> (\<nexists>c. sl_pc l c = SHold))"
  using spin_reach_inv [OF assms] unfolding spin_inv_def by blast

theorem spin_lock_exclusive_witness:
  "\<exists>l. spin_next\<^sup>*\<^sup>* spin_new l \<and> sl_pc l 0 = SHold \<and> sl_held l \<noteq> 0"
proof -
  let ?l = "spin_new\<lparr>sl_held := 1, sl_pc := (sl_pc spin_new)(0 := SHold)\<rparr>"
  have "spin_step 0 spin_new ?l" by (rule lock_fast) (simp_all add: spin_new_def)
  then have r: "spin_next\<^sup>*\<^sup>* spin_new ?l" by (intro r_into_rtranclp) (auto simp: spin_next_def)
  show ?thesis using spin_lock_exclusive [OF r] r by (intro exI [of _ ?l]) simp
qed

text \<open>
  C18. The shared and exclusive lock excludes: in every interleaving of the processors' loads and stores,
  while one processor holds it exclusively no other holds it at all, shared or exclusive; and exclusive
  holds are granted in the order the tickets were taken, wrap-around of the 32-bit counters included.
\<close>

theorem br_lock_exclusive:
  assumes "br_any\<^sup>*\<^sup>* br_new l" and "br_pc l c = WHold t"
  shows "(\<forall>d. br_pc l d \<noteq> RHold \<and> (d \<noteq> c \<longrightarrow> (\<forall>u. br_pc l d \<noteq> WHold u))) \<and> hd (br_queue l) = c \<and> t = br_serving l"
proof -
  have inv: "br_inv l" using br_reach_inv [OF assms(1)] .
  then have h: "br_hold_ok l" and q: "br_queue_ok l" by (simp_all add: br_inv_def)
  obtain r where r: "br_queue l = c # r" using admitted_head [OF inv, of c] assms(2) by auto
  have "br_pc l d \<noteq> RHold" for d
    using h assms(2) unfolding br_hold_ok_def by (metis br_pc.distinct(9) cleared.simps(2))
  moreover have "br_pc l d \<noteq> WHold u" if "d \<noteq> c" for d u
    using one_admitted [OF h, of c d] assms(2) that by auto
  moreover have "t = br_serving l" using head_ticket [OF q r] assms(2) by simp
  ultimately show ?thesis using r by simp
qed

text \<open>A run that takes the lock exclusively on processor 0.\<close>

lemma br_scan_all:
  "br_pc l 0 = WScan t i \<Longrightarrow> i \<le> MAX_CPUS \<Longrightarrow> \<forall>d. br_readers l d = 0 \<Longrightarrow>
   br_any\<^sup>*\<^sup>* l (l\<lparr>br_pc := (br_pc l)(0 := WHold t)\<rparr>)"
proof (induction "MAX_CPUS - i" arbitrary: i l)
  case 0
  then have "br_step 0 l (l\<lparr>br_pc := (br_pc l)(0 := WHold t)\<rparr>)" by (intro write_in) simp_all
  then show ?case unfolding br_any_def by (intro r_into_rtranclp exI)
next
  case (Suc n)
  let ?l = "l\<lparr>br_pc := (br_pc l)(0 := WScan t (i + 1))\<rparr>"
  have "br_step 0 l ?l" using Suc.prems Suc.hyps(2) by (intro write_scan) simp_all
  then have "br_any l ?l" by (auto simp: br_any_def)
  moreover have "br_any\<^sup>*\<^sup>* ?l (?l\<lparr>br_pc := (br_pc ?l)(0 := WHold t)\<rparr>)"
    using Suc.prems Suc.hyps(2) by (intro Suc.hyps(1) [of "i + 1"]) simp_all
  ultimately show ?case by (simp add: converse_rtranclp_into_rtranclp)
qed

theorem br_lock_exclusive_witness:
  "\<exists>l. br_any\<^sup>*\<^sup>* br_new l \<and> br_pc l 0 = WHold 0 \<and> (\<forall>d. br_pc l d \<noteq> RHold)"
proof -
  let ?a = "br_new\<lparr>br_next := br_next br_new + 1, br_pc := (br_pc br_new)(0 := WWait (br_next br_new)),
    br_queue := br_queue br_new @ [0]\<rparr>"
  let ?b = "?a\<lparr>br_pc := (br_pc ?a)(0 := WIn 0)\<rparr>"
  let ?c = "?b\<lparr>br_excluding := 1, br_pc := (br_pc ?b)(0 := WScan 0 0)\<rparr>"
  let ?d = "?c\<lparr>br_pc := (br_pc ?c)(0 := WHold 0)\<rparr>"
  have "br_step 0 br_new ?a" by (rule write_call) (simp_all add: MAX_CPUS_def br_new_def)
  moreover have "br_step 0 ?a ?b" by (rule write_turn) (simp_all add: br_new_def)
  moreover have "br_step 0 ?b ?c" by (rule write_exclude) simp
  ultimately have "br_any br_new ?a" "br_any ?a ?b" "br_any ?b ?c" unfolding br_any_def by blast+
  moreover have "br_any\<^sup>*\<^sup>* ?c ?d" by (rule br_scan_all [of _ 0 0]) (simp_all add: br_new_def)
  ultimately have r: "br_any\<^sup>*\<^sup>* br_new ?d" by (meson converse_rtranclp_into_rtranclp)
  show ?thesis using br_lock_exclusive [OF r, of 0 0] r by (intro exI [of _ ?d]) simp
qed

text \<open>
  C19. The shared and exclusive lock does not deadlock: in every reachable state in which some processor is
  inside \<open>read\<close> or \<open>write\<close> or holds the lock, a processor that is inside can take a step, so a state in
  which everybody spins does not arise.
\<close>

theorem br_lock_progress:
  assumes "br_any\<^sup>*\<^sup>* br_new l" and "br_pc l c \<noteq> BOut"
  shows "\<exists>d l'. br_pc l d \<noteq> BOut \<and> br_step d l l'"
proof -
  have inv: "br_inv l" using br_reach_inv [OF assms(1)] .
  then have h: "br_hold_ok l" and q: "br_queue_ok l" by (simp_all add: br_inv_def)
  have reader: "\<exists>l'. br_step d l l'" if "counted (br_pc l d) \<or> br_pc l d = RStart" for d
    using that by (cases "br_pc l d"; cases "br_excluding l = 0") (auto intro: br_step.intros)
  show ?thesis
  proof (cases "br_queue l")
    case Nil
    then have "\<not> admitted (br_pc l d)" for d using admitted_head [OF inv] by fastforce
    then have ex: "br_excluding l = 0" using h excludes_admitted unfolding br_hold_ok_def by blast
    have "ticket_of (br_pc l c) = None" using q Nil by (simp add: br_queue_ok_def)
    then have "\<exists>l'. br_step c l l'"
      using assms(2) reader [of c] ex by (cases "br_pc l c") (auto intro: br_step.intros)
    then show ?thesis using assms(2) by blast
  next
    case (Cons d r)
    have t: "ticket_of (br_pc l d) = Some (br_serving l)" using head_ticket [OF q Cons] .
    have out: "br_pc l d \<noteq> BOut" using with_ticket [OF t] by simp
    show ?thesis
    proof (cases "\<exists>t i. br_pc l d = WScan t i \<and> i < MAX_CPUS \<and> br_readers l i \<noteq> 0")
      case True
      then obtain i where "br_readers l i \<noteq> 0" by blast
      then have "counted (br_pc l i)" using h by (auto simp: br_hold_ok_def split: if_splits)
      moreover from this have "br_pc l i \<noteq> BOut" by auto
      ultimately show ?thesis using reader [of i] by blast
    next
      case False
      have scan: "br_pc l d = WScan u i \<Longrightarrow> i \<le> MAX_CPUS" for u i using h by (simp add: br_hold_ok_def)
      have "\<exists>l'. br_step d l l'"
      proof (cases "br_pc l d")
        case (WScan u i)
        then show ?thesis
          using False scan [OF WScan] write_scan [OF WScan] write_in [OF WScan] by (cases "i = MAX_CPUS") auto
      qed (use t in \<open>auto intro: br_step.intros\<close>)
      then show ?thesis using out by blast
    qed
  qed
qed

theorem br_lock_progress_witness:
  "\<exists>l d l'. br_any\<^sup>*\<^sup>* br_new l \<and> br_pc l 3 = RStart \<and> br_step d l l'"
proof -
  let ?l = "br_new\<lparr>br_pc := (br_pc br_new)(3 := RStart)\<rparr>"
  have "br_step 3 br_new ?l" by (rule read_call) (simp_all add: MAX_CPUS_def br_new_def)
  then have r: "br_any\<^sup>*\<^sup>* br_new ?l" by (intro r_into_rtranclp) (auto simp: br_any_def)
  then show ?thesis using br_lock_progress [OF r, of 3] by fastforce
qed

end
