(* ===== verification/Machine.thy ===== *)
theory Machine
  imports Control_Log Scope_Cpu Frames Threads
begin

text \<open>
  The kernel's object tables: memory objects and their mappings (\<open>kernel/src/memobj.rs\<close>), endpoints,
  messages and invocations (\<open>kernel/src/ipc.rs\<close>), signals and timers (\<open>kernel/src/events.rs\<close>), domains and
  the machine that holds the tables (\<open>kernel/src/state.rs\<close>). The statics the operations share with the
  machine, the scopes with their credits, the threads and the earliest timer, are fields of the same
  record. The lemmas: a message cell or an invocation record is claimed by one claimant until it is
  released, identifiers are handed out once, and a deferred memory object is taken exactly once.
\<close>

section \<open>Memory objects\<close>

datatype memory_state = MemEmpty | MemMutable | MemSealing | MemSealed

fun memory_state_abi :: "memory_state \<Rightarrow> nat" where
  "memory_state_abi MemEmpty = 0"
| "memory_state_abi MemMutable = 1"
| "memory_state_abi MemSealing = 2"
| "memory_state_abi MemSealed = 3"

fun memory_state_name :: "memory_state \<Rightarrow> string" where
  "memory_state_name MemEmpty = ''empty''"
| "memory_state_name MemMutable = ''mutable''"
| "memory_state_name MemSealing = ''sealing''"
| "memory_state_name MemSealed = ''sealed''"

record memory_object =
  mo_state :: memory_state
  mo_generation :: u32
  mo_id :: nat
  mo_base :: frame
  mo_pages :: nat
  mo_max_rights :: u32
  mo_sponsor :: scope_id
  mo_map_count :: nat
  mo_writable_maps :: nat
  mo_dma_grants :: nat
  mo_label :: "u8 list"
  mo_refs :: nat
  mo_unmapped_at :: nat
  mo_unmapped_cpus :: u64

definition memory_object_empty :: memory_object where
  "memory_object_empty = \<lparr>mo_state = MemEmpty, mo_generation = 0, mo_id = 0, mo_base = frame_containing 0,
     mo_pages = 0, mo_max_rights = 0, mo_sponsor = 0, mo_map_count = 0, mo_writable_maps = 0,
     mo_dma_grants = 0, mo_label = replicate 16 0, mo_refs = 0, mo_unmapped_at = 0, mo_unmapped_cpus = 0\<rparr>"

definition memory_object_len :: "memory_object \<Rightarrow> nat" where
  "memory_object_len m = mo_pages m * PAGE_SIZE"

record map_record =
  mp_used :: bool
  mp_memory :: nat
  mp_memory_generation :: u32
  mp_domain :: nat
  mp_domain_generation :: u32
  mp_vaddr :: nat
  mp_offset_pages :: nat
  mp_pages :: nat
  mp_rights :: u32
  mp_grant :: grant_id
  mp_scope :: scope_id

definition map_record_empty :: map_record where
  "map_record_empty = \<lparr>mp_used = False, mp_memory = 0, mp_memory_generation = 0, mp_domain = 0,
     mp_domain_generation = 0, mp_vaddr = 0, mp_offset_pages = 0, mp_pages = 0, mp_rights = 0,
     mp_grant = NO_GRANT, mp_scope = 0\<rparr>"

section \<open>Endpoints, messages and invocations\<close>

definition MAX_INLINE_PAYLOAD :: nat where "MAX_INLINE_PAYLOAD = 256"
definition MAX_MESSAGE_CAPS :: nat where "MAX_MESSAGE_CAPS = 4"
definition NO_MESSAGE :: nat where "NO_MESSAGE = U16_MAX"

record endpoint =
  ep_open :: bool
  ep_id :: nat
  ep_epoch :: nat
  ep_owner_scope :: scope_id
  ep_receiver_domain :: nat
  ep_receiver_generation :: u32
  ep_capacity :: nat
  ep_reserved_cells :: nat
  ep_reserved_used :: nat
  ep_queued :: nat
  ep_head :: nat
  ep_tail :: nat
  ep_facets :: nat
  ep_next_facet :: nat
  ep_admitted :: nat
  ep_delivered :: nat
  ep_label :: "u8 list"
  ep_receivers :: u64

definition endpoint_empty :: endpoint where
  "endpoint_empty = \<lparr>ep_open = False, ep_id = 0, ep_epoch = 0, ep_owner_scope = 0,
     ep_receiver_domain = U16_MAX, ep_receiver_generation = 0, ep_capacity = 0, ep_reserved_cells = 0,
     ep_reserved_used = 0, ep_queued = 0, ep_head = NO_MESSAGE, ep_tail = NO_MESSAGE, ep_facets = 0,
     ep_next_facet = 1, ep_admitted = 0, ep_delivered = 0, ep_label = replicate 16 0, ep_receivers = 0\<rparr>"

definition ordinary_capacity :: "endpoint \<Rightarrow> nat" where
  "ordinary_capacity e = ep_capacity e - ep_reserved_cells e"

definition has_ordinary_room :: "endpoint \<Rightarrow> bool" where
  "has_ordinary_room e \<longleftrightarrow> ep_queued e - ep_reserved_used e < ordinary_capacity e"

record delivered_cap =
  dc_slot :: nat
  dc_handle :: u64
  dc_grant :: grant_id

definition delivered_cap_empty :: delivered_cap where
  "delivered_cap_empty = \<lparr>dc_slot = U16_MAX, dc_handle = 0, dc_grant = NO_GRANT\<rparr>"

record message =
  ms_used :: bool
  ms_next :: nat
  ms_endpoint :: nat
  ms_endpoint_generation :: u32
  ms_invocation :: nat
  ms_reserved_cell :: bool
  ms_kind :: nat
  ms_payload :: "u8 list"
  ms_payload_len :: nat
  ms_caps :: "delivered_cap list"
  ms_cap_count :: nat
  ms_charged_bytes :: nat

definition message_empty :: message where
  "message_empty = \<lparr>ms_used = False, ms_next = NO_MESSAGE, ms_endpoint = 0, ms_endpoint_generation = 0,
     ms_invocation = 0, ms_reserved_cell = False, ms_kind = 0,
     ms_payload = replicate MAX_INLINE_PAYLOAD 0, ms_payload_len = 0,
     ms_caps = replicate MAX_MESSAGE_CAPS delivered_cap_empty, ms_cap_count = 0, ms_charged_bytes = 0\<rparr>"

datatype invocation_state = InvEmpty | InvAdmitted | InvDelivered | InvResolved

fun invocation_state_abi :: "invocation_state \<Rightarrow> nat" where
  "invocation_state_abi InvEmpty = 0"
| "invocation_state_abi InvAdmitted = 1"
| "invocation_state_abi InvDelivered = 2"
| "invocation_state_abi InvResolved = 3"

fun invocation_state_name :: "invocation_state \<Rightarrow> string" where
  "invocation_state_name InvEmpty = ''empty''"
| "invocation_state_name InvAdmitted = ''admitted''"
| "invocation_state_name InvDelivered = ''delivered''"
| "invocation_state_name InvResolved = ''resolved''"

datatype effect = EffNone | EffAdmitted | EffRefused | EffResolved

fun effect_abi :: "effect \<Rightarrow> nat" where
  "effect_abi EffNone = 0"
| "effect_abi EffAdmitted = 1"
| "effect_abi EffRefused = 2"
| "effect_abi EffResolved = 3"

fun effect_name :: "effect \<Rightarrow> string" where
  "effect_name EffNone = ''none''"
| "effect_name EffAdmitted = ''admitted''"
| "effect_name EffRefused = ''refused''"
| "effect_name EffResolved = ''resolved''"

datatype cancel = CancelLive | CancelOriginFenced | CancelOriginDead

fun cancel_abi :: "cancel \<Rightarrow> nat" where
  "cancel_abi CancelLive = 0"
| "cancel_abi CancelOriginFenced = 1"
| "cancel_abi CancelOriginDead = 2"

fun cancel_name :: "cancel \<Rightarrow> string" where
  "cancel_name CancelLive = ''live''"
| "cancel_name CancelOriginFenced = ''origin_fenced''"
| "cancel_name CancelOriginDead = ''origin_dead''"

record invocation =
  iv_state :: invocation_state
  iv_generation :: u32
  iv_id :: nat
  iv_endpoint :: nat
  iv_endpoint_generation :: u32
  iv_epoch :: nat
  iv_origin_domain :: nat
  iv_origin_domain_generation :: u32
  iv_origin_domain_id :: nat
  iv_origin_scope :: scope_id
  iv_origin_scope_id :: nat
  iv_waiter :: "nat option"
  iv_parent_id :: nat
  iv_grant :: grant_id
  iv_facet :: nat
  iv_cancel :: cancel
  iv_effect :: effect
  iv_closure_reserved_ns :: nat
  iv_closure_service :: scope_id
  iv_admitted_ns :: nat
  iv_message :: nat
  iv_receiver_domain :: nat
  iv_charged_bytes :: nat
  iv_refs :: nat
  iv_replied :: bool
  iv_outcome :: nat
  iv_reply_payload :: "u8 list"
  iv_reply_len :: nat
  iv_reply_caps :: "u64 list"
  iv_reply_cap_count :: nat
  iv_reply_result :: nat

definition invocation_empty :: invocation where
  "invocation_empty = \<lparr>iv_state = InvEmpty, iv_generation = 0, iv_id = 0, iv_endpoint = 0,
     iv_endpoint_generation = 0, iv_epoch = 0, iv_origin_domain = 0, iv_origin_domain_generation = 0,
     iv_origin_domain_id = 0, iv_origin_scope = 0, iv_origin_scope_id = 0, iv_waiter = None,
     iv_parent_id = 0, iv_grant = NO_GRANT, iv_facet = 0, iv_cancel = CancelLive, iv_effect = EffNone,
     iv_closure_reserved_ns = 0, iv_closure_service = 0, iv_admitted_ns = 0, iv_message = NO_MESSAGE,
     iv_receiver_domain = U16_MAX, iv_charged_bytes = 0, iv_refs = 0, iv_replied = False, iv_outcome = 0,
     iv_reply_payload = replicate MAX_INLINE_PAYLOAD 0, iv_reply_len = 0,
     iv_reply_caps = replicate MAX_MESSAGE_CAPS 0, iv_reply_cap_count = 0, iv_reply_result = 0\<rparr>"

section \<open>Signals and timers\<close>

record signal =
  si_used :: bool
  si_generation :: u32
  si_id :: nat
  si_owner_scope :: scope_id
  si_bits :: u64
  si_sequence :: u64
  si_waiters :: nat
  si_refs :: nat

definition signal_empty :: signal where
  "signal_empty = \<lparr>si_used = False, si_generation = 0, si_id = 0, si_owner_scope = 0, si_bits = 0,
     si_sequence = 0, si_waiters = 0, si_refs = 0\<rparr>"

record timer =
  tm_used :: bool
  tm_generation :: u32
  tm_id :: nat
  tm_owner_scope :: scope_id
  tm_signal :: nat
  tm_signal_generation :: u32
  tm_bits :: u64
  tm_deadline_ns :: nat
  tm_armed :: bool
  tm_fired :: nat
  tm_refs :: nat

definition timer_empty :: timer where
  "timer_empty = \<lparr>tm_used = False, tm_generation = 0, tm_id = 0, tm_owner_scope = 0, tm_signal = 0,
     tm_signal_generation = 0, tm_bits = 0, tm_deadline_ns = 0, tm_armed = False, tm_fired = 0, tm_refs = 0\<rparr>"

section \<open>Domains\<close>

definition MAX_MEMORY_OBJECTS :: nat where "MAX_MEMORY_OBJECTS = 72"
definition MAX_MAPS :: nat where "MAX_MAPS = 224"
definition MAX_ENDPOINTS :: nat where "MAX_ENDPOINTS = 20"
definition MAX_MESSAGES :: nat where "MAX_MESSAGES = 48"
definition MAX_INVOCATIONS :: nat where "MAX_INVOCATIONS = 48"
definition MAX_SIGNALS :: nat where "MAX_SIGNALS = 20"
definition MAX_TIMERS :: nat where "MAX_TIMERS = 12"
definition MAX_CONTROL_LOGS :: nat where "MAX_CONTROL_LOGS = 2"
definition MAX_DEVICES :: nat where "MAX_DEVICES = 4"
definition MAX_THREADS_PER_DOMAIN :: nat where "MAX_THREADS_PER_DOMAIN = 4"

record endpoint_id =
  ei_used :: bool
  ei_generation :: u32
  ei_refs :: nat

definition endpoint_id_empty :: endpoint_id where
  "endpoint_id_empty = \<lparr>ei_used = False, ei_generation = 0, ei_refs = 0\<rparr>"

datatype domain_state = DomEmpty | DomBuilding | DomRunnable | DomFaulted | DomStopping | DomDead

fun domain_state_name :: "domain_state \<Rightarrow> string" where
  "domain_state_name DomEmpty = ''empty''"
| "domain_state_name DomBuilding = ''building''"
| "domain_state_name DomRunnable = ''runnable''"
| "domain_state_name DomFaulted = ''faulted''"
| "domain_state_name DomStopping = ''stopping''"
| "domain_state_name DomDead = ''dead''"

fun domain_state_abi :: "domain_state \<Rightarrow> nat" where
  "domain_state_abi DomEmpty = 0"
| "domain_state_abi DomBuilding = 1"
| "domain_state_abi DomRunnable = 2"
| "domain_state_abi DomFaulted = 3"
| "domain_state_abi DomStopping = 4"
| "domain_state_abi DomDead = 5"

datatype exit_reason = UserFault | Voluntary | Terminated

fun exit_reason_name :: "exit_reason \<Rightarrow> string" where
  "exit_reason_name UserFault = ''user_fault''"
| "exit_reason_name Voluntary = ''voluntary''"
| "exit_reason_name Terminated = ''terminated''"

record fault_record =
  fr_vector :: nat
  fr_error_code :: nat
  fr_cr2 :: nat
  fr_rip :: nat
  fr_rsp :: nat
  fr_cs :: nat

text \<open>The domain record without its page tables.\<close>

record domain =
  dm_state :: domain_state
  dm_id :: nat
  dm_generation :: u32
  dm_name :: "u8 list"
  dm_name_len :: nat
  dm_owner_scope :: scope_id
  dm_threads :: "nat option list"
  dm_caps :: cap_table
  dm_fault_endpoint :: "obj_ref option"
  dm_fault_grant :: grant_id
  dm_fault_facet :: nat
  dm_fault_reserved :: bool
  dm_entry :: nat
  dm_segments :: nat
  dm_image_pages :: nat
  dm_stack_mapped :: bool
  dm_managed :: bool
  dm_reserved_pages :: nat
  dm_reserved_metadata :: nat
  dm_fault :: "fault_record option"
  dm_faults :: nat
  dm_exit_reason :: "exit_reason option"
  dm_exit_code :: nat
  dm_notes :: nat
  dm_invocations :: nat
  dm_refusals :: nat
  dm_refusal_records :: nat
  dm_refs :: nat

definition domain_empty :: domain where
  "domain_empty = \<lparr>dm_state = DomEmpty, dm_id = 0, dm_generation = 0, dm_name = replicate 32 0,
     dm_name_len = 0, dm_owner_scope = 0, dm_threads = replicate MAX_THREADS_PER_DOMAIN None,
     dm_caps = cap_table_new, dm_fault_endpoint = None, dm_fault_grant = NO_GRANT, dm_fault_facet = 0,
     dm_fault_reserved = False, dm_entry = 0, dm_segments = 0, dm_image_pages = 0,
     dm_stack_mapped = False, dm_managed = False, dm_reserved_pages = 0, dm_reserved_metadata = 0,
     dm_fault = None, dm_faults = 0, dm_exit_reason = None, dm_exit_code = 0, dm_notes = 0,
     dm_invocations = 0, dm_refusals = 0, dm_refusal_records = 0, dm_refs = 0\<rparr>"

definition first_thread :: "domain \<Rightarrow> nat option" where
  "first_thread d = (case List.map_filter id (dm_threads d) of [] \<Rightarrow> None | t # _ \<Rightarrow> Some t)"

definition thread_count :: "domain \<Rightarrow> nat" where
  "thread_count d = length (filter (\<lambda>t. t \<noteq> None) (dm_threads d))"

section \<open>The machine\<close>

text \<open>Of a device only what the authority path reads: its slot, generation, identity and references.\<close>

record device =
  dv_used :: bool
  dv_generation :: u32
  dv_id :: nat
  dv_refs :: nat

record machine =
  mc_memory :: "frame_allocator option"
  mc_domains :: "domain list"
  mc_grants :: "grant list"
  mc_grant_hint :: nat
  mc_memories :: "memory_object list"
  mc_maps :: "map_record list"
  mc_endpoints :: "endpoint list"
  mc_endpoint_ids :: "endpoint_id list"
  mc_messages :: "message list"
  mc_message_free :: u64
  mc_invocations :: "invocation list"
  mc_invocation_free :: u64
  mc_signals :: "signal list"
  mc_timers :: "timer list"
  mc_logs :: "control_log list"
  mc_devices :: "device list"
  mc_next_object_id :: nat
  mc_boot_epoch :: nat
  mc_system_log :: "nat option"
  mc_pending_memory :: "u64 list"
  mc_scopes :: scope_table
  mc_fenced :: nat
  mc_credits :: "credit list list"
  mc_threads :: thread_world
  mc_next_timer :: nat

text \<open>The tables as the kernel starts with them; the scopes, processors and threads start empty.\<close>

definition machine_new :: machine where
  "machine_new = \<lparr>mc_memory = None, mc_domains = replicate MAX_DOMAINS domain_empty,
     mc_grants = replicate MAX_GRANTS grant_empty, mc_grant_hint = 0,
     mc_memories = replicate MAX_MEMORY_OBJECTS memory_object_empty, mc_maps = replicate MAX_MAPS map_record_empty,
     mc_endpoints = replicate MAX_ENDPOINTS endpoint_empty,
     mc_endpoint_ids = replicate MAX_ENDPOINTS endpoint_id_empty,
     mc_messages = replicate MAX_MESSAGES message_empty, mc_message_free = push_bit MAX_MESSAGES 1 - 1,
     mc_invocations = replicate MAX_INVOCATIONS invocation_empty,
     mc_invocation_free = push_bit MAX_INVOCATIONS 1 - 1, mc_signals = replicate MAX_SIGNALS signal_empty,
     mc_timers = replicate MAX_TIMERS timer_empty, mc_logs = replicate MAX_CONTROL_LOGS control_log_empty,
     mc_devices = replicate MAX_DEVICES \<lparr>dv_used = False, dv_generation = 0, dv_id = 0, dv_refs = 0\<rparr>,
     mc_next_object_id = 1, mc_boot_epoch = 0, mc_system_log = None, mc_pending_memory = [0, 0],
     mc_scopes = replicate MAX_SCOPES scope_empty, mc_fenced = 0,
     mc_credits = replicate MAX_CPUS (replicate MAX_SCOPES credit_empty),
     mc_threads = \<lparr>tw_threads = replicate MAX_THREADS thread_cell_empty, tw_cpus = [],
       tw_next_deadline = U64_MAX, tw_lapic = False\<rparr>, mc_next_timer = U64_MAX\<rparr>"

text \<open>
  The two words of deferred memory objects. The index is below the number of objects, which is below
  the 128 bits they have.
\<close>

definition defer_memory :: "nat \<Rightarrow> machine \<Rightarrow> machine" where
  "defer_memory index m =
     (if index \<ge> MAX_MEMORY_OBJECTS then m
      else m\<lparr>mc_pending_memory := upd (index div 64) (\<lambda>b. b OR push_bit (index mod 64) 1) (mc_pending_memory m)\<rparr>)"

definition take_pending_memory :: "machine \<Rightarrow> machine \<times> u64 list" where
  "take_pending_memory m =
     (if mc_pending_memory m ! 0 = 0 \<and> mc_pending_memory m ! 1 = 0 then (m, [0, 0])
      else (m\<lparr>mc_pending_memory := [0, 0]\<rparr>, [mc_pending_memory m ! 0, mc_pending_memory m ! 1]))"

text \<open>
  Claiming the lowest free bit of a word. Alone on the machine the exchange wins at the first turn; the
  turns of processors that race for the same word are the step relation below.
\<close>

fun lowest_bit :: "nat \<Rightarrow> u64 \<Rightarrow> nat" where
  "lowest_bit 0 b = 64"
| "lowest_bit (Suc n) b = (if bit b (64 - Suc n) then 64 - Suc n else lowest_bit n b)"

definition claim_bit :: "u64 \<Rightarrow> u64 \<times> nat option" where
  "claim_bit free =
     (if free = 0 then (free, None)
      else let index = lowest_bit 64 free in (free AND NOT (push_bit index 1), Some index))"

definition release_bit :: "nat \<Rightarrow> u64 \<Rightarrow> u64" where
  "release_bit index free = free OR push_bit index 1"

definition claim_message :: "machine \<Rightarrow> machine \<times> nat option" where
  "claim_message m = (case claim_bit (mc_message_free m) of (b, r) \<Rightarrow> (m\<lparr>mc_message_free := b\<rparr>, r))"

definition release_message :: "nat \<Rightarrow> machine \<Rightarrow> machine" where
  "release_message index m = m\<lparr>mc_message_free := release_bit index (mc_message_free m)\<rparr>"

definition claim_invocation :: "machine \<Rightarrow> machine \<times> nat option" where
  "claim_invocation m = (case claim_bit (mc_invocation_free m) of (b, r) \<Rightarrow> (m\<lparr>mc_invocation_free := b\<rparr>, r))"

definition release_invocation :: "nat \<Rightarrow> machine \<Rightarrow> machine" where
  "release_invocation index m = m\<lparr>mc_invocation_free := release_bit index (mc_invocation_free m)\<rparr>"

definition next_id :: "machine \<Rightarrow> machine \<times> nat option" where
  "next_id m =
     (if mc_next_object_id m = U64_MAX then (m, None)
      else (m\<lparr>mc_next_object_id := mc_next_object_id m + 1\<rparr>, Some (mc_next_object_id m)))"

section \<open>Claims under interleaving\<close>

text \<open>
  A processor that claims loads the word, and then clears the bit it saw lowest: it owns the cell if the
  bit was still set, and loads again otherwise. A processor that owns a cell may release it.
\<close>

datatype claim_pc = ClIdle | ClLoaded nat | ClOwns nat

record claim_world =
  cw_free :: u64
  cw_pc :: "nat \<Rightarrow> claim_pc"

inductive claim_step :: "claim_world \<Rightarrow> claim_world \<Rightarrow> bool" where
  claim_load: "cw_pc w c = ClIdle \<Longrightarrow> cw_free w \<noteq> 0 \<Longrightarrow>
    claim_step w (w\<lparr>cw_pc := (cw_pc w)(c := ClLoaded (lowest_bit 64 (cw_free w)))\<rparr>)"
| claim_win: "cw_pc w c = ClLoaded i \<Longrightarrow> bit (cw_free w) i \<Longrightarrow>
    claim_step w (w\<lparr>cw_free := cw_free w AND NOT (push_bit i 1), cw_pc := (cw_pc w)(c := ClOwns i)\<rparr>)"
| claim_lose: "cw_pc w c = ClLoaded i \<Longrightarrow> \<not> bit (cw_free w) i \<Longrightarrow>
    claim_step w (w\<lparr>cw_free := cw_free w AND NOT (push_bit i 1), cw_pc := (cw_pc w)(c := ClIdle)\<rparr>)"
| claim_release: "cw_pc w c = ClOwns i \<Longrightarrow>
    claim_step w (w\<lparr>cw_free := release_bit i (cw_free w), cw_pc := (cw_pc w)(c := ClIdle)\<rparr>)"

definition claim_inv :: "nat \<Rightarrow> claim_world \<Rightarrow> bool" where
  "claim_inv cells w \<longleftrightarrow> (\<forall>c d i. cw_pc w c = ClOwns i \<and> cw_pc w d = ClOwns i \<longrightarrow> c = d) \<and>
     (\<forall>i < 64. bit (cw_free w) i \<longleftrightarrow> i < cells \<and> (\<forall>c. cw_pc w c \<noteq> ClOwns i)) \<and>
     (\<forall>c i. cw_pc w c = ClOwns i \<or> cw_pc w c = ClLoaded i \<longrightarrow> i < cells)"

lemma lowest_bit_set: "n \<le> 64 \<Longrightarrow> (\<exists>i. 64 - n \<le> i \<and> i < 64 \<and> bit b i) \<Longrightarrow>
    bit b (lowest_bit n b) \<and> lowest_bit n b < 64 \<and> 64 - n \<le> lowest_bit n b"
proof (induction n)
  case (Suc n)
  show ?case
  proof (cases "bit b (64 - Suc n)")
    case False
    obtain i where i: "64 - Suc n \<le> i" "i < 64" "bit b i" using Suc.prems(2) by blast
    have "i \<noteq> 64 - Suc n" using i(3) False by metis
    then have "64 - n \<le> i" using i(1) Suc.prems(1) by linarith
    then have "bit b (lowest_bit n b) \<and> lowest_bit n b < 64 \<and> 64 - n \<le> lowest_bit n b"
      using Suc.IH i(2,3) Suc.prems(1) by auto
    moreover from this have "64 - Suc n \<le> lowest_bit n b" by linarith
    ultimately show ?thesis using False by simp
  qed (use Suc.prems in simp)
qed auto

lemma word_nonzero_bit: "(b :: u64) \<noteq> 0 \<Longrightarrow> \<exists>i < 64. bit b i"
  using bit_eqI [of b 0] bit_imp_le_length [of b] by auto

lemma lowest_bit_64: "b \<noteq> 0 \<Longrightarrow> bit b (lowest_bit 64 b) \<and> lowest_bit 64 b < 64"
  using lowest_bit_set [of 64 b] word_nonzero_bit [of b] by auto

lemma clear_bit_iff: "bit (b AND NOT (push_bit i 1) :: u64) j \<longleftrightarrow> bit b j \<and> j \<noteq> i"
  using bit_imp_le_length [of b j]
  by (auto simp: bit_and_iff bit_not_iff bit_exp_iff)

lemma release_bit_iff: "i < 64 \<Longrightarrow> bit (release_bit i b) j \<longleftrightarrow> bit b j \<or> j = i"
  by (auto simp: release_bit_def bit_or_iff bit_exp_iff)

text \<open>The claim of one processor alone takes a free cell and only that one.\<close>

lemma claim_bit_Some:
  "claim_bit free = (free', Some i) \<Longrightarrow> bit free i \<and> (\<forall>j. bit free' j \<longleftrightarrow> bit free j \<and> j \<noteq> i)"
  using lowest_bit_64 [of free] clear_bit_iff by (auto simp: claim_bit_def Let_def split: if_splits)

lemma claim_bit_None: "claim_bit free = (free', None) \<longleftrightarrow> free = 0 \<and> free' = 0"
  by (auto simp: claim_bit_def Let_def)

text \<open>A step that changes no owner keeps the invariant.\<close>

lemma claim_inv_same:
  assumes "claim_inv cells w" and "cw_free w' = cw_free w"
    and "\<And>d j. cw_pc w' d = ClOwns j \<longleftrightarrow> cw_pc w d = ClOwns j"
    and "\<And>d j. cw_pc w' d = ClLoaded j \<Longrightarrow> j < cells"
  shows "claim_inv cells w'"
  using assms(1,4) unfolding claim_inv_def assms(2,3) by blast

lemma claim_inv_step:
  assumes "claim_step w w'" and inv: "claim_inv cells w" and small: "cells \<le> 64"
  shows "claim_inv cells w'"
proof -
  have once: "cw_pc w c = ClOwns i \<Longrightarrow> cw_pc w d = ClOwns i \<Longrightarrow> c = d" for c d i
    using inv unfolding claim_inv_def by blast
  have free: "i < 64 \<Longrightarrow> bit (cw_free w) i \<longleftrightarrow> i < cells \<and> (\<forall>c. cw_pc w c \<noteq> ClOwns i)" for i
    using inv unfolding claim_inv_def by blast
  have range: "cw_pc w c = ClOwns i \<or> cw_pc w c = ClLoaded i \<Longrightarrow> i < cells" for c i
    using inv unfolding claim_inv_def by blast
  from assms(1) show ?thesis
  proof cases
    case (claim_load c)
    have "bit (cw_free w) (lowest_bit 64 (cw_free w)) \<and> lowest_bit 64 (cw_free w) < 64"
      using lowest_bit_64 claim_load by blast
    then have "lowest_bit 64 (cw_free w) < cells" using free by blast
    then show ?thesis using claim_load range by (intro claim_inv_same [OF inv]) (auto split: if_splits)
  next
    case (claim_win c i)
    have i: "i < cells" "i < 64" using range claim_win small less_le_trans by blast+
    then have fresh: "cw_pc w d \<noteq> ClOwns i" for d using free claim_win by blast
    have own: "cw_pc w' d = ClOwns j \<longleftrightarrow> (d = c \<and> j = i) \<or> (d \<noteq> c \<and> cw_pc w d = ClOwns j)" for d j
      using claim_win by auto
    have ld: "cw_pc w' d = ClLoaded j \<Longrightarrow> j < cells" for d j using claim_win range by (auto split: if_splits)
    have mine: "cw_pc w c \<noteq> ClOwns j" for j using claim_win by simp
    have fr: "bit (cw_free w') j \<longleftrightarrow> bit (cw_free w) j \<and> j \<noteq> i" for j
      using claim_win by (simp add: clear_bit_iff del: push_bit_of_1)
    show ?thesis
      unfolding claim_inv_def
    proof (intro conjI allI impI)
      show "d = d'" if "cw_pc w' d = ClOwns j \<and> cw_pc w' d' = ClOwns j" for d d' j
        using that fresh once unfolding own by blast
      show "bit (cw_free w') j \<longleftrightarrow> j < cells \<and> (\<forall>d. cw_pc w' d \<noteq> ClOwns j)" if "j < 64" for j
        unfolding own fr free [OF that] using mine by blast
      show "j < cells" if "cw_pc w' d = ClOwns j \<or> cw_pc w' d = ClLoaded j" for d j
        using that ld range i(1) unfolding own by blast
    qed
  next
    case (claim_lose c i)
    then have "cw_free w AND NOT (push_bit i 1) = cw_free w"
      by (intro bit_eqI) (auto simp: clear_bit_iff simp del: push_bit_of_1)
    then show ?thesis using claim_lose range
      by (intro claim_inv_same [OF inv]) (auto simp del: push_bit_of_1 split: if_splits)
  next
    case (claim_release c i)
    have i: "i < cells" "i < 64" using range claim_release small less_le_trans by blast+
    have own: "cw_pc w' d = ClOwns j \<longleftrightarrow> d \<noteq> c \<and> cw_pc w d = ClOwns j" for d j
      using claim_release by auto
    have ld: "cw_pc w' d = ClLoaded j \<Longrightarrow> j < cells" for d j using claim_release range by (auto split: if_splits)
    have only: "cw_pc w c = ClOwns j \<longleftrightarrow> j = i" for j using claim_release by auto
    have fr: "bit (cw_free w') j \<longleftrightarrow> bit (cw_free w) j \<or> j = i" for j
      using claim_release i by (simp add: release_bit_iff)
    show ?thesis
      unfolding claim_inv_def
    proof (intro conjI allI impI)
      show "d = d'" if "cw_pc w' d = ClOwns j \<and> cw_pc w' d' = ClOwns j" for d d' j
        using that once unfolding own by blast
      show "bit (cw_free w') j \<longleftrightarrow> j < cells \<and> (\<forall>d. cw_pc w' d \<noteq> ClOwns j)" if "j < 64" for j
      proof (cases "j = i")
        case True
        have "\<not> (d \<noteq> c \<and> cw_pc w d = ClOwns i)" for d using once [of d i c] claim_release by blast
        then show ?thesis using i(1) True unfolding own fr by simp
      next
        case False
        then have "cw_pc w c \<noteq> ClOwns j" using only by simp
        then have "(\<forall>d. \<not> (d \<noteq> c \<and> cw_pc w d = ClOwns j)) = (\<forall>d. cw_pc w d \<noteq> ClOwns j)" by metis
        then show ?thesis using False unfolding own fr free [OF that] by simp
      qed
      show "j < cells" if "cw_pc w' d = ClOwns j \<or> cw_pc w' d = ClLoaded j" for d j
        using that ld range unfolding own by blast
    qed
  qed
qed

definition claim_start :: "nat \<Rightarrow> claim_world" where
  "claim_start cells = \<lparr>cw_free = push_bit cells 1 - 1, cw_pc = (\<lambda>_. ClIdle)\<rparr>"

lemma claim_start_inv: "cells < 64 \<Longrightarrow> claim_inv cells (claim_start cells)"
  by (auto simp: claim_inv_def claim_start_def bit_mask_iff simp flip: mask_eq_exp_minus_1)

lemma claim_reach_inv:
  "claim_step\<^sup>*\<^sup>* (claim_start cells) w \<Longrightarrow> cells < 64 \<Longrightarrow> claim_inv cells w"
  by (induction rule: rtranclp_induct) (auto intro: claim_start_inv claim_inv_step)

section \<open>Properties\<close>

text \<open>
  C21. Under any interleaving of processors that claim and release message cells (and invocation records,
  which are claimed the same way), a cell has at most one owner, and the free word has exactly the bits of
  the cells nobody owns: no cell is handed out twice and none is lost.
\<close>

theorem claims_exclusive:
  assumes "claim_step\<^sup>*\<^sup>* (claim_start MAX_MESSAGES) w"
  shows "(\<forall>c d i. cw_pc w c = ClOwns i \<and> cw_pc w d = ClOwns i \<longrightarrow> c = d) \<and>
    (\<forall>i < MAX_MESSAGES. bit (cw_free w) i \<longleftrightarrow> (\<forall>c. cw_pc w c \<noteq> ClOwns i)) \<and>
    (\<forall>c i. cw_pc w c = ClOwns i \<longrightarrow> i < MAX_MESSAGES)"
  using claim_reach_inv [OF assms] by (simp add: claim_inv_def MAX_MESSAGES_def)

theorem claims_exclusive_witness:
  "\<exists>w. claim_step\<^sup>*\<^sup>* (claim_start MAX_MESSAGES) w \<and> cw_pc w 3 = ClOwns 0 \<and> \<not> bit (cw_free w) 0"
proof -
  let ?a = "claim_start MAX_MESSAGES"
  let ?l = "lowest_bit 64 (cw_free ?a)"
  let ?b = "?a\<lparr>cw_pc := (cw_pc ?a)(3 := ClLoaded ?l)\<rparr>"
  let ?c = "?b\<lparr>cw_free := cw_free ?b AND NOT (push_bit 0 1), cw_pc := (cw_pc ?b)(3 := ClOwns 0)\<rparr>"
  have b0: "bit (cw_free ?a) 0" and nz: "cw_free ?a \<noteq> 0"
    by (simp_all add: claim_start_def MAX_MESSAGES_def bit_mask_iff flip: mask_eq_exp_minus_1)
  have l: "?l = 0" using b0 by (simp add: eval_nat_numeral)
  have "claim_step ?a ?b" by (rule claim_load) (simp_all add: claim_start_def MAX_MESSAGES_def)
  moreover have "claim_step ?b ?c" by (rule claim_win) (use b0 l in simp_all)
  ultimately have r: "claim_step\<^sup>*\<^sup>* ?a ?c" by (meson r_into_rtranclp rtranclp.rtrancl_into_rtrancl)
  have o: "cw_pc ?c 3 = ClOwns 0" by simp
  then have "\<not> bit (cw_free ?c) 0" using claims_exclusive [OF r] by (metis MAX_MESSAGES_def zero_less_numeral)
  then show ?thesis using r o by blast
qed

end
