(* ===== verification/Operations.thy ===== *)
theory Operations
  imports Objects
begin

text \<open>
  The operation table and the structural half of an entry (\<open>abi/src/generated.rs\<close>: \<open>op\<close>, \<open>OPERATIONS\<close>,
  \<open>spec\<close>; \<open>kernel/src/api/mod.rs\<close>: \<open>SPEC_INDEX\<close>, \<open>spec\<close>, \<open>waits\<close>, \<open>observes_lineage\<close>, \<open>mark_reached\<close>,
  \<open>validate_header\<close> and the checks of \<open>invoke\<close> that come before anything is read). The kernel finds an
  operation with two loads in a table built at compile time, where the interface's own lookup searches;
  the two agree on every code. Operation codes are natural numbers below the 32 bits they have; a shift
  by 16 and the lower half are quotient and remainder by 65536.
\<close>

section \<open>Operation codes\<close>

definition OP_CAP_INSPECT :: nat where "OP_CAP_INSPECT = 0x1"
definition OP_CAP_DERIVE :: nat where "OP_CAP_DERIVE = 0x2"
definition OP_CAP_COPY :: nat where "OP_CAP_COPY = 0x3"
definition OP_CAP_CLOSE :: nat where "OP_CAP_CLOSE = 0x4"
definition OP_CAP_FENCE :: nat where "OP_CAP_FENCE = 0x5"
definition OP_CAP_DRAIN_STATUS :: nat where "OP_CAP_DRAIN_STATUS = 0x6"
definition OP_SCOPE_CREATE_CHILD :: nat where "OP_SCOPE_CREATE_CHILD = 0x10001"
definition OP_SCOPE_QUERY :: nat where "OP_SCOPE_QUERY = 0x10002"
definition OP_SCOPE_SET_LIMITS :: nat where "OP_SCOPE_SET_LIMITS = 0x10003"
definition OP_SCOPE_FENCE :: nat where "OP_SCOPE_FENCE = 0x10004"
definition OP_SCOPE_DRAIN_STATUS :: nat where "OP_SCOPE_DRAIN_STATUS = 0x10005"
definition OP_SCOPE_RETIRE :: nat where "OP_SCOPE_RETIRE = 0x10006"
definition OP_SCOPE_CREATE_DOMAIN :: nat where "OP_SCOPE_CREATE_DOMAIN = 0x10007"
definition OP_SCOPE_CREATE_MEMORY :: nat where "OP_SCOPE_CREATE_MEMORY = 0x10008"
definition OP_SCOPE_CREATE_ENDPOINT :: nat where "OP_SCOPE_CREATE_ENDPOINT = 0x10009"
definition OP_SCOPE_CREATE_SIGNAL :: nat where "OP_SCOPE_CREATE_SIGNAL = 0x1000a"
definition OP_SCOPE_CREATE_TIMER :: nat where "OP_SCOPE_CREATE_TIMER = 0x1000b"
definition OP_DOMAIN_MAP :: nat where "OP_DOMAIN_MAP = 0x20001"
definition OP_DOMAIN_UNMAP :: nat where "OP_DOMAIN_UNMAP = 0x20002"
definition OP_DOMAIN_INSTALL_CAP :: nat where "OP_DOMAIN_INSTALL_CAP = 0x20003"
definition OP_DOMAIN_ADD_THREAD :: nat where "OP_DOMAIN_ADD_THREAD = 0x20004"
definition OP_DOMAIN_SET_FAULT_CHANNEL :: nat where "OP_DOMAIN_SET_FAULT_CHANNEL = 0x20005"
definition OP_DOMAIN_ACTIVATE :: nat where "OP_DOMAIN_ACTIVATE = 0x20006"
definition OP_DOMAIN_TERMINATE :: nat where "OP_DOMAIN_TERMINATE = 0x20007"
definition OP_DOMAIN_QUERY :: nat where "OP_DOMAIN_QUERY = 0x20008"
definition OP_MEMORY_QUERY :: nat where "OP_MEMORY_QUERY = 0x30001"
definition OP_MEMORY_COPY :: nat where "OP_MEMORY_COPY = 0x30002"
definition OP_MEMORY_SEAL :: nat where "OP_MEMORY_SEAL = 0x30003"
definition OP_MEMORY_WRITE :: nat where "OP_MEMORY_WRITE = 0x30004"
definition OP_MEMORY_READ :: nat where "OP_MEMORY_READ = 0x30005"
definition OP_ENDPOINT_BIND_FACET :: nat where "OP_ENDPOINT_BIND_FACET = 0x40001"
definition OP_ENDPOINT_CALL :: nat where "OP_ENDPOINT_CALL = 0x40002"
definition OP_ENDPOINT_SEND :: nat where "OP_ENDPOINT_SEND = 0x40003"
definition OP_ENDPOINT_RECEIVE :: nat where "OP_ENDPOINT_RECEIVE = 0x40004"
definition OP_ENDPOINT_QUERY :: nat where "OP_ENDPOINT_QUERY = 0x40005"
definition OP_INVOCATION_REPLY :: nat where "OP_INVOCATION_REPLY = 0x50001"
definition OP_INVOCATION_BEGIN_EFFECT :: nat where "OP_INVOCATION_BEGIN_EFFECT = 0x50002"
definition OP_INVOCATION_RESOLVE :: nat where "OP_INVOCATION_RESOLVE = 0x50003"
definition OP_INVOCATION_QUERY :: nat where "OP_INVOCATION_QUERY = 0x50004"
definition OP_INVOCATION_BIND_WORKER :: nat where "OP_INVOCATION_BIND_WORKER = 0x50005"
definition OP_INVOCATION_UNBIND_WORKER :: nat where "OP_INVOCATION_UNBIND_WORKER = 0x50006"
definition OP_SIGNAL_RAISE :: nat where "OP_SIGNAL_RAISE = 0x60001"
definition OP_SIGNAL_WAIT :: nat where "OP_SIGNAL_WAIT = 0x60002"
definition OP_SIGNAL_QUERY :: nat where "OP_SIGNAL_QUERY = 0x60003"
definition OP_TIMER_ARM :: nat where "OP_TIMER_ARM = 0x70001"
definition OP_TIMER_CANCEL :: nat where "OP_TIMER_CANCEL = 0x70002"
definition OP_TIMER_QUERY :: nat where "OP_TIMER_QUERY = 0x70003"
definition OP_LOG_READ :: nat where "OP_LOG_READ = 0x80001"
definition OP_LOG_APPEND :: nat where "OP_LOG_APPEND = 0x80002"
definition OP_LOG_ACK :: nat where "OP_LOG_ACK = 0x80003"
definition OP_LOG_QUERY :: nat where "OP_LOG_QUERY = 0x80004"
definition OP_DEVICE_QUERY :: nat where "OP_DEVICE_QUERY = 0x90001"
definition OP_DEVICE_MAP_REGION :: nat where "OP_DEVICE_MAP_REGION = 0x90002"
definition OP_DEVICE_UNMAP_REGION :: nat where "OP_DEVICE_UNMAP_REGION = 0x90003"
definition OP_DEVICE_BIND_IRQ :: nat where "OP_DEVICE_BIND_IRQ = 0x90004"
definition OP_DEVICE_SET_MASTER :: nat where "OP_DEVICE_SET_MASTER = 0x90005"
definition OP_DEVICE_DMA_MAP :: nat where "OP_DEVICE_DMA_MAP = 0x90006"
definition OP_DEVICE_DMA_UNMAP :: nat where "OP_DEVICE_DMA_UNMAP = 0x90007"
definition OP_DEVICE_RESET :: nat where "OP_DEVICE_RESET = 0x90008"

lemmas op_codes =
  OP_CAP_INSPECT_def OP_CAP_DERIVE_def OP_CAP_COPY_def OP_CAP_CLOSE_def OP_CAP_FENCE_def
  OP_CAP_DRAIN_STATUS_def OP_SCOPE_CREATE_CHILD_def OP_SCOPE_QUERY_def OP_SCOPE_SET_LIMITS_def
  OP_SCOPE_FENCE_def OP_SCOPE_DRAIN_STATUS_def OP_SCOPE_RETIRE_def OP_SCOPE_CREATE_DOMAIN_def
  OP_SCOPE_CREATE_MEMORY_def OP_SCOPE_CREATE_ENDPOINT_def OP_SCOPE_CREATE_SIGNAL_def
  OP_SCOPE_CREATE_TIMER_def OP_DOMAIN_MAP_def OP_DOMAIN_UNMAP_def OP_DOMAIN_INSTALL_CAP_def
  OP_DOMAIN_ADD_THREAD_def OP_DOMAIN_SET_FAULT_CHANNEL_def OP_DOMAIN_ACTIVATE_def OP_DOMAIN_TERMINATE_def
  OP_DOMAIN_QUERY_def OP_MEMORY_QUERY_def OP_MEMORY_COPY_def OP_MEMORY_SEAL_def OP_MEMORY_WRITE_def
  OP_MEMORY_READ_def OP_ENDPOINT_BIND_FACET_def OP_ENDPOINT_CALL_def OP_ENDPOINT_SEND_def
  OP_ENDPOINT_RECEIVE_def OP_ENDPOINT_QUERY_def OP_INVOCATION_REPLY_def OP_INVOCATION_BEGIN_EFFECT_def
  OP_INVOCATION_RESOLVE_def OP_INVOCATION_QUERY_def OP_INVOCATION_BIND_WORKER_def
  OP_INVOCATION_UNBIND_WORKER_def OP_SIGNAL_RAISE_def OP_SIGNAL_WAIT_def OP_SIGNAL_QUERY_def
  OP_TIMER_ARM_def OP_TIMER_CANCEL_def OP_TIMER_QUERY_def OP_LOG_READ_def OP_LOG_APPEND_def
  OP_LOG_ACK_def OP_LOG_QUERY_def OP_DEVICE_QUERY_def OP_DEVICE_MAP_REGION_def OP_DEVICE_UNMAP_REGION_def
  OP_DEVICE_BIND_IRQ_def OP_DEVICE_SET_MASTER_def OP_DEVICE_DMA_MAP_def OP_DEVICE_DMA_UNMAP_def
  OP_DEVICE_RESET_def

section \<open>The table\<close>

record op_spec =
  os_code :: nat
  os_object_type :: u32
  os_rights :: u32
  os_descriptor_len :: nat
  os_writes_response :: bool
  os_name :: string

definition op_spec_of :: "nat \<Rightarrow> u32 \<Rightarrow> u32 \<Rightarrow> nat \<Rightarrow> bool \<Rightarrow> string \<Rightarrow> op_spec" where
  "op_spec_of c t r l w n = \<lparr>os_code = c, os_object_type = t, os_rights = r, os_descriptor_len = l,
     os_writes_response = w, os_name = n\<rparr>"

definition CAP_OPERATIONS :: "op_spec list" where
  "CAP_OPERATIONS = [
    op_spec_of OP_CAP_INSPECT 0 0x0 96 True ''CAP_INSPECT'',
    op_spec_of OP_CAP_DERIVE 0 0x2 56 False ''CAP_DERIVE'',
    op_spec_of OP_CAP_COPY 0 0x0 0 False ''CAP_COPY'',
    op_spec_of OP_CAP_CLOSE 0 0x0 0 False ''CAP_CLOSE'',
    op_spec_of OP_CAP_FENCE 0 0x10 0 False ''CAP_FENCE'',
    op_spec_of OP_CAP_DRAIN_STATUS 0 0x10 96 True ''CAP_DRAIN_STATUS'']"

definition SCOPE_OPERATIONS :: "op_spec list" where
  "SCOPE_OPERATIONS = [
    op_spec_of OP_SCOPE_CREATE_CHILD 1 0x200 96 False ''SCOPE_CREATE_CHILD'',
    op_spec_of OP_SCOPE_QUERY 1 0x1 176 True ''SCOPE_QUERY'',
    op_spec_of OP_SCOPE_SET_LIMITS 1 0x200 80 False ''SCOPE_SET_LIMITS'',
    op_spec_of OP_SCOPE_FENCE 1 0x400 0 False ''SCOPE_FENCE'',
    op_spec_of OP_SCOPE_DRAIN_STATUS 1 0x1 96 True ''SCOPE_DRAIN_STATUS'',
    op_spec_of OP_SCOPE_RETIRE 1 0x400 96 True ''SCOPE_RETIRE'',
    op_spec_of OP_SCOPE_CREATE_DOMAIN 1 0x100 56 False ''SCOPE_CREATE_DOMAIN'',
    op_spec_of OP_SCOPE_CREATE_MEMORY 1 0x100 64 False ''SCOPE_CREATE_MEMORY'',
    op_spec_of OP_SCOPE_CREATE_ENDPOINT 1 0x100 56 False ''SCOPE_CREATE_ENDPOINT'',
    op_spec_of OP_SCOPE_CREATE_SIGNAL 1 0x100 0 False ''SCOPE_CREATE_SIGNAL'',
    op_spec_of OP_SCOPE_CREATE_TIMER 1 0x100 48 False ''SCOPE_CREATE_TIMER'']"

definition DOMAIN_OPERATIONS :: "op_spec list" where
  "DOMAIN_OPERATIONS = [
    op_spec_of OP_DOMAIN_MAP 2 0x100 64 False ''DOMAIN_MAP'',
    op_spec_of OP_DOMAIN_UNMAP 2 0x100 48 False ''DOMAIN_UNMAP'',
    op_spec_of OP_DOMAIN_INSTALL_CAP 2 0x100 56 False ''DOMAIN_INSTALL_CAP'',
    op_spec_of OP_DOMAIN_ADD_THREAD 2 0x100 64 False ''DOMAIN_ADD_THREAD'',
    op_spec_of OP_DOMAIN_SET_FAULT_CHANNEL 2 0x100 48 False ''DOMAIN_SET_FAULT_CHANNEL'',
    op_spec_of OP_DOMAIN_ACTIVATE 2 0x200 0 False ''DOMAIN_ACTIVATE'',
    op_spec_of OP_DOMAIN_TERMINATE 2 0x400 0 False ''DOMAIN_TERMINATE'',
    op_spec_of OP_DOMAIN_QUERY 2 0x800 104 True ''DOMAIN_QUERY'']"

definition MEMORY_OPERATIONS :: "op_spec list" where
  "MEMORY_OPERATIONS = [
    op_spec_of OP_MEMORY_QUERY 3 0x1 88 True ''MEMORY_QUERY'',
    op_spec_of OP_MEMORY_COPY 3 0x200 64 False ''MEMORY_COPY'',
    op_spec_of OP_MEMORY_SEAL 3 0x1000 88 True ''MEMORY_SEAL'',
    op_spec_of OP_MEMORY_WRITE 3 0x200 304 False ''MEMORY_WRITE'',
    op_spec_of OP_MEMORY_READ 3 0x100 304 True ''MEMORY_READ'']"

definition ENDPOINT_OPERATIONS :: "op_spec list" where
  "ENDPOINT_OPERATIONS = [
    op_spec_of OP_ENDPOINT_BIND_FACET 4 0x800 56 False ''ENDPOINT_BIND_FACET'',
    op_spec_of OP_ENDPOINT_CALL 4 0x200 344 True ''ENDPOINT_CALL'',
    op_spec_of OP_ENDPOINT_SEND 4 0x100 344 False ''ENDPOINT_SEND'',
    op_spec_of OP_ENDPOINT_RECEIVE 4 0x400 408 True ''ENDPOINT_RECEIVE'',
    op_spec_of OP_ENDPOINT_QUERY 4 0x1 80 True ''ENDPOINT_QUERY'']"

definition INVOCATION_OPERATIONS :: "op_spec list" where
  "INVOCATION_OPERATIONS = [
    op_spec_of OP_INVOCATION_REPLY 5 0x100 352 False ''INVOCATION_REPLY'',
    op_spec_of OP_INVOCATION_BEGIN_EFFECT 5 0x200 48 False ''INVOCATION_BEGIN_EFFECT'',
    op_spec_of OP_INVOCATION_RESOLVE 5 0x400 48 False ''INVOCATION_RESOLVE'',
    op_spec_of OP_INVOCATION_QUERY 5 0x1 96 True ''INVOCATION_QUERY'',
    op_spec_of OP_INVOCATION_BIND_WORKER 5 0x800 0 False ''INVOCATION_BIND_WORKER'',
    op_spec_of OP_INVOCATION_UNBIND_WORKER 5 0x800 0 False ''INVOCATION_UNBIND_WORKER'']"

definition SIGNAL_OPERATIONS :: "op_spec list" where
  "SIGNAL_OPERATIONS = [
    op_spec_of OP_SIGNAL_RAISE 6 0x100 40 False ''SIGNAL_RAISE'',
    op_spec_of OP_SIGNAL_WAIT 6 0x200 64 True ''SIGNAL_WAIT'',
    op_spec_of OP_SIGNAL_QUERY 6 0x1 64 True ''SIGNAL_QUERY'']"

definition TIMER_OPERATIONS :: "op_spec list" where
  "TIMER_OPERATIONS = [
    op_spec_of OP_TIMER_ARM 7 0x100 40 False ''TIMER_ARM'',
    op_spec_of OP_TIMER_CANCEL 7 0x100 0 False ''TIMER_CANCEL'',
    op_spec_of OP_TIMER_QUERY 7 0x1 64 True ''TIMER_QUERY'']"

definition LOG_OPERATIONS :: "op_spec list" where
  "LOG_OPERATIONS = [
    op_spec_of OP_LOG_READ 8 0x100 1584 True ''LOG_READ'',
    op_spec_of OP_LOG_APPEND 8 0x200 64 False ''LOG_APPEND'',
    op_spec_of OP_LOG_ACK 8 0x400 40 False ''LOG_ACK'',
    op_spec_of OP_LOG_QUERY 8 0x1 72 True ''LOG_QUERY'']"

definition DEVICE_OPERATIONS :: "op_spec list" where
  "DEVICE_OPERATIONS = [
    op_spec_of OP_DEVICE_QUERY 9 0x1 264 True ''DEVICE_QUERY'',
    op_spec_of OP_DEVICE_MAP_REGION 9 0x100 56 False ''DEVICE_MAP_REGION'',
    op_spec_of OP_DEVICE_UNMAP_REGION 9 0x100 56 False ''DEVICE_UNMAP_REGION'',
    op_spec_of OP_DEVICE_BIND_IRQ 9 0x200 56 False ''DEVICE_BIND_IRQ'',
    op_spec_of OP_DEVICE_SET_MASTER 9 0x800 40 False ''DEVICE_SET_MASTER'',
    op_spec_of OP_DEVICE_DMA_MAP 9 0x400 72 True ''DEVICE_DMA_MAP'',
    op_spec_of OP_DEVICE_DMA_UNMAP 9 0x400 56 False ''DEVICE_DMA_UNMAP'',
    op_spec_of OP_DEVICE_RESET 9 0x800 264 True ''DEVICE_RESET'']"

lemmas op_tables =
  CAP_OPERATIONS_def SCOPE_OPERATIONS_def DOMAIN_OPERATIONS_def MEMORY_OPERATIONS_def
  ENDPOINT_OPERATIONS_def INVOCATION_OPERATIONS_def SIGNAL_OPERATIONS_def TIMER_OPERATIONS_def
  LOG_OPERATIONS_def DEVICE_OPERATIONS_def

definition OPERATIONS :: "op_spec list" where
  "OPERATIONS = CAP_OPERATIONS @ SCOPE_OPERATIONS @ DOMAIN_OPERATIONS @ MEMORY_OPERATIONS @
     ENDPOINT_OPERATIONS @ INVOCATION_OPERATIONS @ SIGNAL_OPERATIONS @ TIMER_OPERATIONS @
     LOG_OPERATIONS @ DEVICE_OPERATIONS"

text \<open>The interface's own lookup: the first entry with the code.\<close>

fun spec_search :: "nat \<Rightarrow> op_spec list \<Rightarrow> op_spec option" where
  "spec_search code [] = None"
| "spec_search code (s # ss) = (if os_code s = code then Some s else spec_search code ss)"

definition abi_spec :: "nat \<Rightarrow> op_spec option" where
  "abi_spec code = spec_search code OPERATIONS"

section \<open>The two-level index\<close>

definition SPEC_GROUPS :: nat where "SPEC_GROUPS = 16"
definition SPEC_ORDINALS :: nat where "SPEC_ORDINALS = 16"
definition NO_SPEC :: nat where "NO_SPEC = 255"

text \<open>One turn of the loop that builds the index; an assertion that fails is \<open>None\<close>.\<close>

definition index_one :: "op_spec list \<Rightarrow> nat \<Rightarrow> nat list list \<Rightarrow> nat list list option" where
  "index_one ops i table =
     (let code = os_code (ops ! i); group = code div 65536; ordinal = code mod 65536 in
      if \<not> (group < SPEC_GROUPS \<and> ordinal < SPEC_ORDINALS) then None
      else if table ! group ! ordinal \<noteq> NO_SPEC then None
      else if \<not> i < NO_SPEC then None
      else Some (table[group := (table ! group)[ordinal := i]]))"

definition build_index :: "op_spec list \<Rightarrow> nat list list option" where
  "build_index ops =
     fold_opt (index_one ops) [0..<length ops] (replicate SPEC_GROUPS (replicate SPEC_ORDINALS NO_SPEC))"

text \<open>The lookup in an index that was built; the debug assertion is that the entry has the code.\<close>

definition spec_in :: "op_spec list \<Rightarrow> nat list list \<Rightarrow> nat \<Rightarrow> op_spec option" where
  "spec_in ops table code =
     (let group = code div 65536; ordinal = code mod 65536 in
      if group \<ge> SPEC_GROUPS \<or> ordinal \<ge> SPEC_ORDINALS then None
      else let i = table ! group ! ordinal in
           if i = NO_SPEC then None else Some (ops ! i))"

definition spec :: "nat \<Rightarrow> op_spec option" where
  "spec code = (case build_index OPERATIONS of None \<Rightarrow> None | Some table \<Rightarrow> spec_in OPERATIONS table code)"

definition operation_name :: "nat \<Rightarrow> string" where
  "operation_name code = (case spec code of Some s \<Rightarrow> os_name s | None \<Rightarrow> ''unassigned'')"

definition observes_lineage :: "nat \<Rightarrow> bool" where
  "observes_lineage operation \<longleftrightarrow> operation \<in> {OP_CAP_INSPECT, OP_CAP_CLOSE, OP_CAP_DRAIN_STATUS}"

definition waits :: "nat \<Rightarrow> bool" where
  "waits operation \<longleftrightarrow> operation \<in> {OP_ENDPOINT_CALL, OP_ENDPOINT_RECEIVE, OP_SIGNAL_WAIT, OP_LOG_READ,
     OP_MEMORY_SEAL, OP_DOMAIN_UNMAP, OP_DEVICE_UNMAP_REGION, OP_DEVICE_RESET}"

text \<open>The position of an entry in the table is what the pointer subtraction of the source computes.\<close>

definition mark_reached :: "nat \<Rightarrow> u64 \<Rightarrow> u64" where
  "mark_reached index reached =
     (if index \<ge> 64 then reached
      else if reached AND push_bit index 1 = 0 then reached OR push_bit index 1 else reached)"

section \<open>Descriptor headers and the checks of an entry\<close>

definition VERSION_MAJOR :: nat where "VERSION_MAJOR = 0"
definition VERSION_MINOR :: nat where "VERSION_MINOR = 4"

record descriptor_header =
  dh_major :: nat
  dh_minor :: nat
  dh_opcode :: nat
  dh_flags :: nat
  dh_total_len :: nat
  dh_cookie :: nat
  dh_reserved :: nat

definition validate_header :: "descriptor_header \<Rightarrow> nat \<Rightarrow> nat \<Rightarrow> status + unit" where
  "validate_header h operation len =
     (if dh_major h \<noteq> VERSION_MAJOR then Inl INCOMPATIBLE_VERSION
      else if dh_minor h > VERSION_MINOR then Inl INCOMPATIBLE_VERSION
      else if dh_opcode h \<noteq> operation then Inl INVALID_ARGUMENT
      else if dh_total_len h \<noteq> len then Inl INVALID_ARGUMENT
      else if dh_flags h \<noteq> 0 \<or> dh_reserved h \<noteq> 0 then Inl INVALID_ARGUMENT
      else Inr ())"

definition FLAG_NONBLOCKING :: u64 where "FLAG_NONBLOCKING = 1"
definition FLAG_KNOWN :: u64 where "FLAG_KNOWN = 1"

text \<open>The registers of an entry: handle, operation, descriptor address and length, flags, deadline.\<close>

record entry_frame =
  ef_rdi :: u64
  ef_rsi :: nat
  ef_rdx :: nat
  ef_r10 :: nat
  ef_r8 :: u64
  ef_r9 :: nat

definition check_entry :: "entry_frame \<Rightarrow> status + op_spec" where
  "check_entry f =
     (if ef_rsi f > U32_MAX then Inl INVALID_ARGUMENT
      else case spec (ef_rsi f) of
          None \<Rightarrow> Inl NOT_SUPPORTED
        | Some s \<Rightarrow>
            if ef_r8 f AND NOT FLAG_KNOWN \<noteq> 0 then Inl INVALID_ARGUMENT
            else if \<not> waits (ef_rsi f) \<and> ef_r8 f AND FLAG_NONBLOCKING \<noteq> 0 then Inl INVALID_ARGUMENT
            else if os_descriptor_len s \<noteq> 0
              then (if ef_r10 f \<noteq> os_descriptor_len s then Inl INVALID_ARGUMENT else Inr s)
            else if ef_rdx f \<noteq> 0 \<or> ef_r10 f \<noteq> 0 then Inl INVALID_ARGUMENT
            else Inr s)"

section \<open>The index is the search\<close>

text \<open>What an index built from the first \<open>n\<close> entries holds.\<close>

definition indexes :: "op_spec list \<Rightarrow> nat \<Rightarrow> nat list list \<Rightarrow> bool" where
  "indexes ops n table \<longleftrightarrow> length table = SPEC_GROUPS \<and> (\<forall>row \<in> set table. length row = SPEC_ORDINALS) \<and>
     (\<forall>g < SPEC_GROUPS. \<forall>j < SPEC_ORDINALS.
        (table ! g ! j = NO_SPEC \<and> (\<forall>i < n. os_code (ops ! i) \<noteq> g * 65536 + j)) \<or>
        (table ! g ! j < n \<and> table ! g ! j \<noteq> NO_SPEC \<and> os_code (ops ! (table ! g ! j)) = g * 65536 + j)) \<and>
     (\<forall>i < n. os_code (ops ! i) div 65536 < SPEC_GROUPS \<and> os_code (ops ! i) mod 65536 < SPEC_ORDINALS)"

definition table_ok :: "op_spec list \<Rightarrow> bool" where
  "table_ok ops \<longleftrightarrow> distinct (map os_code ops) \<and> length ops < NO_SPEC \<and>
     (\<forall>s \<in> set ops. os_code s div 65536 < SPEC_GROUPS \<and> os_code s mod 65536 < SPEC_ORDINALS)"

lemma indexes_start: "indexes ops 0 (replicate SPEC_GROUPS (replicate SPEC_ORDINALS NO_SPEC))"
  by (simp add: indexes_def)

lemma code_split: "(c :: nat) = c div 65536 * 65536 + c mod 65536"
  by simp

lemma index_one_step:
  assumes ok: "table_ok ops" and ix: "indexes ops n table" and n: "n < length ops"
  shows "\<exists>table'. index_one ops n table = Some table' \<and> indexes ops (Suc n) table'"
proof -
  define c g j where "c = os_code (ops ! n)" and "g = c div 65536" and "j = c mod 65536"
  have gj: "g < SPEC_GROUPS" "j < SPEC_ORDINALS" "c = g * 65536 + j"
    using ok n by (simp_all add: table_ok_def c_def g_def j_def)
  have new: "os_code (ops ! i) \<noteq> c" if "i < n" for i
    using ok n that nth_eq_iff_index_eq [of "map os_code ops" i n] by (simp add: table_ok_def c_def)
  have len: "length table = SPEC_GROUPS" "\<forall>row \<in> set table. length row = SPEC_ORDINALS"
    using ix by (simp_all add: indexes_def)
  have row: "length (table ! h) = SPEC_ORDINALS" if "h < SPEC_GROUPS" for h using len that by simp
  have cell: "(table ! h ! k = NO_SPEC \<and> (\<forall>i < n. os_code (ops ! i) \<noteq> h * 65536 + k)) \<or>
      (table ! h ! k < n \<and> table ! h ! k \<noteq> NO_SPEC \<and> os_code (ops ! (table ! h ! k)) = h * 65536 + k)"
    if "h < SPEC_GROUPS" "k < SPEC_ORDINALS" for h k using ix that by (simp add: indexes_def)
  have free: "table ! g ! j = NO_SPEC" using cell [OF gj(1,2)] new gj(3) by metis
  have small: "n < NO_SPEC" using ok n by (simp add: table_ok_def)
  define table' where "table' = table[g := (table ! g)[j := n]]"
  have at: "table' ! h ! k = (if h = g \<and> k = j then n else table ! h ! k)"
    if "h < SPEC_GROUPS" "k < SPEC_ORDINALS" for h k
    using that gj len row by (auto simp: table'_def nth_list_update)
  have "index_one ops n table = Some table'"
    using gj free small by (simp add: index_one_def Let_def c_def g_def j_def table'_def)
  moreover have "indexes ops (Suc n) table'"
    unfolding indexes_def
  proof (intro conjI allI impI)
    show "length table' = SPEC_GROUPS" using len by (simp add: table'_def)
    show "\<forall>row \<in> set table'. length row = SPEC_ORDINALS"
      using len row gj(1) by (auto simp: table'_def dest: set_update_subset_insert [THEN subsetD])
    show "os_code (ops ! i) div 65536 < SPEC_GROUPS" "os_code (ops ! i) mod 65536 < SPEC_ORDINALS" if "i < Suc n" for i
      using ok n that by (simp_all add: table_ok_def)
    show "(table' ! h ! k = NO_SPEC \<and> (\<forall>i < Suc n. os_code (ops ! i) \<noteq> h * 65536 + k)) \<or>
        (table' ! h ! k < Suc n \<and> table' ! h ! k \<noteq> NO_SPEC \<and> os_code (ops ! (table' ! h ! k)) = h * 65536 + k)"
      if hk: "h < SPEC_GROUPS" "k < SPEC_ORDINALS" for h k
    proof (cases "h = g \<and> k = j")
      case True
      then show ?thesis using at [OF hk] gj(3) small by (simp add: c_def)
    next
      case False
      have "h * 65536 + k \<noteq> c"
      proof
        assume "h * 65536 + k = c"
        then have "h = c div 65536" "k = c mod 65536" using hk by (auto simp: SPEC_ORDINALS_def)
        then show False using False g_def j_def by simp
      qed
      then show ?thesis using at [OF hk] False cell [OF hk] by (auto simp: c_def less_Suc_eq)
    qed
  qed
  ultimately show ?thesis by blast
qed

lemma build_index_ok:
  assumes "table_ok ops"
  shows "\<exists>table. build_index ops = Some table \<and> indexes ops (length ops) table"
proof -
  have "\<exists>table. fold_opt (index_one ops) [0..<n] (replicate SPEC_GROUPS (replicate SPEC_ORDINALS NO_SPEC)) =
      Some table \<and> indexes ops n table" if "n \<le> length ops" for n
    using that
  proof (induction n)
    case 0
    then show ?case using indexes_start by simp
  next
    case (Suc n)
    then obtain t where t: "fold_opt (index_one ops) [0..<n] (replicate SPEC_GROUPS (replicate SPEC_ORDINALS NO_SPEC)) =
        Some t" "indexes ops n t" by auto
    obtain t' where "index_one ops n t = Some t'" "indexes ops (Suc n) t'"
      using index_one_step [OF assms t(2)] Suc.prems by auto
    then show ?case using t(1) by (simp add: fold_opt_append)
  qed
  then show ?thesis by (simp add: build_index_def)
qed

lemma spec_search_nth:
  "distinct (map os_code ops) \<Longrightarrow> i < length ops \<Longrightarrow> spec_search (os_code (ops ! i)) ops = Some (ops ! i)"
proof (induction ops arbitrary: i)
  case (Cons s ss)
  show ?case
  proof (cases i)
    case (Suc k)
    then have "os_code (ss ! k) \<in> os_code ` set ss" using Cons.prems(2) by simp
    then have "os_code s \<noteq> os_code (ss ! k)" using Cons.prems(1) by auto
    then show ?thesis using Cons Suc by simp
  qed simp
qed simp

lemma spec_search_None: "spec_search code ops = None \<longleftrightarrow> (\<forall>i < length ops. os_code (ops ! i) \<noteq> code)"
  by (induction ops) (auto simp: All_less_Suc2)

lemma spec_in_search:
  assumes "table_ok ops" and "indexes ops (length ops) table"
  shows "spec_in ops table code = spec_search code ops"
proof -
  define g j where "g = code div 65536" and "j = code mod 65536"
  show ?thesis
  proof (cases "g < SPEC_GROUPS \<and> j < SPEC_ORDINALS")
    case True
    have "(table ! g ! j = NO_SPEC \<and> (\<forall>i < length ops. os_code (ops ! i) \<noteq> g * 65536 + j)) \<or>
        (table ! g ! j < length ops \<and> table ! g ! j \<noteq> NO_SPEC \<and> os_code (ops ! (table ! g ! j)) = g * 65536 + j)"
      using assms(2) True by (simp add: indexes_def)
    moreover have "g * 65536 + j = code" by (simp add: g_def j_def)
    ultimately consider "table ! g ! j = NO_SPEC" "spec_search code ops = None"
      | "table ! g ! j \<noteq> NO_SPEC" "spec_search code ops = Some (ops ! (table ! g ! j))"
      using spec_search_None [of code ops] spec_search_nth [of ops "table ! g ! j"] assms(1)
      by (auto simp: table_ok_def)
    then show ?thesis
      using True by cases (simp_all add: spec_in_def g_def [symmetric] j_def [symmetric] Let_def)
  next
    case False
    have "spec_search code ops = None"
      unfolding spec_search_None
    proof (intro allI impI)
      fix i assume "i < length ops"
      then have "os_code (ops ! i) div 65536 < SPEC_GROUPS" "os_code (ops ! i) mod 65536 < SPEC_ORDINALS"
        using assms(1) by (simp_all add: table_ok_def)
      then show "os_code (ops ! i) \<noteq> code" using False g_def j_def by metis
    qed
    then show ?thesis using False by (auto simp: spec_in_def g_def j_def Let_def)
  qed
qed

lemmas table_eval = OPERATIONS_def op_tables op_spec_of_def op_codes SPEC_GROUPS_def SPEC_ORDINALS_def NO_SPEC_def

lemma operations_distinct: "distinct (map os_code OPERATIONS)"
  by (simp add: table_eval)

lemma operations_ok: "table_ok OPERATIONS"
  unfolding table_ok_def using operations_distinct by (simp add: table_eval)

lemma spec_abi: "build_index OPERATIONS \<noteq> None" "spec code = abi_spec code"
proof -
  obtain table where "build_index OPERATIONS = Some table" "indexes OPERATIONS (length OPERATIONS) table"
    using build_index_ok [OF operations_ok] by blast
  then show "build_index OPERATIONS \<noteq> None" "spec code = abi_spec code"
    using spec_in_search [OF operations_ok] by (simp_all add: spec_def abi_spec_def)
qed

section \<open>Properties\<close>

text \<open>
  C22. The two-level index built at compile time passes its assertions, and the lookup the kernel makes
  through it returns, for every code, exactly what the interface's search of the operation table returns;
  an unassigned code is refused by both.
\<close>

theorem spec_is_search:
  "build_index OPERATIONS \<noteq> None \<and> spec code = abi_spec code"
  using spec_abi by simp

end
