(* ===== verification/Authority.thy ===== *)
theory Authority
  imports Machine Operations
begin

text \<open>
  The authority path of the kernel interface (\<open>kernel/src/api/mod.rs\<close>): what keeps an object alive,
  installing and releasing capabilities, the grant tree's allocation and collection, the walk of a
  lineage and the resolution of a handle. An index that leaves a table is a panic, the result \<open>None\<close> of
  the outer option. The operations are modelled as they run to completion; their interleaving on the
  shared hold of the machine is the subject of \<open>Derive_Race\<close>.
\<close>

definition REFUSAL_RECORD_LIMIT :: nat where "REFUSAL_RECORD_LIMIT = 64"

record resolved =
  rs_slot :: nat
  rs_object :: obj_ref
  rs_grant :: grant_id
  rs_rights :: u32
  rs_facet :: nat

record ctx =
  cx_domain :: nat
  cx_thread :: nat
  cx_handle :: u64
  cx_operation :: nat
  cx_flags :: u64
  cx_deadline :: nat
  cx_now :: nat
  cx_cap :: resolved

section \<open>Objects\<close>

definition alive_at :: "('a \<Rightarrow> bool) \<Rightarrow> ('a \<Rightarrow> u32) \<Rightarrow> 'a list \<Rightarrow> obj_ref \<Rightarrow> bool" where
  "alive_at used generation table object =
     (case nth_opt table (or_index object) of
        None \<Rightarrow> False
      | Some x \<Rightarrow> used x \<and> generation x = or_generation object)"

definition object_alive :: "machine \<Rightarrow> obj_ref \<Rightarrow> bool" where
  "object_alive m object =
     (case or_kind object of
        Scope \<Rightarrow> alive_at (\<lambda>s. sc_state s \<noteq> SEmpty) sc_generation (mc_scopes m) object
      | Domain \<Rightarrow> alive_at (\<lambda>d. dm_state d \<noteq> DomEmpty) dm_generation (mc_domains m) object
      | Memory \<Rightarrow> alive_at (\<lambda>o'. mo_state o' \<noteq> MemEmpty) mo_generation (mc_memories m) object
      | Endpoint \<Rightarrow> alive_at ei_used ei_generation (mc_endpoint_ids m) object
      | Invocation \<Rightarrow> alive_at (\<lambda>i. iv_state i \<noteq> InvEmpty) iv_generation (mc_invocations m) object
      | Signal \<Rightarrow> alive_at si_used si_generation (mc_signals m) object
      | Timer \<Rightarrow> alive_at tm_used tm_generation (mc_timers m) object
      | ControlLog \<Rightarrow> alive_at cl_used cl_generation (mc_logs m) object
      | Device \<Rightarrow> alive_at dv_used dv_generation (mc_devices m) object)"

definition object_id :: "machine \<Rightarrow> obj_ref \<Rightarrow> nat option" where
  "object_id m object =
     (if \<not> object_alive m object then Some 0
      else case or_kind object of
        Scope \<Rightarrow> map_option sc_id (nth_opt (mc_scopes m) (or_index object))
      | Domain \<Rightarrow> map_option dm_id (nth_opt (mc_domains m) (or_index object))
      | Memory \<Rightarrow> map_option mo_id (nth_opt (mc_memories m) (or_index object))
      | Endpoint \<Rightarrow> map_option ep_id (nth_opt (mc_endpoints m) (or_index object))
      | Invocation \<Rightarrow> map_option iv_id (nth_opt (mc_invocations m) (or_index object))
      | Signal \<Rightarrow> map_option si_id (nth_opt (mc_signals m) (or_index object))
      | Timer \<Rightarrow> map_option tm_id (nth_opt (mc_timers m) (or_index object))
      | ControlLog \<Rightarrow> map_option cl_id (nth_opt (mc_logs m) (or_index object))
      | Device \<Rightarrow> map_option dv_id (nth_opt (mc_devices m) (or_index object)))"

text \<open>The two ways a reference count moves: a locked record saturates, an atomic one wraps upwards.\<close>

definition apply_locked :: "int \<Rightarrow> nat \<Rightarrow> nat" where
  "apply_locked delta v = (if delta \<ge> 0 then sat_add32 v (nat delta) else v - nat (- delta))"

definition apply_atomic :: "int \<Rightarrow> nat \<Rightarrow> nat" where
  "apply_atomic delta v = (if delta \<ge> 0 then wrap_add32 v (nat delta) else v - nat (- delta))"

definition upd_checked :: "nat \<Rightarrow> ('a \<Rightarrow> 'a) \<Rightarrow> 'a list \<Rightarrow> 'a list option" where
  "upd_checked i f xs = (if i < length xs then Some (upd i f xs) else None)"

definition adjust_object_refs :: "obj_ref \<Rightarrow> int \<Rightarrow> machine \<Rightarrow> machine option" where
  "adjust_object_refs object delta m =
     (let i = or_index object in
      case or_kind object of
        Scope \<Rightarrow> map_option (\<lambda>t. m\<lparr>mc_scopes := t\<rparr>)
          (upd_checked i (\<lambda>s. s\<lparr>sc_refs := apply_atomic delta (sc_refs s)\<rparr>) (mc_scopes m))
      | Domain \<Rightarrow> map_option (\<lambda>t. m\<lparr>mc_domains := t\<rparr>)
          (upd_checked i (\<lambda>d. d\<lparr>dm_refs := apply_atomic delta (dm_refs d)\<rparr>) (mc_domains m))
      | Memory \<Rightarrow> map_option (\<lambda>t. m\<lparr>mc_memories := t\<rparr>)
          (upd_checked i (\<lambda>o'. o'\<lparr>mo_refs := apply_atomic delta (mo_refs o')\<rparr>) (mc_memories m))
      | Endpoint \<Rightarrow> map_option (\<lambda>t. m\<lparr>mc_endpoint_ids := t\<rparr>)
          (upd_checked i (\<lambda>e. e\<lparr>ei_refs := apply_atomic delta (ei_refs e)\<rparr>) (mc_endpoint_ids m))
      | Invocation \<Rightarrow> map_option (\<lambda>t. m\<lparr>mc_invocations := t\<rparr>)
          (upd_checked i (\<lambda>v. v\<lparr>iv_refs := apply_locked delta (iv_refs v)\<rparr>) (mc_invocations m))
      | Signal \<Rightarrow> map_option (\<lambda>t. m\<lparr>mc_signals := t\<rparr>)
          (upd_checked i (\<lambda>s. s\<lparr>si_refs := apply_atomic delta (si_refs s)\<rparr>) (mc_signals m))
      | Timer \<Rightarrow> map_option (\<lambda>t. m\<lparr>mc_timers := t\<rparr>)
          (upd_checked i (\<lambda>t. t\<lparr>tm_refs := apply_atomic delta (tm_refs t)\<rparr>) (mc_timers m))
      | ControlLog \<Rightarrow> map_option (\<lambda>t. m\<lparr>mc_logs := t\<rparr>)
          (upd_checked i (\<lambda>l. l\<lparr>cl_refs := apply_locked delta (cl_refs l)\<rparr>) (mc_logs m))
      | Device \<Rightarrow> map_option (\<lambda>t. m\<lparr>mc_devices := t\<rparr>)
          (upd_checked i (\<lambda>d. d\<lparr>dv_refs := apply_atomic delta (dv_refs d)\<rparr>) (mc_devices m)))"

section \<open>Charges\<close>

definition charge_metadata :: "scope_id \<Rightarrow> machine \<Rightarrow> machine \<times> bool" where
  "charge_metadata s m = (case reserve (mc_scopes m) s Metadata 1 of (t, ok) \<Rightarrow> (m\<lparr>mc_scopes := t\<rparr>, ok))"

definition release_metadata :: "scope_id \<Rightarrow> machine \<Rightarrow> machine" where
  "release_metadata s m = m\<lparr>mc_scopes := release (mc_scopes m) s Metadata 1\<rparr>"

section \<open>Grants\<close>

definition free_grant_hint :: "nat \<Rightarrow> machine \<Rightarrow> machine" where
  "free_grant_hint index m = m\<lparr>mc_grant_hint := min (mc_grant_hint m) index\<rparr>"

text \<open>One turn frees a node nothing refers to and goes on with its parent; \<open>n\<close> turns are left.\<close>

fun collect_loop :: "nat \<Rightarrow> grant_id \<Rightarrow> machine \<Rightarrow> machine option" where
  "collect_loop 0 current m = Some m"
| "collect_loop (Suc n) current m =
     (if current = NO_GRANT then Some m
      else case nth_opt (mc_grants m) current of
          None \<Rightarrow> None
        | Some node \<Rightarrow>
            if \<not> gr_used node \<or> gr_refs node > 0 \<or> gr_children node > 0 then Some m
            else
              let m1 = free_grant_hint current (m\<lparr>mc_grants := upd current (\<lambda>_. grant_empty) (mc_grants m)\<rparr>);
                  parent = gr_parent node
              in case (if parent = NO_GRANT then Some m1
                       else map_option (\<lambda>gs. m1\<lparr>mc_grants := gs\<rparr>)
                         (upd_checked parent (\<lambda>p. p\<lparr>gr_children := gr_children p - 1\<rparr>) (mc_grants m1))) of
                   None \<Rightarrow> None
                 | Some m2 \<Rightarrow> collect_loop n parent (release_metadata (gr_sponsor node) m2))"

definition collect_grant :: "grant_id \<Rightarrow> machine \<Rightarrow> machine option" where
  "collect_grant grant m = collect_loop MAX_DERIVE_DEPTH grant m"

text \<open>The depth a child of \<open>parent\<close> has; a root has depth zero.\<close>

definition child_depth :: "grant_id \<Rightarrow> machine \<Rightarrow> nat option" where
  "child_depth parent m =
     (if parent = NO_GRANT then Some 0
      else map_option (\<lambda>p. gr_depth p + 1) (nth_opt (mc_grants m) parent))"

definition free_node :: "machine \<Rightarrow> nat option" where
  "free_node m =
     (let total = length (mc_grants m); hint = min (mc_grant_hint m) total in
      find (\<lambda>i. \<not> gr_used (mc_grants m ! i)) ([hint..<total] @ [0..<hint]))"

definition grant_node ::
    "nat \<Rightarrow> grant_id \<Rightarrow> nat \<Rightarrow> obj_ref \<Rightarrow> u32 \<Rightarrow> nat \<Rightarrow> scope_id option \<Rightarrow> nat \<Rightarrow> scope_id \<Rightarrow> grant" where
  "grant_node ident parent depth object rights deadline life facet sponsor =
     \<lparr>gr_used = True, gr_id = ident, gr_parent = parent, gr_depth = depth, gr_rights = rights,
      gr_deadline_ns = deadline, gr_life_scope = life, gr_facet = facet, gr_object = object,
      gr_fenced = False, gr_refs = 0, gr_children = 0, gr_sponsor = sponsor\<rparr>"

definition grant_alloc ::
    "scope_id \<Rightarrow> grant_id \<Rightarrow> obj_ref \<Rightarrow> u32 \<Rightarrow> nat \<Rightarrow> scope_id option \<Rightarrow> nat \<Rightarrow> machine \<Rightarrow> (machine \<times> grant_id option) option" where
  "grant_alloc sponsor parent object rights deadline life facet m = do {
     depth \<leftarrow> child_depth parent m;
     if depth > MAX_DERIVE_DEPTH then Some (m, None)
     else case charge_metadata sponsor m of
         (m1, False) \<Rightarrow> Some (m1, None)
       | (m1, True) \<Rightarrow>
           (case next_id m1 of
              (m2, None) \<Rightarrow> Some (release_metadata sponsor m2, None)
            | (m2, Some ident) \<Rightarrow>
                (case free_node m2 of
                   None \<Rightarrow> Some (release_metadata sponsor m2, None)
                 | Some index \<Rightarrow>
                     let node = grant_node ident parent depth object rights deadline life facet sponsor;
                         m3 = m2\<lparr>mc_grants := upd index (\<lambda>_. node) (mc_grants m2), mc_grant_hint := index + 1\<rparr>
                     in if parent = NO_GRANT then Some (m3, Some index)
                        else do {
                          p \<leftarrow> nth_opt (mc_grants m3) parent;
                          c \<leftarrow> checked_add32 (gr_children p) 1;
                          Some (m3\<lparr>mc_grants := upd parent (\<lambda>p. p\<lparr>gr_children := c\<rparr>) (mc_grants m3)\<rparr>, Some index) }))
   }"

section \<open>Capabilities\<close>

definition install_in :: "cap_table \<Rightarrow> nat option \<Rightarrow> obj_ref \<Rightarrow> grant_id \<Rightarrow> u64 option \<times> cap_table" where
  "install_in t slot object grant =
     (case slot of
        Some i \<Rightarrow> install_at t i object grant
      | None \<Rightarrow> (case cap_table_install t object grant of (r, t') \<Rightarrow> (map_option snd r, t')))"

definition cap_install ::
    "nat \<Rightarrow> obj_ref \<Rightarrow> grant_id \<Rightarrow> nat option \<Rightarrow> machine \<Rightarrow> (machine \<times> u64 option) option" where
  "cap_install domain object grant slot m = do {
     d \<leftarrow> nth_opt (mc_domains m) domain;
     case charge_metadata (dm_owner_scope d) m of
       (m1, False) \<Rightarrow> Some (m1, None)
     | (m1, True) \<Rightarrow>
         (case install_in (dm_caps d) slot object grant of
            (r, caps) \<Rightarrow>
              let m2 = m1\<lparr>mc_domains := upd domain (\<lambda>d. d\<lparr>dm_caps := caps\<rparr>) (mc_domains m1)\<rparr> in
              case r of
                None \<Rightarrow> Some (release_metadata (dm_owner_scope d) m2, None)
              | Some h \<Rightarrow> do {
                  m3 \<leftarrow> (if grant = NO_GRANT then Some m2
                         else map_option (\<lambda>gs. m2\<lparr>mc_grants := gs\<rparr>)
                           (upd_checked grant (\<lambda>n. n\<lparr>gr_refs := sat_add32 (gr_refs n) 1\<rparr>) (mc_grants m2)));
                  m4 \<leftarrow> adjust_object_refs object 1 m3;
                  Some (m4, Some h) })
   }"

definition collect_invocation :: "nat \<Rightarrow> machine \<Rightarrow> machine" where
  "collect_invocation index m =
     (case nth_opt (mc_invocations m) index of
        None \<Rightarrow> m
      | Some i \<Rightarrow>
          if iv_state i \<noteq> InvResolved \<or> iv_refs i \<noteq> 0 then m
          else release_invocation index
            (m\<lparr>mc_invocations := upd index
                (\<lambda>i. i\<lparr>iv_state := InvEmpty, iv_waiter := None, iv_refs := 0\<rparr>) (mc_invocations m)\<rparr>))"

text \<open>The memory object the entry names, if the generation still matches, is noted for collection.\<close>

definition note_memory :: "obj_ref \<Rightarrow> machine \<Rightarrow> machine" where
  "note_memory object m =
     (if or_kind object = Memory \<and>
         (case nth_opt (mc_memories m) (or_index object) of
            None \<Rightarrow> False | Some o' \<Rightarrow> mo_generation o' = or_generation object)
      then defer_memory (or_index object) m else m)"

definition release_entry :: "nat \<Rightarrow> cap_entry \<Rightarrow> machine \<Rightarrow> machine option" where
  "release_entry domain e m = do {
     d \<leftarrow> nth_opt (mc_domains m) domain;
     let m1 = release_metadata (dm_owner_scope d) m;
     m2 \<leftarrow> (if ce_grant e = NO_GRANT then Some m1
            else map_option (\<lambda>gs. m1\<lparr>mc_grants := gs\<rparr>)
              (upd_checked (ce_grant e) (\<lambda>n. n\<lparr>gr_refs := gr_refs n - 1\<rparr>) (mc_grants m1)));
     m3 \<leftarrow> adjust_object_refs (ce_object e) (- 1) m2;
     let m4 = (if or_kind (ce_object e) = Invocation then collect_invocation (or_index (ce_object e)) m3 else m3);
     collect_grant (ce_grant e) (note_memory (ce_object e) m4)
   }"

definition cap_release :: "nat \<Rightarrow> u64 \<Rightarrow> machine \<Rightarrow> (machine \<times> bool) option" where
  "cap_release domain h m = do {
     d \<leftarrow> nth_opt (mc_domains m) domain;
     case cap_table_release (dm_caps d) h of
       (None, caps) \<Rightarrow> Some (m\<lparr>mc_domains := upd domain (\<lambda>d. d\<lparr>dm_caps := caps\<rparr>) (mc_domains m)\<rparr>, False)
     | (Some e, caps) \<Rightarrow>
         map_option (\<lambda>m'. (m', True))
           (release_entry domain e (m\<lparr>mc_domains := upd domain (\<lambda>d. d\<lparr>dm_caps := caps\<rparr>) (mc_domains m)\<rparr>))
   }"

definition cap_release_slot :: "nat \<Rightarrow> nat \<Rightarrow> machine \<Rightarrow> (machine \<times> bool) option" where
  "cap_release_slot domain slot m = do {
     d \<leftarrow> nth_opt (mc_domains m) domain;
     case release_slot (dm_caps d) slot of
       (None, caps) \<Rightarrow> Some (m\<lparr>mc_domains := upd domain (\<lambda>d. d\<lparr>dm_caps := caps\<rparr>) (mc_domains m)\<rparr>, False)
     | (Some e, caps) \<Rightarrow>
         map_option (\<lambda>m'. (m', True))
           (release_entry domain e (m\<lparr>mc_domains := upd domain (\<lambda>d. d\<lparr>dm_caps := caps\<rparr>) (mc_domains m)\<rparr>))
   }"

section \<open>Resolution\<close>

text \<open>The walk towards the root, with the steps that are left of its bound.\<close>

fun walk_lineage :: "nat \<Rightarrow> machine \<Rightarrow> grant_id \<Rightarrow> nat \<Rightarrow> status" where
  "walk_lineage n m current now =
     (if current = NO_GRANT then OK
      else case n of
        0 \<Rightarrow> INVALID_HANDLE
      | Suc k \<Rightarrow>
          (case nth_opt (mc_grants m) current of
             None \<Rightarrow> INVALID_HANDLE
           | Some node \<Rightarrow>
               if \<not> gr_used node then INVALID_HANDLE
               else if gr_fenced node then SCOPE_CLOSED
               else if gr_deadline_ns node \<noteq> 0 \<and> now \<ge> gr_deadline_ns node then EXPIRED
               else if (case gr_life_scope node of None \<Rightarrow> False | Some s \<Rightarrow> \<not> is_open (mc_scopes m) s) then SCOPE_CLOSED
               else if \<not> is_open (mc_scopes m) (gr_sponsor node) then SCOPE_CLOSED
               else walk_lineage k m (gr_parent node) now))"

declare walk_lineage.simps [simp del]

definition lineage_status :: "machine \<Rightarrow> grant_id \<Rightarrow> nat \<Rightarrow> status" where
  "lineage_status m grant now = walk_lineage (MAX_DERIVE_DEPTH + 1) m grant now"

definition OBJECT_TYPE_NONE :: u32 where "OBJECT_TYPE_NONE = 0"

definition resolve_entry ::
    "machine \<Rightarrow> nat \<Rightarrow> u64 \<Rightarrow> u32 \<Rightarrow> u32 \<Rightarrow> nat option \<Rightarrow> (status + resolved) option" where
  "resolve_entry m domain h required_type required_rights now = do {
     d \<leftarrow> nth_opt (mc_domains m) domain;
     case cap_lookup (dm_caps d) h of
       None \<Rightarrow> Some (Inl INVALID_HANDLE)
     | Some entry \<Rightarrow>
         if required_type \<noteq> OBJECT_TYPE_NONE \<and> abi_type (or_kind (ce_object entry)) \<noteq> required_type
         then Some (Inl WRONG_TYPE)
         else (case nth_opt (mc_grants m) (ce_grant entry) of
             None \<Rightarrow> Some (Inl INVALID_HANDLE)
           | Some node \<Rightarrow>
               if \<not> gr_used node then Some (Inl INVALID_HANDLE)
               else
                 let lineage = (case now of None \<Rightarrow> OK | Some t \<Rightarrow> lineage_status m (ce_grant entry) t) in
                 if lineage \<noteq> OK then Some (Inl lineage)
                 else if gr_object node \<noteq> ce_object entry then Some (Inl INVALID_HANDLE)
                 else if gr_rights node AND required_rights \<noteq> required_rights then Some (Inl INSUFFICIENT_RIGHTS)
                 else if \<not> object_alive m (ce_object entry) then Some (Inl PEER_DEAD)
                 else Some (Inr \<lparr>rs_slot = unat (handle_slot h), rs_object = ce_object entry,
                                 rs_grant = ce_grant entry, rs_rights = gr_rights node, rs_facet = gr_facet node\<rparr>))
   }"

definition resolve ::
    "machine \<Rightarrow> nat \<Rightarrow> u64 \<Rightarrow> u32 \<Rightarrow> u32 \<Rightarrow> nat \<Rightarrow> (status + resolved) option" where
  "resolve m domain h required_type required_rights now =
     resolve_entry m domain h required_type required_rights (Some now)"

definition resolve_observer ::
    "machine \<Rightarrow> nat \<Rightarrow> u64 \<Rightarrow> u32 \<Rightarrow> u32 \<Rightarrow> (status + resolved) option" where
  "resolve_observer m domain h required_type required_rights =
     resolve_entry m domain h required_type required_rights None"

section \<open>Refusals and receipts\<close>

definition note_refusal :: "nat \<Rightarrow> machine \<Rightarrow> machine option" where
  "note_refusal domain m =
     (if domain \<ge> length (mc_domains m) then Some m
      else do {
        _ \<leftarrow> checked_add64 (dm_refusals (mc_domains m ! domain)) 1;
        Some (m\<lparr>mc_domains := upd domain (\<lambda>d. d\<lparr>dm_refusals := wrap_add64 (dm_refusals d) 1,
          dm_refusal_records := (if dm_refusal_records d < REFUSAL_RECORD_LIMIT
                                 then dm_refusal_records d + 1 else dm_refusal_records d)\<rparr>) (mc_domains m)\<rparr>)
      })"

definition reserve_receipt :: "machine \<Rightarrow> (machine \<times> bool) option" where
  "reserve_receipt m =
     (case mc_system_log m of
        None \<Rightarrow> Some (m, True)
      | Some i \<Rightarrow> do {
          l \<leftarrow> nth_opt (mc_logs m) i;
          case log_reserve l of (ok, l') \<Rightarrow> Some (m\<lparr>mc_logs := (mc_logs m)[i := l']\<rparr>, ok) })"

definition release_receipt :: "machine \<Rightarrow> machine option" where
  "release_receipt m =
     (case mc_system_log m of
        None \<Rightarrow> Some m
      | Some i \<Rightarrow> map_option (\<lambda>ls. m\<lparr>mc_logs := ls\<rparr>) (upd_checked i release_reservation (mc_logs m)))"

text \<open>The walk of \<open>grant_within\<close>, with the steps that are left of its bound.\<close>

fun within_walk :: "nat \<Rightarrow> machine \<Rightarrow> grant_id \<Rightarrow> grant_id \<Rightarrow> bool" where
  "within_walk 0 m root current = False"
| "within_walk (Suc n) m root current =
     (if current = NO_GRANT then False
      else if current = root then True
      else case nth_opt (mc_grants m) current of
          None \<Rightarrow> False
        | Some node \<Rightarrow> if \<not> gr_used node then False else within_walk n m root (gr_parent node))"

definition grant_within :: "machine \<Rightarrow> grant_id \<Rightarrow> grant_id \<Rightarrow> bool" where
  "grant_within m root candidate = within_walk (MAX_DERIVE_DEPTH + 2) m root candidate"

end
