(* ===== verification/Receipts.thy ===== *)
theory Receipts
  imports Authority
begin

text \<open>
  Control receipts as the operations write them (\<open>kernel/src/api/mod.rs\<close>: \<open>receipt\<close>) and the control log
  seen through a capability (\<open>kernel/src/api/logops.rs\<close>). A handler takes its request as a record and
  returns its response as one; the bytes of the descriptor are the business of \<open>User_Copy\<close>. The wait of a
  reader is the state it leaves before it sleeps and what it does when it runs again.
\<close>

definition BATCH :: nat where "BATCH = 16"

text \<open>
  The readers of a log, lowest thread first, until one of them is woken. The bits of the loop's copy are
  the threads of the list.
\<close>

fun wake_readers :: "wake_env \<Rightarrow> nat \<Rightarrow> u32 \<Rightarrow> nat list \<Rightarrow> machine \<Rightarrow> machine option" where
  "wake_readers e index generation [] m = Some m"
| "wake_readers e index generation (t # ts) m =
     (let m1 = m\<lparr>mc_logs := upd index (\<lambda>l. l\<lparr>cl_readers := cl_readers l AND NOT (push_bit t 1)\<rparr>) (mc_logs m)\<rparr>
      in case defer_wake_if e t (\<lambda>r. wr_wait r = WaitLog index generation) OK 0 AnyHint (mc_threads m1) of
           None \<Rightarrow> None
         | Some (w, True) \<Rightarrow> Some (m1\<lparr>mc_threads := w\<rparr>)
         | Some (w, False) \<Rightarrow> wake_readers e index generation ts (m1\<lparr>mc_threads := w\<rparr>))"

definition wake_reader :: "wake_env \<Rightarrow> nat \<Rightarrow> u32 \<Rightarrow> machine \<Rightarrow> machine option" where
  "wake_reader e index generation m = do {
     l \<leftarrow> nth_opt (mc_logs m) index;
     if cl_count l < BATCH then Some m
     else wake_readers e index generation (filter (bit (cl_readers l)) [0..<64]) m
   }"

definition receipt_record ::
    "machine \<Rightarrow> nat \<Rightarrow> nat \<Rightarrow> nat \<Rightarrow> scope_id \<Rightarrow> nat \<Rightarrow> nat \<Rightarrow> nat \<Rightarrow> status \<Rightarrow> nat \<Rightarrow> nat \<Rightarrow> receipt" where
  "receipt_record m now kind origin_domain origin_scope object grant parent result a b =
     \<lparr>rc_schema = RECEIPT_SCHEMA, rc_kind = kind, rc_sequence = 0, rc_epoch = mc_boot_epoch m, rc_ns = now,
      rc_origin_domain_id = (case nth_opt (mc_domains m) origin_domain of None \<Rightarrow> 0 | Some d \<Rightarrow> dm_id d),
      rc_origin_scope_id = (case nth_opt (mc_scopes m) origin_scope of None \<Rightarrow> 0 | Some s \<Rightarrow> sc_id s),
      rc_object_id = object, rc_grant_id = grant, rc_parent_invocation_id = parent,
      rc_result = status_code result, rc_a = a, rc_b = b\<rparr>"

definition write_receipt ::
    "wake_env \<Rightarrow> nat \<Rightarrow> nat \<Rightarrow> nat \<Rightarrow> scope_id \<Rightarrow> nat \<Rightarrow> nat \<Rightarrow> nat \<Rightarrow> status \<Rightarrow> nat \<Rightarrow> nat \<Rightarrow> bool \<Rightarrow> machine \<Rightarrow>
     (machine \<times> nat) option" where
  "write_receipt e now kind origin_domain origin_scope object grant parent result a b reserved m =
     (case mc_system_log m of
        None \<Rightarrow> Some (m, 0)
      | Some index \<Rightarrow> do {
          l \<leftarrow> nth_opt (mc_logs m) index;
          let r = receipt_record m now kind origin_domain origin_scope object grant parent result a b;
          let sl = (if reserved then commit_reserved l r else log_write l r);
          let m1 = m\<lparr>mc_logs := (mc_logs m)[index := snd sl]\<rparr>;
          m2 \<leftarrow> (if cl_count (snd sl) \<ge> BATCH \<and> cl_readers (snd sl) \<noteq> 0
                 then wake_reader e index (cl_generation (snd sl)) m1 else Some m1);
          Some (m2, fst sl)
        })"

section \<open>The log's operations\<close>

record log_append_request =
  la_kind :: nat
  la_reserved0 :: nat
  la_a :: nat
  la_b :: nat
  la_claimed_origin_domain_id :: nat

definition log_append ::
    "wake_env \<Rightarrow> ctx \<Rightarrow> log_append_request \<Rightarrow> machine \<Rightarrow> (machine \<times> (status + nat)) option" where
  "log_append e cx req m =
     (if la_reserved0 req \<noteq> 0 then Some (m, Inl INVALID_ARGUMENT)
      else do {
        d \<leftarrow> nth_opt (mc_domains m) (cx_domain cx);
        let cell = thread_get (mc_threads m) (cx_thread cx);
        parent \<leftarrow> (case bound cell of
                    None \<Rightarrow> Some 0
                  | Some (i, g) \<Rightarrow> map_option iv_id (nth_opt (mc_invocations m) (unat i)));
        (m1, sequence) \<leftarrow> write_receipt e (cx_now cx) KIND_SERVICE_NOTE (cx_domain cx) (tc_effective_scope cell)
           (la_kind req) 0 parent OK (la_a req) (la_b req) False m;
        if sequence = 0 then Some (m1, Inl LIMIT_EXHAUSTED) else Some (m1, Inr sequence)
      })"

definition log_ack_op :: "ctx \<Rightarrow> nat \<Rightarrow> machine \<Rightarrow> (machine \<times> (status + nat)) option" where
  "log_ack_op cx through m = do {
     l \<leftarrow> nth_opt (mc_logs m) (or_index (rs_object (cx_cap cx)));
     let r = log_acknowledge l through;
     Some (m\<lparr>mc_logs := (mc_logs m)[or_index (rs_object (cx_cap cx)) := snd r]\<rparr>, Inr (fst r))
   }"

record log_info =
  li_capacity :: nat
  li_reserved_cells :: nat
  li_used :: nat
  li_lost :: nat
  li_next_sequence :: nat
  li_oldest_sequence :: nat
  li_object_id :: nat

definition log_query :: "ctx \<Rightarrow> machine \<Rightarrow> log_info option" where
  "log_query cx m = do {
     l \<leftarrow> nth_opt (mc_logs m) (or_index (rs_object (cx_cap cx)));
     Some \<lparr>li_capacity = CONTROL_LOG_CAPACITY, li_reserved_cells = CONTROL_LOG_RESERVED,
           li_used = cl_count l, li_lost = cl_lost l, li_next_sequence = cl_next_sequence l,
           li_oldest_sequence = cl_oldest_sequence l, li_object_id = cl_id l\<rparr>
   }"

record log_read_result =
  lr_count :: nat
  lr_lost :: nat
  lr_next_sequence :: nat
  lr_records :: "receipt list"

text \<open>One pass of a read: the answer, a refusal, or the wait the reader goes to sleep with.\<close>

datatype log_pass = LogAnswer log_read_result | LogRefused status | LogSleeps

definition log_read_pass ::
    "ctx \<Rightarrow> op_spec \<Rightarrow> nat \<Rightarrow> bool \<Rightarrow> machine \<Rightarrow> (machine \<times> log_pass) option" where
  "log_read_pass cx sp now final_pass m = do {
     r \<leftarrow> resolve m (cx_domain cx) (cx_handle cx) (os_object_type sp) (os_rights sp) now;
     case r of
       Inl st \<Rightarrow> Some (m, LogRefused st)
     | Inr cap \<Rightarrow> do {
         let index = or_index (rs_object cap);
         l \<leftarrow> nth_opt (mc_logs m) index;
         let records = log_read l BATCH;
         if length records \<ge> BATCH \<or> cx_deadline cx = 0 \<or> final_pass \<or> now \<ge> cx_deadline cx
         then Some (m, LogAnswer \<lparr>lr_count = length records, lr_lost = cl_lost l,
                lr_next_sequence = cl_next_sequence l,
                lr_records = records @ replicate (BATCH - length records) receipt_zeroed\<rparr>)
         else if cx_flags cx AND FLAG_NONBLOCKING \<noteq> 0 then Some (m, LogRefused WOULD_BLOCK)
         else Some (m\<lparr>mc_threads := prepare_wait (cx_thread cx) (WaitLog index (or_generation (rs_object cap)))
                        (cx_deadline cx) (mc_threads m),
                      mc_logs := upd index (\<lambda>l. l\<lparr>cl_readers := cl_readers l OR push_bit (cx_thread cx) 1\<rparr>) (mc_logs m)\<rparr>,
                    LogSleeps) }
   }"

text \<open>What the reader does with the status it is woken with: another pass, the last pass, or a refusal.\<close>

definition log_woken :: "status \<Rightarrow> status + bool" where
  "log_woken st = (if st = OK then Inr False else if st = TIMED_OUT then Inr True else Inl st)"

end
