(* ===== verification/Capops.thy ===== *)
theory Capops
  imports Receipts
begin

text \<open>
  The operations every typed capability supports (\<open>kernel/src/api/capops.rs\<close>): inspect, derive, copy,
  close, fence and drain status. \<open>derive\<close> is its checks followed by its commit, as the source has them, so
  that the two can be separated by another processor's operation.
\<close>

section \<open>Inspecting\<close>

record cap_info =
  ci_object_type :: u32
  ci_rights :: u32
  ci_derive_depth :: nat
  ci_lineage_state :: nat
  ci_grant_id :: nat
  ci_parent_grant_id :: nat
  ci_deadline_ns :: nat
  ci_life_scope_id :: nat
  ci_object_id :: nat
  ci_facet :: nat

definition LINEAGE_LIVE :: nat where "LINEAGE_LIVE = 1"
definition LINEAGE_FENCED :: nat where "LINEAGE_FENCED = 2"
definition LINEAGE_EXPIRED :: nat where "LINEAGE_EXPIRED = 3"

definition lineage_code :: "status \<Rightarrow> nat" where
  "lineage_code st = (if st = OK then LINEAGE_LIVE else if st = EXPIRED then LINEAGE_EXPIRED else LINEAGE_FENCED)"

definition inspect :: "ctx \<Rightarrow> machine \<Rightarrow> cap_info option" where
  "inspect cx m = do {
     let cap = cx_cap cx;
     node \<leftarrow> nth_opt (mc_grants m) (rs_grant cap);
     parent_id \<leftarrow> (if gr_parent node = NO_GRANT then Some 0
                    else map_option gr_id (nth_opt (mc_grants m) (gr_parent node)));
     life_id \<leftarrow> (case gr_life_scope node of
                   None \<Rightarrow> Some 0
                 | Some s \<Rightarrow> map_option sc_id (nth_opt (mc_scopes m) s));
     oid \<leftarrow> object_id m (rs_object cap);
     Some \<lparr>ci_object_type = abi_type (or_kind (rs_object cap)), ci_rights = gr_rights node,
           ci_derive_depth = gr_depth node,
           ci_lineage_state = lineage_code (lineage_status m (rs_grant cap) (cx_now cx)),
           ci_grant_id = gr_id node, ci_parent_grant_id = parent_id, ci_deadline_ns = gr_deadline_ns node,
           ci_life_scope_id = life_id, ci_object_id = oid, ci_facet = gr_facet node\<rparr>
   }"

section \<open>Deriving and copying\<close>

record derive_request =
  dr_rights_mask :: u32
  dr_reserved0 :: nat
  dr_deadline_ns :: nat
  dr_life_scope :: u64

definition derive_deadline :: "grant \<Rightarrow> derive_request \<Rightarrow> status + nat" where
  "derive_deadline parent req =
     (if dr_deadline_ns req = 0 then Inr (gr_deadline_ns parent)
      else if gr_deadline_ns parent \<noteq> 0 \<and> dr_deadline_ns req > gr_deadline_ns parent then Inl INVALID_ARGUMENT
      else Inr (dr_deadline_ns req))"

definition derive_life ::
    "machine \<Rightarrow> ctx \<Rightarrow> grant \<Rightarrow> derive_request \<Rightarrow> (status + scope_id option) option" where
  "derive_life m cx parent req =
     (if dr_life_scope req = 0 then Some (Inr (gr_life_scope parent))
      else map_option (\<lambda>r. case r of Inl st \<Rightarrow> Inl st | Inr s \<Rightarrow> Inr (Some (or_index (rs_object s))))
        (resolve m (cx_domain cx) (dr_life_scope req) (abi_type Scope) RIGHT_INSPECT (cx_now cx)))"

text \<open>The checks: the parent node as read, and the deadline and life of the child, or the refusal.\<close>

definition derive_check ::
    "ctx \<Rightarrow> derive_request \<Rightarrow> machine \<Rightarrow> (status + grant \<times> nat \<times> scope_id option) option" where
  "derive_check cx req m =
     (if dr_reserved0 req \<noteq> 0 then Some (Inl INVALID_ARGUMENT)
      else do {
        parent \<leftarrow> nth_opt (mc_grants m) (rs_grant (cx_cap cx));
        if dr_rights_mask req AND NOT (gr_rights parent) \<noteq> 0 then Some (Inl INSUFFICIENT_RIGHTS)
        else if dr_rights_mask req AND NOT (rights_mask (or_kind (rs_object (cx_cap cx)))) \<noteq> 0
        then Some (Inl INVALID_ARGUMENT)
        else case derive_deadline parent req of
            Inl st \<Rightarrow> Some (Inl st)
          | Inr deadline \<Rightarrow>
              map_option (\<lambda>r. case r of Inl st \<Rightarrow> Inl st | Inr life \<Rightarrow> Inr (parent, deadline, life))
                (derive_life m cx parent req)
      })"

text \<open>The rollback of a child that found no slot in the table.\<close>

definition derive_undo :: "grant_id \<Rightarrow> grant_id \<Rightarrow> machine \<Rightarrow> machine option" where
  "derive_undo parent child m = do {
     gs1 \<leftarrow> upd_checked parent (\<lambda>p. p\<lparr>gr_children := gr_children p - 1\<rparr>) (mc_grants m);
     node \<leftarrow> nth_opt gs1 child;
     Some (release_metadata (gr_sponsor node)
       (free_grant_hint child (m\<lparr>mc_grants := upd child (\<lambda>_. grant_empty) gs1\<rparr>)))
   }"

definition derive_commit ::
    "ctx \<Rightarrow> derive_request \<Rightarrow> grant \<times> nat \<times> scope_id option \<Rightarrow> machine \<Rightarrow> (machine \<times> (status + u64)) option" where
  "derive_commit cx req checked m =
     (case checked of (parent, deadline, life) \<Rightarrow> do {
        d \<leftarrow> nth_opt (mc_domains m) (cx_domain cx);
        (m1, child) \<leftarrow> grant_alloc (dm_owner_scope d) (rs_grant (cx_cap cx)) (rs_object (cx_cap cx))
            (dr_rights_mask req) deadline life (gr_facet parent) m;
        case child of
          None \<Rightarrow> Some (m1, Inl LIMIT_EXHAUSTED)
        | Some c \<Rightarrow> do {
            (m2, h) \<leftarrow> cap_install (cx_domain cx) (rs_object (cx_cap cx)) c None m1;
            case h of
              Some v \<Rightarrow> Some (m2, Inr v)
            | None \<Rightarrow> map_option (\<lambda>m3. (m3, Inl LIMIT_EXHAUSTED)) (derive_undo (rs_grant (cx_cap cx)) c m2) }
      })"

definition derive :: "ctx \<Rightarrow> derive_request \<Rightarrow> machine \<Rightarrow> (machine \<times> (status + u64)) option" where
  "derive cx req m = do {
     r \<leftarrow> derive_check cx req m;
     case r of Inl st \<Rightarrow> Some (m, Inl st) | Inr checked \<Rightarrow> derive_commit cx req checked m
   }"

definition cap_copy :: "ctx \<Rightarrow> machine \<Rightarrow> (machine \<times> (status + u64)) option" where
  "cap_copy cx m = do {
     (m1, h) \<leftarrow> cap_install (cx_domain cx) (rs_object (cx_cap cx)) (rs_grant (cx_cap cx)) None m;
     Some (m1, case h of None \<Rightarrow> Inl LIMIT_EXHAUSTED | Some v \<Rightarrow> Inr v)
   }"

section \<open>Closing and fencing\<close>

definition cap_close :: "ctx \<Rightarrow> machine \<Rightarrow> (machine \<times> (status + nat)) option" where
  "cap_close cx m = do {
     (m1, ok) \<leftarrow> cap_release (cx_domain cx) (cx_handle cx) m;
     Some (m1, if ok then Inr 0 else Inl INVALID_HANDLE)
   }"

definition cap_fence :: "wake_env \<Rightarrow> ctx \<Rightarrow> machine \<Rightarrow> (machine \<times> (status + nat)) option" where
  "cap_fence e cx m = do {
     (gs, changed) \<leftarrow> fence_lineage (mc_grants m) (rs_grant (cx_cap cx));
     let m1 = m\<lparr>mc_grants := gs\<rparr>;
     node \<leftarrow> nth_opt gs (rs_grant (cx_cap cx));
     oid \<leftarrow> object_id m1 (rs_object (cx_cap cx));
     d \<leftarrow> nth_opt (mc_domains m1) (cx_domain cx);
     (m2, _) \<leftarrow> write_receipt e (cx_now cx) KIND_FENCE (cx_domain cx) (dm_owner_scope d) oid (gr_id node) 0 OK
        changed 0 False m1;
     Some (m2, Inr changed)
   }"

record drain_report =
  dp_state :: nat
  dp_threads_running :: nat
  dp_invocations_pending :: nat
  dp_effects_pending :: nat
  dp_maps_pending :: nat
  dp_undelivered_cancelled :: nat
  dp_external_unknown :: nat
  dp_retained_pages :: nat
  dp_retained_metadata :: nat
  dp_last_progress_ns :: nat
  dp_token :: nat

definition drain_report_zeroed :: drain_report where
  "drain_report_zeroed = \<lparr>dp_state = 0, dp_threads_running = 0, dp_invocations_pending = 0,
     dp_effects_pending = 0, dp_maps_pending = 0, dp_undelivered_cancelled = 0, dp_external_unknown = 0,
     dp_retained_pages = 0, dp_retained_metadata = 0, dp_last_progress_ns = 0, dp_token = 0\<rparr>"

definition drain_invocation :: "machine \<Rightarrow> grant_id \<Rightarrow> invocation \<Rightarrow> drain_report \<Rightarrow> drain_report" where
  "drain_invocation m root i r =
     (if iv_state i = InvEmpty then r
      else if iv_state i \<noteq> InvResolved \<and> grant_within m root (iv_grant i) then
        let r1 = r\<lparr>dp_invocations_pending := sat_add32 (dp_invocations_pending r) 1\<rparr> in
        if iv_effect i = EffAdmitted then r1\<lparr>dp_effects_pending := sat_add32 (dp_effects_pending r1) 1\<rparr> else r1
      else r)"

definition drain_map :: "machine \<Rightarrow> grant_id \<Rightarrow> map_record \<Rightarrow> drain_report \<Rightarrow> drain_report" where
  "drain_map m root mp r =
     (if mp_used mp \<and> grant_within m root (mp_grant mp)
      then r\<lparr>dp_maps_pending := sat_add32 (dp_maps_pending r) 1\<rparr> else r)"

definition cap_drain_status :: "ctx \<Rightarrow> machine \<Rightarrow> drain_report option" where
  "cap_drain_status cx m = do {
     let root = rs_grant (cx_cap cx);
     node \<leftarrow> nth_opt (mc_grants m) root;
     let r0 = drain_report_zeroed\<lparr>dp_state := scope_state_abi (if gr_fenced node then SFenced else SOpen)\<rparr>;
     let r1 = fold (drain_map m root) (mc_maps m) r0;
     let r2 = fold (drain_invocation m root) (mc_invocations m) r1;
     Some (r2\<lparr>dp_last_progress_ns := cx_now cx, dp_token := gr_id node\<rparr>)
   }"

end
