(* ===== verification/Authority_Tree.thy ===== *)
theory Authority_Tree
  imports Objects
begin

text \<open>
  The abstract authority state: the grant tree and the capability tables, and the seven ways the kernel's
  operations move it. A node is allocated under a used parent it narrows, a handle is installed on a
  used node for that node's object, a handle is dropped, a node nothing refers to is freed, a lineage is
  fenced. Every step keeps the shape of the tree, so no live handle ever names a free node; and a handle
  whose grant is fenced stays without effect until it is closed, and after that for ever.
\<close>

type_synonym auth = "grant list \<times> cap_table list"

section \<open>Counts\<close>

definition kids :: "grant list \<Rightarrow> grant_id \<Rightarrow> nat" where
  "kids gs g = sum_list (map (\<lambda>n. of_bool (gr_used n \<and> gr_parent n = g)) gs)"

definition names :: "grant_id \<Rightarrow> cap_entry \<Rightarrow> nat" where
  "names g e = of_bool (ce_live e \<and> ce_grant e = g)"

definition holders :: "cap_table list \<Rightarrow> grant_id \<Rightarrow> nat" where
  "holders cs g = sum_list (map (\<lambda>t. sum_list (map (names g) t)) cs)"

lemma sum_list_upd:
  fixes f :: "'a \<Rightarrow> nat"
  assumes "i < length xs"
  shows "sum_list (map f (xs[i := y])) + f (xs ! i) = sum_list (map f xs) + f y"
  using sum_map_upd [OF assms, of f "\<lambda>_. y"] assms by (simp add: upd_def)

lemma kids_upd:
  "i < length gs \<Longrightarrow> kids (gs[i := n]) g + of_bool (gr_used (gs ! i) \<and> gr_parent (gs ! i) = g) =
     kids gs g + of_bool (gr_used n \<and> gr_parent n = g)"
  unfolding kids_def by (rule sum_list_upd)

lemma kids_same:
  assumes "length gs' = length gs"
    and "\<And>i. i < length gs \<Longrightarrow> gr_used (gs' ! i) = gr_used (gs ! i) \<and> gr_parent (gs' ! i) = gr_parent (gs ! i)"
  shows "kids gs' g = kids gs g"
proof -
  have "map (\<lambda>n. of_bool (gr_used n \<and> gr_parent n = g)) gs' = (map (\<lambda>n. of_bool (gr_used n \<and> gr_parent n = g)) gs :: nat list)"
    by (rule nth_equalityI) (use assms in auto)
  then show ?thesis by (simp add: kids_def)
qed

lemma kids_pos: "i < length gs \<Longrightarrow> gr_used (gs ! i) \<Longrightarrow> gr_parent (gs ! i) = g \<Longrightarrow> 0 < kids gs g"
  using elem_le_sum_list [of i "map (\<lambda>n. of_bool (gr_used n \<and> gr_parent n = g)) gs :: nat list"]
  by (simp add: kids_def)

lemma holders_upd:
  "d < length cs \<Longrightarrow> holders (cs[d := t]) g + sum_list (map (names g) (cs ! d)) =
     holders cs g + sum_list (map (names g) t)"
  unfolding holders_def by (rule sum_list_upd)

lemma holders_pos:
  assumes "d < length cs" and "e \<in> set (cs ! d)" and "ce_live e" and "ce_grant e = g"
  shows "0 < holders cs g"
proof -
  have "names g e \<le> sum_list (map (names g) (cs ! d))" using assms(2) by (simp add: member_le_sum_list)
  moreover have "sum_list (map (names g) (cs ! d)) \<le> holders cs g"
    using elem_le_sum_list [of d "map (\<lambda>t. sum_list (map (names g) t)) cs"] assms(1) by (simp add: holders_def)
  ultimately show ?thesis using assms(3,4) by (simp add: names_def)
qed

lemma names_le: "names g e \<le> 1"
  by (simp add: names_def)

lemma table_count_le: "sum_list (map (names g) t) \<le> length t"
proof (induction t)
  case (Cons e t)
  then show ?case using names_le [of g e] by simp
qed simp

lemma holders_le:
  assumes "\<forall>t \<in> set cs. length t = k"
  shows "holders cs g \<le> length cs * k"
  using assms unfolding holders_def
proof (induction cs)
  case (Cons t cs)
  then have "sum_list (map (names g) t) \<le> k" using table_count_le [of g t] by simp
  then show ?case using Cons by simp
qed simp

section \<open>The invariant\<close>

definition narrower :: "grant \<Rightarrow> grant \<Rightarrow> bool" where
  "narrower n p \<longleftrightarrow> gr_rights n AND NOT (gr_rights p) = 0 \<and> gr_object n = gr_object p \<and>
     (gr_deadline_ns p = 0 \<or> gr_deadline_ns n \<noteq> 0 \<and> gr_deadline_ns n \<le> gr_deadline_ns p)"

definition narrows :: "grant list \<Rightarrow> bool" where
  "narrows gs \<longleftrightarrow> (\<forall>i < length gs. gr_used (gs ! i) \<longrightarrow> gr_parent (gs ! i) \<noteq> NO_GRANT \<longrightarrow>
     narrower (gs ! i) (gs ! gr_parent (gs ! i)))"

definition refs_cover :: "grant list \<Rightarrow> cap_table list \<Rightarrow> bool" where
  "refs_cover gs cs \<longleftrightarrow> (\<forall>g < length gs. gr_used (gs ! g) \<longrightarrow>
     kids gs g \<le> gr_children (gs ! g) \<and> holders cs g \<le> gr_refs (gs ! g))"

definition grounded :: "grant list \<Rightarrow> cap_table list \<Rightarrow> bool" where
  "grounded gs cs \<longleftrightarrow> (\<forall>t \<in> set cs. \<forall>e \<in> set t. ce_live e \<longrightarrow>
     ce_grant e < length gs \<and> gr_used (gs ! ce_grant e) \<and> gr_object (gs ! ce_grant e) = ce_object e)"

definition auth_ok :: "auth \<Rightarrow> bool" where
  "auth_ok = (\<lambda>(gs, cs). wf_grants gs \<and> narrows gs \<and> refs_cover gs cs \<and> grounded gs cs \<and>
     (\<forall>t \<in> set cs. wf_caps t) \<and> length cs * MAX_CAPS < U32_MAX)"

section \<open>Steps\<close>

definition set_refs :: "(nat \<Rightarrow> nat) \<Rightarrow> grant \<Rightarrow> grant" where
  "set_refs f n = n\<lparr>gr_refs := f (gr_refs n)\<rparr>"

definition set_children :: "(nat \<Rightarrow> nat) \<Rightarrow> grant \<Rightarrow> grant" where
  "set_children f n = n\<lparr>gr_children := f (gr_children n)\<rparr>"

inductive auth_step :: "bool \<Rightarrow> auth \<Rightarrow> auth \<Rightarrow> bool" for mint :: bool where
  alloc_root: "mint \<Longrightarrow> i < length gs \<Longrightarrow> \<not> gr_used (gs ! i) \<Longrightarrow> gr_used n \<Longrightarrow> gr_parent n = NO_GRANT \<Longrightarrow>
    gr_depth n \<le> MAX_DERIVE_DEPTH \<Longrightarrow> auth_step mint (gs, cs) (gs[i := n], cs)"
| alloc_child: "i < length gs \<Longrightarrow> \<not> gr_used (gs ! i) \<Longrightarrow> gr_used n \<Longrightarrow> gr_parent n = p \<Longrightarrow> p < length gs \<Longrightarrow>
    gr_used (gs ! p) \<Longrightarrow> gr_depth n = Suc (gr_depth (gs ! p)) \<Longrightarrow> gr_depth n \<le> MAX_DERIVE_DEPTH \<Longrightarrow>
    narrower n (gs ! p) \<Longrightarrow> auth_step mint (gs, cs) (upd p (set_children Suc) (gs[i := n]), cs)"
| hold: "d < length cs \<Longrightarrow> install_at (cs ! d) slot obj g = (Some h, t) \<Longrightarrow> g < length gs \<Longrightarrow> gr_used (gs ! g) \<Longrightarrow>
    gr_object (gs ! g) = obj \<Longrightarrow> auth_step mint (gs, cs) (upd g (set_refs (\<lambda>r. sat_add32 r 1)) gs, cs[d := t])"
| worn: "d < length cs \<Longrightarrow> install_at (cs ! d) slot obj g = (None, t) \<Longrightarrow> auth_step mint (gs, cs) (gs, cs[d := t])"
| drop_handle: "d < length cs \<Longrightarrow> cap_table_release (cs ! d) h = (Some e, t) \<Longrightarrow>
    auth_step mint (gs, cs) (upd (ce_grant e) (set_refs (\<lambda>r. r - 1)) gs, cs[d := t])"
| drop_slot: "d < length cs \<Longrightarrow> release_slot (cs ! d) slot = (Some e, t) \<Longrightarrow>
    auth_step mint (gs, cs) (upd (ce_grant e) (set_refs (\<lambda>r. r - 1)) gs, cs[d := t])"
| free_root: "i < length gs \<Longrightarrow> gr_used (gs ! i) \<Longrightarrow> gr_refs (gs ! i) = 0 \<Longrightarrow> gr_children (gs ! i) = 0 \<Longrightarrow>
    gr_parent (gs ! i) = NO_GRANT \<Longrightarrow> auth_step mint (gs, cs) (gs[i := grant_empty], cs)"
| free_child: "i < length gs \<Longrightarrow> gr_used (gs ! i) \<Longrightarrow> gr_refs (gs ! i) = 0 \<Longrightarrow> gr_children (gs ! i) = 0 \<Longrightarrow>
    gr_parent (gs ! i) = p \<Longrightarrow> p \<noteq> NO_GRANT \<Longrightarrow>
    auth_step mint (gs, cs) (upd p (set_children (\<lambda>c. c - 1)) (gs[i := grant_empty]), cs)"
| fence_below: "fences gs gs' \<Longrightarrow> auth_step mint (gs, cs) (gs', cs)"

section \<open>Every step keeps the invariant\<close>

definition same_shape :: "grant list \<Rightarrow> grant list \<Rightarrow> bool" where
  "same_shape gs gs' \<longleftrightarrow> length gs' = length gs \<and> (\<forall>i < length gs.
     gr_used (gs' ! i) = gr_used (gs ! i) \<and> gr_parent (gs' ! i) = gr_parent (gs ! i) \<and>
     gr_depth (gs' ! i) = gr_depth (gs ! i) \<and> gr_rights (gs' ! i) = gr_rights (gs ! i) \<and>
     gr_object (gs' ! i) = gr_object (gs ! i) \<and> gr_deadline_ns (gs' ! i) = gr_deadline_ns (gs ! i))"

lemma same_shape_upd:
  "(\<And>n. gr_used (f n) = gr_used n \<and> gr_parent (f n) = gr_parent n \<and> gr_depth (f n) = gr_depth n \<and>
     gr_rights (f n) = gr_rights n \<and> gr_object (f n) = gr_object n \<and> gr_deadline_ns (f n) = gr_deadline_ns n) \<Longrightarrow>
   same_shape gs (upd i f gs)"
  by (auto simp: same_shape_def nth_upd)

lemma same_shape_refs: "same_shape gs (upd i (set_refs f) gs)"
  by (rule same_shape_upd) (simp add: set_refs_def)

lemma same_shape_children: "same_shape gs (upd i (set_children f) gs)"
  by (rule same_shape_upd) (simp add: set_children_def)

lemma fences_same:
  assumes "fences gs gs'" and "i < length gs"
  shows "gs' ! i = (gs ! i)\<lparr>gr_fenced := gr_fenced (gs' ! i)\<rparr>"
proof -
  have "unfence (gs' ! i) = unfence (gs ! i)"
    using assms fences_length [OF assms(1)] unfolding fences_def by (metis nth_map)
  then show ?thesis by (cases "gs ! i", cases "gs' ! i", simp add: unfence_def)
qed

lemma fences_counts:
  assumes "fences gs gs'" and "i < length gs"
  shows "gr_children (gs' ! i) = gr_children (gs ! i)" "gr_refs (gs' ! i) = gr_refs (gs ! i)"
  using fences_same [OF assms] by (metis grant.select_convs(11,12) grant.surjective grant.update_convs(10))+

lemma same_shape_fences:
  assumes "fences gs gs'"
  shows "same_shape gs gs'"
  unfolding same_shape_def
proof (intro conjI allI impI)
  show "length gs' = length gs" using fences_length [OF assms] .
  fix i assume "i < length gs"
  note eq = fences_same [OF assms this]
  show "gr_used (gs' ! i) = gr_used (gs ! i)" "gr_parent (gs' ! i) = gr_parent (gs ! i)"
    "gr_depth (gs' ! i) = gr_depth (gs ! i)" "gr_rights (gs' ! i) = gr_rights (gs ! i)"
    "gr_object (gs' ! i) = gr_object (gs ! i)" "gr_deadline_ns (gs' ! i) = gr_deadline_ns (gs ! i)"
    by (subst eq, simp)+
qed

lemma same_shape_wf: "same_shape gs gs' \<Longrightarrow> wf_grants gs \<Longrightarrow> wf_grants gs'"
  unfolding wf_grants_def wf_node_def same_shape_def all_set_conv_all_nth by simp

lemma same_shape_narrows:
  assumes "same_shape gs gs'" and "wf_grants gs" and "narrows gs"
  shows "narrows gs'"
  unfolding narrows_def
proof (intro allI impI)
  fix i assume i: "i < length gs'" "gr_used (gs' ! i)" "gr_parent (gs' ! i) \<noteq> NO_GRANT"
  then have j: "i < length gs" "gr_used (gs ! i)" "gr_parent (gs ! i) \<noteq> NO_GRANT"
    using assms(1) by (auto simp: same_shape_def)
  then have p: "gr_parent (gs ! i) < length gs" using wf_grants_nth [OF assms(2)] by (simp add: wf_node_def)
  have "narrower (gs ! i) (gs ! gr_parent (gs ! i))" using assms(3) j by (simp add: narrows_def)
  then show "narrower (gs' ! i) (gs' ! gr_parent (gs' ! i))"
    using assms(1) j p by (simp add: same_shape_def narrower_def)
qed

lemma same_shape_kids: "same_shape gs gs' \<Longrightarrow> kids gs' g = kids gs g"
  by (rule kids_same) (simp_all add: same_shape_def)

lemma same_shape_grounded: "same_shape gs gs' \<Longrightarrow> grounded gs cs \<Longrightarrow> grounded gs' cs"
  by (simp add: same_shape_def grounded_def)

lemmas same_shape_keeps = same_shape_wf same_shape_narrows same_shape_kids same_shape_grounded

lemma same_shape_ok:
  assumes "auth_ok (gs, cs)" and "same_shape gs gs'"
    and "\<And>g. g < length gs \<Longrightarrow> gr_used (gs ! g) \<Longrightarrow>
           gr_children (gs ! g) \<le> gr_children (gs' ! g) \<and> gr_refs (gs ! g) \<le> gr_refs (gs' ! g)"
  shows "auth_ok (gs', cs)"
proof -
  have "refs_cover gs' cs"
    unfolding refs_cover_def
  proof (intro allI impI)
    fix g assume g: "g < length gs'" "gr_used (gs' ! g)"
    then have h: "g < length gs" "gr_used (gs ! g)" using assms(2) by (simp_all add: same_shape_def)
    then have "kids gs g \<le> gr_children (gs ! g)" "holders cs g \<le> gr_refs (gs ! g)"
      using assms(1) by (simp_all add: auth_ok_def refs_cover_def)
    then show "kids gs' g \<le> gr_children (gs' ! g) \<and> holders cs g \<le> gr_refs (gs' ! g)"
      using assms(3) [OF h] same_shape_kids [OF assms(2)] by (metis order_trans)
  qed
  then show ?thesis using assms(1,2) same_shape_keeps by (auto simp: auth_ok_def)
qed

text \<open>Writing a used node into a free slot, before its parent counts it.\<close>

lemma alloc_shape:
  assumes ok: "auth_ok (gs, cs)" and i: "i < length gs" "\<not> gr_used (gs ! i)" and n: "gr_used n"
    "gr_depth n \<le> MAX_DERIVE_DEPTH"
    and par: "gr_parent n \<noteq> NO_GRANT \<Longrightarrow> gr_parent n < length gs \<and> gr_used (gs ! gr_parent n) \<and>
      gr_depth n = Suc (gr_depth (gs ! gr_parent n)) \<and> narrower n (gs ! gr_parent n)"
  shows "wf_grants (gs[i := n])" "narrows (gs[i := n])" "grounded (gs[i := n]) cs"
    "kids (gs[i := n]) g = kids gs g + of_bool (gr_parent n = g)" "kids gs i = 0" "holders cs i = 0"
proof -
  have wf: "wf_grants gs" and nar: "narrows gs" and gr: "grounded gs cs"
    using ok by (simp_all add: auth_ok_def)
  have old: "gr_parent (gs ! j) \<noteq> i \<and> (gr_parent (gs ! j) \<noteq> NO_GRANT \<longrightarrow> gr_parent (gs ! j) < length gs \<and>
      gr_used (gs ! gr_parent (gs ! j)) \<and> gr_depth (gs ! j) = Suc (gr_depth (gs ! gr_parent (gs ! j)))) \<and>
      gr_depth (gs ! j) \<le> MAX_DERIVE_DEPTH" if "j < length gs" "gr_used (gs ! j)" for j
    using wf_grants_nth [OF wf that(1)] that(2) i wf by (auto simp: wf_node_def wf_grants_def)
  have self: "gr_parent n \<noteq> i" using par i wf by (auto simp: wf_grants_def)
  show "wf_grants (gs[i := n])"
    unfolding wf_grants_def all_set_conv_all_nth
  proof (intro conjI allI impI)
    show "length (gs[i := n]) \<le> NO_GRANT" using wf by (simp add: wf_grants_def)
    fix j assume "j < length (gs[i := n])"
    then show "wf_node (gs[i := n]) (gs[i := n] ! j)"
      using old [of j] par self n i by (cases "j = i") (auto simp: wf_node_def)
  qed
  show "narrows (gs[i := n])"
    unfolding narrows_def
  proof (intro allI impI)
    fix j assume j: "j < length (gs[i := n])" "gr_used (gs[i := n] ! j)" "gr_parent (gs[i := n] ! j) \<noteq> NO_GRANT"
    show "narrower (gs[i := n] ! j) (gs[i := n] ! gr_parent (gs[i := n] ! j))"
    proof (cases "j = i")
      case True
      then show ?thesis using j par self i by simp
    next
      case False
      then show ?thesis using j old [of j] nar by (simp add: narrows_def)
    qed
  qed
  show "grounded (gs[i := n]) cs"
    using gr i unfolding grounded_def by (metis length_list_update nth_list_update_neq)
  show "kids (gs[i := n]) g = kids gs g + of_bool (gr_parent n = g)"
    using kids_upd [OF i(1), of n g] i(2) n(1) by simp
  show "kids gs i = 0"
  proof (rule ccontr)
    assume "kids gs i \<noteq> 0"
    then obtain m where "m \<in> set gs" "gr_used m" "gr_parent m = i" by (auto simp: kids_def)
    then show False using old by (metis in_set_conv_nth)
  qed
  show "holders cs i = 0"
  proof (rule ccontr)
    assume "holders cs i \<noteq> 0"
    then obtain t e where "t \<in> set cs" "e \<in> set t" "names i e \<noteq> 0" by (auto simp: holders_def)
    then show False using gr i by (auto simp: grounded_def names_def)
  qed
qed

lemma holders_none: "\<forall>t \<in> set cs. \<forall>e \<in> set t. ce_live e \<longrightarrow> ce_grant e \<noteq> g \<Longrightarrow> holders cs g = 0"
  by (simp add: holders_def names_def)

lemma auth_ok_parts:
  assumes "auth_ok (gs, cs)"
  shows "wf_grants gs" "narrows gs" "refs_cover gs cs" "grounded gs cs" "\<forall>t \<in> set cs. wf_caps t"
    "length cs * MAX_CAPS < U32_MAX"
  using assms by (simp_all add: auth_ok_def)

text \<open>Writing a used node into a free slot and counting it at its parent, if it has one.\<close>

lemma alloc_ok:
  assumes ok: "auth_ok (gs, cs)" and i: "i < length gs" "\<not> gr_used (gs ! i)" and n: "gr_used n"
    "gr_depth n \<le> MAX_DERIVE_DEPTH"
    and par: "gr_parent n \<noteq> NO_GRANT \<Longrightarrow> gr_parent n < length gs \<and> gr_used (gs ! gr_parent n) \<and>
      gr_depth n = Suc (gr_depth (gs ! gr_parent n)) \<and> narrower n (gs ! gr_parent n)"
  shows "auth_ok (upd (gr_parent n) (set_children Suc) (gs[i := n]), cs)"
proof -
  let ?gs = "upd (gr_parent n) (set_children Suc) (gs[i := n])"
  note a = alloc_shape [OF ok i n par, simplified]
  have shape: "same_shape (gs[i := n]) ?gs" by (rule same_shape_children)
  have "refs_cover ?gs cs"
    unfolding refs_cover_def
  proof (intro allI impI)
    fix g assume g: "g < length ?gs" "gr_used (?gs ! g)"
    have k: "kids ?gs g = kids gs g + of_bool (gr_parent n = g)"
      using same_shape_kids [OF shape, of g] a(4) [of g] by simp
    show "kids ?gs g \<le> gr_children (?gs ! g) \<and> holders cs g \<le> gr_refs (?gs ! g)"
    proof (cases "g = i")
      case True
      then show ?thesis using k a(5,6) g by (auto simp: nth_upd set_children_def)
    next
      case False
      then have "g < length gs" "gr_used (gs ! g)" using g by (auto simp: nth_upd set_children_def split: if_splits)
      then have "kids gs g \<le> gr_children (gs ! g) \<and> holders cs g \<le> gr_refs (gs ! g)"
        using auth_ok_parts(3) [OF ok] by (simp add: refs_cover_def)
      then show ?thesis using k False g by (auto simp: nth_upd set_children_def)
    qed
  qed
  then show ?thesis
    using a(1-3) same_shape_keeps [OF shape] auth_ok_parts(5,6) [OF ok] by (simp add: auth_ok_def)
qed

text \<open>What an installation and a release do to the number of handles that name a node.\<close>

lemma install_names:
  assumes "install_at t slot object g = (Some h, t')"
  shows "sum_list (map (names k) t') = sum_list (map (names k) t) + of_bool (k = g)"
  using assms sum_list_upd [of slot t "names k"] by (auto simp: install_at_Some names_def)

lemma worn_names:
  assumes "install_at t slot object g = (None, t')"
  shows "sum_list (map (names k) t') = sum_list (map (names k) t)"
  using install_at_None [OF assms] sum_list_upd [of slot t "names k"] by (auto simp: names_def)

lemma cap_table_release_Some:
  assumes "cap_table_release t h = (Some e, t')"
  shows "unat (handle_slot h) < length t" "e = t ! unat (handle_slot h)" "ce_live e"
    "t' = t[unat (handle_slot h) := e\<lparr>ce_live := False, ce_grant := NO_GRANT\<rparr>]"
  using assms by (auto simp: cap_table_release_def nth_opt_def split: if_splits)

lemma release_slot_Some:
  assumes "release_slot t slot = (Some e, t')"
  shows "slot < length t" "e = t ! slot" "ce_live e" "t' = t[slot := e\<lparr>ce_live := False, ce_grant := NO_GRANT\<rparr>]"
  using assms by (auto simp: release_slot_def nth_opt_def split: if_splits)

lemma drop_names:
  assumes "slot < length t" and "e = t ! slot" and "ce_live e"
    and "t' = t[slot := e\<lparr>ce_live := False, ce_grant := NO_GRANT\<rparr>]"
  shows "sum_list (map (names k) t') + of_bool (k = ce_grant e) = sum_list (map (names k) t)"
  using assms sum_list_upd [of slot t "names k" "e\<lparr>ce_live := False, ce_grant := NO_GRANT\<rparr>"]
  by (auto simp: names_def)

text \<open>
  A new table for one domain: if what it holds is grounded, and the reference counts move with the number
  of handles, the state stays well formed.
\<close>

lemma table_ok:
  assumes ok: "auth_ok (gs, cs)" and d: "d < length cs" and wf: "wf_caps t"
    and ground: "\<And>e. e \<in> set t \<Longrightarrow> ce_live e \<Longrightarrow>
       ce_grant e < length gs \<and> gr_used (gs ! ce_grant e) \<and> gr_object (gs ! ce_grant e) = ce_object e"
    and cover: "\<And>g. g < length gs \<Longrightarrow> gr_used (gs ! g) \<Longrightarrow> holders cs g \<le> gr_refs (gs ! g) \<Longrightarrow>
       holders (cs[d := t]) g \<le> f g (gr_refs (gs ! g))"
    and gs': "gs' = upd k (set_refs (f k)) gs" and other: "\<And>g r. g \<noteq> k \<Longrightarrow> f g r = r"
  shows "auth_ok (gs', cs[d := t])"
proof -
  note parts = auth_ok_parts [OF ok]
  have shape: "same_shape gs gs'" unfolding gs' by (rule same_shape_refs)
  have "refs_cover gs' (cs[d := t])"
    unfolding refs_cover_def
  proof (intro allI impI)
    fix g assume "g < length gs'" "gr_used (gs' ! g)"
    then have g: "g < length gs" "gr_used (gs ! g)" using shape by (simp_all add: same_shape_def)
    then have old: "kids gs g \<le> gr_children (gs ! g)" "holders cs g \<le> gr_refs (gs ! g)"
      using parts(3) by (simp_all add: refs_cover_def)
    have "gr_refs (gs' ! g) = f g (gr_refs (gs ! g))" "gr_children (gs' ! g) = gr_children (gs ! g)"
      using g(1) other by (auto simp: gs' nth_upd set_refs_def)
    then show "kids gs' g \<le> gr_children (gs' ! g) \<and> holders (cs[d := t]) g \<le> gr_refs (gs' ! g)"
      using same_shape_kids [OF shape] old cover [OF g] by simp
  qed
  moreover have "grounded gs (cs[d := t])"
    unfolding grounded_def
  proof (intro ballI impI)
    fix t' e assume "t' \<in> set (cs[d := t])" "e \<in> set t'" "ce_live e"
    then show "ce_grant e < length gs \<and> gr_used (gs ! ce_grant e) \<and> gr_object (gs ! ce_grant e) = ce_object e"
      using ground parts(4) set_update_subset_insert [of cs d t] by (auto simp: grounded_def)
  qed
  moreover have "\<forall>t' \<in> set (cs[d := t]). wf_caps t'"
    using parts(5) wf set_update_subset_insert [of cs d t] by auto
  ultimately show ?thesis
    using parts same_shape_keeps [OF shape] by (simp add: auth_ok_def)
qed

lemma hold_ok:
  assumes ok: "auth_ok (gs, cs)" and d: "d < length cs" and ins: "install_at (cs ! d) slot obj g = (Some h, t)"
    and g: "g < length gs" "gr_used (gs ! g)" "gr_object (gs ! g) = obj"
  shows "auth_ok (upd g (set_refs (\<lambda>r. sat_add32 r 1)) gs, cs[d := t])"
proof -
  note parts = auth_ok_parts [OF ok]
  have wfd: "wf_caps (cs ! d)" using parts(5) d by simp
  have wf: "wf_caps t" using install_at_wf [OF wfd, of slot obj g] ins by simp
  let ?f = "\<lambda>k r. if k = g then sat_add32 r 1 else r"
  have h: "holders (cs[d := t]) k = holders cs k + of_bool (k = g)" for k
    using holders_upd [OF d, of t k] install_names [OF ins, of k] by simp
  have "holders (cs[d := t]) k \<le> length cs * MAX_CAPS" for k
    using holders_le [of "cs[d := t]" MAX_CAPS k] parts(5) wf set_update_subset_insert [of cs d t]
    by (auto simp: wf_caps_def)
  then have bound: "holders (cs[d := t]) k \<le> U32_MAX" for k using parts(6) by (meson le_trans less_imp_le)
  have cover: "holders (cs[d := t]) k \<le> ?f k (gr_refs (gs ! k))" if "holders cs k \<le> gr_refs (gs ! k)" for k
    using that h [of k] bound [of k] by (cases "k = g") (simp_all add: sat_add32_def)
  have ground: "ce_grant e < length gs \<and> gr_used (gs ! ce_grant e) \<and> gr_object (gs ! ce_grant e) = ce_object e"
    if "e \<in> set t" "ce_live e" for e
  proof -
    have t: "t = (cs ! d)[slot := t ! slot]" "ce_grant (t ! slot) = g" "ce_object (t ! slot) = obj"
      using ins by (auto simp: install_at_Some)
    then have "e = t ! slot \<or> e \<in> set (cs ! d)" using that(1) set_update_subset_insert by (metis insertE subsetD)
    then show ?thesis using t g parts(4) d that(2) nth_mem [OF d] by (auto simp: grounded_def)
  qed
  show ?thesis
    by (rule table_ok [OF ok d wf ground, where f = ?f and k = g]) (use cover in auto)
qed

lemma worn_ok:
  assumes ok: "auth_ok (gs, cs)" and d: "d < length cs" and ins: "install_at (cs ! d) slot obj g = (None, t)"
  shows "auth_ok (gs, cs[d := t])"
proof -
  note parts = auth_ok_parts [OF ok]
  have wfd: "wf_caps (cs ! d)" using parts(5) d by simp
  have wf: "wf_caps t" using install_at_wf [OF wfd, of slot obj g] ins by simp
  have h: "holders (cs[d := t]) k = holders cs k" for k
    using holders_upd [OF d, of t k] worn_names [OF ins, of k] by simp
  have ground: "ce_grant e < length gs \<and> gr_used (gs ! ce_grant e) \<and> gr_object (gs ! ce_grant e) = ce_object e"
    if "e \<in> set t" "ce_live e" for e
  proof -
    have "e \<in> set (cs ! d)"
      using install_at_None [OF ins] that set_update_subset_insert [of "cs ! d" slot "(cs ! d ! slot)\<lparr>ce_retired := True\<rparr>"] by auto
    then show ?thesis using parts(4) d that(2) nth_mem [OF d] by (auto simp: grounded_def)
  qed
  show ?thesis
    by (rule table_ok [OF ok d wf ground, where f = "\<lambda>_ r. r" and k = 0]) (use h in \<open>auto simp: upd_id set_refs_def\<close>)
qed

lemma drop_ok:
  assumes ok: "auth_ok (gs, cs)" and d: "d < length cs" and slot: "slot < length (cs ! d)"
    and e: "e = cs ! d ! slot" "ce_live e" and t: "t = (cs ! d)[slot := e\<lparr>ce_live := False, ce_grant := NO_GRANT\<rparr>]"
  shows "auth_ok (upd (ce_grant e) (set_refs (\<lambda>r. r - 1)) gs, cs[d := t])"
proof -
  note parts = auth_ok_parts [OF ok]
  have wf: "wf_caps t" unfolding t by (rule wf_caps_update) (use parts(5) d in auto)
  have h: "holders (cs[d := t]) k + of_bool (k = ce_grant e) = holders cs k" for k
    using holders_upd [OF d, of t k] drop_names [OF slot e t, of k] by simp
  have ground: "ce_grant x < length gs \<and> gr_used (gs ! ce_grant x) \<and> gr_object (gs ! ce_grant x) = ce_object x"
    if "x \<in> set t" "ce_live x" for x
  proof -
    have "x \<in> set (cs ! d)"
      using that set_update_subset_insert [of "cs ! d" slot "e\<lparr>ce_live := False, ce_grant := NO_GRANT\<rparr>"] by (auto simp: t)
    then show ?thesis using parts(4) d that(2) nth_mem [OF d] by (auto simp: grounded_def)
  qed
  let ?f = "\<lambda>k r. if k = ce_grant e then r - 1 else r"
  have cover: "holders (cs[d := t]) k \<le> ?f k (gr_refs (gs ! k))" if "holders cs k \<le> gr_refs (gs ! k)" for k
    using that h [of k] by (auto split: if_splits)
  show ?thesis
    by (rule table_ok [OF ok d wf ground, where f = ?f and k = "ce_grant e"]) (use cover in auto)
qed

text \<open>Freeing a node nothing refers to, and uncounting it at its parent.\<close>

lemma unreferenced:
  assumes "auth_ok (gs, cs)" and "i < length gs" "gr_used (gs ! i)" "gr_refs (gs ! i) = 0" "gr_children (gs ! i) = 0"
  shows "j < length gs \<Longrightarrow> gr_used (gs ! j) \<Longrightarrow> gr_parent (gs ! j) \<noteq> i"
    and "t \<in> set cs \<Longrightarrow> e \<in> set t \<Longrightarrow> ce_live e \<Longrightarrow> ce_grant e \<noteq> i"
proof -
  have zero: "kids gs i = 0" "holders cs i = 0"
    using auth_ok_parts(3) [OF assms(1)] assms(2-) by (auto simp: refs_cover_def)
  show "gr_parent (gs ! j) \<noteq> i" if "j < length gs" "gr_used (gs ! j)"
    using kids_pos [OF that, of i] zero by auto
  show "ce_grant e \<noteq> i" if "t \<in> set cs" "e \<in> set t" "ce_live e"
    using holders_pos [of _ cs e i] that zero by (metis in_set_conv_nth not_gr_zero)
qed

lemma free_ok:
  assumes ok: "auth_ok (gs, cs)"
    and i: "i < length gs" "gr_used (gs ! i)" "gr_refs (gs ! i) = 0" "gr_children (gs ! i) = 0"
  shows "auth_ok (upd (gr_parent (gs ! i)) (set_children (\<lambda>c. c - 1)) (gs[i := grant_empty]), cs)"
proof -
  note parts = auth_ok_parts [OF ok] and none = unreferenced [OF ok i]
  let ?p = "gr_parent (gs ! i)" and ?g0 = "gs[i := grant_empty]"
  let ?gs = "upd ?p (set_children (\<lambda>c. c - 1)) ?g0"
  have shape: "same_shape ?g0 ?gs" by (rule same_shape_children)
  have nth: "?g0 ! j = gs ! j" if "j \<noteq> i" for j using that by simp
  have empty: "\<not> gr_used (?g0 ! i)" using i(1) by (simp add: grant_empty_def)
  have keep: "?g0 ! gr_parent (gs ! j) = gs ! gr_parent (gs ! j)" if "j < length gs" "gr_used (gs ! j)" for j
    using none(1) [OF that] nth by simp
  have wf: "wf_grants ?g0"
    unfolding wf_grants_def all_set_conv_all_nth
  proof (intro conjI allI impI)
    show "length ?g0 \<le> NO_GRANT" using parts(1) by (simp add: wf_grants_def)
    fix j assume "j < length ?g0"
    then show "wf_node ?g0 (?g0 ! j)"
      using wf_grants_nth [OF parts(1), of j] keep [of j] nth [of j] empty
      by (cases "j = i") (auto simp: wf_node_def)
  qed
  have nar: "narrows ?g0"
    unfolding narrows_def
  proof (intro allI impI)
    fix j assume j: "j < length ?g0" "gr_used (?g0 ! j)" "gr_parent (?g0 ! j) \<noteq> NO_GRANT"
    then have "j \<noteq> i" using empty by auto
    then show "narrower (?g0 ! j) (?g0 ! gr_parent (?g0 ! j))"
      using parts(2) j nth keep [of j] by (simp add: narrows_def)
  qed
  have gr: "grounded ?g0 cs"
    unfolding grounded_def
  proof (intro ballI impI)
    fix t e assume e: "t \<in> set cs" "e \<in> set t" "ce_live e"
    then show "ce_grant e < length ?g0 \<and> gr_used (?g0 ! ce_grant e) \<and> gr_object (?g0 ! ce_grant e) = ce_object e"
      using none(2) [OF e] nth parts(4) by (simp add: grounded_def)
  qed
  have k: "kids ?gs g + of_bool (?p = g) = kids gs g" for g
    using same_shape_kids [OF shape, of g] kids_upd [OF i(1), of grant_empty g] i(2) by (simp add: grant_empty_def)
  have "refs_cover ?gs cs"
    unfolding refs_cover_def
  proof (intro allI impI)
    fix g assume g: "g < length ?gs" "gr_used (?gs ! g)"
    then have "g \<noteq> i" using empty shape by (auto simp: same_shape_def)
    moreover from this have "gr_used (gs ! g)" "g < length gs"
      using g shape by (auto simp: same_shape_def)
    ultimately have "kids gs g \<le> gr_children (gs ! g) \<and> holders cs g \<le> gr_refs (gs ! g)"
      using parts(3) by (simp add: refs_cover_def)
    then show "kids ?gs g \<le> gr_children (?gs ! g) \<and> holders cs g \<le> gr_refs (?gs ! g)"
      using k [of g] \<open>g \<noteq> i\<close> g by (auto simp: nth_upd set_children_def)
  qed
  then show ?thesis
    using parts wf nar gr same_shape_keeps [OF shape] by (simp add: auth_ok_def)
qed

lemma no_grant_upd: "wf_grants gs \<Longrightarrow> upd NO_GRANT f gs = gs"
  by (simp add: upd_def wf_grants_def)

lemma auth_step_ok:
  assumes "auth_step mint s s'" and "auth_ok s"
  shows "auth_ok s'"
  using assms
proof (induction rule: auth_step.induct)
  case (alloc_root i gs n cs)
  then have "auth_ok (upd (gr_parent n) (set_children Suc) (gs[i := n]), cs)" by (intro alloc_ok) auto
  then show ?case
    using alloc_root auth_ok_parts(1) [OF alloc_root.prems] by (simp add: upd_def wf_grants_def)
next
  case (alloc_child i gs n p cs)
  then show ?case using alloc_ok [of gs cs i n] by auto
next
  case (hold d cs slot obj g h t gs)
  then show ?case by (intro hold_ok) auto
next
  case (worn d cs slot obj g t gs)
  then show ?case by (intro worn_ok)
next
  case (drop_handle d cs h e t gs)
  then show ?case using cap_table_release_Some [OF drop_handle(2)] by (intro drop_ok) auto
next
  case (drop_slot d cs slot e t gs)
  then show ?case using release_slot_Some [OF drop_slot(2)] by (intro drop_ok) auto
next
  case (free_root i gs cs)
  then show ?case
    using free_ok [of gs cs i] auth_ok_parts(1) [OF free_root.prems] by (simp add: upd_def wf_grants_def)
next
  case (free_child i gs p cs)
  then show ?case using free_ok [of gs cs i] by auto
next
  case (fence_below gs gs' cs)
  then show ?case using same_shape_fences fences_counts by (intro same_shape_ok [of gs cs gs']) simp_all
qed

lemma auth_steps_ok: "(auth_step mint)\<^sup>*\<^sup>* s s' \<Longrightarrow> auth_ok s \<Longrightarrow> auth_ok s'"
  by (induction rule: rtranclp_induct) (auto intro: auth_step_ok)

section \<open>A revoked handle stays without effect\<close>

text \<open>A handle is revoked when it is spent, or names a fenced node.\<close>

definition revoked :: "auth \<Rightarrow> nat \<Rightarrow> u64 \<Rightarrow> bool" where
  "revoked s d h \<longleftrightarrow> d < length (snd s) \<and> (spent (snd s ! d) h \<or>
     (\<exists>e. cap_lookup (snd s ! d) h = Some e \<and> gr_fenced (fst s ! ce_grant e)))"

text \<open>The node a resolving handle names is in use, so it is neither allocated afresh nor freed.\<close>

lemma lookup_grounded:
  assumes "auth_ok (gs, cs)" and "d < length cs" and "cap_lookup (cs ! d) h = Some e"
  shows "ce_grant e < length gs" "gr_used (gs ! ce_grant e)" "gr_object (gs ! ce_grant e) = ce_object e"
    "cs ! d \<in> set cs" "e \<in> set (cs ! d)" "ce_live e"
proof -
  have wf: "wf_caps (cs ! d)" using auth_ok_parts(5) [OF assms(1)] assms(2) by simp
  then have "ce_live e" "e \<in> set (cs ! d)"
    using assms(3) cap_lookup_Some_iff [OF wf] by (auto simp: wf_caps_def)
  then show "ce_grant e < length gs" "gr_used (gs ! ce_grant e)" "gr_object (gs ! ce_grant e) = ce_object e"
    "cs ! d \<in> set cs" "e \<in> set (cs ! d)" "ce_live e"
    using auth_ok_parts(4) [OF assms(1)] assms(2) by (auto simp: grounded_def)
qed

text \<open>A step that keeps the tables keeps a revocation when it keeps the fence of every referred node.\<close>

lemma revoked_same_caps:
  assumes "auth_ok (gs, cs)" and "revoked (gs, cs) d h"
    and "\<And>g t e. g < length gs \<Longrightarrow> gr_used (gs ! g) \<Longrightarrow> t \<in> set cs \<Longrightarrow> e \<in> set t \<Longrightarrow> ce_live e \<Longrightarrow> ce_grant e = g \<Longrightarrow>
       gr_fenced (gs ! g) \<Longrightarrow> gr_fenced (gs' ! g)"
  shows "revoked (gs', cs) d h"
proof -
  have d: "d < length cs" using assms(2) by (simp add: revoked_def)
  have "gr_fenced (gs' ! ce_grant e)" if "cap_lookup (cs ! d) h = Some e" "gr_fenced (gs ! ce_grant e)" for e
    using assms(3) lookup_grounded [OF assms(1) d that(1)] that(2) by blast
  then show ?thesis using assms(2) by (auto simp: revoked_def)
qed

lemma fence_kept_upd: "(\<And>n. gr_fenced (f n) = gr_fenced n) \<Longrightarrow> g < length gs \<Longrightarrow> gr_fenced (upd i f gs ! g) = gr_fenced (gs ! g)"
  by (simp add: nth_upd)

lemma set_refs_fenced [simp]: "gr_fenced (set_refs f n) = gr_fenced n"
  by (simp add: set_refs_def)

lemma set_children_fenced [simp]: "gr_fenced (set_children f n) = gr_fenced n"
  by (simp add: set_children_def)

text \<open>A new table for one domain that keeps the names it resolved, or spends them.\<close>

lemma revoked_new_table:
  assumes "auth_ok (gs, cs)" and "revoked (gs, cs) d h" and "k < length cs"
    and fence: "\<And>g. g < length gs \<Longrightarrow> gr_fenced (gs' ! g) = gr_fenced (gs ! g)"
    and spent: "spent (cs ! k) h \<Longrightarrow> spent t h"
    and keep: "\<And>e. cap_lookup (cs ! k) h = Some e \<Longrightarrow> cap_lookup t h = Some e \<or> spent t h"
  shows "revoked (gs', cs[k := t]) d h"
proof -
  have d: "d < length cs" using assms(2) by (simp add: revoked_def)
  show ?thesis
  proof (cases "spent (cs ! d) h")
    case True
    then show ?thesis using d spent by (cases "k = d") (auto simp: revoked_def)
  next
    case False
    then obtain e where e: "cap_lookup (cs ! d) h = Some e" "gr_fenced (gs ! ce_grant e)"
      using assms(2) by (auto simp: revoked_def)
    then have "gr_fenced (gs' ! ce_grant e)" using fence lookup_grounded(1) [OF assms(1) d e(1)] by simp
    then show ?thesis using e d keep by (cases "k = d") (auto simp: revoked_def)
  qed
qed

lemma install_keeps_name:
  assumes "wf_caps t" and "install_at t slot obj g = (r, t')" and "cap_lookup t h = Some e"
  shows "cap_lookup t' h = Some e"
proof (cases r)
  case None
  then have "install_at t slot obj g = (None, t')" using assms(2) by simp
  from install_at_None [OF this] show ?thesis
    using assms(1,3) by (auto simp: wf_caps_def cap_lookup_def nth_opt_def nth_list_update split: if_splits)
next
  case (Some h')
  then have "install_at t slot obj g = (Some h', t')" using assms(2) by simp
  from install_at_lookup(1,2) [OF assms(1) this] show ?thesis using assms(3) by auto
qed

lemma dropped_slot_spent:
  assumes wf: "wf_caps t" and slot: "slot < length t" "ce_live (t ! slot)"
    and look: "cap_lookup t h = Some e"
  shows "cap_lookup (t[slot := (t ! slot)\<lparr>ce_live := False, ce_grant := NO_GRANT\<rparr>]) h = Some e \<or>
    spent (t[slot := (t ! slot)\<lparr>ce_live := False, ce_grant := NO_GRANT\<rparr>]) h"
proof (cases "unat (handle_slot h) = slot")
  case True
  then show ?thesis
    using look cap_lookup_Some_iff [OF wf] slot by (auto simp: spent_def Let_def)
next
  case False
  then show ?thesis using look slot wf by (simp add: cap_lookup_update wf_caps_def)
qed

lemma dropped_slot_keeps_spent:
  "spent t h \<Longrightarrow> slot < length t \<Longrightarrow> spent (t[slot := (t ! slot)\<lparr>ce_live := False, ce_grant := g\<rparr>]) h"
  by (rule spent_update) auto

lemma auth_step_revoked:
  assumes "auth_step mint s s'" and "auth_ok s" and "revoked s d h"
  shows "revoked s' d h"
  using assms
proof (induction rule: auth_step.induct)
  case (alloc_root i gs n cs)
  show ?case
    by (rule revoked_same_caps [OF alloc_root.prems]) (use alloc_root in \<open>auto simp: nth_list_update\<close>)
next
  case (alloc_child i gs n p cs)
  show ?case
    by (rule revoked_same_caps [OF alloc_child.prems]) (use alloc_child in \<open>auto simp: fence_kept_upd nth_list_update\<close>)
next
  case (hold k cs slot obj g h' t gs)
  have wf: "wf_caps (cs ! k)" using auth_ok_parts(5) [OF hold.prems(1)] hold(1) by simp
  show ?case
    by (rule revoked_new_table [OF hold.prems hold(1)])
      (use install_at_spent [of "cs ! k" h slot obj g] install_keeps_name [OF wf hold(2)] hold(2) in \<open>auto simp: fence_kept_upd\<close>)
next
  case (worn k cs slot obj g t gs)
  have wf: "wf_caps (cs ! k)" using auth_ok_parts(5) [OF worn.prems(1)] worn(1) by simp
  show ?case
    by (rule revoked_new_table [OF worn.prems worn(1)])
      (use install_at_spent [of "cs ! k" h slot obj g] install_keeps_name [OF wf worn(2)] worn(2) in auto)
next
  case (drop_handle k cs h' e t gs)
  have wf: "wf_caps (cs ! k)" using auth_ok_parts(5) [OF drop_handle.prems(1)] drop_handle(1) by simp
  note r = cap_table_release_Some [OF drop_handle(2)]
  show ?case
    by (rule revoked_new_table [OF drop_handle.prems drop_handle(1)])
      (use r dropped_slot_spent [OF wf r(1)] dropped_slot_keeps_spent [of "cs ! k" h] in \<open>auto simp: fence_kept_upd\<close>)
next
  case (drop_slot k cs slot e t gs)
  have wf: "wf_caps (cs ! k)" using auth_ok_parts(5) [OF drop_slot.prems(1)] drop_slot(1) by simp
  note r = release_slot_Some [OF drop_slot(2)]
  show ?case
    by (rule revoked_new_table [OF drop_slot.prems drop_slot(1)])
      (use r dropped_slot_spent [OF wf r(1)] dropped_slot_keeps_spent [of "cs ! k" h] in \<open>auto simp: fence_kept_upd\<close>)
next
  case (free_root i gs cs)
  show ?case
    by (rule revoked_same_caps [OF free_root.prems])
      (use free_root unreferenced(2) [of gs cs i] in \<open>auto simp: nth_list_update\<close>)
next
  case (free_child i gs p cs)
  show ?case
    by (rule revoked_same_caps [OF free_child.prems])
      (use free_child unreferenced(2) [of gs cs i] in \<open>auto simp: fence_kept_upd nth_list_update\<close>)
next
  case (fence_below gs gs' cs)
  show ?case
    by (rule revoked_same_caps [OF fence_below.prems]) (use fence_below in \<open>auto simp: fences_def\<close>)
qed

lemma auth_steps_revoked:
  "(auth_step mint)\<^sup>*\<^sup>* s s' \<Longrightarrow> auth_ok s \<Longrightarrow> revoked s d h \<Longrightarrow> revoked s' d h"
  by (induction rule: rtranclp_induct) (auto intro: auth_step_revoked dest: auth_steps_ok)

section \<open>Authority is never amplified\<close>

definition bounded_by :: "grant list \<Rightarrow> grant list \<Rightarrow> bool" where
  "bounded_by gs gs' \<longleftrightarrow> (\<forall>i < length gs'. gr_used (gs' ! i) \<longrightarrow>
     (\<exists>j < length gs. gr_used (gs ! j) \<and> narrower (gs' ! i) (gs ! j)))"

lemma narrower_refl [simp]: "narrower n n"
  by (auto simp: narrower_def)

lemma rights_subset_trans: "(a :: u32) AND NOT b = 0 \<Longrightarrow> b AND NOT c = 0 \<Longrightarrow> a AND NOT c = 0"
  by (auto simp: bit_eq_iff bit_simps)

lemma narrower_trans: "narrower a b \<Longrightarrow> narrower b c \<Longrightarrow> narrower a c"
  using rights_subset_trans [of "gr_rights a" "gr_rights b" "gr_rights c"] by (auto simp: narrower_def)

lemma bounded_by_trans: "bounded_by a b \<Longrightarrow> bounded_by b c \<Longrightarrow> bounded_by a c"
  unfolding bounded_by_def by (meson narrower_trans)

lemma bounded_by_refl [simp]: "bounded_by gs gs"
  by (auto simp: bounded_by_def)

lemma bounded_by_shape: "same_shape gs gs' \<Longrightarrow> bounded_by gs gs'"
  unfolding bounded_by_def
proof (intro allI impI)
  fix i assume "same_shape gs gs'" "i < length gs'" "gr_used (gs' ! i)"
  then have "i < length gs \<and> gr_used (gs ! i) \<and> narrower (gs' ! i) (gs ! i)"
    by (auto simp: same_shape_def narrower_def)
  then show "\<exists>j < length gs. gr_used (gs ! j) \<and> narrower (gs' ! i) (gs ! j)" by blast
qed

text \<open>The authority of a node is within that of every ancestor, up to the root of its lineage.\<close>

lemma anc_narrower:
  assumes "wf_grants gs" and "narrows gs"
  shows "anc gs k i = Some a \<Longrightarrow> narrower (gs ! i) (gs ! a)"
proof (induction k arbitrary: i)
  case (Suc k)
  then have "narrower (gs ! gr_parent (gs ! i)) (gs ! a)" "narrower (gs ! i) (gs ! gr_parent (gs ! i))"
    using assms(2) by (auto simp: narrows_def split: if_splits)
  then show ?case by (rule narrower_trans [rotated])
qed (simp split: if_splits)

text \<open>Without minting, every node of the new state is within a node of the old one.\<close>

lemma bounded_by_alloc:
  assumes "p < length gs" "gr_used (gs ! p)" "narrower n (gs ! p)"
  shows "bounded_by gs (gs[i := n])"
  unfolding bounded_by_def
proof (intro allI impI)
  fix j assume "j < length (gs[i := n])" "gr_used (gs[i := n] ! j)"
  then show "\<exists>k < length gs. gr_used (gs ! k) \<and> narrower (gs[i := n] ! j) (gs ! k)"
    using assms by (cases "j = i") auto
qed

lemma bounded_by_free: "bounded_by gs (gs[i := grant_empty])"
  unfolding bounded_by_def
proof (intro allI impI)
  fix j assume "j < length (gs[i := grant_empty])" "gr_used (gs[i := grant_empty] ! j)"
  then show "\<exists>k < length gs. gr_used (gs ! k) \<and> narrower (gs[i := grant_empty] ! j) (gs ! k)"
    by (cases "j = i") (auto simp: grant_empty_def)
qed

lemma auth_step_bounded: "auth_step False s s' \<Longrightarrow> bounded_by (fst s) (fst s')"
  by (induction rule: auth_step.induct)
    (auto intro: bounded_by_alloc bounded_by_free bounded_by_shape same_shape_refs same_shape_fences
      bounded_by_trans [OF bounded_by_alloc bounded_by_shape [OF same_shape_children]]
      bounded_by_trans [OF bounded_by_free bounded_by_shape [OF same_shape_children]])

lemma auth_steps_bounded: "(auth_step False)\<^sup>*\<^sup>* s s' \<Longrightarrow> bounded_by (fst s) (fst s')"
  by (induction rule: rtranclp_induct) (auto intro: bounded_by_trans auth_step_bounded)

lemma auth_step_mint: "auth_step mint s s' \<Longrightarrow> auth_step True s s'"
  by (induction rule: auth_step.induct) (blast intro: auth_step.intros)+

lemma auth_steps_mint: "(auth_step mint)\<^sup>*\<^sup>* s s' \<Longrightarrow> (auth_step True)\<^sup>*\<^sup>* s s'"
  by (rule rtranclp_mono [THEN predicate2D]) (auto intro: auth_step_mint)

end
