(* ===== verification/Authority_Steps.thy ===== *)
theory Authority_Steps
  imports Capops Authority_Tree
begin

text \<open>
  The kernel's capability operations as steps of the abstract authority state: allocating and collecting
  grants, installing and releasing capabilities, deriving, copying, closing and fencing. Everything else
  those operations touch, the accounts, the object references, the receipts and the wakes, leaves the
  authority state as it is.
\<close>

definition auth :: "machine \<Rightarrow> auth" where
  "auth m = (mc_grants m, map dm_caps (mc_domains m))"

named_theorems auth_simps \<open>what an operation leaves of the authority state\<close>

lemma auth_eqI: "mc_grants m' = mc_grants m \<Longrightarrow> map dm_caps (mc_domains m') = map dm_caps (mc_domains m) \<Longrightarrow> auth m' = auth m"
  by (simp add: auth_def)

section \<open>What does not touch the authority state\<close>

lemma charge_metadata_auth [auth_simps]:
  assumes "charge_metadata s m = (m', ok)"
  shows "auth m' = auth m" "mc_domains m' = mc_domains m" "mc_grants m' = mc_grants m"
  using assms by (auto simp: charge_metadata_def auth_def split: prod.splits)

lemma release_metadata_auth [simp]:
  "auth (release_metadata s m) = auth m" "mc_domains (release_metadata s m) = mc_domains m"
  "mc_grants (release_metadata s m) = mc_grants m"
  by (simp_all add: release_metadata_def auth_def)

lemma next_id_auth:
  assumes "next_id m = (m', r)"
  shows "auth m' = auth m" "mc_domains m' = mc_domains m" "mc_grants m' = mc_grants m"
  using assms by (auto simp: next_id_def auth_def split: if_splits)

lemma free_grant_hint_auth [simp]:
  "auth (free_grant_hint i m) = auth m" "mc_domains (free_grant_hint i m) = mc_domains m"
  "mc_grants (free_grant_hint i m) = mc_grants m"
  by (simp_all add: free_grant_hint_def auth_def)

lemma map_upd_same: "(\<And>x. f (g x) = f x) \<Longrightarrow> map f (upd i g xs) = map f xs"
  by (simp add: upd_def map_update list_update_same_conv)

lemma adjust_object_refs_auth: "adjust_object_refs o' delta m = Some m' \<Longrightarrow> auth m' = auth m"
  by (auto simp: adjust_object_refs_def auth_def upd_checked_def Let_def map_upd_same split: obj_kind.splits if_splits)

lemma collect_invocation_auth [simp]: "auth (collect_invocation i m) = auth m"
  by (simp add: collect_invocation_def auth_def release_invocation_def split: option.split)

lemma note_memory_auth [simp]: "auth (note_memory o' m) = auth m"
  by (simp add: note_memory_def defer_memory_def auth_def)

lemma auth_logs [simp]: "auth (m\<lparr>mc_logs := l\<rparr>) = auth m"
  by (simp add: auth_def)

lemma auth_threads [simp]: "auth (m\<lparr>mc_threads := t\<rparr>) = auth m"
  by (simp add: auth_def)

lemma wake_readers_auth: "wake_readers e i g ts m = Some m' \<Longrightarrow> auth m' = auth m"
proof (induction ts arbitrary: m)
  case (Cons t ts)
  then show ?case by (fastforce simp: Let_def split: option.splits prod.splits bool.splits if_splits)
qed simp

lemma write_receipt_auth: "write_receipt e now k od os ob g p r a b rv m = Some (m', s) \<Longrightarrow> auth m' = auth m"
  by (auto simp: write_receipt_def wake_reader_def Let_def dest!: wake_readers_auth
      split: option.splits if_splits bind_splits)

lemma auth_grants [simp]: "auth (m\<lparr>mc_grants := gs\<rparr>) = (gs, snd (auth m))"
  by (simp add: auth_def)

lemma auth_caps [simp]:
  "auth (m\<lparr>mc_domains := upd d (\<lambda>x. x\<lparr>dm_caps := t\<rparr>) (mc_domains m)\<rparr>) = (fst (auth m), (snd (auth m))[d := t])"
  by (auto simp: auth_def upd_def map_update list_update_beyond)

lemma auth_caps_of:
  "mc_domains m = ds \<Longrightarrow> snd (auth (n\<lparr>mc_domains := upd d (\<lambda>x. x\<lparr>dm_caps := t\<rparr>) ds\<rparr>)) = (snd (auth m))[d := t]"
  by (auto simp: auth_def upd_def map_update list_update_beyond)

lemma auth_dest [simp]: "fst (auth m) = mc_grants m" "length (snd (auth m)) = length (mc_domains m)"
  "d < length (mc_domains m) \<Longrightarrow> snd (auth m) ! d = dm_caps (mc_domains m ! d)"
  by (simp_all add: auth_def)

section \<open>Grants\<close>

lemma find_in: "find P xs = Some x \<Longrightarrow> x \<in> set xs \<and> P x"
  by (induction xs) (auto split: if_splits)

lemma free_node_free: "free_node m = Some i \<Longrightarrow> i < length (mc_grants m) \<and> \<not> gr_used (mc_grants m ! i)"
  by (auto simp: free_node_def Let_def dest!: find_in)

lemma children_once:
  "p < length gs \<Longrightarrow> checked_add32 (gr_children (gs ! p)) 1 = Some c \<Longrightarrow>
     upd p (\<lambda>n. n\<lparr>gr_children := c\<rparr>) gs = upd p (set_children Suc) gs"
  by (auto simp: checked_add32_def upd_def set_children_def split: if_splits)

definition with_child :: "grant_id \<Rightarrow> nat \<Rightarrow> grant \<Rightarrow> grant list \<Rightarrow> grant list" where
  "with_child parent i n gs = (if parent = NO_GRANT then gs[i := n] else upd parent (set_children Suc) (gs[i := n]))"

lemma grant_alloc_result:
  assumes run: "grant_alloc sponsor parent object rights deadline life facet m = Some (m', r)"
  shows "mc_domains m' = mc_domains m \<and> (case r of None \<Rightarrow> auth m' = auth m
    | Some i \<Rightarrow> \<exists>ident depth. child_depth parent m = Some depth \<and> depth \<le> MAX_DERIVE_DEPTH \<and>
        i < length (mc_grants m) \<and> \<not> gr_used (mc_grants m ! i) \<and>
        mc_grants m' = with_child parent i (grant_node ident parent depth object rights deadline life facet sponsor) (mc_grants m))"
proof -
  obtain depth where depth: "child_depth parent m = Some depth"
    using run by (cases "child_depth parent m") (auto simp: grant_alloc_def)
  obtain m1 ok where c: "charge_metadata sponsor m = (m1, ok)" by fastforce
  obtain m2 q where n: "next_id m1 = (m2, q)" by fastforce
  note same = charge_metadata_auth [OF c] next_id_auth [OF n]
  note body = run [unfolded grant_alloc_def depth c, simplified] n
  show ?thesis
  proof (cases "depth > MAX_DERIVE_DEPTH \<or> \<not> ok \<or> q = None \<or> free_node m2 = None")
    case True
    then show ?thesis using body same by (auto split: if_splits bool.splits option.splits)
  next
    case False
    then obtain ident i where i: "depth \<le> MAX_DERIVE_DEPTH" "ok" "q = Some ident" "free_node m2 = Some i" by auto
    note fr = free_node_free [OF i(4)]
    have "r = Some i \<and> mc_domains m' = mc_domains m \<and>
        mc_grants m' = with_child parent i (grant_node ident parent depth object rights deadline life facet sponsor) (mc_grants m)"
      using body i same fr
      by (auto simp: Let_def with_child_def nth_opt_Some_iff children_once upd_def [of i] split: if_splits bind_splits)
    then show ?thesis using i(1) fr same depth by auto
  qed
qed

text \<open>Allocating a node under no parent mints; under a parent it narrows, it derives.\<close>

lemma grant_alloc_steps:
  assumes run: "grant_alloc sponsor parent object rights deadline life facet m = Some (m', r)"
    and par: "parent \<noteq> NO_GRANT \<Longrightarrow> parent < length (mc_grants m) \<and> gr_used (mc_grants m ! parent) \<and>
      rights AND NOT (gr_rights (mc_grants m ! parent)) = 0 \<and> object = gr_object (mc_grants m ! parent) \<and>
      (gr_deadline_ns (mc_grants m ! parent) = 0 \<or> deadline \<noteq> 0 \<and> deadline \<le> gr_deadline_ns (mc_grants m ! parent))"
    and mint: "parent = NO_GRANT \<Longrightarrow> mint"
  shows "(auth_step mint)\<^sup>*\<^sup>* (auth m) (auth m')"
proof (cases r)
  case None
  then show ?thesis using grant_alloc_result [OF run] by simp
next
  case (Some i)
  note res = grant_alloc_result [OF run, unfolded Some, simplified]
  then obtain ident depth where d: "child_depth parent m = Some depth" "depth \<le> MAX_DERIVE_DEPTH"
    and i: "i < length (mc_grants m)" "\<not> gr_used (mc_grants m ! i)"
    and gs: "mc_grants m' = with_child parent i (grant_node ident parent depth object rights deadline life facet sponsor) (mc_grants m)"
    by blast
  let ?n = "grant_node ident parent depth object rights deadline life facet sponsor"
  have caps: "snd (auth m') = snd (auth m)" using res by (simp add: auth_def)
  have "auth_step mint (mc_grants m, snd (auth m)) (with_child parent i ?n (mc_grants m), snd (auth m))"
  proof (cases "parent = NO_GRANT")
    case True
    then show ?thesis
      using i d mint by (auto simp: with_child_def grant_node_def child_depth_def intro!: auth_step.alloc_root)
  next
    case False
    have "auth_step mint (mc_grants m, snd (auth m)) (upd parent (set_children Suc) ((mc_grants m)[i := ?n]), snd (auth m))"
      by (rule auth_step.alloc_child)
        (use i d par [OF False] False in \<open>auto simp: grant_node_def narrower_def child_depth_def nth_opt_def\<close>)
    then show ?thesis using False by (simp add: with_child_def)
  qed
  then show ?thesis using gs caps by (metis auth_dest(1) prod.collapse r_into_rtranclp)
qed

lemma auth_collapse: "auth m = (mc_grants m, snd (auth m))"
  by (simp add: auth_def)

lemma set_children_pred: "(\<lambda>p. p\<lparr>gr_children := gr_children p - Suc 0\<rparr>) = set_children (\<lambda>c. c - Suc 0)"
  by (simp add: set_children_def fun_eq_iff)

lemma set_refs_pred: "(\<lambda>p. p\<lparr>gr_refs := gr_refs p - Suc 0\<rparr>) = set_refs (\<lambda>c. c - Suc 0)"
  by (simp add: set_refs_def fun_eq_iff)

lemma set_refs_sat: "(\<lambda>p. p\<lparr>gr_refs := sat_add32 (gr_refs p) (Suc 0)\<rparr>) = set_refs (\<lambda>r. sat_add32 r (Suc 0))"
  by (simp add: set_refs_def fun_eq_iff)

text \<open>The collection frees one unreferenced node after another.\<close>

lemma collect_loop_steps:
  "collect_loop n g m = Some m' \<Longrightarrow> (auth_step mint)\<^sup>*\<^sup>* (auth m) (auth m')"
proof (induction n arbitrary: g m)
  case (Suc n)
  show ?case
  proof (cases "g = NO_GRANT \<or> \<not> gr_used (mc_grants m ! g) \<or> gr_refs (mc_grants m ! g) > 0 \<or> gr_children (mc_grants m ! g) > 0")
    case True
    then have "m' = m" using Suc.prems by (auto simp: nth_opt_def split: if_splits)
    then show ?thesis by simp
  next
    case False
    then have g: "g < length (mc_grants m)" "g \<noteq> NO_GRANT"
      using Suc.prems by (auto simp: nth_opt_def split: if_splits)
    let ?p = "gr_parent (mc_grants m ! g)" and ?gs = "(mc_grants m)[g := grant_empty]"
    let ?gs2 = "if ?p = NO_GRANT then ?gs else upd ?p (set_children (\<lambda>c. c - 1)) ?gs"
    let ?m1 = "free_grant_hint g (m\<lparr>mc_grants := ?gs\<rparr>)"
    define m2 where "m2 = release_metadata (gr_sponsor (mc_grants m ! g)) (if ?p = NO_GRANT then ?m1 else ?m1\<lparr>mc_grants := ?gs2\<rparr>)"
    have m2: "mc_grants m2 = ?gs2" "snd (auth m2) = snd (auth m)" by (simp_all add: m2_def)
    have rest: "collect_loop n ?p m2 = Some m'"
      using Suc.prems False g
      by (auto simp: m2_def Let_def upd_checked_def set_children_pred upd_def [of g] split: if_splits)
    have "auth_step mint (mc_grants m, snd (auth m)) (?gs2, snd (auth m))"
    proof (cases "?p = NO_GRANT")
      case True
      then show ?thesis using False g by (auto intro!: auth_step.free_root)
    next
      case p: False
      show ?thesis
        unfolding if_not_P [OF p] by (rule auth_step.free_child) (use False g p in auto)
    qed
    moreover have "auth m = (mc_grants m, snd (auth m))" "auth m2 = (?gs2, snd (auth m))"
      using m2 by (simp_all add: prod_eq_iff)
    ultimately have "auth_step mint (auth m) (auth m2)" by simp
    then show ?thesis using Suc.IH [OF rest] by (rule converse_rtranclp_into_rtranclp)
  qed
qed simp

section \<open>Capabilities\<close>

lemma cap_install_steps:
  assumes run: "cap_install d object g slot m = Some (m', r)"
    and g: "g < length (mc_grants m)" "gr_used (mc_grants m ! g)" "gr_object (mc_grants m ! g) = object" "g \<noteq> NO_GRANT"
  shows "(auth_step mint)\<^sup>*\<^sup>* (auth m) (auth m')" and "r = None \<Longrightarrow> mc_grants m' = mc_grants m"
proof -
  have d: "d < length (mc_domains m)" using run by (auto simp: cap_install_def nth_opt_def split: if_splits)
  define dom where "dom = mc_domains m ! d"
  obtain m1 ok where c: "charge_metadata (dm_owner_scope dom) m = (m1, ok)" by fastforce
  note same = charge_metadata_auth [OF c]
  obtain q t where q: "install_in (dm_caps dom) slot object g = (q, t)" by fastforce
  have body: "(if \<not> ok then Some (m1, None) else let m2 = m1\<lparr>mc_domains := upd d (\<lambda>x. x\<lparr>dm_caps := t\<rparr>) (mc_domains m1)\<rparr> in
      case q of None \<Rightarrow> Some (release_metadata (dm_owner_scope dom) m2, None)
      | Some h \<Rightarrow> do {
          m3 \<leftarrow> map_option (\<lambda>gs. m2\<lparr>mc_grants := gs\<rparr>) (upd_checked g (set_refs (\<lambda>r. sat_add32 r 1)) (mc_grants m2));
          m4 \<leftarrow> adjust_object_refs object 1 m3;
          Some (m4, Some h) }) = Some (m', r)"
    using run c q d g(4) by (cases ok; cases q) (simp_all add: cap_install_def dom_def [symmetric] set_refs_sat Let_def)
  have at: "\<exists>i. install_at (dm_caps dom) i object g = (q, t)" if "q \<noteq> None \<or> t \<noteq> dm_caps dom"
    using q that by (auto simp: install_in_def cap_table_install_def split: option.splits prod.splits)
  let ?m2 = "m1\<lparr>mc_domains := upd d (\<lambda>x. x\<lparr>dm_caps := t\<rparr>) (mc_domains m1)\<rparr>"
  have m2: "auth ?m2 = (mc_grants m, (snd (auth m))[d := t])"
    using same auth_caps_of [where m = m and n = m1 and d = d and t = t, OF refl] by (simp add: prod_eq_iff)
  have out: "(auth m' = auth m \<and> r = None) \<or> (q = None \<and> auth m' = (mc_grants m, (snd (auth m))[d := t]) \<and> r = None) \<or>
      (q \<noteq> None \<and> r \<noteq> None \<and> auth m' = (upd g (set_refs (\<lambda>r. sat_add32 r 1)) (mc_grants m), (snd (auth m))[d := t]))"
    using body same g m2
    by (auto simp: Let_def upd_checked_def dest!: adjust_object_refs_auth split: if_splits option.splits bind_splits)
  have caps: "snd (auth m) ! d = dm_caps dom" using d by (simp add: dom_def)
  have keep: "(snd (auth m))[d := dm_caps dom] = snd (auth m)" using caps by (metis list_update_id)
  show "(auth_step mint)\<^sup>*\<^sup>* (auth m) (auth m')"
  proof (cases "auth m' = auth m")
    case False
    then have new: "q \<noteq> None \<or> t \<noteq> dm_caps dom" using out keep auth_collapse [of m] by auto
    then obtain i where i: "install_at (snd (auth m) ! d) i object g = (q, t)" using at caps by auto
    have "auth_step mint (mc_grants m, snd (auth m)) (auth m')"
    proof (cases q)
      case None
      then show ?thesis
        using out False d i by (auto intro!: auth_step.worn)
    next
      case (Some h)
      then have "auth m' = (upd g (set_refs (\<lambda>r. sat_add32 r 1)) (mc_grants m), (snd (auth m))[d := t])"
        using out False by blast
      then show ?thesis
        by (simp only:) (rule auth_step.hold [where slot = i and h = h], use d i g Some in auto)
    qed
    then show ?thesis by (subst auth_collapse) (rule r_into_rtranclp)
  qed simp
  show "mc_grants m' = mc_grants m" if "r = None"
    using out that by (auto simp: auth_def)
qed

lemma release_entry_steps:
  assumes "release_entry d e m = Some m'" and "ce_grant e \<noteq> NO_GRANT"
  shows "(auth_step mint)\<^sup>*\<^sup>* (upd (ce_grant e) (set_refs (\<lambda>r. r - 1)) (mc_grants m), snd (auth m)) (auth m')"
proof -
  obtain dom where dom: "nth_opt (mc_domains m) d = Some dom"
    using assms(1) by (cases "nth_opt (mc_domains m) d") (auto simp: release_entry_def)
  define m2 where "m2 = (release_metadata (dm_owner_scope dom) m)\<lparr>mc_grants := upd (ce_grant e) (set_refs (\<lambda>r. r - 1)) (mc_grants m)\<rparr>"
  obtain m3 where m3: "adjust_object_refs (ce_object e) (- 1) m2 = Some m3"
    and run: "collect_grant (ce_grant e) (note_memory (ce_object e)
       (if or_kind (ce_object e) = Invocation then collect_invocation (or_index (ce_object e)) m3 else m3)) = Some m'"
    using assms dom
    by (auto simp: release_entry_def upd_checked_def m2_def set_refs_pred Let_def split: if_splits bind_splits)
  have "auth m3 = (upd (ce_grant e) (set_refs (\<lambda>r. r - 1)) (mc_grants m), snd (auth m))"
    using adjust_object_refs_auth [OF m3] by (simp add: m2_def auth_def)
  then show ?thesis
    using collect_loop_steps [OF run [unfolded collect_grant_def], of mint] by (simp split: if_splits)
qed

text \<open>A dropped entry: the table without it, the count of its node, and the collection that follows.\<close>

lemma drop_steps:
  assumes ok: "auth_ok (auth m)" and d: "d < length (mc_domains m)"
    and x: "x \<in> set (dm_caps (mc_domains m ! d))" "ce_live x"
    and step: "auth_step mint (mc_grants m, snd (auth m))
      (upd (ce_grant x) (set_refs (\<lambda>r. r - 1)) (mc_grants m), (snd (auth m))[d := t])"
    and run: "release_entry d x (m\<lparr>mc_domains := upd d (\<lambda>x. x\<lparr>dm_caps := t\<rparr>) (mc_domains m)\<rparr>) = Some m'"
  shows "(auth_step mint)\<^sup>*\<^sup>* (auth m) (auth m')"
proof -
  have au: "auth m = (mc_grants m, snd (auth m))" by (rule auth_collapse)
  have "dm_caps (mc_domains m ! d) \<in> set (snd (auth m))" using d by (simp add: auth_def)
  then have "ce_grant x < length (mc_grants m)"
    using ok x au auth_ok_parts(4) [of "mc_grants m" "snd (auth m)"] by (auto simp: grounded_def)
  then have ng: "ce_grant x \<noteq> NO_GRANT"
    using ok au auth_ok_parts(1) [of "mc_grants m" "snd (auth m)"] by (auto simp: wf_grants_def)
  from release_entry_steps [OF run ng, of mint] step show ?thesis
    by (subst au) (auto intro: converse_rtranclp_into_rtranclp)
qed

lemma same_caps_auth:
  "d < length (mc_domains m) \<Longrightarrow>
     auth (m\<lparr>mc_domains := upd d (\<lambda>x. x\<lparr>dm_caps := dm_caps (mc_domains m ! d)\<rparr>) (mc_domains m)\<rparr>) = auth m"
  by (simp add: auth_def upd_def map_update list_update_same_conv)

lemma cap_release_steps:
  assumes ok: "auth_ok (auth m)" and run: "cap_release d h m = Some (m', r)"
  shows "(auth_step mint)\<^sup>*\<^sup>* (auth m) (auth m')"
proof -
  have d: "d < length (mc_domains m)" using run by (auto simp: cap_release_def nth_opt_def split: if_splits)
  obtain e t where rel: "cap_table_release (dm_caps (mc_domains m ! d)) h = (e, t)" by fastforce
  show ?thesis
  proof (cases e)
    case None
    then have "t = dm_caps (mc_domains m ! d)"
      using rel by (auto simp: cap_table_release_def split: option.splits if_splits)
    then show ?thesis using run rel d None same_caps_auth [OF d] by (auto simp: cap_release_def)
  next
    case (Some x)
    note c = cap_table_release_Some [OF rel [unfolded Some]]
    show ?thesis
      by (rule drop_steps [OF ok d _ c(3) auth_step.drop_handle [where h = h and t = t]])
        (use run rel d Some c in \<open>auto simp: cap_release_def\<close>)
  qed
qed

lemma cap_release_slot_steps:
  assumes ok: "auth_ok (auth m)" and run: "cap_release_slot d slot m = Some (m', r)"
  shows "(auth_step mint)\<^sup>*\<^sup>* (auth m) (auth m')"
proof -
  have d: "d < length (mc_domains m)" using run by (auto simp: cap_release_slot_def nth_opt_def split: if_splits)
  obtain e t where rel: "release_slot (dm_caps (mc_domains m ! d)) slot = (e, t)" by fastforce
  show ?thesis
  proof (cases e)
    case None
    then have "t = dm_caps (mc_domains m ! d)"
      using rel by (auto simp: release_slot_def split: option.splits if_splits)
    then show ?thesis using run rel d None same_caps_auth [OF d] by (auto simp: cap_release_slot_def)
  next
    case (Some x)
    note c = release_slot_Some [OF rel [unfolded Some]]
    show ?thesis
      by (rule drop_steps [OF ok d _ c(3) auth_step.drop_slot [where slot = slot and t = t]])
        (use run rel d Some c in \<open>auto simp: cap_release_slot_def\<close>)
  qed
qed

lemma resolve_entry_Inr:
  assumes "resolve_entry m d h ty req now = Some (Inr cap)"
  shows "d < length (mc_domains m)" "\<exists>e. cap_lookup (dm_caps (mc_domains m ! d)) h = Some e \<and>
      rs_object cap = ce_object e \<and> rs_grant cap = ce_grant e"
    "rs_grant cap < length (mc_grants m)" "gr_used (mc_grants m ! rs_grant cap)"
    "gr_object (mc_grants m ! rs_grant cap) = rs_object cap"
    "rs_rights cap = gr_rights (mc_grants m ! rs_grant cap)" "rs_rights cap AND req = req"
    "now = Some t \<Longrightarrow> lineage_status m (rs_grant cap) t = OK"
    "object_alive m (rs_object cap)" "ty = OBJECT_TYPE_NONE \<or> abi_type (or_kind (rs_object cap)) = ty"
proof -
  have d: "d < length (mc_domains m)"
    using assms by (auto simp: resolve_entry_def nth_opt_def split: if_splits)
  then show "d < length (mc_domains m)" .
  obtain e where e: "cap_lookup (dm_caps (mc_domains m ! d)) h = Some e"
    using assms d by (cases "cap_lookup (dm_caps (mc_domains m ! d)) h") (auto simp: resolve_entry_def)
  have g: "ce_grant e < length (mc_grants m)"
    using assms d e by (auto simp: resolve_entry_def nth_opt_def split: if_splits)
  have all: "cap = \<lparr>rs_slot = unat (handle_slot h), rs_object = ce_object e, rs_grant = ce_grant e,
        rs_rights = gr_rights (mc_grants m ! ce_grant e), rs_facet = gr_facet (mc_grants m ! ce_grant e)\<rparr> \<and>
      gr_used (mc_grants m ! ce_grant e) \<and> gr_object (mc_grants m ! ce_grant e) = ce_object e \<and>
      gr_rights (mc_grants m ! ce_grant e) AND req = req \<and> object_alive m (ce_object e) \<and>
      (case now of None \<Rightarrow> True | Some t \<Rightarrow> lineage_status m (ce_grant e) t = OK) \<and>
      (ty = OBJECT_TYPE_NONE \<or> abi_type (or_kind (ce_object e)) = ty)"
    using assms d e g by (cases now) (auto simp: resolve_entry_def Let_def split: if_splits)
  show "\<exists>e. cap_lookup (dm_caps (mc_domains m ! d)) h = Some e \<and> rs_object cap = ce_object e \<and> rs_grant cap = ce_grant e"
    using e all by auto
  show "now = Some t \<Longrightarrow> lineage_status m (rs_grant cap) t = OK" using all by auto
  show "rs_grant cap < length (mc_grants m)" "gr_used (mc_grants m ! rs_grant cap)"
    "gr_object (mc_grants m ! rs_grant cap) = rs_object cap"
    "rs_rights cap = gr_rights (mc_grants m ! rs_grant cap)" "rs_rights cap AND req = req"
    "object_alive m (rs_object cap)" "ty = OBJECT_TYPE_NONE \<or> abi_type (or_kind (rs_object cap)) = ty"
    using all g by simp_all
qed

text \<open>What a resolved capability says of the tree.\<close>

definition cap_grounded :: "machine \<Rightarrow> resolved \<Rightarrow> bool" where
  "cap_grounded m cap \<longleftrightarrow> rs_grant cap < length (mc_grants m) \<and> gr_used (mc_grants m ! rs_grant cap) \<and>
     gr_object (mc_grants m ! rs_grant cap) = rs_object cap \<and> rs_grant cap \<noteq> NO_GRANT"

lemma resolved_grounded:
  assumes "auth_ok (auth m)" and "resolve_entry m d h ty req now = Some (Inr cap)"
  shows "cap_grounded m cap"
  using resolve_entry_Inr [OF assms(2)] assms(1) auth_collapse [of m] auth_ok_parts(1) [of "mc_grants m" "snd (auth m)"]
  by (auto simp: cap_grounded_def wf_grants_def)

lemma cap_copy_steps:
  assumes "cap_grounded m (cx_cap cx)" and "cap_copy cx m = Some (m', r)"
  shows "(auth_step mint)\<^sup>*\<^sup>* (auth m) (auth m')"
  using assms by (auto simp: cap_copy_def cap_grounded_def dest!: cap_install_steps(1) [where mint = mint] split: bind_splits)

lemma cap_close_steps:
  assumes "auth_ok (auth m)" and "cap_close cx m = Some (m', r)"
  shows "(auth_step mint)\<^sup>*\<^sup>* (auth m) (auth m')"
  using assms by (auto simp: cap_close_def dest: cap_release_steps [where mint = mint] split: bind_splits)

lemma cap_fence_steps:
  assumes ok: "auth_ok (auth m)" and g: "cap_grounded m (cx_cap cx)" and run: "cap_fence e cx m = Some (m', r)"
  shows "(auth_step mint)\<^sup>*\<^sup>* (auth m) (auth m')"
    and "\<And>i. i < length (mc_grants m) \<Longrightarrow> gr_fenced (mc_grants m' ! i) \<longleftrightarrow>
       descends (mc_grants m) (rs_grant (cx_cap cx)) i \<or> under_fence (mc_grants m) i"
    and "snd (auth m') = snd (auth m)"
proof -
  have wf: "wf_grants (mc_grants m)" using ok auth_collapse [of m] auth_ok_parts(1) by metis
  obtain gs where gs: "fence_lineage (mc_grants m) (rs_grant (cx_cap cx)) = Some (gs, card (newly (mc_grants m) gs))"
    "fences (mc_grants m) gs" and fenced: "\<And>i. i < length (mc_grants m) \<Longrightarrow> gr_fenced (gs ! i) \<longleftrightarrow>
       descends (mc_grants m) (rs_grant (cx_cap cx)) i \<or> under_fence (mc_grants m) i"
    using fence_lineage_spec [OF wf, of "rs_grant (cx_cap cx)"] g by (auto simp: cap_grounded_def)
  have "auth m' = auth (m\<lparr>mc_grants := gs\<rparr>)"
    using run gs(1) by (auto simp: cap_fence_def Let_def dest!: write_receipt_auth split: bind_splits)
  then have au: "auth m' = (gs, snd (auth m))" by simp
  have "auth_step mint (mc_grants m, snd (auth m)) (gs, snd (auth m))" using gs(2) by (rule auth_step.fence_below)
  then show "(auth_step mint)\<^sup>*\<^sup>* (auth m) (auth m')" using au auth_collapse [of m] by simp
  show "gr_fenced (mc_grants m' ! i) \<longleftrightarrow> descends (mc_grants m) (rs_grant (cx_cap cx)) i \<or> under_fence (mc_grants m) i"
    if "i < length (mc_grants m)" for i
    using fenced [OF that] au by (simp add: auth_def)
  show "snd (auth m') = snd (auth m)" using au by simp
qed

lemma derive_deadline_narrows:
  "derive_deadline parent req = Inr deadline \<Longrightarrow>
     gr_deadline_ns parent = 0 \<or> deadline \<noteq> 0 \<and> deadline \<le> gr_deadline_ns parent"
  by (auto simp: derive_deadline_def split: if_splits)

lemma derive_check_Inr:
  assumes "derive_check cx req m = Some (Inr (parent, deadline, life))"
  shows "rs_grant (cx_cap cx) < length (mc_grants m)" "parent = mc_grants m ! rs_grant (cx_cap cx)"
    "dr_rights_mask req AND NOT (gr_rights parent) = 0" "derive_deadline parent req = Inr deadline"
  using assms
  by (cases "derive_life m cx (mc_grants m ! rs_grant (cx_cap cx)) req";
      auto simp: derive_check_def nth_opt_def split: if_splits sum.split_asm bind_splits)+

lemma free_fresh_child:
  assumes "i < length gs" "p < length gs" "p \<noteq> i" "p \<noteq> NO_GRANT" "gr_used n" "gr_refs n = 0" "gr_children n = 0"
    and "gr_parent n = p"
  shows "auth_step mint (upd p (set_children Suc) (gs[i := n]), cs)
     (upd i (\<lambda>_. grant_empty) (upd p (set_children (\<lambda>c. c - 1)) (upd p (set_children Suc) (gs[i := n]))), cs)"
proof -
  let ?gs = "upd p (set_children Suc) (gs[i := n])"
  have "auth_step mint (?gs, cs) (upd p (set_children (\<lambda>c. c - 1)) (?gs[i := grant_empty]), cs)"
    by (rule auth_step.free_child) (use assms in auto)
  moreover have "?gs[i := grant_empty] = upd i (\<lambda>_. grant_empty) ?gs" using assms by (simp add: upd_def)
  ultimately show ?thesis using assms(3) upd_commute [of i p "\<lambda>_. grant_empty" "set_children (\<lambda>c. c - 1)" ?gs] by simp
qed

lemma derive_commit_steps:
  assumes ok: "auth_ok (auth m)" and g: "cap_grounded m (cx_cap cx)"
    and par: "parent = mc_grants m ! rs_grant (cx_cap cx)"
    and rights: "dr_rights_mask req AND NOT (gr_rights parent) = 0" and dl: "derive_deadline parent req = Inr deadline"
    and run: "derive_commit cx req (parent, deadline, life) m = Some (m', r)"
  shows "(auth_step mint)\<^sup>*\<^sup>* (auth m) (auth m')"
proof -
  let ?p = "rs_grant (cx_cap cx)"
  obtain d m1 child where al: "nth_opt (mc_domains m) (cx_domain cx) = Some d"
    "grant_alloc (dm_owner_scope d) ?p (rs_object (cx_cap cx)) (dr_rights_mask req) deadline life (gr_facet parent) m = Some (m1, child)"
    and rest: "(case child of None \<Rightarrow> Some (m1, Inl LIMIT_EXHAUSTED) | Some c \<Rightarrow> do {
            (m2, h) \<leftarrow> cap_install (cx_domain cx) (rs_object (cx_cap cx)) c None m1;
            case h of Some v \<Rightarrow> Some (m2, Inr v)
            | None \<Rightarrow> map_option (\<lambda>m3. (m3, Inl LIMIT_EXHAUSTED)) (derive_undo ?p c m2) }) = Some (m', r)"
    using run by (auto simp: derive_commit_def split: bind_splits)
  have p: "?p < length (mc_grants m)" "gr_used (mc_grants m ! ?p)" "?p \<noteq> NO_GRANT"
    "gr_object (mc_grants m ! ?p) = rs_object (cx_cap cx)" using g by (simp_all add: cap_grounded_def)
  have one: "(auth_step mint)\<^sup>*\<^sup>* (auth m) (auth m1)"
    using grant_alloc_steps [OF al(2), of mint] p rights par derive_deadline_narrows [OF dl] by simp
  show ?thesis
  proof (cases child)
    case None
    then show ?thesis using rest one by simp
  next
    case (Some c)
    obtain n where c: "c < length (mc_grants m)" "\<not> gr_used (mc_grants m ! c)"
      and m1: "mc_grants m1 = upd ?p (set_children Suc) ((mc_grants m)[c := n])"
      and n: "gr_used n" "gr_refs n = 0" "gr_children n = 0" "gr_parent n = ?p" "gr_object n = rs_object (cx_cap cx)"
      using grant_alloc_result [OF al(2)] Some p(3) by (auto simp: with_child_def grant_node_def)
    have cp: "c \<noteq> ?p" using c p by auto
    have cn: "c \<noteq> NO_GRANT"
      using c auth_ok_parts(1) [of "mc_grants m" "snd (auth m)"] ok auth_collapse [of m] by (auto simp: wf_grants_def)
    have node: "mc_grants m1 ! c = n" "c < length (mc_grants m1)" using c cp m1 by simp_all
    obtain m2 h where ins: "cap_install (cx_domain cx) (rs_object (cx_cap cx)) c None m1 = Some (m2, h)"
      and fin: "(case h of Some v \<Rightarrow> Some (m2, Inr v)
            | None \<Rightarrow> map_option (\<lambda>m3. (m3, Inl LIMIT_EXHAUSTED)) (derive_undo ?p c m2)) = Some (m', r)"
      using rest Some by (auto split: bind_splits)
    note two = cap_install_steps(1) [OF ins, of mint, unfolded node(1), OF node(2) n(1,5) cn]
      cap_install_steps(2) [OF ins, unfolded node(1), OF node(2) n(1,5) cn]
    have "(auth_step mint)\<^sup>*\<^sup>* (auth m2) (auth m')"
    proof (cases h)
      case None
      have gs2: "mc_grants m2 = upd ?p (set_children Suc) ((mc_grants m)[c := n])" using two(2) None m1 by simp
      have "auth m' = (upd c (\<lambda>_. grant_empty) (upd ?p (set_children (\<lambda>c. c - 1)) (mc_grants m2)), snd (auth m2))"
        using fin None by (auto simp: derive_undo_def upd_checked_def set_children_pred split: if_splits bind_splits)
      then have "auth_step mint (mc_grants m2, snd (auth m2)) (auth m')"
        using free_fresh_child [OF c(1) p(1) cp [symmetric] p(3) n(1-4), of mint "snd (auth m2)"] gs2 by simp
      then show ?thesis using auth_collapse [of m2] by simp
    qed (use fin in auto)
    then show ?thesis using one two(1) by (meson rtranclp_trans)
  qed
qed

lemma derive_steps:
  assumes ok: "auth_ok (auth m)" and g: "cap_grounded m (cx_cap cx)" and run: "derive cx req m = Some (m', r)"
  shows "(auth_step mint)\<^sup>*\<^sup>* (auth m) (auth m')"
proof -
  obtain q where q: "derive_check cx req m = Some q"
    and rest: "(case q of Inl st \<Rightarrow> Some (m, Inl st) | Inr checked \<Rightarrow> derive_commit cx req checked m) = Some (m', r)"
    using run by (auto simp: derive_def split: bind_splits)
  show ?thesis
  proof (cases q)
    case (Inr checked)
    obtain parent deadline life where ch: "checked = (parent, deadline, life)" by (cases checked)
    note chk = derive_check_Inr [OF q [unfolded Inr ch]]
    show ?thesis using derive_commit_steps [OF ok g chk(2-4)] rest Inr ch by simp
  qed (use rest in auto)
qed

end
