(* ===== verification/Cap_Calls.thy ===== *)
theory Cap_Calls
  imports Authority_Steps
begin

text \<open>
  A capability call from its entry to its outcome (\<open>kernel/src/api/mod.rs\<close>: the resolution and dispatch of
  \<open>invoke\<close>, \<open>shared\<close>, \<open>simple\<close>, and \<open>refuse\<close>), and the kernel's own two ways of touching authority: minting a
  root grant (\<open>kernel/src/k2boot.rs\<close>: \<open>install\<close>) and releasing a slot. Over sequences of such calls: the walk of
  a lineage is exact, no sequence amplifies authority, and a fence is for ever.
\<close>

datatype cap_request =
  CapInspect | CapDerive derive_request | CapCopy | CapClose | CapFence | CapDrainStatus

datatype cap_answer = Info cap_info | Handle u64 | Count nat | Report drain_report

fun cap_code :: "cap_request \<Rightarrow> nat" where
  "cap_code CapInspect = OP_CAP_INSPECT"
| "cap_code (CapDerive _) = OP_CAP_DERIVE"
| "cap_code CapCopy = OP_CAP_COPY"
| "cap_code CapClose = OP_CAP_CLOSE"
| "cap_code CapFence = OP_CAP_FENCE"
| "cap_code CapDrainStatus = OP_CAP_DRAIN_STATUS"

definition answer :: "('a \<Rightarrow> cap_answer) \<Rightarrow> machine \<times> (status + 'a) \<Rightarrow> machine \<times> (status + cap_answer)" where
  "answer f r = (case r of (m, Inl st) \<Rightarrow> (m, Inl st) | (m, Inr a) \<Rightarrow> (m, Inr (f a)))"

fun cap_simple :: "wake_env \<Rightarrow> ctx \<Rightarrow> cap_request \<Rightarrow> machine \<Rightarrow> (machine \<times> (status + cap_answer)) option" where
  "cap_simple e cx CapInspect m = map_option (\<lambda>i. (m, Inr (Info i))) (inspect cx m)"
| "cap_simple e cx (CapDerive req) m = map_option (answer Handle) (derive cx req m)"
| "cap_simple e cx CapCopy m = map_option (answer Handle) (cap_copy cx m)"
| "cap_simple e cx CapClose m = map_option (answer Count) (cap_close cx m)"
| "cap_simple e cx CapFence m = map_option (answer Count) (cap_fence e cx m)"
| "cap_simple e cx CapDrainStatus m = map_option (\<lambda>r. (m, Inr (Report r))) (cap_drain_status cx m)"

definition resolve_call :: "ctx \<Rightarrow> op_spec \<Rightarrow> machine \<Rightarrow> (status + resolved) option" where
  "resolve_call cx sp m =
     (if observes_lineage (cx_operation cx)
      then resolve_observer m (cx_domain cx) (cx_handle cx) (os_object_type sp) (os_rights sp)
      else resolve m (cx_domain cx) (cx_handle cx) (os_object_type sp) (os_rights sp) (cx_now cx))"

definition cap_invoke ::
    "wake_env \<Rightarrow> ctx \<Rightarrow> cap_request \<Rightarrow> machine \<Rightarrow> (machine \<times> (status + cap_answer)) option" where
  "cap_invoke e cx0 req m = do {
     let cx = cx0\<lparr>cx_operation := cap_code req\<rparr>;
     (m1, outcome) \<leftarrow> (case spec (cap_code req) of
         None \<Rightarrow> Some (m, Inl NOT_SUPPORTED)
       | Some sp \<Rightarrow> do {
           r \<leftarrow> resolve_call cx sp m;
           case r of
             Inl st \<Rightarrow> Some (m, Inl st)
           | Inr cap \<Rightarrow> cap_simple e (cx\<lparr>cx_cap := cap\<rparr>) req m });
     case outcome of
       Inr a \<Rightarrow> Some (m1, Inr a)
     | Inl st \<Rightarrow> map_option (\<lambda>m2. (m2, Inl st)) (note_refusal (cx_domain cx) m1)
   }"

text \<open>The kernel installs a capability of its own: a root grant and a handle in a given slot.\<close>

definition boot_install ::
    "nat \<Rightarrow> nat \<Rightarrow> obj_ref \<Rightarrow> u32 \<Rightarrow> scope_id \<Rightarrow> machine \<Rightarrow> (machine \<times> u64 option) option" where
  "boot_install domain slot object rights sponsor m = do {
     (m1, g) \<leftarrow> grant_alloc sponsor NO_GRANT object rights 0 None 0 m;
     case g of
       None \<Rightarrow> Some (m1, None)
     | Some grant \<Rightarrow> cap_install domain object grant (Some slot) m1
   }"

datatype auth_call =
    Invoke ctx cap_request
  | Mint nat nat obj_ref u32 scope_id
  | DropSlot nat nat

fun auth_call_run :: "wake_env \<Rightarrow> auth_call \<Rightarrow> machine \<Rightarrow> machine option" where
  "auth_call_run e (Invoke cx req) m = map_option fst (cap_invoke e cx req m)"
| "auth_call_run e (Mint d slot object rights sponsor) m = map_option fst (boot_install d slot object rights sponsor m)"
| "auth_call_run e (DropSlot d slot) m = map_option fst (cap_release_slot d slot m)"

fun mints :: "auth_call \<Rightarrow> bool" where
  "mints (Mint _ _ _ _ _) = True"
| "mints _ = False"

text \<open>A call that panics stops the kernel where it stands.\<close>

definition auth_call_step :: "wake_env \<Rightarrow> auth_call \<Rightarrow> machine \<Rightarrow> machine" where
  "auth_call_step e c m = (case auth_call_run e c m of None \<Rightarrow> m | Some m' \<Rightarrow> m')"

section \<open>Calls are steps of the authority state\<close>

lemma note_refusal_auth: "note_refusal d m = Some m' \<Longrightarrow> auth m' = auth m"
  by (auto simp: note_refusal_def auth_def map_upd_same split: if_splits bind_splits)

lemma answer_fst: "fst (answer f r) = fst r"
  by (auto simp: answer_def split: prod.split sum.split)

lemma cap_simple_steps:
  assumes ok: "auth_ok (auth m)" and g: "cap_grounded m (cx_cap cx)" and run: "cap_simple e cx req m = Some (m', r)"
  shows "(auth_step mint)\<^sup>*\<^sup>* (auth m) (auth m')"
proof (cases req)
  case (CapDerive q)
  then show ?thesis using run derive_steps [OF ok g, of q] answer_fst [of Handle] by (auto) (metis fst_conv)
next
  case CapCopy
  then show ?thesis using run cap_copy_steps [OF g] answer_fst [of Handle] by auto (metis fst_conv)
next
  case CapClose
  then show ?thesis using run cap_close_steps [OF ok, of cx] answer_fst [of Count] by auto (metis fst_conv)
next
  case CapFence
  then show ?thesis using run cap_fence_steps(1) [OF ok g, of e] answer_fst [of Count] by auto (metis fst_conv)
qed (use run in auto)

lemma resolve_call_entry:
  "resolve_call cx sp m = resolve_entry m (cx_domain cx) (cx_handle cx) (os_object_type sp) (os_rights sp)
     (if observes_lineage (cx_operation cx) then None else Some (cx_now cx))"
  by (simp add: resolve_call_def resolve_def resolve_observer_def)

lemma cap_invoke_steps:
  assumes ok: "auth_ok (auth m)" and run: "cap_invoke e cx0 req m = Some (m', r)"
  shows "(auth_step mint)\<^sup>*\<^sup>* (auth m) (auth m')"
proof -
  let ?cx = "cx0\<lparr>cx_operation := cap_code req\<rparr>"
  obtain m1 outcome where one: "(case spec (cap_code req) of
         None \<Rightarrow> Some (m, Inl NOT_SUPPORTED)
       | Some sp \<Rightarrow> do {
           r \<leftarrow> resolve_call ?cx sp m;
           case r of Inl st \<Rightarrow> Some (m, Inl st) | Inr cap \<Rightarrow> cap_simple e (?cx\<lparr>cx_cap := cap\<rparr>) req m }) = Some (m1, outcome)"
    and rest: "auth m' = auth m1"
    using run by (auto simp: cap_invoke_def Let_def dest!: note_refusal_auth split: bind_splits sum.split_asm)
  show ?thesis
  proof (cases "\<exists>sp cap. spec (cap_code req) = Some sp \<and> resolve_call ?cx sp m = Some (Inr cap)")
    case True
    then obtain sp cap where sp: "spec (cap_code req) = Some sp" "resolve_call ?cx sp m = Some (Inr cap)" by blast
    have g: "cap_grounded m cap" using resolved_grounded [OF ok] sp(2) by (auto simp: resolve_call_entry)
    have "cap_simple e (?cx\<lparr>cx_cap := cap\<rparr>) req m = Some (m1, outcome)" using one sp by simp
    from cap_simple_steps [OF ok _ this, of mint] g rest show ?thesis by simp
  next
    case False
    then have "m1 = m" using one by (auto split: option.split_asm bind_splits sum.split_asm)
    then show ?thesis using rest by simp
  qed
qed

lemma boot_install_steps:
  assumes ok: "auth_ok (auth m)" and run: "boot_install d slot object rights sponsor m = Some (m', r)"
  shows "(auth_step True)\<^sup>*\<^sup>* (auth m) (auth m')"
proof -
  obtain m1 g where al: "grant_alloc sponsor NO_GRANT object rights 0 None 0 m = Some (m1, g)"
    and rest: "(case g of None \<Rightarrow> Some (m1, None) | Some grant \<Rightarrow> cap_install d object grant (Some slot) m1) = Some (m', r)"
    using run by (auto simp: boot_install_def split: bind_splits)
  have one: "(auth_step True)\<^sup>*\<^sup>* (auth m) (auth m1)" using grant_alloc_steps [OF al, of True] by simp
  show ?thesis
  proof (cases g)
    case (Some i)
    obtain n where i: "i < length (mc_grants m)" "mc_grants m1 = (mc_grants m)[i := n]"
      and n: "gr_used n" "gr_object n = object"
      using grant_alloc_result [OF al] Some by (auto simp: with_child_def grant_node_def)
    have "i \<noteq> NO_GRANT"
      using i(1) auth_ok_parts(1) [of "mc_grants m" "snd (auth m)"] ok auth_collapse [of m] by (auto simp: wf_grants_def)
    then have "(auth_step True)\<^sup>*\<^sup>* (auth m1) (auth m')"
      using cap_install_steps(1) [of d object i "Some slot" m1 m' r True] rest Some i n by simp
    then show ?thesis using one by (meson rtranclp_trans)
  qed (use rest one in auto)
qed

lemma auth_call_steps:
  assumes "auth_ok (auth m)"
  shows "(auth_step (mints c))\<^sup>*\<^sup>* (auth m) (auth (auth_call_step e c m))"
proof (cases c)
  case (Invoke cx req)
  then show ?thesis
    using cap_invoke_steps [OF assms, of e cx req] by (auto simp: auth_call_step_def split: option.split)
next
  case (Mint d slot object rights sponsor)
  then show ?thesis
    using boot_install_steps [OF assms, of d slot object rights sponsor] by (auto simp: auth_call_step_def split: option.split)
next
  case (DropSlot d slot)
  then show ?thesis
    using cap_release_slot_steps [OF assms, of d slot] by (auto simp: auth_call_step_def split: option.split)
qed

lemma auth_call_ok: "auth_ok (auth m) \<Longrightarrow> auth_ok (auth (auth_call_step e c m))"
  using auth_steps_ok [OF auth_call_steps] by blast

section \<open>The machine as a handle namespace\<close>

text \<open>What a handle of a domain effectively names: its entry, unless the node it names is fenced.\<close>

definition effective :: "machine \<Rightarrow> nat \<times> u64 \<Rightarrow> cap_entry option" where
  "effective m dh =
     (case nth_opt (mc_domains m) (fst dh) of
        None \<Rightarrow> None
      | Some d \<Rightarrow>
          (case cap_lookup (dm_caps d) (snd dh) of
             None \<Rightarrow> None
           | Some e \<Rightarrow> if gr_fenced (mc_grants m ! ce_grant e) then None else Some e))"

lemma revoked_effective: "revoked (auth m) (fst dh) (snd dh) \<Longrightarrow> effective m dh = None"
  by (auto simp: revoked_def effective_def nth_opt_def dest: spent_lookup split: option.split)

interpretation calls: handle_namespace effective "auth_call_step e" "\<lambda>m. auth_ok (auth m)"
    "\<lambda>m dh. revoked (auth m) (fst dh) (snd dh)" for e
proof unfold_locales
  show "auth_ok (auth m) \<Longrightarrow> auth_ok (auth (auth_call_step e c m))" for c m by (rule auth_call_ok)
  show "auth_ok (auth m) \<Longrightarrow> revoked (auth m) (fst dh) (snd dh) \<Longrightarrow> revoked (auth (auth_call_step e c m)) (fst dh) (snd dh)"
    for m dh c using auth_steps_revoked [OF auth_call_steps] by blast
  show "auth_ok (auth m) \<Longrightarrow> revoked (auth m) (fst dh) (snd dh) \<Longrightarrow> effective m dh = None" for m dh
    by (rule revoked_effective)
qed

lemma resolve_effective:
  assumes ok: "auth_ok (auth m)" and "resolve m d h ty req now = Some (Inr cap)"
  shows "effective m (d, h) \<noteq> None"
proof -
  note r = resolve_entry_Inr [OF assms(2) [unfolded resolve_def]]
  have "rs_grant cap \<noteq> NO_GRANT"
    using resolved_grounded [OF ok assms(2) [unfolded resolve_def]] by (simp add: cap_grounded_def)
  moreover have "lineage_status m (rs_grant cap) now = OK" using r(8) by simp
  ultimately have "\<not> gr_fenced (mc_grants m ! rs_grant cap)"
    using r(3,4) by (auto simp: lineage_status_def walk_lineage.simps [of "Suc _"] split: if_splits)
  then show ?thesis using r(1,2) by (auto simp: effective_def)
qed

section \<open>The walk of a lineage is exact\<close>

definition node_live :: "machine \<Rightarrow> nat \<Rightarrow> grant \<Rightarrow> bool" where
  "node_live m now n \<longleftrightarrow> gr_used n \<and> \<not> gr_fenced n \<and> (gr_deadline_ns n = 0 \<or> now < gr_deadline_ns n) \<and>
     (case gr_life_scope n of None \<Rightarrow> True | Some s \<Rightarrow> is_open (mc_scopes m) s) \<and> is_open (mc_scopes m) (gr_sponsor n)"

lemma all_anc_step:
  assumes "g < length gs"
  shows "(\<forall>k a. anc gs k g = Some a \<longrightarrow> P (gs ! a)) \<longleftrightarrow> P (gs ! g) \<and>
    (gr_used (gs ! g) \<longrightarrow> gr_parent (gs ! g) \<noteq> NO_GRANT \<longrightarrow> (\<forall>k a. anc gs k (gr_parent (gs ! g)) = Some a \<longrightarrow> P (gs ! a)))"
  (is "?all \<longleftrightarrow> _ \<and> ?rest")
proof
  assume all: ?all
  then have "P (gs ! g)" using assms by (metis anc.simps(1))
  moreover have ?rest using all assms by (metis anc.simps(2))
  ultimately show "P (gs ! g) \<and> ?rest" by blast
next
  assume *: "P (gs ! g) \<and> ?rest"
  show ?all
  proof (intro allI impI)
    fix k a assume "anc gs k g = Some a"
    then show "P (gs ! a)" using * assms by (cases k) (auto split: if_splits)
  qed
qed

lemma walk_lineage_exact:
  assumes "wf_grants (mc_grants m)"
  shows "g \<noteq> NO_GRANT \<Longrightarrow> g < length (mc_grants m) \<Longrightarrow> gr_used (mc_grants m ! g) \<Longrightarrow> gr_depth (mc_grants m ! g) < n \<Longrightarrow>
    walk_lineage n m g now = OK \<longleftrightarrow> (\<forall>k a. anc (mc_grants m) k g = Some a \<longrightarrow> node_live m now (mc_grants m ! a))"
proof (induction n arbitrary: g)
  case (Suc n)
  let ?n = "mc_grants m ! g" and ?p = "gr_parent (mc_grants m ! g)"
  have walk: "walk_lineage (Suc n) m g now = OK \<longleftrightarrow> node_live m now ?n \<and> walk_lineage n m ?p now = OK"
    using Suc.prems by (auto simp: walk_lineage.simps [of "Suc n"] node_live_def split: option.split)
  show ?case
  proof (cases "?p = NO_GRANT")
    case True
    then have "walk_lineage n m ?p now = OK" by (simp add: walk_lineage.simps)
    then show ?thesis using walk all_anc_step [OF Suc.prems(2), of "node_live m now"] True by simp
  next
    case False
    then have "?p < length (mc_grants m)" "gr_used (mc_grants m ! ?p)" "gr_depth (mc_grants m ! ?p) < n"
      using wf_grants_nth [OF assms Suc.prems(2)] Suc.prems by (auto simp: wf_node_def)
    then show ?thesis
      using walk Suc.IH [OF False] all_anc_step [OF Suc.prems(2), of "node_live m now"] False Suc.prems(3) by simp
  qed
qed simp

lemma lineage_status_exact:
  assumes "wf_grants (mc_grants m)" and "g < length (mc_grants m)" and "gr_used (mc_grants m ! g)"
  shows "lineage_status m g now = OK \<longleftrightarrow> (\<forall>k a. anc (mc_grants m) k g = Some a \<longrightarrow> node_live m now (mc_grants m ! a))"
proof -
  have "g \<noteq> NO_GRANT" "gr_depth (mc_grants m ! g) < MAX_DERIVE_DEPTH + 1"
    using wf_grants_nth [OF assms(1,2)] assms by (auto simp: wf_grants_def wf_node_def)
  then show ?thesis unfolding lineage_status_def using walk_lineage_exact [OF assms(1)] assms(2,3) by blast
qed

section \<open>Runs of calls\<close>

lemma run_ok: "auth_ok (auth m) \<Longrightarrow> auth_ok (auth (fold (auth_call_step e) calls m))"
  by (rule calls.run_invar)

lemma run_bounded:
  assumes "auth_ok (auth m)" and "\<forall>c \<in> set calls. \<not> mints c"
  shows "bounded_by (mc_grants m) (mc_grants (fold (auth_call_step e) calls m))"
  using assms
proof (induction calls arbitrary: m)
  case (Cons c calls)
  have "bounded_by (mc_grants m) (mc_grants (auth_call_step e c m))"
    using auth_steps_bounded auth_call_steps [OF Cons.prems(1), of c e] Cons.prems(2) by fastforce
  then show ?case using Cons.IH [OF auth_call_ok [OF Cons.prems(1)]] Cons.prems(2) by (auto intro: bounded_by_trans)
qed simp

lemma boot_authority: "auth_ok (auth machine_new)"
proof -
  have "wf_caps cap_table_new" by (rule wf_caps_new)
  moreover have "kids (replicate MAX_GRANTS grant_empty) g = 0" for g
    by (simp add: kids_def grant_empty_def sum_list_replicate)
  ultimately show ?thesis
    by (auto simp: auth_ok_def auth_def machine_new_def wf_grants_def wf_node_def grant_empty_def narrows_def refs_cover_def
        grounded_def domain_empty_def MAX_DOMAINS_def MAX_CAPS_def MAX_HANDLES_PER_DOMAIN_def MAX_GRANTS_def NO_GRANT_def
        U16_MAX_def U32_MAX_def cap_table_new_def cap_entry_empty_def)
qed

section \<open>A small machine\<close>

definition demo_object :: obj_ref where "demo_object = obj_ref_new Signal 0 1"

definition demo_grant :: grant where
  "demo_grant = grant_node 1 NO_GRANT 0 demo_object 0xFF 0 None 0 0\<lparr>gr_refs := 1\<rparr>"

definition demo_entry :: cap_entry where
  "demo_entry = cap_entry_empty\<lparr>ce_generation := 1, ce_live := True, ce_object := demo_object, ce_grant := 0\<rparr>"

definition demo_caps :: cap_table where
  "demo_caps = snd (install_at cap_table_new 0 demo_object 0)"

definition demo_machine :: machine where
  "demo_machine = machine_new\<lparr>mc_domains := [domain_empty\<lparr>dm_caps := demo_caps\<rparr>], mc_grants := [demo_grant],
     mc_scopes := [scope_empty\<lparr>sc_state := SOpen\<rparr>], mc_signals := [signal_empty\<lparr>si_used := True, si_generation := 1\<rparr>]\<rparr>"

lemma demo_caps_at: "demo_caps = cap_table_new[0 := demo_entry]"
  by (simp add: demo_entry_def demo_caps_def install_at_def cap_table_new_def MAX_CAPS_def MAX_HANDLES_PER_DOMAIN_def cap_entry_empty_def Let_def)

lemma demo_lookup: "cap_lookup demo_caps (handle 0 1) = Some demo_entry"
proof -
  have "handle 0 1 \<noteq> 0" by (simp add: handle_nonzero)
  then show ?thesis
    by (simp add: demo_caps_at demo_entry_def cap_lookup_def nth_opt_def cap_table_new_def MAX_CAPS_def MAX_HANDLES_PER_DOMAIN_def)
qed

lemma demo_ok: "auth_ok (auth demo_machine)"
proof -
  have wf: "wf_caps demo_caps" unfolding demo_caps_def by (rule install_at_wf [OF wf_caps_new])
  have names: "sum_list (map (names 0) demo_caps) \<le> 1"
    using install_names [of cap_table_new 0 demo_object 0 "handle 0 1" demo_caps 0]
    by (simp add: demo_caps_def install_at_def cap_table_new_def MAX_CAPS_def MAX_HANDLES_PER_DOMAIN_def cap_entry_empty_def
        Let_def names_def sum_list_replicate)
  have live: "e = demo_entry" if "e \<in> set demo_caps" "ce_live e" for e
  proof -
    have "e = demo_entry \<or> e \<in> set cap_table_new"
      using that(1) set_update_subset_insert [of cap_table_new 0 demo_entry] by (auto simp: demo_caps_at)
    then show ?thesis using that(2) by (auto simp: cap_table_new_def cap_entry_empty_def)
  qed
  have "grounded [demo_grant] [demo_caps]"
    unfolding grounded_def
  proof (intro ballI impI)
    fix t e assume "t \<in> set [demo_caps]" "e \<in> set t" "ce_live e"
    then have "e = demo_entry" using live by simp
    then show "ce_grant e < length [demo_grant] \<and> gr_used ([demo_grant] ! ce_grant e) \<and>
        gr_object ([demo_grant] ! ce_grant e) = ce_object e"
      by (simp add: demo_entry_def demo_grant_def grant_node_def)
  qed
  then show ?thesis
    using wf names
    by (auto simp: auth_ok_def auth_def demo_machine_def wf_grants_def wf_node_def narrows_def refs_cover_def kids_def
        holders_def demo_grant_def grant_node_def MAX_CAPS_def MAX_HANDLES_PER_DOMAIN_def NO_GRANT_def U16_MAX_def U32_MAX_def)
qed

lemma demo_domain: "length (mc_domains demo_machine) = 1" "dm_caps (mc_domains demo_machine ! 0) = demo_caps"
  "mc_grants demo_machine = [demo_grant]"
  by (simp_all add: demo_machine_def)

lemma demo_drop: "auth_call_step e (DropSlot 0 5) demo_machine = demo_machine"
proof -
  have "release_slot demo_caps 5 = (None, demo_caps)"
    by (simp add: release_slot_def demo_caps_at nth_opt_def cap_table_new_def MAX_CAPS_def MAX_HANDLES_PER_DOMAIN_def cap_entry_empty_def)
  then show ?thesis
    by (simp add: auth_call_step_def cap_release_slot_def demo_machine_def upd_def)
qed

definition demo_cap :: resolved where
  "demo_cap = \<lparr>rs_slot = 0, rs_object = demo_object, rs_grant = 0, rs_rights = 0xFF, rs_facet = 0\<rparr>"

definition demo_ctx :: ctx where
  "demo_ctx = \<lparr>cx_domain = 0, cx_thread = 0, cx_handle = handle 0 1, cx_operation = OP_CAP_FENCE, cx_flags = 0,
     cx_deadline = 0, cx_now = 5, cx_cap = demo_cap\<rparr>"

lemma demo_grounded: "cap_grounded demo_machine (cx_cap demo_ctx)"
  by (simp add: cap_grounded_def demo_ctx_def demo_cap_def demo_domain demo_grant_def grant_node_def NO_GRANT_def U16_MAX_def)

lemma demo_fence: "\<exists>m n. cap_fence e demo_ctx demo_machine = Some (m, Inr n)"
proof -
  have wf: "wf_grants (mc_grants demo_machine)"
    using demo_ok auth_collapse [of demo_machine] auth_ok_parts(1) by metis
  obtain gs n where gs: "fence_lineage [demo_grant] 0 = Some (gs, n)" "length gs = 1"
    using fence_lineage_spec [OF wf, of 0] demo_grounded fences_length
    by (fastforce simp: demo_domain cap_grounded_def demo_ctx_def demo_cap_def)
  then show ?thesis
    by (simp add: cap_fence_def demo_ctx_def demo_cap_def demo_domain write_receipt_def object_id_def object_alive_def
        alive_at_def demo_object_def obj_ref_new_def)
      (simp add: demo_machine_def machine_new_def)
qed

lemma demo_open: "is_open (mc_scopes demo_machine) 0"
  by (simp add: demo_machine_def is_open_def chain_of_def scope_empty_def scope_parent_def)

lemma resolve_iff:
  assumes "auth_ok (auth m)" and "d < length (mc_domains m)"
  shows "(\<exists>cap. resolve m d h ty req now = Some (Inr cap)) \<longleftrightarrow>
    (\<exists>e. cap_lookup (dm_caps (mc_domains m ! d)) h = Some e \<and>
       (ty = OBJECT_TYPE_NONE \<or> abi_type (or_kind (ce_object e)) = ty) \<and>
       gr_rights (mc_grants m ! ce_grant e) AND req = req \<and> object_alive m (ce_object e) \<and>
       (\<forall>k a. anc (mc_grants m) k (ce_grant e) = Some a \<longrightarrow> node_live m now (mc_grants m ! a)))"
proof (cases "cap_lookup (dm_caps (mc_domains m ! d)) h")
  case None
  then show ?thesis using assms(2) by (simp add: resolve_def resolve_entry_def)
next
  case (Some e)
  have look: "cap_lookup (snd (auth m) ! d) h = Some e" using Some assms(2) by simp
  note g = lookup_grounded [of "mc_grants m" "snd (auth m)" d h e]
  have g: "ce_grant e < length (mc_grants m)" "gr_used (mc_grants m ! ce_grant e)"
    "gr_object (mc_grants m ! ce_grant e) = ce_object e" "wf_grants (mc_grants m)"
    using g assms look auth_collapse [of m] auth_ok_parts(1) [of "mc_grants m" "snd (auth m)"] by auto
  show ?thesis
    using Some assms(2) g(1-3) lineage_status_exact [OF g(4,1,2), of now]
    by (auto simp: resolve_def resolve_entry_def Let_def)
qed

lemma demo_resolves: "\<exists>cap. resolve demo_machine 0 (handle 0 1) 6 0x10 5 = Some (Inr cap)"
proof -
  have live: "node_live demo_machine 5 demo_grant"
    using demo_open by (simp add: node_live_def demo_grant_def grant_node_def)
  have "node_live demo_machine 5 (mc_grants demo_machine ! a)" if "anc (mc_grants demo_machine) k 0 = Some a" for k a
    using that live by (cases k) (auto simp: demo_domain demo_grant_def grant_node_def split: if_splits)
  moreover have "object_alive demo_machine demo_object"
    by (simp add: object_alive_def alive_at_def demo_object_def obj_ref_new_def demo_machine_def)
  moreover have "gr_rights demo_grant AND 0x10 = 0x10" by (simp add: demo_grant_def grant_node_def)
  ultimately show ?thesis
    using resolve_iff [OF demo_ok, of 0 "handle 0 1" 6 "0x10" 5] demo_lookup
    by (simp add: demo_domain demo_entry_def demo_object_def obj_ref_new_def)
qed

section \<open>Properties\<close>

text \<open>
  C23. A handle resolves exactly when it names a live entry of the caller's table for an object of the
  required type that is still alive, the grant behind it carries every required right, and the grant and
  each of its ancestors is in use, not fenced, not past its deadline, and paid for and bounded by open
  scopes.
\<close>

theorem resolve_exact:
  assumes "auth_ok (auth m)" and "d < length (mc_domains m)"
  shows "(\<exists>cap. resolve m d h ty req now = Some (Inr cap)) \<longleftrightarrow>
    (\<exists>e. cap_lookup (dm_caps (mc_domains m ! d)) h = Some e \<and>
       (ty = OBJECT_TYPE_NONE \<or> abi_type (or_kind (ce_object e)) = ty) \<and>
       gr_rights (mc_grants m ! ce_grant e) AND req = req \<and> object_alive m (ce_object e) \<and>
       (\<forall>k a. anc (mc_grants m) k (ce_grant e) = Some a \<longrightarrow> node_live m now (mc_grants m ! a)))"
  by (rule resolve_iff [OF assms])

lemma resolve_exact_witness: "\<exists>cap. resolve demo_machine 0 (handle 0 1) 6 0x10 5 = Some (Inr cap)"
  using demo_resolves resolve_exact [OF demo_ok, of 0 "handle 0 1" 6 "0x10" 5] by (simp add: demo_domain)

text \<open>
  C24. Authority is never amplified: after any sequence of capability calls by any domains, inspecting,
  deriving, copying, closing and fencing in any order, whatever a handle resolves to with some rights on
  an object was within the rights of a grant on that same object that existed before the sequence.
\<close>

theorem authority_never_amplified:
  assumes "auth_ok (auth m)" and "\<forall>c \<in> set calls. \<not> mints c"
    and "m' = fold (auth_call_step e) calls m" and "resolve m' d h ty req now = Some (Inr cap)"
  shows "\<exists>j < length (mc_grants m). gr_used (mc_grants m ! j) \<and> gr_object (mc_grants m ! j) = rs_object cap \<and>
    rs_rights cap AND NOT (gr_rights (mc_grants m ! j)) = 0"
proof -
  note r = resolve_entry_Inr [OF assms(4) [unfolded resolve_def]]
  have "bounded_by (mc_grants m) (mc_grants m')" unfolding assms(3) by (rule run_bounded [OF assms(1,2)])
  then obtain j where "j < length (mc_grants m)" "gr_used (mc_grants m ! j)"
    "narrower (mc_grants m' ! rs_grant cap) (mc_grants m ! j)"
    using r(3,4) by (auto simp: bounded_by_def)
  then show ?thesis using r(5,6) by (auto simp: narrower_def)
qed

lemma authority_never_amplified_witness:
  "\<exists>e cap. resolve (fold (auth_call_step e) [DropSlot 0 5] demo_machine) 0 (handle 0 1) 6 0x10 5 = Some (Inr cap) \<and>
     rs_object cap = demo_object"
proof -
  fix e :: wake_env
  obtain cap where c: "resolve demo_machine 0 (handle 0 1) 6 0x10 5 = Some (Inr cap)" using demo_resolves by blast
  have "gr_object (mc_grants demo_machine ! 0) = rs_object cap"
    using authority_never_amplified [OF demo_ok, of "[DropSlot 0 5]" _ e, OF _ refl] c by (auto simp: demo_drop demo_domain)
  then have "rs_object cap = demo_object" by (simp add: demo_domain demo_grant_def grant_node_def)
  then show "\<exists>e cap. resolve (fold (auth_call_step e) [DropSlot 0 5] demo_machine) 0 (handle 0 1) 6 0x10 5 = Some (Inr cap) \<and>
     rs_object cap = demo_object" using c by (auto simp: demo_drop)
qed

text \<open>
  C25. Fencing is for ever: once a capability fence has answered, every handle of every domain whose grant
  was the fenced one or descended from it never resolves again, whatever capability calls, new roots and
  released slots follow.
\<close>

theorem fence_is_forever:
  assumes "auth_ok (auth m)" and "cap_fence e cx m = Some (m1, Inr n)" and "cap_grounded m (cx_cap cx)"
    and "d < length (mc_domains m)" and "cap_lookup (dm_caps (mc_domains m ! d)) h = Some en"
    and "descends (mc_grants m) (rs_grant (cx_cap cx)) (ce_grant en)"
  shows "resolve (fold (auth_call_step e) calls m1) d h ty req now \<noteq> Some (Inr cap)"
proof -
  note f = cap_fence_steps [OF assms(1,3,2)]
  have ok1: "auth_ok (auth m1)" using auth_steps_ok [OF f(1) [of True] assms(1)] .
  have "ce_grant en < length (mc_grants m)" using assms(6) anc_lt unfolding descends_def by blast
  then have "gr_fenced (mc_grants m1 ! ce_grant en)" using f(2) assms(6) by blast
  moreover have "snd (auth m1) ! d = dm_caps (mc_domains m ! d)" using f(3) assms(4) by simp
  moreover have "length (snd (auth m1)) = length (mc_domains m)" using f(3) by simp
  ultimately have rev: "revoked (auth m1) d h" using assms(4,5) by (auto simp: revoked_def simp del: auth_dest(3))
  then have "effective (fold (auth_call_step e) calls m1) (d, h) = None" using calls.run_dead [OF ok1, of "(d, h)"] by simp
  then show ?thesis using resolve_effective [OF run_ok [OF ok1]] by blast
qed

lemma fence_is_forever_witness:
  "\<exists>e m1 n. cap_fence e demo_ctx demo_machine = Some (m1, Inr n) \<and>
     (\<forall>cap. resolve (fold (auth_call_step e) [Invoke demo_ctx CapCopy, DropSlot 0 5] m1) 0 (handle 0 1) 6 0x10 5 \<noteq> Some (Inr cap))"
proof -
  fix e :: wake_env
  obtain m1 n where f: "cap_fence e demo_ctx demo_machine = Some (m1, Inr n)" using demo_fence by blast
  have "anc (mc_grants demo_machine) 0 0 = Some 0" by (simp add: demo_domain)
  then have "\<exists>k. anc (mc_grants demo_machine) k 0 = Some 0" by (rule exI)
  then have "descends (mc_grants demo_machine) (rs_grant (cx_cap demo_ctx)) (ce_grant demo_entry)"
    by (simp add: descends_def demo_ctx_def demo_cap_def demo_entry_def)
  then have "\<forall>cap. resolve (fold (auth_call_step e) [Invoke demo_ctx CapCopy, DropSlot 0 5] m1) 0 (handle 0 1) 6 0x10 5 \<noteq> Some (Inr cap)"
    using fence_is_forever [OF demo_ok f demo_grounded, of 0 "handle 0 1" demo_entry] demo_lookup
    by (simp add: demo_domain del: fold.simps)
  with f show "\<exists>e m1 n. cap_fence e demo_ctx demo_machine = Some (m1, Inr n) \<and>
     (\<forall>cap. resolve (fold (auth_call_step e) [Invoke demo_ctx CapCopy, DropSlot 0 5] m1) 0 (handle 0 1) 6 0x10 5 \<noteq> Some (Inr cap))"
    by blast
qed

text \<open>
  C26. Every sequence of capability calls, minted roots and released slots keeps the grant tree and the
  capability tables fitted together, from any machine on which they are, the booted one among them: depths
  and parents are those of a forest no deeper than the interface allows, every child is within its parent's
  rights, deadline and object, no live handle names a free grant or another object's, and no counter is below
  the references it stands for.
\<close>

theorem authority_tree_invariant:
  assumes "auth_ok (auth m)"
  shows "auth_ok (auth (fold (auth_call_step e) calls m))"
  by (rule run_ok [OF assms])

end
