(* ===== verification/Derive_Race.thy ===== *)
theory Derive_Race
  imports Cap_Calls
begin

text \<open>
  Deriving and closing under the shared hold of the machine (\<open>kernel/src/api/mod.rs\<close>: \<open>shared\<close>;
  \<open>kernel/src/api/capops.rs\<close>: \<open>derive\<close>, \<open>close\<close>). \<open>shared\<close> runs both from a shared hold, which does not exclude
  another processor's shared hold, and \<open>derive\<close> lets go of the parent node's lock between its checks and its
  allocation. This theory runs one schedule of three processors to its end on a small machine: three
  handles, two roots for two signals, and one child of the first root.
\<close>

section \<open>A small machine and its operations\<close>

definition race_object :: "nat \<Rightarrow> obj_ref" where
  "race_object i = obj_ref_new Signal i 1"

definition race_entry :: "nat \<Rightarrow> u32 \<Rightarrow> grant_id \<Rightarrow> cap_entry" where
  "race_entry i gen g = cap_entry_empty\<lparr>ce_generation := gen, ce_live := True, ce_object := race_object i, ce_grant := g\<rparr>"

definition race_caps :: "cap_entry list \<Rightarrow> cap_table" where
  "race_caps es = es @ replicate (MAX_CAPS - length es) cap_entry_empty"

definition race_grant :: "nat \<Rightarrow> grant_id \<Rightarrow> nat \<Rightarrow> nat \<Rightarrow> u32 \<Rightarrow> nat \<Rightarrow> nat \<Rightarrow> grant" where
  "race_grant ident parent depth i rights refs children =
     grant_node ident parent depth (race_object i) rights 0 None 0 0\<lparr>gr_refs := refs, gr_children := children\<rparr>"

definition race_signal :: "nat \<Rightarrow> signal" where
  "race_signal refs = signal_empty\<lparr>si_used := True, si_generation := 1, si_refs := refs\<rparr>"

definition race_scope :: "nat \<Rightarrow> scope" where
  "race_scope used = scope_empty\<lparr>sc_state := SOpen, sc_limits := limits_default\<lparr>lm_metadata_objects := 16\<rparr>, sc_metadata := used\<rparr>"

definition race_at ::
    "cap_entry list \<Rightarrow> grant list \<Rightarrow> nat \<Rightarrow> nat \<Rightarrow> nat \<Rightarrow> nat \<Rightarrow> nat \<Rightarrow> machine" where
  "race_at es gs hint used r0 r1 ident =
     machine_new\<lparr>mc_domains := [domain_empty\<lparr>dm_caps := race_caps es\<rparr>], mc_grants := gs, mc_grant_hint := hint,
       mc_scopes := [race_scope used], mc_signals := [race_signal r0, race_signal r1], mc_next_object_id := ident\<rparr>"

definition race_ctx :: "u64 \<Rightarrow> nat \<Rightarrow> grant_id \<Rightarrow> ctx" where
  "race_ctx h i g = \<lparr>cx_domain = 0, cx_thread = 0, cx_handle = h, cx_operation = 0, cx_flags = 0, cx_deadline = 0,
     cx_now = 5, cx_cap = \<lparr>rs_slot = unat (handle_slot h), rs_object = race_object i, rs_grant = g, rs_rights = 0xFF, rs_facet = 0\<rparr>\<rparr>"

definition race_request :: derive_request where
  "race_request = \<lparr>dr_rights_mask = 1, dr_reserved0 = 0, dr_deadline_ns = 0, dr_life_scope = 0\<rparr>"

definition race_start :: machine where
  "race_start = race_at [race_entry 0 1 0, race_entry 0 1 1, race_entry 1 1 2]
     [race_grant 1 NO_GRANT 0 0 0xFF 1 1, race_grant 2 0 1 0 0xFF 1 0, race_grant 3 NO_GRANT 0 1 0xFF 1 0, grant_empty]
     3 6 2 1 4"

definition dead_entry :: cap_entry where
  "dead_entry = (race_entry 0 1 1)\<lparr>ce_live := False, ce_grant := NO_GRANT\<rparr>"

definition race_closed :: machine where
  "race_closed = race_at [race_entry 0 1 0, dead_entry, race_entry 1 1 2]
     [race_grant 1 NO_GRANT 0 0 0xFF 1 0, grant_empty, race_grant 3 NO_GRANT 0 1 0xFF 1 0, grant_empty]
     1 4 1 1 4"

lemmas race_shape = race_at_def race_caps_def race_entry_def dead_entry_def race_grant_def race_signal_def race_scope_def
  race_object_def race_ctx_def

lemma race_table: "replicate MAX_CAPS cap_entry_empty = cap_entry_empty # cap_entry_empty # cap_entry_empty # cap_entry_empty # cap_entry_empty # cap_entry_empty # replicate 26 cap_entry_empty"
  by (simp add: MAX_CAPS_def MAX_HANDLES_PER_DOMAIN_def numeral_eq_Suc)

lemma race_chain: "chain_of [race_scope n] 0 = [0]"
  by (simp add: chain_of_def scope_parent_def race_scope_def scope_empty_def)

lemma race_scope_fields [simp]:
  "sc_metadata (race_scope n) = n" "(race_scope n)\<lparr>sc_metadata := v\<rparr> = race_scope v"
  "lm_metadata_objects (sc_limits (race_scope n)) = 16"
  "account Metadata (race_scope n) = n" "set_account Metadata v (race_scope n) = race_scope v"
  "scope_limit Metadata (race_scope n) = 16" "sc_state (race_scope n) = SOpen"
  by (simp_all add: race_scope_def)

lemma race_signal_fields [simp]:
  "si_refs (race_signal n) = n" "(race_signal n)\<lparr>si_refs := v\<rparr> = race_signal v"
  "si_used (race_signal n)" "si_generation (race_signal n) = 1"
  by (simp_all add: race_signal_def)

lemma race_release: "release [race_scope n] 0 Metadata 1 = [race_scope (n - 1)]"
  by (simp add: release_def race_chain upd_def saturating_take_def)

lemma race_reserve: "n < 16 \<Longrightarrow> reserve [race_scope n] 0 Metadata 1 = ([race_scope (Suc n)], True)"
  by (simp add: reserve_def race_chain bounded_add_def sat_add64_def U64_MAX_def upd_def Let_def)

lemma race_at_fields [simp]:
  "mc_domains (race_at es gs hint used r0 r1 ident) = [domain_empty\<lparr>dm_caps := race_caps es\<rparr>]"
  "mc_grants (race_at es gs hint used r0 r1 ident) = gs"
  "mc_grant_hint (race_at es gs hint used r0 r1 ident) = hint"
  "mc_scopes (race_at es gs hint used r0 r1 ident) = [race_scope used]"
  "mc_signals (race_at es gs hint used r0 r1 ident) = [race_signal r0, race_signal r1]"
  "mc_next_object_id (race_at es gs hint used r0 r1 ident) = ident"
  "mc_system_log (race_at es gs hint used r0 r1 ident) = None"
  "(race_at es gs hint used r0 r1 ident)\<lparr>mc_grants := gs'\<rparr> = race_at es gs' hint used r0 r1 ident"
  "(race_at es gs hint used r0 r1 ident)\<lparr>mc_grant_hint := hint'\<rparr> = race_at es gs hint' used r0 r1 ident"
  "(race_at es gs hint used r0 r1 ident)\<lparr>mc_scopes := [race_scope used']\<rparr> = race_at es gs hint used' r0 r1 ident"
  "(race_at es gs hint used r0 r1 ident)\<lparr>mc_signals := [race_signal r0', race_signal r1']\<rparr> = race_at es gs hint used r0' r1' ident"
  "(race_at es gs hint used r0 r1 ident)\<lparr>mc_next_object_id := ident'\<rparr> = race_at es gs hint used r0 r1 ident'"
  "(race_at es gs hint used r0 r1 ident)\<lparr>mc_domains := [domain_empty\<lparr>dm_caps := race_caps es'\<rparr>]\<rparr> = race_at es' gs hint used r0 r1 ident"
  by (simp_all add: race_at_def machine_new_def)

lemma domain_empty_owner [simp]: "dm_owner_scope domain_empty = 0"
  by (simp add: domain_empty_def)

text \<open>The operations of the tables on such a machine.\<close>

lemma race_uncharge [simp]: "release_metadata 0 (race_at es gs hint used r0 r1 ident) = race_at es gs hint (used - 1) r0 r1 ident"
  by (simp add: release_metadata_def race_release del: One_nat_def)

lemma race_charge [simp]: "used < 16 \<Longrightarrow>
    charge_metadata 0 (race_at es gs hint used r0 r1 ident) = (race_at es gs hint (Suc used) r0 r1 ident, True)"
  by (simp add: charge_metadata_def race_reserve del: One_nat_def)

lemma race_refs [simp]:
  "adjust_object_refs (race_object 0) (- 1) (race_at es gs hint used r0 r1 ident) = Some (race_at es gs hint used (r0 - 1) r1 ident)"
  "r0 < 9 \<Longrightarrow> adjust_object_refs (race_object 0) 1 (race_at es gs hint used r0 r1 ident) = Some (race_at es gs hint used (Suc r0) r1 ident)"
  "r1 < 9 \<Longrightarrow> adjust_object_refs (race_object (Suc 0)) 1 (race_at es gs hint used r0 r1 ident) = Some (race_at es gs hint used r0 (Suc r1) ident)"
  by (simp_all add: adjust_object_refs_def race_object_def obj_ref_new_def upd_checked_def upd_def apply_atomic_def U32_MAX_def)

lemma race_entry_fields [simp]:
  "ce_live (race_entry i gen g)" "ce_generation (race_entry i gen g) = gen" "ce_object (race_entry i gen g) = race_object i"
  "ce_grant (race_entry i gen g) = g" "\<not> ce_retired (race_entry i gen g)"
  by (simp_all add: race_entry_def cap_entry_empty_def)

lemma dead_entry_fields [simp]:
  "\<not> ce_live dead_entry" "\<not> ce_retired dead_entry" "ce_generation dead_entry = 1"
  by (simp_all add: dead_entry_def)

lemma race_grant_fields [simp]:
  "gr_used (race_grant ident p d i r n c)" "gr_parent (race_grant ident p d i r n c) = p" "gr_depth (race_grant ident p d i r n c) = d"
  "gr_rights (race_grant ident p d i r n c) = r" "gr_object (race_grant ident p d i r n c) = race_object i"
  "gr_refs (race_grant ident p d i r n c) = n" "gr_children (race_grant ident p d i r n c) = c"
  "\<not> gr_fenced (race_grant ident p d i r n c)" "gr_deadline_ns (race_grant ident p d i r n c) = 0"
  "gr_sponsor (race_grant ident p d i r n c) = 0" "gr_life_scope (race_grant ident p d i r n c) = None"
  "gr_facet (race_grant ident p d i r n c) = 0"
  "(race_grant ident p d i r n c)\<lparr>gr_refs := n'\<rparr> = race_grant ident p d i r n' c"
  "(race_grant ident p d i r n c)\<lparr>gr_children := c'\<rparr> = race_grant ident p d i r n c'"
  "grant_node ident p d (race_object i) r 0 None 0 0 = race_grant ident p d i r 0 0"
  by (simp_all add: race_grant_def grant_node_def)

lemma race_caps_32: "race_caps es = es @ replicate (32 - length es) cap_entry_empty"
  by (simp add: race_caps_def MAX_CAPS_def MAX_HANDLES_PER_DOMAIN_def)

lemma race_lookup:
  "unat (handle_slot h) < length es \<Longrightarrow> ce_live (es ! unat (handle_slot h)) \<Longrightarrow> h \<noteq> 0 \<Longrightarrow>
     ce_generation (es ! unat (handle_slot h)) = handle_generation h \<Longrightarrow>
     cap_lookup (race_caps es) h = Some (es ! unat (handle_slot h))"
  by (simp add: cap_lookup_def race_caps_32 nth_append)

lemma race_drop:
  "unat (handle_slot h) = i \<Longrightarrow> i < length es \<Longrightarrow> ce_live (es ! i) \<Longrightarrow> ce_generation (es ! i) = handle_generation h \<Longrightarrow>
     cap_table_release (race_caps es) h = (Some (es ! i), race_caps (es[i := (es ! i)\<lparr>ce_live := False, ce_grant := NO_GRANT\<rparr>]))"
  by (simp add: cap_table_release_def race_caps_32 nth_append list_update_append)

lemma race_fill: "replicate 29 x = x # replicate 28 x"
  by (simp add: numeral_eq_Suc)

lemma race_install:
  "cap_table_install (race_caps [race_entry 0 1 0, dead_entry, race_entry 1 1 2]) (race_object 1) 1 =
     (Some (1, handle 1 2), race_caps [race_entry 0 1 0, race_entry 1 2 1, race_entry 1 1 2])"
  "cap_table_install (race_caps [race_entry 0 1 0, race_entry 1 2 1, race_entry 1 1 2]) (race_object 0) 3 =
     (Some (3, handle 3 1), race_caps [race_entry 0 1 0, race_entry 1 2 1, race_entry 1 1 2, race_entry 0 1 3])"
  by (simp_all add: cap_table_install_def install_at_def race_caps_32 race_fill Let_def)
    (simp_all add: race_entry_def dead_entry_def cap_entry_empty_def)

text \<open>The node of the closed handle is reused by the other lineage, and then takes the late child.\<close>

definition race_reused :: machine where
  "race_reused = race_at [race_entry 0 1 0, race_entry 1 2 1, race_entry 1 1 2]
     [race_grant 1 NO_GRANT 0 0 0xFF 1 0, race_grant 4 2 1 1 1 1 0, race_grant 3 NO_GRANT 0 1 0xFF 1 1, grant_empty]
     2 6 1 2 5"

definition race_end :: machine where
  "race_end = race_at [race_entry 0 1 0, race_entry 1 2 1, race_entry 1 1 2, race_entry 0 1 3]
     [race_grant 1 NO_GRANT 0 0 0xFF 1 0, race_grant 4 2 1 1 1 1 1, race_grant 3 NO_GRANT 0 1 0xFF 1 1, race_grant 5 1 2 0 1 1 0]
     4 8 2 2 6"

lemma race_kinds [simp]: "or_kind (race_object i) = Signal" "or_index (race_object i) = i" "or_generation (race_object i) = 1"
  by (simp_all add: race_object_def obj_ref_new_def)

lemma race_open: "is_open [race_scope n] 0"
  by (simp add: is_open_def race_chain)

lemma race_dead: "(race_entry 0 1 (Suc 0))\<lparr>ce_live := False, ce_grant := NO_GRANT\<rparr> = dead_entry"
  by (simp add: dead_entry_def)

lemma race_depth: "MAX_DERIVE_DEPTH = Suc (Suc 30)"
  by (simp add: MAX_DERIVE_DEPTH_def)

lemma race_not_none [simp]: "NO_GRANT \<noteq> 0" "0 \<noteq> NO_GRANT" "Suc 0 \<noteq> NO_GRANT" "NO_GRANT \<noteq> Suc 0" "2 \<noteq> NO_GRANT" "NO_GRANT \<noteq> 2"
  "3 \<noteq> NO_GRANT" "NO_GRANT \<noteq> 3"
  by (simp_all add: NO_GRANT_def U16_MAX_def)

lemma race_close: "cap_close (race_ctx (handle 1 1) 0 1) race_start = Some (race_closed, Inr 0)"
proof -
  have dom: "upd 0 (\<lambda>d. d\<lparr>dm_caps := t\<rparr>) [domain_empty\<lparr>dm_caps := t'\<rparr>] = [domain_empty\<lparr>dm_caps := t\<rparr>]" for t t'
    by (simp add: upd_def)
  have two: "collect_loop (Suc (Suc j)) 1 (race_at es [race_grant 1 NO_GRANT 0 0 255 1 1, race_grant 2 0 1 0 255 0 0, g2, grant_empty] 3 n r0 r1 k) =
      Some (race_at es [race_grant 1 NO_GRANT 0 0 255 1 0, grant_empty, g2, grant_empty] 1 (n - 1) r0 r1 k)" for j es g2 n r0 r1 k
    by (simp add: Let_def upd_checked_def upd_def free_grant_hint_def)
  have free: "collect_grant 1 (race_at es [race_grant 1 NO_GRANT 0 0 255 1 1, race_grant 2 0 1 0 255 0 0, g2, grant_empty] 3 n r0 r1 k) =
      Some (race_at es [race_grant 1 NO_GRANT 0 0 255 1 0, grant_empty, g2, grant_empty] 1 (n - 1) r0 r1 k)" for es g2 n r0 r1 k
    unfolding collect_grant_def race_depth by (rule two)
  show ?thesis
    by (simp add: cap_close_def cap_release_def race_start_def race_ctx_def race_drop dom release_entry_def upd_checked_def upd_def
        note_memory_def free [simplified] race_closed_def race_dead)
qed

lemma race_free_node:
  "free_node (race_at es [g0, grant_empty, g2, grant_empty] 1 n r0 r1 k) = Some 1"
  "gr_used g0 \<Longrightarrow> gr_used g1 \<Longrightarrow> gr_used g2 \<Longrightarrow> free_node (race_at es [g0, g1, g2, grant_empty] 2 n r0 r1 k) = Some 3"
  by (simp_all add: free_node_def grant_empty_def upt_rec)

lemma race_checks: "derive_check (race_ctx (handle 1 1) 0 1) race_request race_start =
    Some (Inr (race_grant 2 0 1 0 0xFF 1 0, 0, None))"
  by (simp add: derive_check_def race_request_def race_ctx_def race_start_def derive_deadline_def derive_life_def
      rights_mask_def COMMON_RIGHTS_def RIGHT_INSPECT_def RIGHT_DERIVE_def RIGHT_TRANSFER_def RIGHT_DESTROY_def RIGHT_ADMIN_def
      RIGHT_SIGNAL_RAISE_def RIGHT_SIGNAL_WAIT_def)

lemma race_two: "Suc (Suc 0) = 2"
  by simp

lemma race_install_caps:
  assumes "cap_table_install (race_caps es) ob g = (Some (i, h), race_caps es')" "n < 16" "g < length gs" "g \<noteq> NO_GRANT"
    and "adjust_object_refs ob 1 (race_at es' (upd g (\<lambda>n. n\<lparr>gr_refs := sat_add32 (gr_refs n) 1\<rparr>) gs) hint (Suc n) r0 r1 k) = Some m"
  shows "cap_install 0 ob g None (race_at es gs hint n r0 r1 k) = Some (m, Some h)"
  using assms by (simp add: cap_install_def install_in_def upd_checked_def upd_def)

lemma race_derive: "derive (race_ctx (handle 2 1) 1 2) race_request race_closed = Some (race_reused, Inr (handle 1 2))"
proof -
  have chk: "derive_check (race_ctx (handle 2 1) 1 2) race_request race_closed = Some (Inr (race_grant 3 NO_GRANT 0 1 0xFF 1 0, 0, None))"
    by (simp add: derive_check_def race_request_def race_ctx_def race_closed_def derive_deadline_def derive_life_def
      rights_mask_def COMMON_RIGHTS_def RIGHT_INSPECT_def RIGHT_DERIVE_def RIGHT_TRANSFER_def RIGHT_DESTROY_def RIGHT_ADMIN_def
      RIGHT_SIGNAL_RAISE_def RIGHT_SIGNAL_WAIT_def)
  have al: "grant_alloc 0 2 (race_object 1) 1 0 None 0 race_closed = Some (race_at [race_entry 0 1 0, dead_entry, race_entry 1 1 2]
     [race_grant 1 NO_GRANT 0 0 0xFF 1 0, race_grant 4 2 1 1 1 0 0, race_grant 3 NO_GRANT 0 1 0xFF 1 1, grant_empty] 2 5 1 1 5, Some 1)"
    by (simp add: grant_alloc_def race_closed_def child_depth_def next_id_def race_free_node [simplified] Let_def upd_def checked_add32_def
        U64_MAX_def U32_MAX_def MAX_DERIVE_DEPTH_def race_two)
  have ins: "cap_install 0 (race_object 1) 1 None (race_at [race_entry 0 1 0, dead_entry, race_entry 1 1 2]
     [race_grant 1 NO_GRANT 0 0 0xFF 1 0, race_grant 4 2 1 1 1 0 0, race_grant 3 NO_GRANT 0 1 0xFF 1 1, grant_empty] 2 5 1 1 5) =
     Some (race_reused, Some (handle 1 2))"
    by (rule race_install_caps [OF race_install(1)])
      (simp_all add: upd_def sat_add32_def U32_MAX_def race_reused_def race_two)
  have dom: "nth_opt (mc_domains race_closed) 0 = Some (domain_empty\<lparr>dm_caps := race_caps [race_entry 0 1 0, dead_entry, race_entry 1 1 2]\<rparr>)"
    by (simp add: race_closed_def)
  show ?thesis
    unfolding derive_def chk using ins
    by (simp add: dom derive_commit_def race_ctx_def race_request_def al [simplified])
qed

lemma race_commit: "derive_commit (race_ctx (handle 1 1) 0 1) race_request (race_grant 2 0 1 0 0xFF 1 0, 0, None) race_reused =
    Some (race_end, Inr (handle 3 1))"
proof -
  have al: "grant_alloc 0 1 (race_object 0) 1 0 None 0 race_reused = Some (race_at [race_entry 0 1 0, race_entry 1 2 1, race_entry 1 1 2]
     [race_grant 1 NO_GRANT 0 0 0xFF 1 0, race_grant 4 2 1 1 1 1 1, race_grant 3 NO_GRANT 0 1 0xFF 1 1, race_grant 5 1 2 0 1 0 0] 4 7 1 2 6, Some 3)"
    by (simp add: grant_alloc_def race_reused_def child_depth_def next_id_def race_free_node Let_def upd_def checked_add32_def
        U64_MAX_def U32_MAX_def MAX_DERIVE_DEPTH_def race_two)
  have ins: "cap_install 0 (race_object 0) 3 None (race_at [race_entry 0 1 0, race_entry 1 2 1, race_entry 1 1 2]
     [race_grant 1 NO_GRANT 0 0 0xFF 1 0, race_grant 4 2 1 1 1 1 1, race_grant 3 NO_GRANT 0 1 0xFF 1 1, race_grant 5 1 2 0 1 0 0] 4 7 1 2 6) =
     Some (race_end, Some (handle 3 1))"
    by (rule race_install_caps [OF race_install(2)])
      (simp_all add: upd_def sat_add32_def U32_MAX_def race_end_def race_two)
  have dom: "nth_opt (mc_domains race_reused) 0 =
      Some (domain_empty\<lparr>dm_caps := race_caps [race_entry 0 1 0, race_entry 1 2 1, race_entry 1 1 2]\<rparr>)"
    by (simp add: race_reused_def)
  show ?thesis
    by (simp add: derive_commit_def race_ctx_def race_request_def dom al [simplified] ins [simplified])
qed

definition race_fenced :: machine where
  "race_fenced = race_end\<lparr>mc_grants := (mc_grants race_end)[0 := (mc_grants race_end ! 0)\<lparr>gr_fenced := True\<rparr>]\<rparr>"

lemma race_fence: "cap_fence e (race_ctx (handle 0 1) 0 0) race_end = Some (race_fenced, Inr 1)"
proof -
  have one: "fence_passes (Suc n) ([(race_grant 1 NO_GRANT 0 0 255 1 0)\<lparr>gr_fenced := True\<rparr>, race_grant 4 2 1 1 1 1 1,
       race_grant 3 NO_GRANT 0 1 255 1 1, race_grant 5 1 2 0 1 1 0], c) =
     Some ([(race_grant 1 NO_GRANT 0 0 255 1 0)\<lparr>gr_fenced := True\<rparr>, race_grant 4 2 1 1 1 1 1,
       race_grant 3 NO_GRANT 0 1 255 1 1, race_grant 5 1 2 0 1 1 0], c)" for n c
    by (simp add: fence_node_def upt_rec)
  have "fence_lineage (mc_grants race_end) 0 = Some (mc_grants race_fenced, 1)"
    unfolding fence_lineage_def race_depth using one [of "Suc 30" 1] by (simp add: fence_root_def race_end_def race_fenced_def del: fence_passes.simps)
  then show ?thesis
    by (simp add: cap_fence_def race_ctx_def race_fenced_def race_end_def object_id_def object_alive_def alive_at_def write_receipt_def)
qed

lemma race_revived: "resolve race_fenced 0 (handle 3 1) OBJECT_TYPE_NONE RIGHT_INSPECT 6 =
    Some (Inr \<lparr>rs_slot = 3, rs_object = race_object 0, rs_grant = 3, rs_rights = 1, rs_facet = 0\<rparr>)"
proof -
  have look: "cap_lookup (race_caps [race_entry 0 1 0, race_entry 1 2 1, race_entry 1 1 2, race_entry 0 1 3]) (handle 3 1) = Some (race_entry 0 1 3)"
    using race_lookup [of "handle 3 1" "[race_entry 0 1 0, race_entry 1 2 1, race_entry 1 1 2, race_entry 0 1 3]"]
    by (simp add: handle_nonzero)
  have walk: "walk_lineage (Suc (Suc (Suc n))) race_fenced 3 6 = OK" for n
    by (simp add: walk_lineage.simps race_fenced_def race_end_def race_open)
  have "lineage_status race_fenced 3 6 = OK"
    unfolding lineage_status_def race_depth using walk [of 30] by simp
  then show ?thesis
    by (simp add: resolve_def resolve_entry_def look [simplified] race_fenced_def race_end_def object_alive_def alive_at_def RIGHT_INSPECT_def Let_def)
qed

lemma race_resolves: "resolve race_start 0 (handle 1 1) OBJECT_TYPE_NONE RIGHT_DERIVE 5 = Some (Inr (cx_cap (race_ctx (handle 1 1) 0 1)))"
proof -
  have look: "cap_lookup (race_caps [race_entry 0 1 0, race_entry 0 1 1, race_entry 1 1 2]) (handle 1 1) = Some (race_entry 0 1 1)"
    using race_lookup [of "handle 1 1" "[race_entry 0 1 0, race_entry 0 1 1, race_entry 1 1 2]"]
    by (simp add: handle_nonzero)
  have walk: "walk_lineage (Suc (Suc (Suc n))) race_start 1 5 = OK" for n
    by (simp add: walk_lineage.simps race_start_def race_open)
  have "lineage_status race_start 1 5 = OK"
    unfolding lineage_status_def race_depth using walk [of 30] by simp
  then show ?thesis
    by (simp add: resolve_def resolve_entry_def look [simplified] race_start_def race_ctx_def object_alive_def alive_at_def RIGHT_DERIVE_def Let_def)
qed

lemma race_start_ok: "auth_ok (auth race_start)"
proof -
  let ?es = "[race_entry 0 1 0, race_entry 0 1 1, race_entry 1 1 2]"
  let ?gs = "[race_grant 1 NO_GRANT 0 0 255 1 1, race_grant 2 0 1 0 255 1 0, race_grant 3 NO_GRANT 0 1 255 1 0, grant_empty]"
  note caps = race_caps_32 [of ?es, simplified]
  have wf: "wf_caps (race_caps ?es)"
    by (simp add: caps wf_caps_def MAX_CAPS_def MAX_HANDLES_PER_DOMAIN_def cap_entry_empty_def)
  have held: "sum_list (map (names g) (race_caps ?es)) = of_bool (g = 0) + of_bool (g = 1) + of_bool (g = 2)" for g
    by (auto simp: caps names_def cap_entry_empty_def sum_list_replicate)
  have kid: "kids ?gs g = of_bool (NO_GRANT = g) + of_bool (0 = g) + of_bool (NO_GRANT = g)" for g
    by (simp add: kids_def grant_empty_def)
  have "wf_grants ?gs"
    by (simp add: wf_grants_def wf_node_def grant_empty_def MAX_DERIVE_DEPTH_def) (simp add: NO_GRANT_def U16_MAX_def)
  moreover have "narrows ?gs"
    unfolding narrows_def by (simp add: All_less_Suc narrower_def grant_empty_def)
  moreover have "grounded ?gs [race_caps ?es]"
    by (simp add: grounded_def caps cap_entry_empty_def)
  moreover have unused: "\<not> gr_used grant_empty" by (simp add: grant_empty_def)
  moreover have "refs_cover ?gs [race_caps ?es]"
    by (simp add: refs_cover_def All_less_Suc kid [simplified] holders_def held [simplified] unused race_two)
  ultimately show ?thesis
    using wf by (simp add: auth_ok_def auth_def race_start_def MAX_CAPS_def MAX_HANDLES_PER_DOMAIN_def U32_MAX_def)
qed

text \<open>
  Run one after the other, the close and the derivation that is given the freed node keep the tree: two
  calls that both change it.
\<close>

lemma race_calls:
  "auth_call_step e (Invoke (race_ctx (handle 1 1) 0 1) CapClose) race_start = race_closed"
  "auth_call_step e (Invoke (race_ctx (handle 2 1) 1 2) (CapDerive race_request)) race_closed = race_reused"
proof -
  have "walk_lineage (Suc (Suc (Suc n))) race_closed 2 5 = OK" for n
    by (simp add: walk_lineage.simps race_closed_def race_open)
  note walk = this [of 30]
  have line: "lineage_status race_closed 2 5 = OK"
    unfolding lineage_status_def race_depth using walk by simp
  have look: "cap_lookup (race_caps [race_entry 0 1 0, race_entry 0 1 1, race_entry 1 1 2]) (handle 1 1) = Some (race_entry 0 1 1)"
    "cap_lookup (race_caps [race_entry 0 1 0, dead_entry, race_entry 1 1 2]) (handle 2 1) = Some (race_entry 1 1 2)"
    using race_lookup [of "handle 1 1" "[race_entry 0 1 0, race_entry 0 1 1, race_entry 1 1 2]"]
      race_lookup [of "handle 2 1" "[race_entry 0 1 0, dead_entry, race_entry 1 1 2]"]
    by (simp_all add: handle_nonzero)
  have close: "resolve_observer race_start 0 (handle 1 1) 0 0 = Some (Inr (cx_cap (race_ctx (handle 1 1) 0 1)))"
    by (simp add: resolve_observer_def resolve_entry_def look(1) [simplified] race_start_def race_ctx_def object_alive_def alive_at_def Let_def OBJECT_TYPE_NONE_def)
  have child: "resolve race_closed 0 (handle 2 1) 0 2 5 = Some (Inr (cx_cap (race_ctx (handle 2 1) 1 2)))"
    using line by (simp add: resolve_def resolve_entry_def look(2) [simplified] race_closed_def race_ctx_def object_alive_def alive_at_def Let_def OBJECT_TYPE_NONE_def)
  have spec: "spec (cap_code CapClose) = Some (op_spec_of OP_CAP_CLOSE 0 0 0 False ''CAP_CLOSE'')"
    "spec (cap_code (CapDerive race_request)) = Some (op_spec_of OP_CAP_DERIVE 0 2 56 False ''CAP_DERIVE'')"
    by (simp_all add: spec_abi abi_spec_def table_eval)
  have same: "(race_ctx h i g)\<lparr>cx_operation := n, cx_cap := cx_cap (race_ctx h i g)\<rparr> = (race_ctx h i g)\<lparr>cx_operation := n\<rparr>"
    "cx_domain (race_ctx h i g) = 0" "cx_handle (race_ctx h i g) = h" "cx_now (race_ctx h i g) = 5" for h i g n
    by (simp_all add: race_ctx_def)
  have code: "cap_close (cx\<lparr>cx_operation := n\<rparr>) m = cap_close cx m" "derive (cx\<lparr>cx_operation := n\<rparr>) r m = derive cx r m" for cx n m r
    by (simp_all add: cap_close_def derive_def derive_check_def derive_commit_def derive_deadline_def derive_life_def
        cong: if_cong sum.case_cong option.case_cong Option.bind_cong)
  have other: "OP_CAP_DERIVE \<notin> {OP_CAP_INSPECT, OP_CAP_CLOSE, OP_CAP_DRAIN_STATUS}" by (simp add: op_codes)
  note eval = auth_call_step_def cap_invoke_def resolve_call_def spec [simplified] op_spec_of_def observes_lineage_def same code answer_def Let_def
  show "auth_call_step e (Invoke (race_ctx (handle 1 1) 0 1) CapClose) race_start = race_closed"
    using close race_close by (simp add: eval)
  show "auth_call_step e (Invoke (race_ctx (handle 2 1) 1 2) (CapDerive race_request)) race_closed = race_reused"
    using child race_derive other by (simp add: eval)
qed

lemma authority_tree_invariant_witness:
  "\<forall>e. fold (auth_call_step e) [Invoke (race_ctx (handle 1 1) 0 1) CapClose, Invoke (race_ctx (handle 2 1) 1 2) (CapDerive race_request)]
     race_start = race_reused \<and> auth_ok (auth race_reused)"
proof
  fix e
  have run: "fold (auth_call_step e) [Invoke (race_ctx (handle 1 1) 0 1) CapClose, Invoke (race_ctx (handle 2 1) 1 2) (CapDerive race_request)]
     race_start = race_reused" by (simp add: race_calls [simplified])
  show "fold (auth_call_step e) [Invoke (race_ctx (handle 1 1) 0 1) CapClose, Invoke (race_ctx (handle 2 1) 1 2) (CapDerive race_request)]
     race_start = race_reused \<and> auth_ok (auth race_reused)"
    using authority_tree_invariant [OF race_start_ok, of e
      "[Invoke (race_ctx (handle 1 1) 0 1) CapClose, Invoke (race_ctx (handle 2 1) 1 2) (CapDerive race_request)]"]
    unfolding run by (simp only: refl simp_thms)
qed

section \<open>Properties\<close>

text \<open>
  C27. Deriving and closing under the shared hold can put a grant out of reach of its own root. A processor
  passes the checks of a derivation below a root; a second closes the handle it derives from, which frees
  the parent node; a third derives from an unrelated grant and is given that node; then the first commits.
  The new handle names the first root's object, but hangs in the other lineage: after the root has been
  fenced, as it is by everyone who revokes that authority, the handle still resolves for that object.
\<close>

theorem derive_close_race:
  "\<exists>m m1 m2 m3 m4 cx1 cx2 cx0 req checked h2 h n cap.
     auth_ok (auth m) \<and> descends (mc_grants m) (rs_grant (cx_cap cx0)) (rs_grant (cx_cap cx1)) \<and>
     resolve m 0 (cx_handle cx1) OBJECT_TYPE_NONE RIGHT_DERIVE 5 = Some (Inr (cx_cap cx1)) \<and>
     derive_check cx1 req m = Some (Inr checked) \<and> cap_close cx1 m = Some (m1, Inr 0) \<and>
     derive cx2 req m1 = Some (m2, Inr h2) \<and> derive_commit cx1 req checked m2 = Some (m3, Inr h) \<and>
     cap_fence e cx0 m3 = Some (m4, Inr n) \<and>
     resolve m4 0 h OBJECT_TYPE_NONE RIGHT_INSPECT 6 = Some (Inr cap) \<and> rs_object cap = rs_object (cx_cap cx0)"
proof -
  have "anc (mc_grants race_start) 1 1 = Some 0" by (simp add: race_start_def)
  then have "\<exists>k. anc (mc_grants race_start) k 1 = Some 0" by (rule exI)
  then have below: "descends (mc_grants race_start) 0 1" by (simp only: descends_def)
  let ?c1 = "race_ctx (handle 1 1) 0 1" and ?c2 = "race_ctx (handle 2 1) 1 2" and ?c0 = "race_ctx (handle 0 1) 0 0"
  let ?cap = "\<lparr>rs_slot = 3, rs_object = race_object 0, rs_grant = 3, rs_rights = 1, rs_facet = 0\<rparr>"
  have fields: "rs_grant (cx_cap ?c0) = 0" "rs_grant (cx_cap ?c1) = 1" "cx_handle ?c1 = handle 1 1" "rs_object ?cap = rs_object (cx_cap ?c0)"
    by (simp_all add: race_ctx_def)
  have "auth_ok (auth race_start) \<and> descends (mc_grants race_start) (rs_grant (cx_cap ?c0)) (rs_grant (cx_cap ?c1)) \<and>
     resolve race_start 0 (cx_handle ?c1) OBJECT_TYPE_NONE RIGHT_DERIVE 5 = Some (Inr (cx_cap ?c1)) \<and>
     derive_check ?c1 race_request race_start = Some (Inr (race_grant 2 0 1 0 0xFF 1 0, 0, None)) \<and>
     cap_close ?c1 race_start = Some (race_closed, Inr 0) \<and>
     derive ?c2 race_request race_closed = Some (race_reused, Inr (handle 1 2)) \<and>
     derive_commit ?c1 race_request (race_grant 2 0 1 0 0xFF 1 0, 0, None) race_reused = Some (race_end, Inr (handle 3 1)) \<and>
     cap_fence e ?c0 race_end = Some (race_fenced, Inr 1) \<and>
     resolve race_fenced 0 (handle 3 1) OBJECT_TYPE_NONE RIGHT_INSPECT 6 = Some (Inr ?cap) \<and> rs_object ?cap = rs_object (cx_cap ?c0)"
    unfolding fields
    by (intro conjI race_start_ok below race_resolves race_checks race_close race_derive race_commit race_fence race_revived fields(4) [unfolded fields] refl)
  then show ?thesis by (intro exI)
qed

end
