(* ===== verification/Events.thy ===== *)
theory Events
  imports Derive_Race
begin

text \<open>
  Signals and timers (\<open>kernel/src/api/evtops.rs\<close>): creation, raising, waiting, arming, cancelling and expiry.
  A wait is its passes under the machine lock: one pass tests the bits and, if none is there, registers the
  waiter in the same hold; what follows the sleep is a second part. The lemmas show that a raise wakes every
  thread that waits for one of its bits, and that a tick fires exactly the timers that are due.
\<close>

section \<open>Publishing a new object\<close>

text \<open>
  How a creation ends: a root grant paid by the caller's own scope, and a handle in the caller's table.
  Neither step is undone when the other, or a later one, fails.
\<close>

definition publish_object :: "nat \<Rightarrow> obj_ref \<Rightarrow> machine \<Rightarrow> (machine \<times> (status + u64)) option" where
  "publish_object domain object m = do {
     d \<leftarrow> nth_opt (mc_domains m) domain;
     (m1, g) \<leftarrow> grant_alloc (dm_owner_scope d) NO_GRANT object (rights_mask (or_kind object)) 0 None 0 m;
     case g of
       None \<Rightarrow> Some (m1, Inl LIMIT_EXHAUSTED)
     | Some grant \<Rightarrow> do {
         (m2, h) \<leftarrow> cap_install domain object grant None m1;
         Some (m2, case h of None \<Rightarrow> Inl LIMIT_EXHAUSTED | Some v \<Rightarrow> Inr v) }
   }"

definition next_generation :: "u32 \<Rightarrow> u32" where
  "next_generation g = (if g = 0xFFFFFFFF then g else g + 1)"

text \<open>The charge and the identity a creation needs before anything becomes visible.\<close>

definition charge_identity :: "scope_id \<Rightarrow> machine \<Rightarrow> machine \<times> nat option" where
  "charge_identity sponsor m =
     (case charge_metadata sponsor m of
        (m1, False) \<Rightarrow> (m1, None)
      | (m1, True) \<Rightarrow>
          (case next_id m1 of
             (m2, None) \<Rightarrow> (release_metadata sponsor m2, None)
           | (m2, Some i) \<Rightarrow> (m2, Some i)))"

section \<open>Creation\<close>

definition create_signal :: "ctx \<Rightarrow> machine \<Rightarrow> (machine \<times> (status + u64)) option" where
  "create_signal cx m = do {
     let sponsor = or_index (rs_object (cx_cap cx));
     s \<leftarrow> nth_opt (mc_scopes m) sponsor;
     if sc_state s \<noteq> SOpen then Some (m, Inl SCOPE_CLOSED)
     else case position (\<lambda>x. \<not> si_used x) (mc_signals m) of
         None \<Rightarrow> Some (m, Inl LIMIT_EXHAUSTED)
       | Some index \<Rightarrow>
           (case charge_identity sponsor m of
              (m1, None) \<Rightarrow> Some (m1, Inl LIMIT_EXHAUSTED)
            | (m1, Some ident) \<Rightarrow>
                let generation = next_generation (si_generation (mc_signals m ! index));
                    m2 = m1\<lparr>mc_signals := (mc_signals m1)[index := \<lparr>si_used = True, si_generation = generation,
                           si_id = ident, si_owner_scope = sponsor, si_bits = 0, si_sequence = 0, si_waiters = 0,
                           si_refs = 0\<rparr>]\<rparr>
                in publish_object (cx_domain cx) (obj_ref_new Signal index generation) m2)
   }"

record timer_create_request =
  tq_signal_handle :: u64
  tq_bits :: u64

definition create_timer :: "ctx \<Rightarrow> timer_create_request \<Rightarrow> machine \<Rightarrow> (machine \<times> (status + u64)) option" where
  "create_timer cx req m = do {
     r \<leftarrow> resolve m (cx_domain cx) (tq_signal_handle req) (abi_type Signal) RIGHT_SIGNAL_RAISE (cx_now cx);
     case r of
       Inl st \<Rightarrow> Some (m, Inl st)
     | Inr target \<Rightarrow>
         if tq_bits req = 0 then Some (m, Inl INVALID_ARGUMENT)
         else do {
           let sponsor = or_index (rs_object (cx_cap cx));
           s \<leftarrow> nth_opt (mc_scopes m) sponsor;
           if sc_state s \<noteq> SOpen then Some (m, Inl SCOPE_CLOSED)
           else case position (\<lambda>x. \<not> tm_used x) (mc_timers m) of
               None \<Rightarrow> Some (m, Inl LIMIT_EXHAUSTED)
             | Some index \<Rightarrow>
                 (case charge_identity sponsor m of
                    (m1, None) \<Rightarrow> Some (m1, Inl LIMIT_EXHAUSTED)
                  | (m1, Some ident) \<Rightarrow>
                      let generation = next_generation (tm_generation (mc_timers m ! index));
                          m2 = m1\<lparr>mc_timers := (mc_timers m1)[index := \<lparr>tm_used = True, tm_generation = generation,
                                 tm_id = ident, tm_owner_scope = sponsor, tm_signal = or_index (rs_object target),
                                 tm_signal_generation = or_generation (rs_object target), tm_bits = tq_bits req,
                                 tm_deadline_ns = 0, tm_armed = False, tm_fired = 0, tm_refs = 0\<rparr>]\<rparr>
                      in publish_object (cx_domain cx) (obj_ref_new Timer index generation) m2) }
   }"

section \<open>Raising and waiting\<close>

definition waits_for :: "nat \<Rightarrow> u32 \<Rightarrow> u64 \<Rightarrow> wait_record \<Rightarrow> bool" where
  "waits_for index generation bits r =
     (case wr_wait r of
        WaitSignal s g bits' \<Rightarrow> s = index \<and> g = generation \<and> bits' AND bits \<noteq> 0
      | _ \<Rightarrow> False)"

definition raise_one :: "wake_env \<Rightarrow> nat \<Rightarrow> u32 \<Rightarrow> u64 \<Rightarrow> nat \<Rightarrow> thread_world \<Rightarrow> thread_world option" where
  "raise_one e index generation bits t w =
     map_option fst (defer_wake_if e t (waits_for index generation bits) OK 0 AnyHint w)"

definition raised :: "u64 \<Rightarrow> signal \<Rightarrow> signal" where
  "raised bits s = s\<lparr>si_bits := si_bits s OR bits, si_sequence := si_sequence s + 1\<rparr>"

definition raise_bits :: "wake_env \<Rightarrow> nat \<Rightarrow> u32 \<Rightarrow> u64 \<Rightarrow> machine \<Rightarrow> machine option" where
  "raise_bits e index generation bits m = do {
     s \<leftarrow> nth_opt (mc_signals m) index;
     if \<not> si_used s \<or> si_generation s \<noteq> generation then Some m
     else do {
       let m1 = m\<lparr>mc_signals := (mc_signals m)[index := raised bits s]\<rparr>;
       if si_waiters s = 0 then Some m1
       else do {
         w \<leftarrow> fold_opt (raise_one e index generation bits) [0..<length (tw_threads (mc_threads m1))] (mc_threads m1);
         Some (m1\<lparr>mc_threads := w\<rparr>) } }
   }"

definition raise_op :: "wake_env \<Rightarrow> ctx \<Rightarrow> u64 \<Rightarrow> machine \<Rightarrow> (machine \<times> (status + u64)) option" where
  "raise_op e cx bits m =
     (if bits = 0 then Some (m, Inl INVALID_ARGUMENT)
      else do {
        let index = or_index (rs_object (cx_cap cx));
        s \<leftarrow> nth_opt (mc_signals m) index;
        m1 \<leftarrow> raise_bits e index (si_generation s) bits m;
        s1 \<leftarrow> nth_opt (mc_signals m1) index;
        Some (m1, Inr (si_sequence s1))
      })"

record signal_info =
  sg_bits :: u64
  sg_sequence :: u64
  sg_object_id :: nat
  sg_waiters :: nat

text \<open>One pass of a wait, with the time it reads, and what follows the sleep.\<close>

datatype signal_pass = SignalObserved signal_info | SignalRefused status | SignalSleeps

definition signal_pass_run ::
    "ctx \<Rightarrow> op_spec \<Rightarrow> u64 \<Rightarrow> nat \<Rightarrow> machine \<Rightarrow> (machine \<times> signal_pass) option" where
  "signal_pass_run cx sp bits now m =
     (if bits = 0 then Some (m, SignalRefused INVALID_ARGUMENT)
      else do {
        r \<leftarrow> resolve m (cx_domain cx) (cx_handle cx) (os_object_type sp) (os_rights sp) now;
        case r of
          Inl st \<Rightarrow> Some (m, SignalRefused st)
        | Inr cap \<Rightarrow> do {
            let index = or_index (rs_object cap);
            s \<leftarrow> nth_opt (mc_signals m) index;
            let observed = si_bits s AND bits;
            if observed \<noteq> 0 then
              Some (m\<lparr>mc_signals := (mc_signals m)[index := s\<lparr>si_bits := si_bits s AND NOT observed\<rparr>]\<rparr>,
                    SignalObserved \<lparr>sg_bits = observed, sg_sequence = si_sequence s, sg_object_id = si_id s,
                      sg_waiters = si_waiters s\<rparr>)
            else if cx_flags cx AND FLAG_NONBLOCKING \<noteq> 0 then Some (m, SignalRefused WOULD_BLOCK)
            else do {
              n \<leftarrow> checked_add32 (si_waiters s) 1;
              Some (m\<lparr>mc_threads := prepare_wait (cx_thread cx) (WaitSignal index (or_generation (rs_object cap)) bits)
                          (cx_deadline cx) (mc_threads m),
                      mc_signals := (mc_signals m)[index := s\<lparr>si_waiters := n\<rparr>]\<rparr>, SignalSleeps) } }
      })"

definition signal_awake :: "nat \<Rightarrow> nat \<Rightarrow> machine \<Rightarrow> machine \<times> status option" where
  "signal_awake thread index m =
     (case take_wake_status thread (mc_threads m) of
        (w, woken, _) \<Rightarrow>
          let m1 = m\<lparr>mc_threads := w\<rparr>;
              m2 = (case nth_opt (mc_signals m1) index of
                      Some s \<Rightarrow> if si_used s
                        then m1\<lparr>mc_signals := (mc_signals m1)[index := s\<lparr>si_waiters := si_waiters s - 1\<rparr>]\<rparr> else m1
                    | None \<Rightarrow> m1)
          in (m2, if woken \<noteq> OK then Some woken else None))"

definition query_signal :: "ctx \<Rightarrow> machine \<Rightarrow> signal_info option" where
  "query_signal cx m = do {
     s \<leftarrow> nth_opt (mc_signals m) (or_index (rs_object (cx_cap cx)));
     Some \<lparr>sg_bits = si_bits s, sg_sequence = si_sequence s, sg_object_id = si_id s, sg_waiters = si_waiters s\<rparr>
   }"

section \<open>Timers\<close>

definition timer_due :: "nat \<Rightarrow> machine \<Rightarrow> bool" where
  "timer_due now m \<longleftrightarrow> mc_next_timer m \<le> now"

definition earliest :: "timer list \<Rightarrow> nat" where
  "earliest ts = foldr (\<lambda>t n. if tm_used t \<and> tm_armed t then min (tm_deadline_ns t) n else n) ts U64_MAX"

definition recompute_next :: "machine \<Rightarrow> machine" where
  "recompute_next m = m\<lparr>mc_next_timer := earliest (mc_timers m)\<rparr>"

definition arm :: "ctx \<Rightarrow> nat \<Rightarrow> machine \<Rightarrow> (machine \<times> (status + nat)) option" where
  "arm cx deadline m =
     (if deadline = 0 then Some (m, Inl INVALID_ARGUMENT)
      else do {
        ts \<leftarrow> upd_checked (or_index (rs_object (cx_cap cx)))
               (\<lambda>t. t\<lparr>tm_deadline_ns := deadline, tm_armed := True\<rparr>) (mc_timers m);
        Some (m\<lparr>mc_timers := ts, mc_next_timer := min (mc_next_timer m) deadline\<rparr>, Inr deadline)
      })"

definition timer_cancel :: "ctx \<Rightarrow> machine \<Rightarrow> (machine \<times> (status + nat)) option" where
  "timer_cancel cx m = do {
     ts \<leftarrow> upd_checked (or_index (rs_object (cx_cap cx))) (\<lambda>t. t\<lparr>tm_armed := False, tm_deadline_ns := 0\<rparr>) (mc_timers m);
     Some (recompute_next (m\<lparr>mc_timers := ts\<rparr>), Inr 0)
   }"

record timer_info =
  ti_armed :: nat
  ti_deadline_ns :: nat
  ti_fired :: nat
  ti_object_id :: nat

definition query_timer :: "ctx \<Rightarrow> machine \<Rightarrow> timer_info option" where
  "query_timer cx m = do {
     t \<leftarrow> nth_opt (mc_timers m) (or_index (rs_object (cx_cap cx)));
     Some \<lparr>ti_armed = of_bool (tm_armed t), ti_deadline_ns = tm_deadline_ns t, ti_fired = tm_fired t, ti_object_id = tm_id t\<rparr>
   }"

definition timer_is_due :: "nat \<Rightarrow> timer \<Rightarrow> bool" where
  "timer_is_due now t \<longleftrightarrow> tm_used t \<and> tm_armed t \<and> tm_deadline_ns t \<le> now"

definition expire_timer :: "wake_env \<Rightarrow> nat \<Rightarrow> nat \<Rightarrow> machine \<times> nat \<Rightarrow> (machine \<times> nat) option" where
  "expire_timer e now index s =
     (case s of (m, fired) \<Rightarrow>
        let t = mc_timers m ! index in
        if \<not> timer_is_due now t then Some (m, fired)
        else do {
          n \<leftarrow> checked_add64 (tm_fired t) 1;
          m1 \<leftarrow> raise_bits e (tm_signal t) (tm_signal_generation t) (tm_bits t)
                 (m\<lparr>mc_timers := (mc_timers m)[index := t\<lparr>tm_armed := False, tm_fired := n\<rparr>]\<rparr>);
          Some (m1, fired + 1) })"

definition expire :: "wake_env \<Rightarrow> nat \<Rightarrow> machine \<Rightarrow> (machine \<times> nat) option" where
  "expire e now m =
     map_option (\<lambda>(m', fired). (recompute_next m', fired))
       (fold_opt (expire_timer e now) [0..<length (mc_timers m)] (m, 0))"

definition any_armed :: "machine \<Rightarrow> bool" where
  "any_armed m \<longleftrightarrow> mc_next_timer m \<noteq> U64_MAX"

section \<open>A raise wakes every thread that waits for it\<close>

text \<open>No blocked thread still stands on a processor, so a wake does not spin.\<close>

definition settled :: "thread_world \<Rightarrow> bool" where
  "settled w \<longleftrightarrow> (\<forall>c \<in> set (tw_threads w). tc_state c = TBlocked \<longrightarrow> tc_on_cpu c = 0)"

text \<open>A wake on its way: the thread is in a run queue, or its wake is deferred on this processor.\<close>

definition coming :: "wake_env \<Rightarrow> thread_world \<Rightarrow> nat \<Rightarrow> bool" where
  "coming e w i \<longleftrightarrow> queued w i \<or> (i, AnyHint) \<in> set (cs_deferred (tw_cpus w ! we_me e))"

definition hit :: "nat \<Rightarrow> u32 \<Rightarrow> u64 \<Rightarrow> thread_world \<Rightarrow> nat \<Rightarrow> bool" where
  "hit index generation bits w i \<longleftrightarrow>
     tc_state (tw_threads w ! i) = TBlocked \<and> waits_for index generation bits (tc_wait (tw_threads w ! i))"

definition told :: "status \<Rightarrow> thread_cell \<Rightarrow> bool" where
  "told st c \<longleftrightarrow> wr_wait (tc_wait c) = WaitNone \<and> wr_wake_status (tc_wait c) = st"

lemma wake_keeps_deferred:
  "wake e i h w = Some w' \<Longrightarrow> c < length (tw_cpus w) \<Longrightarrow> cs_deferred (tw_cpus w' ! c) = cs_deferred (tw_cpus w ! c)"
  by (auto simp: wake_def Let_def announce_def enqueue_def kick_def nth_upd split: if_splits idle_state.splits)

lemma raise_one_step:
  assumes ok: "env_ok e w" "settled w" and t: "t < MAX_THREADS"
  shows "\<exists>w'. raise_one e index generation bits t w = Some w' \<and> env_ok e w' \<and> settled w' \<and>
    (\<forall>i. i \<noteq> t \<longrightarrow> tw_threads w' ! i = tw_threads w ! i) \<and>
    (if hit index generation bits w t then told OK (tw_threads w' ! t) \<and> coming e w' t else w' = w) \<and>
    (\<forall>i. coming e w i \<longrightarrow> coming e w' i)"
proof (cases "hit index generation bits w t")
  case False
  have len: "length (tw_threads w) = MAX_THREADS" using ok(1) by (simp add: env_ok_def)
  show ?thesis
    using False ok t len by (auto simp: raise_one_def defer_wake_if_def claim_wake_cell hit_def)
next
  case True
  have len: "length (tw_threads w) = MAX_THREADS" and me: "we_me e < length (tw_cpus w)"
    using ok(1) by (simp_all add: env_ok_def)
  let ?w1 = "w\<lparr>tw_threads := upd t (claimed_cell OK 0) (tw_threads w)\<rparr>"
  have cl: "claim_wake t (waits_for index generation bits) OK 0 w = (?w1, True)"
    using True t len by (simp add: claim_wake_cell hit_def)
  have off: "tc_on_cpu (tw_threads ?w1 ! t) = 0" "tc_state (tw_threads ?w1 ! t) = TBlocked"
    using True ok(2) t len by (auto simp: hit_def settled_def claimed_cell_def)
  have ok1: "env_ok e ?w1" using ok(1) by (simp add: env_ok_def)
  have set1: "settled ?w1"
    using ok(2) unfolding settled_def by (auto simp: all_set_conv_all_nth nth_upd claimed_cell_def)
  show ?thesis
  proof (cases "length (cs_deferred (tw_cpus w ! we_me e)) \<ge> DEFERRED_WAKES")
    case True
    obtain w' where w': "wake e t AnyHint ?w1 = Some w'" "tw_threads w' = upd t (woken_cell e) (tw_threads ?w1)"
      "queues_grow ?w1 w'" "queued w' t"
      using wake_blocked [OF ok1 t off(1)] off(2) by blast
    have "cs_deferred (tw_cpus w' ! we_me e) = cs_deferred (tw_cpus w ! we_me e)"
      using wake_keeps_deferred [OF w'(1)] me by simp
    moreover have "queued w i \<Longrightarrow> queued w' i" for i
      using queues_grow_queued [OF w'(3), of i] by (simp add: queued_def)
    moreover have "settled w'"
      using set1 unfolding settled_def w'(2) by (auto simp: all_set_conv_all_nth nth_upd woken_cell_def)
    moreover have "env_ok e w'" using ok1 w'(2,3) by (simp add: env_ok_def queues_grow_def)
    ultimately show ?thesis
      using True \<open>hit index generation bits w t\<close> w' cl t len
      by (auto simp: raise_one_def defer_wake_if_def defer_wake_def coming_def told_def woken_cell_def claimed_cell_def)
  next
    case False
    let ?w2 = "?w1\<lparr>tw_cpus := upd (we_me e) (\<lambda>c. c\<lparr>cs_deferred := cs_deferred c @ [(t, AnyHint)]\<rparr>) (tw_cpus w)\<rparr>"
    have run: "raise_one e index generation bits t w = Some ?w2"
      using False cl by (simp add: raise_one_def defer_wake_if_def defer_wake_def)
    have "queued w i \<Longrightarrow> queued ?w2 i" for i by (auto simp: queued_def nth_upd)
    moreover have "settled ?w2" "env_ok e ?w2" using set1 ok1 by (simp_all add: settled_def env_ok_def)
    ultimately show ?thesis
      using run \<open>hit index generation bits w t\<close> t len me
      by (auto simp: coming_def told_def claimed_cell_def)
  qed
qed


lemma raise_prefix:
  assumes ok: "env_ok e w" "settled w" and n: "n \<le> MAX_THREADS"
  shows "\<exists>w'. fold_opt (raise_one e index generation bits) [0..<n] w = Some w' \<and> env_ok e w' \<and> settled w' \<and>
    (\<forall>i. n \<le> i \<longrightarrow> tw_threads w' ! i = tw_threads w ! i) \<and>
    (\<forall>i < n. if hit index generation bits w i then told OK (tw_threads w' ! i) \<and> coming e w' i
             else tw_threads w' ! i = tw_threads w ! i) \<and> (\<forall>i. coming e w i \<longrightarrow> coming e w' i)"
  using n
proof (induction n)
  case 0
  show ?case using ok by simp
next
  case (Suc n)
  then have n: "n < MAX_THREADS" by simp
  from Suc obtain w1 where w1: "fold_opt (raise_one e index generation bits) [0..<n] w = Some w1" "env_ok e w1" "settled w1"
      "\<forall>i. n \<le> i \<longrightarrow> tw_threads w1 ! i = tw_threads w ! i"
      "\<forall>i < n. if hit index generation bits w i then told OK (tw_threads w1 ! i) \<and> coming e w1 i
               else tw_threads w1 ! i = tw_threads w ! i" "\<forall>i. coming e w i \<longrightarrow> coming e w1 i" by auto
  obtain w2 where w2: "raise_one e index generation bits n w1 = Some w2" "env_ok e w2" "settled w2"
      "\<forall>i. i \<noteq> n \<longrightarrow> tw_threads w2 ! i = tw_threads w1 ! i"
      "if hit index generation bits w1 n then told OK (tw_threads w2 ! n) \<and> coming e w2 n else w2 = w1"
      "\<forall>i. coming e w1 i \<longrightarrow> coming e w2 i"
    using raise_one_step [OF w1(2,3) n, of index generation bits] by blast
  have same: "hit index generation bits w1 n = hit index generation bits w n" using w1(4) by (simp add: hit_def)
  have run: "fold_opt (raise_one e index generation bits) [0..<Suc n] w = Some w2"
    using w1(1) w2(1) by (simp add: fold_opt_append)
  have below: "if hit index generation bits w i then told OK (tw_threads w2 ! i) \<and> coming e w2 i
               else tw_threads w2 ! i = tw_threads w ! i" if "i < Suc n" for i
  proof (cases "i = n")
    case True
    then show ?thesis using w2(5) same w1(4) by (auto split: if_splits)
  next
    case False
    then show ?thesis using that w1(5) w2(4,6) by (auto simp: less_Suc_eq split: if_splits)
  qed
  show ?case
    using run w2(2,3) below w1(4,6) w2(4,6) by (intro exI [of _ w2]) simp
qed

text \<open>
  No thread waits on a signal that counts no waiters; with the shape of the thread table and no blocked
  thread left on a processor, this is what raising relies on, and raising keeps it.
\<close>

definition waiters_counted :: "machine \<Rightarrow> bool" where
  "waiters_counted m \<longleftrightarrow> (\<forall>i < MAX_THREADS. \<forall>j generation wanted.
     tc_state (tw_threads (mc_threads m) ! i) = TBlocked \<longrightarrow>
     wr_wait (tc_wait (tw_threads (mc_threads m) ! i)) = WaitSignal j generation wanted \<longrightarrow>
     si_used (mc_signals m ! j) \<longrightarrow> si_generation (mc_signals m ! j) = generation \<longrightarrow>
     si_waiters (mc_signals m ! j) \<noteq> 0)"

definition events_ok :: "wake_env \<Rightarrow> machine \<Rightarrow> bool" where
  "events_ok e m \<longleftrightarrow> env_ok e (mc_threads m) \<and> settled (mc_threads m) \<and> waiters_counted m"

definition live_signal :: "machine \<Rightarrow> nat \<Rightarrow> u32 \<Rightarrow> bool" where
  "live_signal m index generation \<longleftrightarrow> si_used (mc_signals m ! index) \<and> si_generation (mc_signals m ! index) = generation"

definition threads_ok :: "wake_env \<Rightarrow> machine \<Rightarrow> bool" where
  "threads_ok e m \<longleftrightarrow> env_ok e (mc_threads m) \<and> settled (mc_threads m)"

text \<open>A raise looks for sleepers only where the signal counts one.\<close>

definition heard :: "machine \<Rightarrow> nat \<Rightarrow> u32 \<Rightarrow> bool" where
  "heard m index generation \<longleftrightarrow> live_signal m index generation \<and> si_waiters (mc_signals m ! index) \<noteq> 0"

lemma raise_counted:
  assumes ok: "threads_ok e m" and index: "index < length (mc_signals m)"
  shows "\<exists>m'. raise_bits e index generation bits m = Some m' \<and> threads_ok e m' \<and>
    mc_timers m' = mc_timers m \<and> mc_next_timer m' = mc_next_timer m \<and>
    mc_signals m' = (if live_signal m index generation
       then (mc_signals m)[index := raised bits (mc_signals m ! index)] else mc_signals m) \<and>
    (\<forall>i < MAX_THREADS. if heard m index generation \<and> hit index generation bits (mc_threads m) i
       then told OK (tw_threads (mc_threads m') ! i) \<and> coming e (mc_threads m') i
       else tw_threads (mc_threads m') ! i = tw_threads (mc_threads m) ! i) \<and>
    (\<forall>i. coming e (mc_threads m) i \<longrightarrow> coming e (mc_threads m') i)"
proof -
  let ?w = "mc_threads m" and ?s = "mc_signals m ! index"
  let ?m = "m\<lparr>mc_signals := (mc_signals m)[index := raised bits ?s]\<rparr>"
  have env: "env_ok e ?w" "settled ?w" and len: "length (tw_threads ?w) = MAX_THREADS"
    using ok by (simp_all add: threads_ok_def env_ok_def)
  consider (dead) "\<not> live_signal m index generation"
    | (unheard) "live_signal m index generation" "si_waiters ?s = 0"
    | (heard) "live_signal m index generation" "si_waiters ?s \<noteq> 0" by blast
  then show ?thesis
  proof cases
    case dead
    then show ?thesis using ok index by (auto simp: raise_bits_def nth_opt_def live_signal_def heard_def)
  next
    case unheard
    then show ?thesis
      using ok index by (intro exI [of _ ?m]) (simp add: raise_bits_def nth_opt_def live_signal_def heard_def threads_ok_def)
  next
    case heard
    then show ?thesis
      using raise_prefix [OF env order_refl, of index generation bits] index len
      by (auto simp: raise_bits_def nth_opt_def live_signal_def heard_def threads_ok_def)
  qed
qed

lemma raise_step:
  assumes ok: "events_ok e m" and index: "index < length (mc_signals m)"
  shows "\<exists>m'. raise_bits e index generation bits m = Some m' \<and> events_ok e m' \<and>
    mc_signals m' = (if live_signal m index generation
       then (mc_signals m)[index := raised bits (mc_signals m ! index)] else mc_signals m) \<and>
    (\<forall>i < MAX_THREADS. if live_signal m index generation \<and> hit index generation bits (mc_threads m) i
       then told OK (tw_threads (mc_threads m') ! i) \<and> coming e (mc_threads m') i
       else tw_threads (mc_threads m') ! i = tw_threads (mc_threads m) ! i)"
proof -
  have counted: "waiters_counted m" using ok by (simp add: events_ok_def)
  have all: "heard m index generation \<and> hit index generation bits (mc_threads m) i \<longleftrightarrow>
      live_signal m index generation \<and> hit index generation bits (mc_threads m) i" if "i < MAX_THREADS" for i
    using counted that unfolding waiters_counted_def heard_def hit_def waits_for_def live_signal_def
    by (auto split: wait.splits)
  obtain m' where m': "raise_bits e index generation bits m = Some m'" "threads_ok e m'"
    "mc_signals m' = (if live_signal m index generation
       then (mc_signals m)[index := raised bits (mc_signals m ! index)] else mc_signals m)"
    "\<forall>i < MAX_THREADS. if live_signal m index generation \<and> hit index generation bits (mc_threads m) i
       then told OK (tw_threads (mc_threads m') ! i) \<and> coming e (mc_threads m') i
       else tw_threads (mc_threads m') ! i = tw_threads (mc_threads m) ! i"
    using raise_counted [OF _ index, of e generation bits] ok all by (auto simp: events_ok_def threads_ok_def)
  have "si_waiters (mc_signals m' ! j) = si_waiters (mc_signals m ! j)"
       "si_used (mc_signals m' ! j) = si_used (mc_signals m ! j)"
       "si_generation (mc_signals m' ! j) = si_generation (mc_signals m ! j)" for j
    using index by (simp_all add: m'(3) nth_list_update raised_def)
  moreover have "tw_threads (mc_threads m') ! i = tw_threads (mc_threads m) ! i \<or> wr_wait (tc_wait (tw_threads (mc_threads m') ! i)) = WaitNone"
    if "i < MAX_THREADS" for i using m'(4) that by (auto simp: told_def split: if_splits)
  ultimately have "waiters_counted m'" using counted unfolding waiters_counted_def by fastforce
  then show ?thesis using m' by (intro exI [of _ m']) (simp add: events_ok_def threads_ok_def)
qed

text \<open>
  A raise on a live signal always returns; it sets the bits, advances the sequence, and wakes every
  blocked thread that waits for one of the bits, with the status OK: the thread is in a run queue or among
  the wakes this processor issues when it leaves the kernel. No other thread changes. A raise that names
  another generation of the slot changes no signal and no thread.
\<close>

theorem raise_wakes_every_waiter:
  assumes "events_ok e m" and "index < length (mc_signals m)"
  shows "\<exists>m'. raise_bits e index generation bits m = Some m' \<and> events_ok e m' \<and>
    mc_signals m' = (if live_signal m index generation
       then (mc_signals m)[index := raised bits (mc_signals m ! index)] else mc_signals m) \<and>
    (\<forall>i < MAX_THREADS. if live_signal m index generation \<and> hit index generation bits (mc_threads m) i
       then told OK (tw_threads (mc_threads m') ! i) \<and> coming e (mc_threads m') i
       else tw_threads (mc_threads m') ! i = tw_threads (mc_threads m) ! i)"
  using raise_step [OF assms, of generation bits] by blast

section \<open>A wait registers before a raise can miss it\<close>

text \<open>The switch away from a thread that sleeps, as the next raise finds it.\<close>

definition switched_out :: "nat \<Rightarrow> machine \<Rightarrow> machine" where
  "switched_out t m = m\<lparr>mc_threads := (mc_threads m)\<lparr>tw_threads :=
     upd t (\<lambda>c. c\<lparr>tc_on_cpu := 0\<rparr>) (tw_threads (mc_threads m))\<rparr>\<rparr>"

lemma prepare_wait_threads:
  "t < MAX_THREADS \<Longrightarrow> tw_threads (prepare_wait t wt d w) = upd t (\<lambda>c. c\<lparr>
      tc_wait := (tc_wait c)\<lparr>wr_wait := wt, wr_deadline_ns := d, wr_wake_status := OK, wr_wake_aux := 0, wr_handoff := handoff_none\<rparr>,
      tc_deadline_ns := d, tc_state := TBlocked\<rparr>) (tw_threads w)"
  "tw_cpus (prepare_wait t wt d w) = tw_cpus w"
  by (simp_all add: prepare_wait_def prepare_wait_offering_def note_deadline_def Let_def)

lemma sleeping_pass:
  assumes pass: "signal_pass_run cx sp bits now m = Some (m1, SignalSleeps)"
    and cap: "resolve m (cx_domain cx) (cx_handle cx) (os_object_type sp) (os_rights sp) now = Some (Inr cap)"
  defines "j \<equiv> or_index (rs_object cap)"
  shows "j < length (mc_signals m)" "si_bits (mc_signals m ! j) AND bits = 0"
    "mc_signals m1 = (mc_signals m)[j := (mc_signals m ! j)\<lparr>si_waiters := si_waiters (mc_signals m ! j) + 1\<rparr>]"
    "mc_threads m1 = prepare_wait (cx_thread cx) (WaitSignal j (or_generation (rs_object cap)) bits) (cx_deadline cx) (mc_threads m)"
  using pass cap by (auto simp: signal_pass_run_def j_def Let_def nth_opt_def checked_add32_def split: if_splits option.splits Option.bind_splits)

lemma sleeping_events_ok:
  assumes pass: "signal_pass_run cx sp bits now m = Some (m1, SignalSleeps)"
    and cap: "resolve m (cx_domain cx) (cx_handle cx) (os_object_type sp) (os_rights sp) now = Some (Inr cap)"
    and t: "cx_thread cx < MAX_THREADS" and ok: "events_ok e m"
  shows "events_ok e (switched_out (cx_thread cx) m1)"
proof -
  note pass = sleeping_pass [OF pass cap]
  let ?t = "cx_thread cx" and ?m = "switched_out (cx_thread cx) m1"
  have len: "length (tw_threads (mc_threads m)) = MAX_THREADS" using ok by (simp add: events_ok_def env_ok_def)
  have other: "tw_threads (mc_threads ?m) ! i = tw_threads (mc_threads m) ! i" if "i \<noteq> ?t" for i
    using that t by (simp add: switched_out_def pass(4) prepare_wait_threads nth_upd)
  have mine: "tc_on_cpu (tw_threads (mc_threads ?m) ! ?t) = 0"
    "wr_wait (tc_wait (tw_threads (mc_threads ?m) ! ?t)) = WaitSignal (or_index (rs_object cap)) (or_generation (rs_object cap)) bits"
    using t len by (simp_all add: switched_out_def pass(4) prepare_wait_threads nth_upd)
  have env: "env_ok e (mc_threads ?m)"
    using ok t by (simp add: events_ok_def env_ok_def switched_out_def pass(4) prepare_wait_threads)
  have "settled (mc_threads ?m)"
    using ok mine(1) other env len unfolding settled_def all_set_conv_all_nth events_ok_def env_ok_def by metis
  moreover have "waiters_counted ?m"
    unfolding waiters_counted_def
  proof (intro allI impI)
    fix i j generation wanted
    assume i: "i < MAX_THREADS" "tc_state (tw_threads (mc_threads ?m) ! i) = TBlocked"
      "wr_wait (tc_wait (tw_threads (mc_threads ?m) ! i)) = WaitSignal j generation wanted"
      "si_used (mc_signals ?m ! j)" "si_generation (mc_signals ?m ! j) = generation"
    have sig: "mc_signals ?m = mc_signals m1" by (simp add: switched_out_def)
    show "si_waiters (mc_signals ?m ! j) \<noteq> 0"
    proof (cases "i = ?t")
      case True
      then show ?thesis using i(3) mine(2) pass(1) by (simp add: sig pass(3))
    next
      case False
      then show ?thesis
        using i other ok pass(1) unfolding events_ok_def waiters_counted_def sig pass(3)
        by (auto simp: nth_list_update split: if_splits)
    qed
  qed
  ultimately show ?thesis using env by (simp add: events_ok_def)
qed

text \<open>
  C29. A wait that goes to sleep is found by the next raise: the pass that found none of its bits has
  registered the waiter in the same hold of the machine, so a raise of one of the bits, once the sleeper has
  left its processor, wakes it with the status OK.
\<close>

theorem sleeper_is_found:
  assumes pass: "signal_pass_run cx sp bits now m = Some (m1, SignalSleeps)"
    and cap: "resolve m (cx_domain cx) (cx_handle cx) (os_object_type sp) (os_rights sp) now = Some (Inr cap)"
    and live: "live_signal m (or_index (rs_object cap)) (or_generation (rs_object cap))"
    and t: "cx_thread cx < MAX_THREADS" and ok: "events_ok e m" and overlap: "bits AND some \<noteq> 0"
  shows "si_bits (mc_signals m ! or_index (rs_object cap)) AND bits = 0 \<and>
    (\<exists>m2. raise_bits e (or_index (rs_object cap)) (or_generation (rs_object cap)) some (switched_out (cx_thread cx) m1) = Some m2 \<and>
      told OK (tw_threads (mc_threads m2) ! cx_thread cx) \<and> coming e (mc_threads m2) (cx_thread cx))"
proof -
  note p = sleeping_pass [OF pass cap]
  let ?m = "switched_out (cx_thread cx) m1" and ?j = "or_index (rs_object cap)" and ?g = "or_generation (rs_object cap)"
  have len: "length (tw_threads (mc_threads m)) = MAX_THREADS" using ok by (simp add: events_ok_def env_ok_def)
  have h: "hit ?j ?g some (mc_threads ?m) (cx_thread cx)"
    using t len overlap by (simp add: switched_out_def p(4) prepare_wait_threads nth_upd hit_def waits_for_def)
  have l: "live_signal ?m ?j ?g" using live p(1) by (simp add: live_signal_def switched_out_def p(3))
  have "?j < length (mc_signals ?m)" using p(1) by (simp add: switched_out_def p(3))
  from raise_step [OF sleeping_events_ok [OF pass cap t ok] this, of ?g some] h l t p(2)
  show ?thesis by metis
qed

section \<open>A tick fires exactly the timers that are due\<close>

definition fired_timer :: "nat \<Rightarrow> timer \<Rightarrow> timer" where
  "fired_timer now t = (if timer_is_due now t then t\<lparr>tm_armed := False, tm_fired := tm_fired t + 1\<rparr> else t)"

text \<open>The timers among \<open>ts\<close> that raise signal \<open>j\<close>, given its present generation.\<close>

definition raising :: "nat \<Rightarrow> timer list \<Rightarrow> nat \<Rightarrow> u32 \<Rightarrow> timer set" where
  "raising now ts j generation = {t \<in> set ts. timer_is_due now t \<and> tm_signal t = j \<and> tm_signal_generation t = generation}"

definition woken_by :: "nat \<Rightarrow> timer list \<Rightarrow> machine \<Rightarrow> nat \<Rightarrow> bool" where
  "woken_by now ts m i \<longleftrightarrow> (\<exists>t \<in> set ts. timer_is_due now t \<and> heard m (tm_signal t) (tm_signal_generation t) \<and>
     hit (tm_signal t) (tm_signal_generation t) (tm_bits t) (mc_threads m) i)"

text \<open>What holds of a machine \<open>m'\<close> once the timers \<open>ts\<close> of \<open>m\<close> have been looked at.\<close>

definition signals_raised :: "nat \<Rightarrow> timer list \<Rightarrow> machine \<Rightarrow> machine \<Rightarrow> bool" where
  "signals_raised now ts m m' \<longleftrightarrow> length (mc_signals m') = length (mc_signals m) \<and>
     (\<forall>j < length (mc_signals m). let s = mc_signals m ! j; s' = mc_signals m' ! j in
        si_used s' = si_used s \<and> si_generation s' = si_generation s \<and> si_waiters s' = si_waiters s \<and>
        (\<forall>n. bit (si_bits s') n \<longleftrightarrow> bit (si_bits s) n \<or>
          si_used s \<and> (\<exists>t \<in> raising now ts j (si_generation s). bit (tm_bits t) n)))"

definition sleepers_woken :: "wake_env \<Rightarrow> nat \<Rightarrow> timer list \<Rightarrow> machine \<Rightarrow> machine \<Rightarrow> bool" where
  "sleepers_woken e now ts m m' \<longleftrightarrow>
     (\<forall>i < MAX_THREADS. if woken_by now ts m i
        then told OK (tw_threads (mc_threads m') ! i) \<and> coming e (mc_threads m') i
        else tw_threads (mc_threads m') ! i = tw_threads (mc_threads m) ! i)"

definition timers_sound :: "machine \<Rightarrow> bool" where
  "timers_sound m \<longleftrightarrow> (\<forall>t \<in> set (mc_timers m). tm_used t \<longrightarrow> tm_signal t < length (mc_signals m) \<and> tm_fired t < U64_MAX)"

lemma signals_raised_live:
  "signals_raised now ts m m' \<Longrightarrow> j < length (mc_signals m) \<Longrightarrow> live_signal m' j g = live_signal m j g"
  "signals_raised now ts m m' \<Longrightarrow> j < length (mc_signals m) \<Longrightarrow> heard m' j g = heard m j g"
  by (simp_all add: signals_raised_def live_signal_def heard_def Let_def)

lemma signals_raised_step:
  assumes "signals_raised now ts m m1" and due: "timer_is_due now t" and j: "tm_signal t < length (mc_signals m)"
    and m2: "mc_signals m2 = (if live_signal m1 (tm_signal t) (tm_signal_generation t)
       then (mc_signals m1)[tm_signal t := raised (tm_bits t) (mc_signals m1 ! tm_signal t)] else mc_signals m1)"
  shows "signals_raised now (ts @ [t]) m m2"
proof -
  have len: "length (mc_signals m1) = length (mc_signals m)" using assms(1) by (simp add: signals_raised_def)
  have more: "raising now (ts @ [t]) i g = raising now ts i g \<union> (if tm_signal t = i \<and> tm_signal_generation t = g then {t} else {})" for i g
    using due by (auto simp: raising_def)
  show ?thesis
    using assms(1) j signals_raised_live(1) [OF assms(1) j, of "tm_signal_generation t"]
    unfolding signals_raised_def Let_def more m2
    by (auto simp: live_signal_def nth_list_update raised_def bit_or_iff len split: if_splits)
qed

lemma sleepers_woken_step:
  assumes old: "sleepers_woken e now ts m m1" and due: "timer_is_due now t"
    and live: "heard m1 (tm_signal t) (tm_signal_generation t) = heard m (tm_signal t) (tm_signal_generation t)"
    and step: "\<forall>i < MAX_THREADS. if heard m1 (tm_signal t) (tm_signal_generation t) \<and>
        hit (tm_signal t) (tm_signal_generation t) (tm_bits t) (mc_threads m1) i
       then told OK (tw_threads (mc_threads m2) ! i) \<and> coming e (mc_threads m2) i
       else tw_threads (mc_threads m2) ! i = tw_threads (mc_threads m1) ! i"
    and mono: "\<forall>i. coming e (mc_threads m1) i \<longrightarrow> coming e (mc_threads m2) i"
  shows "sleepers_woken e now (ts @ [t]) m m2"
  unfolding sleepers_woken_def
proof (intro allI impI)
  fix i assume i: "i < MAX_THREADS"
  let ?h = "heard m (tm_signal t) (tm_signal_generation t) \<and> hit (tm_signal t) (tm_signal_generation t) (tm_bits t) (mc_threads m) i"
  have w: "woken_by now (ts @ [t]) m i \<longleftrightarrow> woken_by now ts m i \<or> ?h" using due by (auto simp: woken_by_def)
  have d: "if woken_by now ts m i then told OK (tw_threads (mc_threads m1) ! i) \<and> coming e (mc_threads m1) i
           else tw_threads (mc_threads m1) ! i = tw_threads (mc_threads m) ! i" using old i by (simp add: sleepers_woken_def)
  have s: "if heard m (tm_signal t) (tm_signal_generation t) \<and>
        hit (tm_signal t) (tm_signal_generation t) (tm_bits t) (mc_threads m1) i
       then told OK (tw_threads (mc_threads m2) ! i) \<and> coming e (mc_threads m2) i
       else tw_threads (mc_threads m2) ! i = tw_threads (mc_threads m1) ! i" using step i live by simp
  show "if woken_by now (ts @ [t]) m i then told OK (tw_threads (mc_threads m2) ! i) \<and> coming e (mc_threads m2) i
        else tw_threads (mc_threads m2) ! i = tw_threads (mc_threads m) ! i"
  proof (cases "woken_by now ts m i")
    case True
    have "\<not> hit (tm_signal t) (tm_signal_generation t) (tm_bits t) (mc_threads m1) i"
      using d True by (simp add: hit_def told_def waits_for_def)
    then show ?thesis using True d s mono w by simp
  next
    case False
    then show ?thesis using d s w by (auto simp: hit_def)
  qed
qed

lemma undue_step:
  "\<not> timer_is_due now t \<Longrightarrow> signals_raised now (ts @ [t]) m m' = signals_raised now ts m m'"
  "\<not> timer_is_due now t \<Longrightarrow> sleepers_woken e now (ts @ [t]) m m' = sleepers_woken e now ts m m'"
proof -
  assume "\<not> timer_is_due now t"
  then have "raising now (ts @ [t]) j g = raising now ts j g" "woken_by now (ts @ [t]) m i = woken_by now ts m i" for j g i
    by (auto simp: raising_def woken_by_def)
  then show "signals_raised now (ts @ [t]) m m' = signals_raised now ts m m'"
    "sleepers_woken e now (ts @ [t]) m m' = sleepers_woken e now ts m m'"
    by (simp_all add: signals_raised_def sleepers_woken_def)
qed

lemma timers_prefix:
  assumes ok: "threads_ok e m" and sound: "timers_sound m" and k: "k \<le> length (mc_timers m)"
  shows "\<exists>m'. fold_opt (expire_timer e now) [0..<k] (m, 0) =
      Some (m', length (filter (timer_is_due now) (take k (mc_timers m)))) \<and> threads_ok e m' \<and>
    mc_timers m' = map (fired_timer now) (take k (mc_timers m)) @ drop k (mc_timers m) \<and>
    signals_raised now (take k (mc_timers m)) m m' \<and> sleepers_woken e now (take k (mc_timers m)) m m'"
  using k
proof (induction k)
  case 0
  show ?case using ok by (auto simp: signals_raised_def sleepers_woken_def raising_def woken_by_def Let_def)
next
  case (Suc k)
  let ?ts = "take k (mc_timers m)" and ?t = "mc_timers m ! k"
  from Suc obtain m1 where m1: "fold_opt (expire_timer e now) [0..<k] (m, 0) = Some (m1, length (filter (timer_is_due now) ?ts))"
      "threads_ok e m1" "mc_timers m1 = map (fired_timer now) ?ts @ drop k (mc_timers m)"
      "signals_raised now ?ts m m1" "sleepers_woken e now ?ts m m1" by auto
  have k: "k < length (mc_timers m)" using Suc.prems by simp
  have tk: "take (Suc k) (mc_timers m) = ?ts @ [?t]" and dk: "drop k (mc_timers m) = ?t # drop (Suc k) (mc_timers m)"
    using k by (simp_all add: take_Suc_conv_app_nth Cons_nth_drop_Suc)
  have cur: "mc_timers m1 ! k = ?t" using k by (simp add: m1(3) nth_append)
  show ?case
  proof (cases "timer_is_due now ?t")
    case False
    have "expire_timer e now k (m1, length (filter (timer_is_due now) ?ts)) = Some (m1, length (filter (timer_is_due now) ?ts))"
      using False by (simp add: expire_timer_def cur)
    then show ?thesis
      using m1 False unfolding tk by (simp add: fold_opt_append undue_step fired_timer_def dk)
  next
    case True
    let ?m = "m1\<lparr>mc_timers := (mc_timers m1)[k := ?t\<lparr>tm_armed := False, tm_fired := tm_fired ?t + 1\<rparr>]\<rparr>"
    have used: "tm_used ?t" using True by (simp add: timer_is_due_def)
    then have j: "tm_signal ?t < length (mc_signals m)" and f: "tm_fired ?t < U64_MAX"
      using sound k by (simp_all add: timers_sound_def)
    have ok1: "threads_ok e ?m" using m1(2) by (simp add: threads_ok_def)
    have j1: "tm_signal ?t < length (mc_signals ?m)" using j m1(4) by (simp add: signals_raised_def)
    have live: "live_signal ?m a g = live_signal m1 a g" "heard ?m a g = heard m1 a g" for a g by (simp_all add: live_signal_def heard_def)
    from raise_counted [OF ok1 j1, of "tm_signal_generation ?t" "tm_bits ?t"] obtain m2 where
      m2: "raise_bits e (tm_signal ?t) (tm_signal_generation ?t) (tm_bits ?t) ?m = Some m2" "threads_ok e m2"
        "mc_timers m2 = mc_timers ?m"
        "mc_signals m2 = (if live_signal m1 (tm_signal ?t) (tm_signal_generation ?t)
           then (mc_signals m1)[tm_signal ?t := raised (tm_bits ?t) (mc_signals m1 ! tm_signal ?t)] else mc_signals m1)"
        "\<forall>i < MAX_THREADS. if heard m1 (tm_signal ?t) (tm_signal_generation ?t) \<and>
            hit (tm_signal ?t) (tm_signal_generation ?t) (tm_bits ?t) (mc_threads m1) i
          then told OK (tw_threads (mc_threads m2) ! i) \<and> coming e (mc_threads m2) i
          else tw_threads (mc_threads m2) ! i = tw_threads (mc_threads m1) ! i"
        "\<forall>i. coming e (mc_threads m1) i \<longrightarrow> coming e (mc_threads m2) i"
      unfolding live by auto
    have "expire_timer e now k (m1, length (filter (timer_is_due now) ?ts)) = Some (m2, Suc (length (filter (timer_is_due now) ?ts)))"
      using True f m2(1) by (simp add: expire_timer_def cur checked_add64_def Let_def U64_MAX_def)
    moreover have "mc_timers m2 = map (fired_timer now) (?ts @ [?t]) @ drop (Suc k) (mc_timers m)"
      using True k by (simp add: m2(3) m1(3) dk fired_timer_def list_update_append)
    ultimately show ?thesis
      using True m1(1) m2(2) signals_raised_step [OF m1(4) True j m2(4)]
        sleepers_woken_step [OF m1(5) True signals_raised_live(2) [OF m1(4) j] m2(5,6)]
      unfolding tk by (simp add: fold_opt_append)
  qed
qed

lemma earliest_le: "t \<in> set ts \<Longrightarrow> tm_used t \<Longrightarrow> tm_armed t \<Longrightarrow> earliest ts \<le> tm_deadline_ns t"
  by (induction ts) (auto simp: earliest_def)

lemma earliest_cases: "earliest ts = U64_MAX \<or> (\<exists>t \<in> set ts. tm_used t \<and> tm_armed t \<and> earliest ts = tm_deadline_ns t)"
  by (induction ts) (auto simp: earliest_def min_def)

text \<open>The gate a tick looks at is never later than an armed deadline.\<close>

definition timer_gate :: "machine \<Rightarrow> bool" where
  "timer_gate m \<longleftrightarrow> (\<forall>t \<in> set (mc_timers m). tm_used t \<longrightarrow> tm_armed t \<longrightarrow> mc_next_timer m \<le> tm_deadline_ns t)"

lemma recompute_gate: "timer_gate (recompute_next m)"
  by (simp add: timer_gate_def recompute_next_def earliest_le)

lemma recompute_keeps [simp]:
  "mc_timers (recompute_next m) = mc_timers m" "mc_signals (recompute_next m) = mc_signals m"
  "mc_threads (recompute_next m) = mc_threads m" "mc_next_timer (recompute_next m) = earliest (mc_timers m)"
  "live_signal (recompute_next m) = live_signal m" "heard (recompute_next m) = heard m"
  by (simp_all add: recompute_next_def live_signal_def heard_def fun_eq_iff)

text \<open>
  C28. A tick that finds no blocked thread still on a processor always returns and fires exactly the timers
  that are due, once each: each is disarmed and its count advanced, the others are untouched; afterwards a
  signal carries the bits it had and the bits of the due timers bound to its present generation, and no
  other; the threads woken, with the status OK, are exactly those blocked on a bit of a due timer, on a
  live signal of the generation the timer is bound to and whose count of waiters is not zero, and no other
  thread changes. The gate of the next tick is then shut until the earliest deadline that is left.
\<close>

theorem expire_exact:
  assumes "env_ok e (mc_threads m)" and "settled (mc_threads m)" and "timers_sound m" and "now < U64_MAX"
  shows "\<exists>m'. expire e now m = Some (m', length (filter (timer_is_due now) (mc_timers m))) \<and>
    mc_timers m' = map (fired_timer now) (mc_timers m) \<and> signals_raised now (mc_timers m) m m' \<and>
    sleepers_woken e now (mc_timers m) m m' \<and> timer_gate m' \<and> \<not> timer_due now m'"
proof -
  obtain m1 where m1: "fold_opt (expire_timer e now) [0..<length (mc_timers m)] (m, 0) =
      Some (m1, length (filter (timer_is_due now) (mc_timers m)))"
    "mc_timers m1 = map (fired_timer now) (mc_timers m)" "signals_raised now (mc_timers m) m m1"
    "sleepers_woken e now (mc_timers m) m m1"
    using timers_prefix [of e m, OF _ assms(3) order_refl, of now] assms(1,2) by (auto simp: threads_ok_def)
  have "\<not> timer_due now (recompute_next m1)"
    using earliest_cases [of "mc_timers m1"] assms(4)
    by (auto simp: timer_due_def m1(2) fired_timer_def timer_is_due_def split: if_splits)
  moreover have "signals_raised now (mc_timers m) m (recompute_next m1)" "sleepers_woken e now (mc_timers m) m (recompute_next m1)"
    using m1(3,4) by (simp_all add: signals_raised_def sleepers_woken_def)
  ultimately show ?thesis
    using m1(1,2) recompute_gate [of m1] by (intro exI [of _ "recompute_next m1"]) (simp add: expire_def)
qed

text \<open>
  The gate of the tick never hides a timer: arming and cancelling keep it at or below every armed deadline,
  so while a tick finds it shut no timer is due.
\<close>

theorem timer_gate_sound:
  assumes "timer_gate m"
  shows "(\<not> timer_due now m \<longrightarrow> filter (timer_is_due now) (mc_timers m) = []) \<and>
    (\<forall>cx deadline m' r. arm cx deadline m = Some (m', r) \<longrightarrow> timer_gate m') \<and>
    (\<forall>cx m' r. timer_cancel cx m = Some (m', r) \<longrightarrow> timer_gate m')"
proof (intro conjI allI impI)
  show "\<not> timer_due now m \<Longrightarrow> filter (timer_is_due now) (mc_timers m) = []"
    using assms by (fastforce simp: timer_gate_def timer_due_def timer_is_due_def filter_empty_conv)
  show "arm cx deadline m = Some (m', r) \<Longrightarrow> timer_gate m'" for cx deadline m' r
    using assms by (fastforce simp: arm_def upd_checked_def upd_def timer_gate_def in_set_conv_nth nth_list_update
        split: if_splits Option.bind_splits option.splits)
  show "timer_cancel cx m = Some (m', r) \<Longrightarrow> timer_gate m'" for cx m' r
    by (auto simp: timer_cancel_def recompute_gate split: Option.bind_splits)
qed

section \<open>A creation that fails late\<close>

lemma charge_keeps_signals: "charge_identity sponsor m = (m1, r) \<Longrightarrow> mc_signals m1 = mc_signals m"
  by (auto simp: charge_identity_def charge_metadata_def next_id_def release_metadata_def split: if_splits prod.splits bool.splits)

lemma grant_alloc_signals: "grant_alloc sponsor p ob r d l f m = Some (m', g) \<Longrightarrow> mc_signals m' = mc_signals m"
  by (auto simp: grant_alloc_def charge_metadata_def next_id_def release_metadata_def Let_def
      split: if_splits prod.splits bool.splits option.splits Option.bind_splits)

lemma cap_install_failed_signals: "cap_install d ob g slot m = Some (m', None) \<Longrightarrow> mc_signals m' = mc_signals m"
  by (auto simp: cap_install_def charge_metadata_def release_metadata_def Let_def
      split: if_splits prod.splits bool.splits option.splits Option.bind_splits)

lemma publish_failed:
  "publish_object d ob m = Some (m', Inl st) \<Longrightarrow> mc_signals m' = mc_signals m \<and> st = LIMIT_EXHAUSTED"
  by (auto simp: publish_object_def grant_alloc_signals cap_install_failed_signals
      split: option.splits Option.bind_splits dest!: grant_alloc_signals cap_install_failed_signals)

text \<open>
  C30. A creation that has charged its scope and taken an identity, and then cannot have a grant or a handle,
  reports an exhausted limit but keeps the object: the slot stays in use, under the new identity and
  generation, and no capability names it.
\<close>

theorem failed_creation_keeps_object:
  assumes "nth_opt (mc_scopes m) sponsor = Some s" and "sc_state s = SOpen" and "sponsor = or_index (rs_object (cx_cap cx))"
    and "position (\<lambda>x. \<not> si_used x) (mc_signals m) = Some index"
    and "charge_identity sponsor m = (m1, Some ident)"
    and "create_signal cx m = Some (m', Inl st)"
  shows "st = LIMIT_EXHAUSTED \<and> mc_signals m' = (mc_signals m)[index := \<lparr>si_used = True,
    si_generation = next_generation (si_generation (mc_signals m ! index)), si_id = ident, si_owner_scope = sponsor,
    si_bits = 0, si_sequence = 0, si_waiters = 0, si_refs = 0\<rparr>]"
  using assms charge_keeps_signals [OF assms(5)]
  by (auto simp: create_signal_def Let_def dest!: publish_failed)

section \<open>Witnesses\<close>

text \<open>
  A machine whose thread 9 waits for bit 0 of the signal in slot 0, to which the timer in slot 0, due at 40,
  is bound; the timer in slot 1 is due at 90.
\<close>

definition waiting_threads :: thread_world where
  "waiting_threads = prepare_wait 9 (WaitSignal 0 1 1) 0 sleeping_world"

definition event_timer :: "nat \<Rightarrow> timer" where
  "event_timer deadline = timer_empty\<lparr>tm_used := True, tm_generation := 1, tm_signal := 0, tm_signal_generation := 1,
     tm_bits := 1, tm_deadline_ns := deadline, tm_armed := True\<rparr>"

lemma event_fields: "tm_signal (event_timer d) = 0" "tm_signal_generation (event_timer d) = 1" "tm_bits (event_timer d) = 1"
  by (simp_all add: event_timer_def)

definition waiting_machine :: machine where
  "waiting_machine = race_start\<lparr>mc_threads := waiting_threads, mc_signals := [(race_signal 1)\<lparr>si_waiters := 1\<rparr>],
     mc_timers := [event_timer 40, event_timer 90], mc_next_timer := 40\<rparr>"

lemma waiting_cell:
  "i < MAX_THREADS \<Longrightarrow> i \<noteq> 9 \<Longrightarrow> tw_threads waiting_threads ! i = thread_cell_empty"
  "tc_state (tw_threads waiting_threads ! 9) = TBlocked" "tc_on_cpu (tw_threads waiting_threads ! 9) = 0"
  "wr_wait (tc_wait (tw_threads waiting_threads ! 9)) = WaitSignal 0 1 1"
  using sleeping_threads [of 9]
  by (simp_all add: waiting_threads_def prepare_wait_threads sleeping_threads sleeping_len nth_upd MAX_THREADS_def thread_cell_empty_def)

lemma waiting_ok: "events_ok here waiting_machine"
proof -
  have env: "env_ok here waiting_threads"
    using sleeping_ok(1) by (simp add: env_ok_def waiting_threads_def prepare_wait_threads MAX_THREADS_def)
  have cell: "tc_state (tw_threads waiting_threads ! i) = TBlocked \<Longrightarrow> i < MAX_THREADS \<Longrightarrow> i = 9" for i
    using waiting_cell(1) [of i] by (cases "i = 9") (simp_all add: thread_cell_empty_def)
  have "settled waiting_threads"
    using env cell waiting_cell(3) unfolding settled_def all_set_conv_all_nth env_ok_def by auto
  moreover have "waiters_counted waiting_machine"
    unfolding waiters_counted_def using cell waiting_cell(4) by (fastforce simp: waiting_machine_def)
  ultimately show ?thesis using env by (simp add: events_ok_def waiting_machine_def)
qed

lemma waiting_hit: "live_signal waiting_machine 0 1" "hit 0 1 3 (mc_threads waiting_machine) 9"
  "hit 0 1 1 (mc_threads waiting_machine) 9"
  by (simp_all add: live_signal_def waiting_machine_def hit_def waiting_cell waits_for_def)

lemma raise_wakes_every_waiter_witness:
  "\<exists>m'. raise_bits here 0 1 3 waiting_machine = Some m' \<and> told OK (tw_threads (mc_threads m') ! 9) \<and> coming here (mc_threads m') 9"
proof -
  have "0 < length (mc_signals waiting_machine)" "9 < MAX_THREADS" by (simp_all add: waiting_machine_def MAX_THREADS_def)
  then show ?thesis
    using raise_wakes_every_waiter [OF waiting_ok, of 0 1 3] waiting_hit by metis
qed

text \<open>A machine whose domain 0 holds one capability for the signal in slot 0, and the wait of thread 10 on it.\<close>

definition idle_signal_machine :: machine where
  "idle_signal_machine = (race_at [race_entry 0 1 0] [race_grant 1 NO_GRANT 0 0 0x3FF 1 0] 1 2 1 1 3)\<lparr>mc_threads := sleeping_world\<rparr>"

definition wait_spec :: op_spec where
  "wait_spec = op_spec_of OP_SIGNAL_WAIT 6 0x200 64 True ''SIGNAL_WAIT''"

definition wait_ctx :: ctx where
  "wait_ctx = (race_ctx (handle 0 1) 0 0)\<lparr>cx_thread := 10\<rparr>"

definition wait_cap :: resolved where
  "wait_cap = \<lparr>rs_slot = 0, rs_object = race_object 0, rs_grant = 0, rs_rights = 0x3FF, rs_facet = 0\<rparr>"

lemma idle_signal_ok: "events_ok here idle_signal_machine"
proof -
  have "settled sleeping_world" unfolding settled_def all_set_conv_all_nth sleeping_len
    by (simp add: sleeping_threads thread_cell_empty_def)
  moreover have "waiters_counted idle_signal_machine"
    unfolding waiters_counted_def idle_signal_machine_def
    by (auto simp: sleeping_threads thread_cell_empty_def wait_record_empty_def)
  ultimately show ?thesis using sleeping_ok by (simp add: events_ok_def idle_signal_machine_def)
qed

lemma idle_resolves: "resolve idle_signal_machine 0 (handle 0 1) 6 0x200 5 = Some (Inr wait_cap)"
proof -
  have look: "cap_lookup (race_caps [race_entry 0 1 0]) (handle 0 1) = Some (race_entry 0 1 0)"
    using race_lookup [of "handle 0 1" "[race_entry 0 1 0]"] by (simp add: handle_nonzero)
  have walk: "walk_lineage (Suc (Suc n)) idle_signal_machine 0 5 = OK" for n
    by (simp add: walk_lineage.simps idle_signal_machine_def race_open)
  have "lineage_status idle_signal_machine 0 5 = OK"
    unfolding lineage_status_def race_depth using walk [of 31] by simp
  then show ?thesis
    by (simp add: resolve_def resolve_entry_def look [simplified] idle_signal_machine_def object_alive_def alive_at_def Let_def wait_cap_def)
qed

lemma idle_sleeps: "\<exists>m1. signal_pass_run wait_ctx wait_spec 1 5 idle_signal_machine = Some (m1, SignalSleeps)"
  using idle_resolves
  by (simp add: signal_pass_run_def wait_ctx_def race_ctx_def wait_spec_def op_spec_of_def wait_cap_def checked_add32_def U32_MAX_def)
    (simp add: idle_signal_machine_def race_signal_def signal_empty_def checked_add32_def U32_MAX_def)

lemma sleeper_is_found_witness:
  "\<exists>m1 m2. signal_pass_run wait_ctx wait_spec 1 5 idle_signal_machine = Some (m1, SignalSleeps) \<and>
     raise_bits here 0 1 3 (switched_out 10 m1) = Some m2 \<and> told OK (tw_threads (mc_threads m2) ! 10)"
proof -
  obtain m1 where m1: "signal_pass_run wait_ctx wait_spec 1 5 idle_signal_machine = Some (m1, SignalSleeps)" using idle_sleeps ..
  have "resolve idle_signal_machine (cx_domain wait_ctx) (cx_handle wait_ctx) (os_object_type wait_spec) (os_rights wait_spec) 5 = Some (Inr wait_cap)"
    using idle_resolves by (simp add: wait_ctx_def race_ctx_def wait_spec_def op_spec_of_def)
  moreover have "live_signal idle_signal_machine (or_index (rs_object wait_cap)) (or_generation (rs_object wait_cap))"
    by (simp add: live_signal_def idle_signal_machine_def wait_cap_def)
  moreover have "cx_thread wait_ctx = 10" "10 < MAX_THREADS" by (simp_all add: wait_ctx_def MAX_THREADS_def)
  ultimately show ?thesis
    using sleeper_is_found [OF m1, of wait_cap here 3] idle_signal_ok m1 by (auto simp: wait_cap_def)
qed

lemma expire_exact_witness:
  "\<exists>m'. expire here 50 waiting_machine = Some (m', 1) \<and> told OK (tw_threads (mc_threads m') ! 9) \<and> \<not> timer_due 50 m'"
proof -
  have ts: "mc_timers waiting_machine = [event_timer 40, event_timer 90]" by (simp add: waiting_machine_def)
  have due: "timer_is_due 50 (event_timer 40)" "\<not> timer_is_due 50 (event_timer 90)"
    by (simp_all add: timer_is_due_def event_timer_def)
  have sound: "timers_sound waiting_machine"
    by (simp add: timers_sound_def waiting_machine_def event_timer_def timer_empty_def U64_MAX_def)
  have woken: "woken_by 50 (mc_timers waiting_machine) waiting_machine 9"
    unfolding ts woken_by_def
    by (rule bexI [of _ "event_timer 40"]) (use waiting_hit due in \<open>simp_all add: event_fields heard_def waiting_machine_def\<close>)
  have one: "length (filter (timer_is_due 50) (mc_timers waiting_machine)) = 1" unfolding ts using due by simp
  have "(50::nat) < U64_MAX" "(9::nat) < MAX_THREADS" by (simp_all add: U64_MAX_def MAX_THREADS_def)
  then show ?thesis
    using expire_exact [OF _ _ sound, of here 50] waiting_ok woken unfolding one sleepers_woken_def events_ok_def by metis
qed

lemma timer_gate_sound_witness: "timer_gate waiting_machine \<and> filter (timer_is_due 39) (mc_timers waiting_machine) = []"
proof -
  have "timer_gate waiting_machine" "\<not> timer_due 39 waiting_machine"
    by (simp_all add: timer_gate_def timer_due_def waiting_machine_def event_timer_def)
  then show ?thesis using timer_gate_sound [of waiting_machine 39] by blast
qed

text \<open>The scope has room for one object more: the signal takes it, and its grant finds none.\<close>

definition full_machine :: machine where
  "full_machine = (race_at [] [grant_empty] 0 15 0 0 7)\<lparr>mc_signals := [signal_empty]\<rparr>"

lemma full_reserve:
  "reserve [race_scope 15] 0 Metadata (Suc 0) = ([race_scope 16], True)" "reserve [race_scope 16] 0 Metadata (Suc 0) = ([race_scope 16], False)"
  using race_reserve [of 15] by (simp_all add: reserve_def race_chain bounded_add_def sat_add64_def U64_MAX_def upd_def Let_def uncharge_nodes_def)

lemma failed_creation_keeps_object_witness:
  "\<exists>m'. create_signal wait_ctx full_machine = Some (m', Inl LIMIT_EXHAUSTED) \<and> si_used (mc_signals m' ! 0) \<and> mc_grants m' = [grant_empty]"
proof -
  have sponsor: "or_index (rs_object (cx_cap wait_ctx)) = 0" by (simp add: wait_ctx_def race_ctx_def)
  have scope: "nth_opt (mc_scopes full_machine) 0 = Some (race_scope 15)" "sc_state (race_scope 15) = SOpen"
    by (simp_all add: full_machine_def)
  have slot: "position (\<lambda>x. \<not> si_used x) (mc_signals full_machine) = Some 0"
    by (simp add: full_machine_def signal_empty_def)
  obtain m1 where charge: "charge_identity 0 full_machine = (m1, Some 7)"
    by (simp add: charge_identity_def charge_metadata_def full_machine_def full_reserve next_id_def U64_MAX_def)
  obtain m' where run: "create_signal wait_ctx full_machine = Some (m', Inl LIMIT_EXHAUSTED)" "mc_grants m' = [grant_empty]"
    using slot unfolding create_signal_def sponsor
    by (simp add: scope charge_identity_def charge_metadata_def full_machine_def full_reserve next_id_def U64_MAX_def
        publish_object_def wait_ctx_def race_ctx_def grant_alloc_def child_depth_def Let_def)
  have "0 < length (mc_signals full_machine)" by (simp add: full_machine_def)
  then show ?thesis
    using failed_creation_keeps_object [OF scope sponsor [symmetric] slot charge run(1)] run by auto
qed

end
