(* ===== verification/Scope_Calls.thy ===== *)
theory Scope_Calls
  imports Events Scope_Window
begin

text \<open>
  Scope operations (\<open>kernel/src/api/scopeops.rs\<close>): create, query, limit, fence, drain, retire, with the
  collection of retired scopes (\<open>kernel/src/scope.rs\<close>: \<open>collect_retired\<close>) and the withdrawal of undelivered
  messages a fence asks for (\<open>kernel/src/api/ipcops.rs\<close>). The lemmas show that creation keeps the scope tree a
  tree and the ceilings inside the parent's, that retirement waits for exactly the obligations of the
  perimeter, and what retirement and collection release.
\<close>

section \<open>Requests and answers\<close>

record scope_limits =
  sl_memory_pages :: nat
  sl_metadata_objects :: nat
  sl_cpu_budget_ns :: nat
  sl_queue_bytes :: nat
  sl_closure_reserve_ns :: nat
  sl_parallelism :: nat
  sl_reserved0 :: nat

record scope_create_request =
  sq_limits :: scope_limits
  sq_label :: "u8 list"

record scope_info =
  sn_limits :: scope_limits
  sn_state :: nat
  sn_depth :: nat
  sn_parallelism_used :: nat
  sn_threads :: nat
  sn_scope_id :: nat
  sn_parent_scope_id :: nat
  sn_memory_pages_used :: nat
  sn_metadata_used :: nat
  sn_queue_bytes_used :: nat
  sn_cpu_window_used_ns :: nat
  sn_cpu_total_ns :: nat
  sn_cpu_debt_ns :: nat
  sn_closure_used_ns :: nat
  sn_window_index :: nat

definition to_limits :: "scope_limits \<Rightarrow> limits" where
  "to_limits r = \<lparr>lm_memory_pages = sl_memory_pages r, lm_metadata_objects = sl_metadata_objects r,
     lm_cpu_budget_ns = sl_cpu_budget_ns r, lm_queue_bytes = sl_queue_bytes r,
     lm_closure_reserve_ns = sl_closure_reserve_ns r, lm_parallelism = sl_parallelism r\<rparr>"

definition from_limits :: "limits \<Rightarrow> scope_limits" where
  "from_limits l = \<lparr>sl_memory_pages = lm_memory_pages l, sl_metadata_objects = lm_metadata_objects l,
     sl_cpu_budget_ns = lm_cpu_budget_ns l, sl_queue_bytes = lm_queue_bytes l,
     sl_closure_reserve_ns = lm_closure_reserve_ns l, sl_parallelism = lm_parallelism l, sl_reserved0 = 0\<rparr>"

definition fits :: "limits \<Rightarrow> limits \<Rightarrow> bool" where
  "fits child parent \<longleftrightarrow>
     lm_memory_pages child \<le> lm_memory_pages parent \<and>
     lm_metadata_objects child \<le> lm_metadata_objects parent \<and>
     lm_cpu_budget_ns child \<le> lm_cpu_budget_ns parent \<and>
     lm_queue_bytes child \<le> lm_queue_bytes parent \<and>
     lm_closure_reserve_ns child \<le> lm_closure_reserve_ns parent \<and>
     lm_parallelism child \<le> lm_parallelism parent"

section \<open>The scope table of the machine\<close>

definition scope_world_of :: "machine \<Rightarrow> scope_world" where
  "scope_world_of m = \<lparr>sw_scopes = mc_scopes m, sw_fenced = mc_fenced m\<rparr>"

definition put_scopes :: "scope_world \<Rightarrow> machine \<Rightarrow> machine" where
  "put_scopes w m = m\<lparr>mc_scopes := sw_scopes w, mc_fenced := sw_fenced w\<rparr>"

definition on_scopes :: "(scope_world \<Rightarrow> scope_world) \<Rightarrow> machine \<Rightarrow> machine" where
  "on_scopes f m = put_scopes (f (scope_world_of m)) m"

definition drop_credits :: "scope_id \<Rightarrow> machine \<Rightarrow> machine" where
  "drop_credits s m = m\<lparr>mc_credits :=
     cw_credits (forget_credits s \<lparr>cw_scopes = mc_scopes m, cw_roll_seq = 0, cw_credits = mc_credits m\<rparr>)\<rparr>"

section \<open>Creation\<close>

definition has_child :: "scope_table \<Rightarrow> scope_id \<Rightarrow> bool" where
  "has_child t index \<longleftrightarrow> list_ex (\<lambda>s. sc_state s \<noteq> SEmpty \<and> scope_parent s = Some index) t"

definition collect_retired :: "scope_id \<Rightarrow> machine \<Rightarrow> (machine \<times> bool) option" where
  "collect_retired index m = do {
     node \<leftarrow> nth_opt (mc_scopes m) index;
     if sc_state node \<noteq> SRetired \<or> sc_refs node \<noteq> 0 \<or> sc_threads node \<noteq> 0 then Some (m, False)
     else if has_child (mc_scopes m) index then Some (m, False)
     else do {
       a \<leftarrow> mc_memory m;
       (a1, _) \<leftarrow> reassign_quarantine a (OwnScope index) OwnKernel;
       let m1 = drop_credits index (m\<lparr>mc_memory := Some a1\<rparr>);
       t \<leftarrow> (case scope_parent node of
               None \<Rightarrow> Some (mc_scopes m1)
             | Some p \<Rightarrow> upd_checked p (\<lambda>s. s\<lparr>sc_children := sc_children s - 1\<rparr>) (mc_scopes m1));
       Some (on_scopes (reset index) (m1\<lparr>mc_scopes := t\<rparr>), True) }
   }"

fun collect_first :: "scope_id list \<Rightarrow> machine \<Rightarrow> (machine \<times> scope_id option) option" where
  "collect_first [] m = Some (m, None)"
| "collect_first (i # is) m =
     (case collect_retired i m of
        None \<Rightarrow> None
      | Some (m', True) \<Rightarrow> Some (m', Some i)
      | Some (m', False) \<Rightarrow> collect_first is m')"

text \<open>The slot of a new scope: an empty one, or one a retired scope gives up.\<close>

definition scope_slot :: "machine \<Rightarrow> (machine \<times> scope_id option) option" where
  "scope_slot m =
     (case position (\<lambda>s. sc_state s = SEmpty) (mc_scopes m) of
        Some i \<Rightarrow> Some (m, Some i)
      | None \<Rightarrow> collect_first [0..<length (mc_scopes m)] m)"

text \<open>What creation writes into the slot before it publishes the state.\<close>

definition furnish :: "u32 \<Rightarrow> nat \<Rightarrow> scope_id \<Rightarrow> nat \<Rightarrow> u8 list \<Rightarrow> limits \<Rightarrow> nat \<Rightarrow> scope \<Rightarrow> scope" where
  "furnish generation ident parent depth label lims window s =
     (set_parent (Some parent) (s\<lparr>sc_generation := generation, sc_id := ident\<rparr>))
       \<lparr>sc_depth := depth, sc_label := label, sc_limits := lims, sc_window_index := window\<rparr>"

definition open_child ::
    "scope_id \<Rightarrow> scope_id \<Rightarrow> nat \<Rightarrow> nat \<Rightarrow> u8 list \<Rightarrow> limits \<Rightarrow> nat \<Rightarrow> machine \<Rightarrow> machine" where
  "open_child index parent ident depth label lims now m =
     (let generation = next_generation (sc_generation (mc_scopes m ! index));
          m1 = on_scopes (reset index) m;
          m2 = m1\<lparr>mc_scopes := upd index (furnish generation ident parent depth label lims (now div CPU_WINDOW_NS)) (mc_scopes m1)\<rparr>;
          m3 = on_scopes (set_state index SOpen) (drop_credits index m2)
      in m3\<lparr>mc_scopes := upd parent (\<lambda>s. s\<lparr>sc_children := wrap_add32 (sc_children s) 1\<rparr>) (mc_scopes m3)\<rparr>)"

text \<open>From the slot on: the charge and the identity, the child, its capability.\<close>

definition place_child ::
    "ctx \<Rightarrow> scope_create_request \<Rightarrow> scope_id \<Rightarrow> nat \<Rightarrow> machine \<times> scope_id option \<Rightarrow> (machine \<times> (status + u64)) option" where
  "place_child cx req parent depth st =
     (case st of
        (m1, None) \<Rightarrow> Some (m1, Inl LIMIT_EXHAUSTED)
      | (m1, Some index) \<Rightarrow>
          (case charge_identity parent m1 of
             (m2, None) \<Rightarrow> Some (m2, Inl LIMIT_EXHAUSTED)
           | (m2, Some ident) \<Rightarrow>
               let m3 = open_child index parent ident depth (sq_label req) (to_limits (sq_limits req)) (cx_now cx) m2
               in publish_object (cx_domain cx) (obj_ref_new Scope index (sc_generation (mc_scopes m3 ! index))) m3))"

definition create_child :: "ctx \<Rightarrow> scope_create_request \<Rightarrow> machine \<Rightarrow> (machine \<times> (status + u64)) option" where
  "create_child cx req m =
     (if sl_reserved0 (sq_limits req) \<noteq> 0 then Some (m, Inl INVALID_ARGUMENT)
      else do {
        let parent = or_index (rs_object (cx_cap cx));
        p \<leftarrow> nth_opt (mc_scopes m) parent;
        if sc_state p \<noteq> SOpen then Some (m, Inl SCOPE_CLOSED)
        else if sc_depth p \<ge> U16_MAX then None
        else if sc_depth p + 1 \<ge> MAX_SCOPE_DEPTH then Some (m, Inl LIMIT_EXHAUSTED)
        else do {
          let lims = to_limits (sq_limits req);
          if \<not> fits lims (sc_limits p) then Some (m, Inl LIMIT_EXHAUSTED)
          else Option.bind (scope_slot m) (place_child cx req parent (sc_depth p + 1)) }
      })"

section \<open>Query and limits\<close>

text \<open>The roll sequence is what the window's readers compare; the machine of this library does not keep it.\<close>

definition scope_query :: "nat \<Rightarrow> ctx \<Rightarrow> machine \<Rightarrow> (machine \<times> nat \<times> scope_info) option" where
  "scope_query roll_seq cx m = do {
     let w = roll_window (cx_now cx) \<lparr>cw_scopes = mc_scopes m, cw_roll_seq = roll_seq, cw_credits = mc_credits m\<rparr>;
     let index = or_index (rs_object (cx_cap cx));
     node \<leftarrow> nth_opt (cw_scopes w) index;
     pending \<leftarrow> pending_charges w index;
     parent_id \<leftarrow> (case scope_parent node of
                     None \<Rightarrow> Some 0 | Some p \<Rightarrow> map_option sc_id (nth_opt (cw_scopes w) p));
     window_used \<leftarrow> checked_add64 (sc_cpu_window_ns node) pending;
     total_ns \<leftarrow> checked_add64 (sc_cpu_total_ns node) pending;
     Some (m\<lparr>mc_scopes := cw_scopes w, mc_credits := cw_credits w\<rparr>, cw_roll_seq w,
       \<lparr>sn_limits = from_limits (sc_limits node), sn_state = scope_state_abi (sc_state node), sn_depth = sc_depth node,
        sn_parallelism_used = sc_parallelism_used node, sn_threads = sc_threads node, sn_scope_id = sc_id node,
        sn_parent_scope_id = parent_id, sn_memory_pages_used = sc_memory_pages node,
        sn_metadata_used = sc_metadata node, sn_queue_bytes_used = sc_queue_bytes node,
        sn_cpu_window_used_ns = window_used, sn_cpu_total_ns = total_ns, sn_cpu_debt_ns = sc_cpu_debt_ns node,
        sn_closure_used_ns = sc_closure_used_ns node, sn_window_index = sc_window_index node\<rparr>)
   }"

definition set_limits :: "ctx \<Rightarrow> scope_limits \<Rightarrow> machine \<Rightarrow> (machine \<times> (status + nat)) option" where
  "set_limits cx req m =
     (if sl_reserved0 req \<noteq> 0 then Some (m, Inl INVALID_ARGUMENT)
      else do {
        let index = or_index (rs_object (cx_cap cx));
        node \<leftarrow> nth_opt (mc_scopes m) index;
        if sc_state node \<noteq> SOpen then Some (m, Inl SCOPE_CLOSED)
        else do {
          let lims = to_limits req;
          inside \<leftarrow> (case scope_parent node of
                       None \<Rightarrow> Some True
                     | Some p \<Rightarrow> map_option (\<lambda>ps. fits lims (sc_limits ps)) (nth_opt (mc_scopes m) p));
          if \<not> inside then Some (m, Inl LIMIT_EXHAUSTED)
          else if lm_memory_pages lims < sc_memory_pages node \<or> lm_metadata_objects lims < sc_metadata node \<or>
                  lm_queue_bytes lims < sc_queue_bytes node
          then Some (m, Inl STATE_CONFLICT)
          else Some (m\<lparr>mc_scopes := (mc_scopes m)[index := node\<lparr>sc_limits := lims\<rparr>]\<rparr>, Inr 0) }
      })"

section \<open>The fence\<close>

definition cancel_one :: "wake_env \<Rightarrow> scope_table \<Rightarrow> scope_id \<Rightarrow> nat \<Rightarrow> thread_world \<times> nat \<Rightarrow> (thread_world \<times> nat) option" where
  "cancel_one e t root index st =
     (case st of (w, woken) \<Rightarrow>
        let cell = tw_threads w ! index in
        if tc_state cell \<noteq> TBlocked then Some (w, woken)
        else if \<not> is_within t root (tc_effective_scope cell) \<and> \<not> is_within t root (ct_owner_scope (tc_control cell))
        then Some (w, woken)
        else map_option (\<lambda>(w', hit). (w', if hit then woken + 1 else woken))
               (wake_if e index (\<lambda>_. True) CANCELLED 0 AnyHint w))"

definition cancel_waits :: "wake_env \<Rightarrow> scope_id \<Rightarrow> machine \<Rightarrow> (machine \<times> nat) option" where
  "cancel_waits e root m =
     map_option (\<lambda>(w, woken). (m\<lparr>mc_threads := w\<rparr>, woken))
       (fold_opt (cancel_one e (mc_scopes m) root) [0..<length (tw_threads (mc_threads m))] (mc_threads m, 0))"

definition OUTCOME_ABORTED :: nat where "OUTCOME_ABORTED = 2"

definition wake_waiter :: "wake_env \<Rightarrow> nat \<Rightarrow> status \<Rightarrow> wake_hint \<Rightarrow> machine \<Rightarrow> machine option" where
  "wake_waiter e index code hint m = do {
     i \<leftarrow> nth_opt (mc_invocations m) index;
     case iv_waiter i of
       None \<Rightarrow> Some m
     | Some waiter \<Rightarrow>
         map_option (\<lambda>(w, _). m\<lparr>mc_threads := w\<rparr>)
           (defer_wake_if e waiter (\<lambda>r. wr_wait r = WaitReply index (iv_generation i)) code 0 hint (mc_threads m))
   }"

text \<open>\<open>release_invocation\<close> of \<open>ipcops.rs\<close>: what an invocation held once it is discharged.\<close>

definition discharge :: "nat \<Rightarrow> nat \<Rightarrow> machine \<Rightarrow> machine option" where
  "discharge now index m = do {
     i \<leftarrow> nth_opt (mc_invocations m) index;
     if iv_state i = InvEmpty then Some m
     else do {
       let admitted = (iv_effect i = EffAdmitted);
       let i1 = (if admitted then i\<lparr>iv_charged_bytes := 0, iv_closure_reserved_ns := 0, iv_effect := EffResolved\<rparr>
                 else i\<lparr>iv_charged_bytes := 0\<rparr>);
       let m1 = m\<lparr>mc_invocations := (mc_invocations m)[index := i1\<lparr>iv_grant := NO_GRANT, iv_state := InvResolved\<rparr>]\<rparr>;
       let origin = iv_origin_scope i;
       let m2 = (if iv_charged_bytes i \<noteq> 0
                 then m1\<lparr>mc_scopes := release (mc_scopes m1) origin QueueBytes (iv_charged_bytes i)\<rparr> else m1);
       t \<leftarrow> upd_checked origin (\<lambda>s. s\<lparr>sc_invocations_pending := sc_invocations_pending s - 1\<rparr>) (mc_scopes m2);
       t1 \<leftarrow> (if admitted
              then upd_checked (iv_closure_service i)
                     (\<lambda>s. s\<lparr>sc_closure_reserved_ns := sc_closure_reserved_ns s - iv_closure_reserved_ns i\<rparr>)
                     (upd origin (\<lambda>s. s\<lparr>sc_effects_pending := sc_effects_pending s - 1\<rparr>) t)
              else Some t);
       let m3 = on_scopes (note_progress origin now) (m2\<lparr>mc_scopes := t1\<rparr>);
       m4 \<leftarrow> (if iv_grant i = NO_GRANT then Some m3
              else do {
                gs \<leftarrow> upd_checked (iv_grant i) (\<lambda>n. n\<lparr>gr_refs := gr_refs n - 1\<rparr>) (mc_grants m3);
                collect_grant (iv_grant i) (m3\<lparr>mc_grants := gs\<rparr>) });
       Some (collect_invocation index m4) }
   }"

text \<open>The queue of an endpoint without one message, whose predecessor is \<open>previous\<close>.\<close>

definition unlink :: "nat \<Rightarrow> nat \<Rightarrow> nat \<Rightarrow> message \<Rightarrow> machine \<Rightarrow> machine option" where
  "unlink endpoint previous current msg m = do {
     m1 \<leftarrow> (if previous = NO_MESSAGE
            then Some (m\<lparr>mc_endpoints := upd endpoint (\<lambda>e. e\<lparr>ep_head := ms_next msg\<rparr>) (mc_endpoints m)\<rparr>)
            else map_option (\<lambda>t. m\<lparr>mc_messages := t\<rparr>)
                   (upd_checked previous (\<lambda>x. x\<lparr>ms_next := ms_next msg\<rparr>) (mc_messages m)));
     Some (m1\<lparr>mc_endpoints := upd endpoint (\<lambda>e.
        let e1 = (if ep_tail e = current then e\<lparr>ep_tail := previous\<rparr> else e);
            e2 = e1\<lparr>ep_queued := ep_queued e1 - 1\<rparr>
        in if ms_reserved_cell msg then e2\<lparr>ep_reserved_used := ep_reserved_used e2 - 1\<rparr> else e2)
        (mc_endpoints m1)\<rparr>)
   }"

definition withdraw_message ::
    "wake_env \<Rightarrow> nat \<Rightarrow> nat \<Rightarrow> nat \<Rightarrow> nat \<Rightarrow> message \<Rightarrow> scope_id \<Rightarrow> machine \<Rightarrow> machine option" where
  "withdraw_message e now endpoint previous current msg origin m = do {
     m1 \<leftarrow> unlink endpoint previous current msg m;
     m2 \<leftarrow> fold_opt (\<lambda>c m. do {
            ep \<leftarrow> nth_opt (mc_endpoints m) endpoint;
            map_option fst (cap_release_slot (ep_receiver_domain ep) (dc_slot c) m) })
          (take (ms_cap_count msg) (ms_caps msg)) m1;
     let m3 = release_message current (m2\<lparr>mc_messages := upd current (\<lambda>_. message_empty) (mc_messages m2)\<rparr>);
     is \<leftarrow> upd_checked (ms_invocation msg)
            (\<lambda>i. i\<lparr>iv_cancel := CancelOriginFenced, iv_outcome := OUTCOME_ABORTED\<rparr>) (mc_invocations m3);
     m4 \<leftarrow> wake_waiter e (ms_invocation msg) CANCELLED AnyHint (m3\<lparr>mc_invocations := is\<rparr>);
     m5 \<leftarrow> discharge now (ms_invocation msg) m4;
     map_option (\<lambda>t. m5\<lparr>mc_scopes := t\<rparr>)
       (upd_checked origin (\<lambda>s. s\<lparr>sc_undelivered_cancelled := wrap_add32 (sc_undelivered_cancelled s) 1\<rparr>) (mc_scopes m5))
   }"

text \<open>The walk down one endpoint's queue; a queue that runs in a circle has no value.\<close>

partial_function (option) withdraw_queue ::
    "wake_env \<Rightarrow> nat \<Rightarrow> scope_id \<Rightarrow> nat \<Rightarrow> nat \<Rightarrow> nat \<Rightarrow> nat \<Rightarrow> machine \<Rightarrow> (machine \<times> nat) option" where
  "withdraw_queue e now root endpoint previous current n m =
     (if current = NO_MESSAGE then Some (m, n)
      else Option.bind (nth_opt (mc_messages m) current) (\<lambda>msg.
        Option.bind (nth_opt (mc_invocations m) (ms_invocation msg)) (\<lambda>i.
          if iv_state i = InvAdmitted \<and> is_within (mc_scopes m) root (iv_origin_scope i)
          then Option.bind (withdraw_message e now endpoint previous current msg (iv_origin_scope i) m) (\<lambda>m'.
                 withdraw_queue e now root endpoint previous (ms_next msg) (n + 1) m')
          else withdraw_queue e now root endpoint current (ms_next msg) n m)))"

definition withdraw_endpoint :: "wake_env \<Rightarrow> nat \<Rightarrow> scope_id \<Rightarrow> nat \<Rightarrow> machine \<times> nat \<Rightarrow> (machine \<times> nat) option" where
  "withdraw_endpoint e now root endpoint st =
     (case st of (m, n) \<Rightarrow> do {
        ids \<leftarrow> nth_opt (mc_endpoint_ids m) endpoint;
        if \<not> ei_used ids then Some (m, n)
        else withdraw_queue e now root endpoint NO_MESSAGE (ep_head (mc_endpoints m ! endpoint)) n m })"

definition withdraw_undelivered :: "wake_env \<Rightarrow> nat \<Rightarrow> scope_id \<Rightarrow> machine \<Rightarrow> (machine \<times> nat) option" where
  "withdraw_undelivered e now root m = fold_opt (withdraw_endpoint e now root) [0..<length (mc_endpoints m)] (m, 0)"

definition mark_cancelled :: "scope_id \<Rightarrow> machine \<Rightarrow> machine" where
  "mark_cancelled root m = m\<lparr>mc_invocations := map (\<lambda>i.
     if iv_state i \<noteq> InvEmpty \<and> iv_state i \<noteq> InvResolved \<and> is_within (mc_scopes m) root (iv_origin_scope i)
     then i\<lparr>iv_cancel := CancelOriginFenced\<rparr> else i) (mc_invocations m)\<rparr>"

definition advance_scopes :: "nat \<Rightarrow> machine \<Rightarrow> machine option" where
  "advance_scopes now m = map_option (\<lambda>(w, _). put_scopes w m) (advance_quiescence now (scope_world_of m))"

text \<open>The handler; \<open>now\<close> is what the clock shows while it runs.\<close>

definition scope_fence :: "wake_env \<Rightarrow> nat \<Rightarrow> ctx \<Rightarrow> machine \<Rightarrow> (machine \<times> (status + nat)) option" where
  "scope_fence e now cx m = do {
     let root = or_index (rs_object (cx_cap cx));
     let (w, fenced) = fence root (scope_world_of m);
     (m1, woken) \<leftarrow> cancel_waits e root (put_scopes w m);
     (m2, withdrawn) \<leftarrow> withdraw_undelivered e now root m1;
     let m3 = mark_cancelled root m2;
     _ \<leftarrow> pending_of (mc_scopes m3) root;
     node \<leftarrow> nth_opt (mc_scopes m3) root;
     (m4, _) \<leftarrow> write_receipt e now KIND_FENCE (cx_domain cx) root (sc_id node) 0 0 OK fenced withdrawn False m3;
     m5 \<leftarrow> advance_scopes (cx_now cx) m4;
     Some (m5, Inr fenced)
   }"

section \<open>The drain\<close>

definition drain_report_of :: "scope_id \<Rightarrow> nat \<Rightarrow> machine \<Rightarrow> (machine \<times> drain_report) option" where
  "drain_report_of root now m = do {
     m1 \<leftarrow> advance_scopes now m;
     o' \<leftarrow> pending_of (mc_scopes m1) root;
     node \<leftarrow> nth_opt (mc_scopes m1) root;
     Some (m1, drain_report_zeroed\<lparr>dp_state := scope_state_abi (sc_state node), dp_threads_running := pd_threads o',
       dp_invocations_pending := pd_invocations o', dp_effects_pending := pd_effects o', dp_maps_pending := pd_maps o',
       dp_undelivered_cancelled := pd_undelivered o', dp_retained_pages := pd_pages o',
       dp_retained_metadata := pd_metadata o', dp_last_progress_ns := sc_last_progress_ns node,
       dp_token := sc_drain_token node\<rparr>)
   }"

definition scope_drain_status :: "ctx \<Rightarrow> machine \<Rightarrow> (machine \<times> drain_report \<times> nat) option" where
  "scope_drain_status cx m = do {
     (m1, r) \<leftarrow> drain_report_of (or_index (rs_object (cx_cap cx))) (cx_now cx) m;
     v \<leftarrow> checked_add32 (dp_invocations_pending r) (dp_effects_pending r);
     Some (m1, r, v)
   }"

section \<open>Retirement\<close>

definition withdraw_slot :: "obj_ref \<Rightarrow> nat \<Rightarrow> nat \<Rightarrow> machine \<Rightarrow> machine option" where
  "withdraw_slot object domain slot m = do {
     d \<leftarrow> nth_opt (mc_domains m) domain;
     entry \<leftarrow> nth_opt (dm_caps d) slot;
     if ce_live entry \<and> ce_object entry = object then map_option fst (cap_release_slot domain slot m) else Some m
   }"

definition withdraw_domain :: "obj_ref \<Rightarrow> nat \<Rightarrow> machine \<Rightarrow> machine option" where
  "withdraw_domain object domain m =
     (if dm_state (mc_domains m ! domain) = DomEmpty then Some m
      else fold_opt (withdraw_slot object domain) [0..<MAX_CAPS] m)"

definition withdraw_everywhere :: "obj_ref \<Rightarrow> machine \<Rightarrow> machine option" where
  "withdraw_everywhere object m = fold_opt (withdraw_domain object) [0..<length (mc_domains m)] m"

definition page_frame :: "memory_object \<Rightarrow> nat \<Rightarrow> frame" where
  "page_frame o' page = frame_containing (frame_addr (mo_base o') + of_nat (page * PAGE_SIZE))"

text \<open>The address of a page is a checked addition.\<close>

definition release_page :: "memory_object \<Rightarrow> nat \<Rightarrow> frame_allocator \<Rightarrow> frame_allocator option" where
  "release_page o' page a =
     (if unat (frame_addr (mo_base o')) + page * PAGE_SIZE > U64_MAX then None
      else frame_release a (page_frame o' page) (OwnScope (mo_sponsor o')))"

definition release_memory :: "scope_id \<Rightarrow> nat \<Rightarrow> machine \<times> nat \<times> nat \<Rightarrow> (machine \<times> nat \<times> nat) option" where
  "release_memory root index st =
     (case st of (m, pages, objects) \<Rightarrow>
        let o' = mc_memories m ! index in
        if mo_state o' = MemEmpty \<or> \<not> is_within (mc_scopes m) root (mo_sponsor o') then Some st
        else if mo_map_count o' \<noteq> 0 then Some st
        else do {
          m1 \<leftarrow> withdraw_everywhere (obj_ref_new Memory index (mo_generation o')) m;
          a \<leftarrow> (if mo_pages o' = 0 then Some (mc_memory m1)
                else do { a \<leftarrow> mc_memory m1; map_option Some (fold_opt (release_page o') [0..<mo_pages o'] a) });
          let t = release (release (mc_scopes m1) (mo_sponsor o') MemoryPages (mo_pages o')) (mo_sponsor o') Metadata 1;
          Some (m1\<lparr>mc_memory := a, mc_scopes := t,
                   mc_memories := (mc_memories m1)[index := memory_object_empty\<lparr>mo_generation := mo_generation o'\<rparr>]\<rparr>,
                pages + mo_pages o', objects + 1) })"

definition release_endpoint :: "scope_id \<Rightarrow> nat \<Rightarrow> machine \<times> nat \<Rightarrow> (machine \<times> nat) option" where
  "release_endpoint root index st =
     (case st of (m, objects) \<Rightarrow> do {
        ids \<leftarrow> nth_opt (mc_endpoint_ids m) index;
        let own = ep_owner_scope (mc_endpoints m ! index);
        if \<not> ei_used ids \<or> \<not> is_within (mc_scopes m) root own then Some st
        else do {
          m1 \<leftarrow> withdraw_everywhere (obj_ref_new Endpoint index (ei_generation ids)) m;
          let m2 = release_metadata own m1;
          Some (m2\<lparr>mc_endpoints := (mc_endpoints m2)[index := endpoint_empty],
                   mc_endpoint_ids := upd index (\<lambda>x. x\<lparr>ei_used := False\<rparr>) (mc_endpoint_ids m2)\<rparr>, objects + 1) } })"

definition release_signal :: "scope_id \<Rightarrow> nat \<Rightarrow> machine \<times> nat \<Rightarrow> (machine \<times> nat) option" where
  "release_signal root index st =
     (case st of (m, objects) \<Rightarrow>
        let s = mc_signals m ! index in
        if \<not> si_used s \<or> \<not> is_within (mc_scopes m) root (si_owner_scope s) then Some st
        else do {
          m1 \<leftarrow> withdraw_everywhere (obj_ref_new Signal index (si_generation s)) m;
          let m2 = release_metadata (si_owner_scope s) m1;
          Some (m2\<lparr>mc_signals := (mc_signals m2)[index := signal_empty\<lparr>si_generation := si_generation s\<rparr>]\<rparr>, objects + 1) })"

definition release_timer :: "scope_id \<Rightarrow> nat \<Rightarrow> machine \<times> nat \<Rightarrow> (machine \<times> nat) option" where
  "release_timer root index st =
     (case st of (m, objects) \<Rightarrow>
        let t = mc_timers m ! index in
        if \<not> tm_used t \<or> \<not> is_within (mc_scopes m) root (tm_owner_scope t) then Some st
        else do {
          m1 \<leftarrow> withdraw_everywhere (obj_ref_new Timer index (tm_generation t)) m;
          let m2 = release_metadata (tm_owner_scope t) m1;
          Some (m2\<lparr>mc_timers := (mc_timers m2)[index := timer_empty\<lparr>tm_generation := tm_generation t\<rparr>]\<rparr>, objects + 1) })"

definition release_sponsored :: "scope_id \<Rightarrow> machine \<Rightarrow> (machine \<times> nat \<times> nat) option" where
  "release_sponsored root m = do {
     (m1, pages, n1) \<leftarrow> fold_opt (release_memory root) [0..<length (mc_memories m)] (m, 0, 0);
     (m2, n2) \<leftarrow> fold_opt (release_endpoint root) [0..<length (mc_endpoints m1)] (m1, n1);
     (m3, n3) \<leftarrow> fold_opt (release_signal root) [0..<length (mc_signals m2)] (m2, n2);
     (m4, n4) \<leftarrow> fold_opt (release_timer root) [0..<length (mc_timers m3)] (m3, n3);
     Some (m4, pages, n4)
   }"

definition retire_one :: "scope_id \<Rightarrow> scope_id \<Rightarrow> scope_world \<Rightarrow> scope_world" where
  "retire_one root index w =
     (if sc_state (sw_scopes w ! index) = SEmpty \<or> \<not> is_within (sw_scopes w) root index then w
      else set_state index SRetired w)"

definition retire_scopes :: "scope_id \<Rightarrow> scope_world \<Rightarrow> scope_world" where
  "retire_scopes root w = fold (retire_one root) [0..<length (sw_scopes w)] w"

definition retire :: "wake_env \<Rightarrow> nat \<Rightarrow> ctx \<Rightarrow> machine \<Rightarrow> (machine \<times> drain_report \<times> (status + nat)) option" where
  "retire e now cx m = do {
     let root = or_index (rs_object (cx_cap cx));
     (m1, r) \<leftarrow> drain_report_of root (cx_now cx) m;
     let st = sc_state (mc_scopes m1 ! root);
     if st = SOpen then Some (m1, r, Inl STATE_CONFLICT)
     else if st = SFenced then Some (m1, r, Inl DRAIN_INCOMPLETE)
     else if st = SRetired then Some (m1, r, Inr 0)
     else do {
       (m2, _) \<leftarrow> release_sponsored root m1;
       let node = mc_scopes m2 ! root;
       let m3 = on_scopes (retire_scopes root) m2;
       (m4, _) \<leftarrow> write_receipt e now KIND_RETIRE (cx_domain cx) root (sc_id node) 0 0 OK
          (sc_memory_pages node) (sc_metadata node) False m3;
       Some (m4, r, Inr (sc_memory_pages node)) }
   }"

definition outstanding :: "machine \<Rightarrow> scope_id \<Rightarrow> nat" where
  "outstanding m root = length (filter (\<lambda>i. iv_state i \<noteq> InvEmpty \<and> iv_state i \<noteq> InvResolved \<and>
     is_within (mc_scopes m) root (iv_origin_scope i)) (mc_invocations m))"

section \<open>What the accounts do not touch\<close>

text \<open>A scope without its accounts and counters, and a machine's scopes seen so.\<close>

definition scope_shape :: "scope \<Rightarrow> scope_state \<times> u32 \<times> nat \<times> nat \<times> nat \<times> limits" where
  "scope_shape s = (sc_state s, sc_generation s, sc_id s, sc_parent s, sc_depth s, sc_limits s)"

definition shapes :: "machine \<Rightarrow> (scope_state \<times> u32 \<times> nat \<times> nat \<times> nat \<times> limits) list \<times> nat" where
  "shapes m = (map scope_shape (mc_scopes m), mc_fenced m)"

named_theorems shape_simps

lemma map_upd_keep [shape_simps]: "(\<And>x. g (f x) = g x) \<Longrightarrow> map g (upd i f t) = map g t"
  by (simp add: upd_def map_update list_update_same_conv)

lemma map_upd_all_keep [shape_simps]: "(\<And>x. g (f x) = g x) \<Longrightarrow> map g (upd_all is f t) = map g t"
  by (induction "is" arbitrary: t) (simp_all add: map_upd_keep)

lemma scope_shape_account [simp]: "scope_shape (set_account r v s) = scope_shape s"
  by (cases r) (simp_all add: scope_shape_def)

lemma shape_release [shape_simps]: "map scope_shape (release t s r a) = map scope_shape t"
  by (simp add: release_def saturating_take_def map_upd_all_keep)

lemma shape_charge_nodes:
  "map scope_shape (fst (charge_nodes u (account r) (set_account r) l a n is t)) = map scope_shape t"
  by (induction "is" arbitrary: n t) (auto simp: Let_def map_upd_keep split: prod.splits sum.splits)

lemma shape_reserve [shape_simps]: "map scope_shape (fst (reserve t s r a)) = map scope_shape t"
  using shape_charge_nodes [of "\<lambda>n. sc_state n = SOpen" r "scope_limit r" a 0 "chain_of t s" t]
  by (auto simp: reserve_def Let_def uncharge_nodes_def map_upd_all_keep split: prod.splits option.splits)

lemma shapes_release_metadata [simp]: "shapes (release_metadata s m) = shapes m"
  by (simp add: shapes_def release_metadata_def shape_release)

lemma shapes_charge_metadata: "charge_metadata s m = (m', ok) \<Longrightarrow> shapes m' = shapes m"
  using shape_reserve [of "mc_scopes m" s Metadata 1]
  by (auto simp: shapes_def charge_metadata_def split: prod.splits)

lemma shapes_next_id: "next_id m = (m', r) \<Longrightarrow> shapes m' = shapes m"
  by (auto simp: next_id_def shapes_def split: if_splits)

lemma shapes_charge_identity: "charge_identity s m = (m', r) \<Longrightarrow> shapes m' = shapes m"
  by (auto simp: charge_identity_def dest!: shapes_charge_metadata shapes_next_id
      split: prod.splits bool.splits option.splits)

lemma shapes_fields [simp]:
  "shapes (m\<lparr>mc_grants := g\<rparr>) = shapes m" "shapes (m\<lparr>mc_grant_hint := n\<rparr>) = shapes m"
  "shapes (m\<lparr>mc_domains := d\<rparr>) = shapes m" "shapes (m\<lparr>mc_invocations := i\<rparr>) = shapes m"
  "shapes (m\<lparr>mc_memories := o'\<rparr>) = shapes m" "shapes (m\<lparr>mc_endpoint_ids := ei\<rparr>) = shapes m"
  "shapes (m\<lparr>mc_signals := s\<rparr>) = shapes m" "shapes (m\<lparr>mc_timers := t\<rparr>) = shapes m"
  "shapes (m\<lparr>mc_logs := l\<rparr>) = shapes m" "shapes (m\<lparr>mc_devices := v\<rparr>) = shapes m"
  "shapes (m\<lparr>mc_threads := w\<rparr>) = shapes m" "shapes (m\<lparr>mc_credits := c\<rparr>) = shapes m"
  "shapes (m\<lparr>mc_memory := a\<rparr>) = shapes m"
  by (simp_all add: shapes_def)

lemma shapes_adjust: "adjust_object_refs ob d m = Some m' \<Longrightarrow> shapes m' = shapes m"
  by (cases "or_kind ob")
    (auto simp: adjust_object_refs_def Let_def upd_checked_def shapes_def map_upd_keep scope_shape_def split: if_splits)

lemma shapes_grant_alloc: "grant_alloc sp p ob r d l f m = Some (m', g) \<Longrightarrow> shapes m' = shapes m"
  by (auto simp: grant_alloc_def Let_def dest!: shapes_charge_metadata shapes_next_id
      split: Option.bind_splits if_splits prod.splits bool.splits option.splits)

lemma shapes_cap_install: "cap_install d ob g sl m = Some (m', h) \<Longrightarrow> shapes m' = shapes m"
  by (auto simp: cap_install_def Let_def dest!: shapes_charge_metadata shapes_adjust
      split: Option.bind_splits if_splits prod.splits bool.splits option.splits)

lemma shapes_publish: "publish_object d ob m = Some (m', r) \<Longrightarrow> shapes m' = shapes m"
  by (auto simp: publish_object_def dest!: shapes_grant_alloc shapes_cap_install
      split: Option.bind_splits prod.splits option.splits)

section \<open>A slot changes hands\<close>

definition scopes_ok :: "machine \<Rightarrow> bool" where
  "scopes_ok m \<longleftrightarrow> wf_table (mc_scopes m) \<and> fenced_ok (scope_world_of m)"

lemma shape_eq_nth:
  "map scope_shape t' = map scope_shape t \<Longrightarrow> i < length t \<Longrightarrow> scope_shape (t' ! i) = scope_shape (t ! i)"
proof -
  assume eq: "map scope_shape t' = map scope_shape t" and i: "i < length t"
  then have "i < length t'" using map_eq_imp_length_eq [OF eq] by simp
  then show ?thesis using i arg_cong [OF eq, of "\<lambda>l. l ! i"] by simp
qed

lemma shapes_tree:
  assumes "shapes m' = shapes m"
  shows "same_tree (mc_scopes m) (mc_scopes m')"
proof -
  have eq: "map scope_shape (mc_scopes m') = map scope_shape (mc_scopes m)" using assms by (simp add: shapes_def)
  show ?thesis
    using map_eq_imp_length_eq [OF eq] shape_eq_nth [OF eq] by (simp add: same_tree_def scope_shape_def)
qed

lemma shapes_length: "shapes m' = shapes m \<Longrightarrow> length (mc_scopes m') = length (mc_scopes m)"
  using shapes_tree same_tree_length by blast

lemma count_fenced_shape: "map scope_shape t' = map scope_shape t \<Longrightarrow> count_fenced t' = count_fenced t"
proof -
  assume "map scope_shape t' = map scope_shape t"
  then have "map (\<lambda>p. if fst p = SFenced then 1 else 0) (map scope_shape t') =
      map (\<lambda>p. if fst p = SFenced then 1 else (0 :: nat)) (map scope_shape t)" by metis
  then show ?thesis by (simp add: count_fenced_def comp_def scope_shape_def)
qed

lemma shapes_ok:
  assumes "shapes m' = shapes m" "scopes_ok m"
  shows "scopes_ok m'"
  using assms same_tree_wf [OF shapes_tree [OF assms(1)]] shapes_length [OF assms(1)] count_fenced_shape [of "mc_scopes m'" "mc_scopes m"]
  by (simp add: scopes_ok_def fenced_ok_def scope_world_of_def shapes_def)

text \<open>A slot that no scope in use has as its parent lies on no other scope's chain.\<close>

definition childless :: "scope_table \<Rightarrow> scope_id \<Rightarrow> bool" where
  "childless t i \<longleftrightarrow> (\<forall>k < length t. sc_state (t ! k) \<noteq> SEmpty \<longrightarrow> scope_parent (t ! k) \<noteq> Some i)"

lemma no_child_childless: "\<not> has_child t i \<Longrightarrow> childless t i"
  by (auto simp: has_child_def childless_def list_ex_iff all_set_conv_all_nth)

lemma empty_childless:
  assumes "wf_table t" "i < length t" "sc_state (t ! i) = SEmpty"
  shows "childless t i"
  unfolding childless_def
proof (intro allI impI)
  fix k
  assume k: "k < length t" "sc_state (t ! k) \<noteq> SEmpty"
  show "scope_parent (t ! k) \<noteq> Some i"
    using wf_table_nth [OF assms(1) k(1)] k(2) assms(3) by (auto simp: wf_scope_def)
qed

lemma childless_chain:
  assumes "wf_table t" "j < length t" "sc_state (t ! j) \<noteq> SEmpty" and "childless t i" "i \<noteq> j"
  shows "i \<notin> set (chain_of t j)"
  using assms
proof (induction j rule: chain_induct)
  case (scope j)
  show ?case
  proof (cases "scope_parent (t ! j)")
    case None
    then show ?thesis using scope chain_rec [OF assms(1), of j] by simp
  next
    case (Some p)
    then have "p \<noteq> i" using scope by (auto simp: childless_def)
    then show ?thesis using scope(1,2,4,5) scope(3) [OF Some] chain_rec [OF assms(1), of j] Some by auto
  qed
qed

lemma chain_walk_agree:
  "length t' = length t \<Longrightarrow> \<forall>k \<in> set (chain_walk n t s). sc_parent (t' ! k) = sc_parent (t ! k) \<Longrightarrow>
     chain_walk n t' s = chain_walk n t s"
proof (induction n arbitrary: s)
  case (Suc n)
  then show ?case by (cases "s < length t") (auto simp: nth_opt_def scope_parent_def split: option.splits)
qed simp

definition others_same :: "scope_id \<Rightarrow> scope_table \<Rightarrow> scope_table \<Rightarrow> bool" where
  "others_same i t t' \<longleftrightarrow> length t' = length t \<and> (\<forall>j < length t. j \<noteq> i \<longrightarrow> scope_shape (t' ! j) = scope_shape (t ! j))"

lemma others_chain:
  assumes "wf_table t" "childless t i" "others_same i t t'" "j < length t" "sc_state (t ! j) \<noteq> SEmpty" "j \<noteq> i"
  shows "chain_of t' j = chain_of t j"
proof -
  have out: "i \<notin> set (chain_of t j)" using childless_chain [OF assms(1,4,5,2)] assms(6) by simp
  have par: "sc_parent (t' ! k) = sc_parent (t ! k)" if "k \<in> set (chain_of t j)" for k
  proof -
    have "k \<noteq> i" "k < length t" using that out chain_in_range [OF that] by auto
    then show ?thesis using assms(3) by (simp add: others_same_def scope_shape_def)
  qed
  show ?thesis
    unfolding chain_of_def using par assms(3)
    by (intro chain_walk_agree) (simp_all add: others_same_def chain_of_def)
qed

lemma others_wf:
  assumes wf: "wf_table t" and "childless t i" and oth: "others_same i t t'" and i: "wf_scope t' (t' ! i)"
  shows "wf_table t'"
  unfolding wf_table_def all_set_conv_all_nth
proof (intro conjI allI impI)
  have len: "length t' = length t" using oth by (simp add: others_same_def)
  show "length t' \<le> NO_SCOPE" using wf len by (simp add: wf_table_def)
  fix j
  assume j: "j < length t'"
  show "wf_scope t' (t' ! j)"
  proof (cases "j = i")
    case False
    have sh: "scope_shape (t' ! k) = scope_shape (t ! k)" if "k < length t" "k \<noteq> i" for k
      using oth that by (simp add: others_same_def)
    have "scope_parent (t ! j) = Some p \<Longrightarrow> sc_state (t ! j) \<noteq> SEmpty \<Longrightarrow> p \<noteq> i" for p
      using assms(2) j len by (auto simp: childless_def)
    then show ?thesis
      using wf_table_nth [OF wf, of j] sh [of j] sh j len False
      by (auto simp: wf_scope_def scope_shape_def scope_parent_def split: if_splits)
  qed (simp add: i)
qed

lemma scope_world_simps [simp]:
  "sw_scopes (scope_world_of m) = mc_scopes m" "sw_fenced (scope_world_of m) = mc_fenced m"
  "mc_scopes (put_scopes w m) = sw_scopes w" "mc_fenced (put_scopes w m) = sw_fenced w"
  "scope_world_of (put_scopes w m) = w"
  "mc_scopes (on_scopes f m) = sw_scopes (f (scope_world_of m))" "scope_world_of (on_scopes f m) = f (scope_world_of m)"
  "mc_scopes (drop_credits s m) = mc_scopes m" "mc_fenced (drop_credits s m) = mc_fenced m"
  "scope_world_of (drop_credits s m) = scope_world_of m" "scope_world_of (m\<lparr>mc_memory := a\<rparr>) = scope_world_of m"
  by (simp_all add: scope_world_of_def put_scopes_def on_scopes_def drop_credits_def)

lemma scope_world_table: "scope_world_of (m\<lparr>mc_scopes := t\<rparr>) = (scope_world_of m)\<lparr>sw_scopes := t\<rparr>"
  by (simp add: scope_world_of_def)

lemma fenced_ok_keep:
  "(\<And>s. sc_state (f s) = sc_state s) \<Longrightarrow> fenced_ok (w\<lparr>sw_scopes := upd i f (sw_scopes w)\<rparr>) = fenced_ok w"
  by (simp add: fenced_ok_def count_fenced_keep)

lemma reset_nth: "i < length (sw_scopes w) \<Longrightarrow> j < length (sw_scopes w) \<Longrightarrow>
    sw_scopes (reset i w) ! j = (if j = i then scope_empty\<lparr>sc_generation := sc_generation (sw_scopes w ! i)\<rparr> else sw_scopes w ! j)"
  by (simp add: reset_def Let_def set_state_scopes nth_upd)

lemma length_reset [simp]: "length (sw_scopes (reset i w)) = length (sw_scopes w)"
  by (simp add: reset_def Let_def set_state_def)

lemma length_set_state [simp]: "length (sw_scopes (set_state i st w)) = length (sw_scopes w)"
  by (simp add: set_state_def Let_def)

text \<open>What a collection that succeeds found, and what it leaves.\<close>

lemma collect_retired_result:
  assumes ok: "scopes_ok m" and run: "collect_retired i m = Some (m', True)"
  shows "i < length (mc_scopes m)" "sc_state (mc_scopes m ! i) = SRetired" "sc_refs (mc_scopes m ! i) = 0"
    "sc_threads (mc_scopes m ! i) = 0" "childless (mc_scopes m) i" "others_same i (mc_scopes m) (mc_scopes m')"
    "mc_scopes m' ! i = scope_empty\<lparr>sc_generation := sc_generation (mc_scopes m ! i)\<rparr>" "scopes_ok m'"
    "\<forall>j < length (mc_scopes m). j \<noteq> i \<longrightarrow> account r (mc_scopes m' ! j) = account r (mc_scopes m ! j)"
proof -
  let ?node = "mc_scopes m ! i"
  from run show i: "i < length (mc_scopes m)" and node: "sc_state ?node = SRetired" "sc_refs ?node = 0" "sc_threads ?node = 0"
    by (auto simp: collect_retired_def nth_opt_def split: if_splits)
  have nc: "\<not> has_child (mc_scopes m) i"
    using run by (auto simp: collect_retired_def nth_opt_def split: if_splits)
  then show cl: "childless (mc_scopes m) i" by (rule no_child_childless)
  define dec where "dec = (\<lambda>s :: scope. s\<lparr>sc_children := sc_children s - 1\<rparr>)"
  obtain a1 t where t0: "(case scope_parent ?node of None \<Rightarrow> Some (mc_scopes (drop_credits i (m\<lparr>mc_memory := Some a1\<rparr>)))
      | Some p \<Rightarrow> upd_checked p dec (mc_scopes (drop_credits i (m\<lparr>mc_memory := Some a1\<rparr>)))) = Some t"
    and m': "m' = on_scopes (reset i) ((drop_credits i (m\<lparr>mc_memory := Some a1\<rparr>))\<lparr>mc_scopes := t\<rparr>)"
    using run i node nc unfolding collect_retired_def nth_opt_def Let_def dec_def
    by (auto simp: bind_eq_Some_conv simp del: scope_world_simps One_nat_def)
  have t: "t = mc_scopes m \<or> (\<exists>p. t = upd p dec (mc_scopes m))"
    using t0 by (auto simp: upd_checked_def split: option.splits if_splits)
  have len: "length t = length (mc_scopes m)" using t by auto
  have keep: "scope_shape (t ! j) = scope_shape (mc_scopes m ! j)" "account r (t ! j) = account r (mc_scopes m ! j)"
    if "j < length (mc_scopes m)" for j r
    using t that by (cases r; auto simp: nth_upd dec_def scope_shape_def)+
  have nth: "mc_scopes m' ! j = (if j = i then scope_empty\<lparr>sc_generation := sc_generation (t ! i)\<rparr> else t ! j)"
    if "j < length (mc_scopes m)" for j
    using that i len by (simp add: m' scope_world_table reset_nth)
  show i': "mc_scopes m' ! i = scope_empty\<lparr>sc_generation := sc_generation ?node\<rparr>"
    using nth [OF i] keep(1) [OF i] by (simp add: scope_shape_def)
  have len': "length (mc_scopes m') = length (mc_scopes m)" using len by (simp add: m' scope_world_table)
  show oth: "others_same i (mc_scopes m) (mc_scopes m')"
    using keep(1) nth len' by (simp add: others_same_def)
  show "\<forall>j < length (mc_scopes m). j \<noteq> i \<longrightarrow> account r (mc_scopes m' ! j) = account r (mc_scopes m ! j)"
    using keep(2) nth by simp
  have f0: "fenced_ok ((scope_world_of m)\<lparr>sw_scopes := t\<rparr>)"
  proof -
    have "fenced_ok ((scope_world_of m)\<lparr>sw_scopes := mc_scopes m\<rparr>)"
      using ok by (simp add: scopes_ok_def scope_world_of_def)
    then show ?thesis using t fenced_ok_keep [of dec _ "scope_world_of m"] ok by (auto simp: dec_def scopes_ok_def)
  qed
  have "fenced_ok (scope_world_of m')"
  proof -
    have "scope_world_of m' = reset i ((scope_world_of m)\<lparr>sw_scopes := t\<rparr>)" by (simp add: m' scope_world_table)
    then show ?thesis using reset_fenced_ok [OF f0, of i] i len by simp
  qed
  moreover have "wf_table (mc_scopes m')"
  proof (rule others_wf [OF _ cl oth])
    show "wf_table (mc_scopes m)" using ok by (simp add: scopes_ok_def)
    show "wf_scope (mc_scopes m') (mc_scopes m' ! i)" unfolding i' by (simp add: wf_scope_def scope_empty_def)
  qed
  ultimately show "scopes_ok m'" by (simp add: scopes_ok_def)
qed

lemma collect_retired_refused: "collect_retired i m = Some (m', False) \<Longrightarrow> m' = m"
  by (auto simp: collect_retired_def Let_def bind_eq_Some_conv split: if_splits)

lemma collect_first_result:
  "collect_first is m = Some (m', r) \<Longrightarrow>
     (case r of None \<Rightarrow> m' = m | Some i \<Rightarrow> i \<in> set is \<and> collect_retired i m = Some (m', True))"
proof (induction "is")
  case (Cons i "is")
  then show ?case
    using collect_retired_refused [of i m] by (auto split: option.splits prod.splits bool.splits)
qed simp

lemma scope_slot_result:
  assumes ok: "scopes_ok m" and run: "scope_slot m = Some (m', Some i)"
  shows "i < length (mc_scopes m)" "sc_state (mc_scopes m ! i) = SEmpty \<or> sc_state (mc_scopes m ! i) = SRetired"
    "childless (mc_scopes m) i" "others_same i (mc_scopes m) (mc_scopes m')" "sc_state (mc_scopes m' ! i) = SEmpty"
    "sc_generation (mc_scopes m' ! i) = sc_generation (mc_scopes m ! i)" "scopes_ok m'"
proof -
  have "i < length (mc_scopes m) \<and> (sc_state (mc_scopes m ! i) = SEmpty \<or> sc_state (mc_scopes m ! i) = SRetired) \<and>
    childless (mc_scopes m) i \<and> others_same i (mc_scopes m) (mc_scopes m') \<and> sc_state (mc_scopes m' ! i) = SEmpty \<and>
    sc_generation (mc_scopes m' ! i) = sc_generation (mc_scopes m ! i) \<and> scopes_ok m'"
  proof (cases "position (\<lambda>s. sc_state s = SEmpty) (mc_scopes m)")
    case None
    then have "collect_retired i m = Some (m', True)"
      using run collect_first_result [of "[0..<length (mc_scopes m)]" m m' "Some i"] by (simp add: scope_slot_def)
    from collect_retired_result [OF ok this] show ?thesis by (simp add: scope_empty_def)
  next
    case (Some k)
    then have "k < length (mc_scopes m)" "sc_state (mc_scopes m ! k) = SEmpty"
      using position_Some_iff [of "\<lambda>s. sc_state s = SEmpty" "mc_scopes m" k] by auto
    moreover have "m' = m" "i = k" using run Some by (auto simp: scope_slot_def)
    ultimately show ?thesis
      using ok empty_childless [of "mc_scopes m" k] by (simp add: scopes_ok_def others_same_def)
  qed
  then show "i < length (mc_scopes m)" "sc_state (mc_scopes m ! i) = SEmpty \<or> sc_state (mc_scopes m ! i) = SRetired"
    "childless (mc_scopes m) i" "others_same i (mc_scopes m) (mc_scopes m')" "sc_state (mc_scopes m' ! i) = SEmpty"
    "sc_generation (mc_scopes m' ! i) = sc_generation (mc_scopes m ! i)" "scopes_ok m'" by auto
qed

lemma open_child_result:
  fixes m :: machine and now ident :: nat and lims :: limits and label :: "u8 list"
  assumes ok: "scopes_ok m" and i: "i < length (mc_scopes m)" "childless (mc_scopes m) i"
    and p: "p < length (mc_scopes m)" "p \<noteq> i" "sc_state (mc_scopes m ! p) \<noteq> SEmpty"
    and d: "d = Suc (sc_depth (mc_scopes m ! p))" "d < MAX_SCOPE_DEPTH"
  defines "m' \<equiv> open_child i p ident d label lims now m"
  shows "scopes_ok m'" "others_same i (mc_scopes m) (mc_scopes m')"
    "scope_shape (mc_scopes m' ! i) = (SOpen, next_generation (sc_generation (mc_scopes m ! i)), ident, p, d, lims)"
proof -
  let ?g = "next_generation (sc_generation (mc_scopes m ! i))"
  let ?f = "furnish ?g ident p d label lims (now div CPU_WINDOW_NS)"
  let ?inc = "\<lambda>s :: scope. s\<lparr>sc_children := wrap_add32 (sc_children s) 1\<rparr>"
  define w1 where "w1 = reset i (scope_world_of m)"
  define w2 where "w2 = w1\<lparr>sw_scopes := upd i ?f (sw_scopes w1)\<rparr>"
  define w3 where "w3 = set_state i SOpen w2"
  define w4 where "w4 = w3\<lparr>sw_scopes := upd p ?inc (sw_scopes w3)\<rparr>"
  have w': "scope_world_of m' = w4"
    unfolding m'_def open_child_def Let_def w4_def w3_def w2_def w1_def
    by (simp add: scope_world_table)
  have t': "mc_scopes m' = sw_scopes w4" using arg_cong [OF w', of sw_scopes] by simp
  have len: "length (sw_scopes w1) = length (mc_scopes m)" "length (sw_scopes w2) = length (mc_scopes m)"
    "length (sw_scopes w3) = length (mc_scopes m)" "length (sw_scopes w4) = length (mc_scopes m)"
    by (simp_all add: w1_def w2_def w3_def w4_def)
  have nth: "sw_scopes w3 ! j = (if j = i then (?f (scope_empty\<lparr>sc_generation := sc_generation (mc_scopes m ! i)\<rparr>))\<lparr>sc_state := SOpen\<rparr>
      else mc_scopes m ! j)" if "j < length (mc_scopes m)" for j
    using that i(1) len by (simp add: w3_def set_state_scopes w2_def nth_upd w1_def reset_nth)
  have sh: "scope_shape (sw_scopes w4 ! j) = scope_shape (sw_scopes w3 ! j)" if "j < length (mc_scopes m)" for j
    using that len by (simp add: w4_def nth_upd scope_shape_def)
  show oth: "others_same i (mc_scopes m) (mc_scopes m')"
    using sh nth len by (simp add: others_same_def t')
  show shape: "scope_shape (mc_scopes m' ! i) = (SOpen, ?g, ident, p, d, lims)"
    using sh [OF i(1)] nth [OF i(1)] by (simp add: t' scope_shape_def furnish_def set_parent_def)
  have f: "fenced_ok w1" using reset_fenced_ok [of "scope_world_of m" i] ok i(1) by (simp add: w1_def scopes_ok_def)
  have st: "sc_state (?f s) = sc_state s" for s by (simp add: furnish_def set_parent_def)
  have "fenced_ok w2" using f fenced_ok_keep [of ?f i w1] st by (simp add: w2_def)
  then have "fenced_ok w3" using set_state_fenced_ok [of w2 i SOpen] i(1) len by (simp add: w3_def)
  then have f4: "fenced_ok w4" using fenced_ok_keep [of ?inc p w3] by (simp add: w4_def)
  have small: "length (mc_scopes m) \<le> NO_SCOPE" using ok by (simp add: scopes_ok_def wf_table_def)
  have par: "scope_shape (mc_scopes m' ! p) = scope_shape (mc_scopes m ! p)"
    using oth p by (simp add: others_same_def)
  have "wf_scope (mc_scopes m') (mc_scopes m' ! i)"
    using shape par p d small len by (auto simp: wf_scope_def scope_parent_def scope_shape_def t')
  then have "wf_table (mc_scopes m')"
    using ok by (intro others_wf [OF _ i(2) oth]) (simp_all add: scopes_ok_def)
  then show "scopes_ok m'" using f4 by (simp add: scopes_ok_def w')
qed

lemma others_same_trans: "others_same i t t' \<Longrightarrow> others_same i t' t'' \<Longrightarrow> others_same i t t''"
  by (simp add: others_same_def)

lemma shapes_others: "shapes m' = shapes m \<Longrightarrow> others_same i (mc_scopes m) (mc_scopes m')"
  using shape_eq_nth [of "mc_scopes m'" "mc_scopes m"] shapes_length [of m' m] by (simp add: others_same_def shapes_def)

lemma childless_others:
  assumes "childless t i" "others_same i t t'" "sc_state (t' ! i) = SEmpty"
  shows "childless t' i"
  unfolding childless_def
proof (intro allI impI)
  fix k
  assume k: "k < length t'" "sc_state (t' ! k) \<noteq> SEmpty"
  then have ne: "k \<noteq> i" "k < length t" using assms(2,3) by (auto simp: others_same_def)
  then have "scope_shape (t' ! k) = scope_shape (t ! k)" using assms(2) by (simp add: others_same_def)
  then show "scope_parent (t' ! k) \<noteq> Some i"
    using k(2) ne(2) assms(1) by (auto simp: childless_def scope_shape_def scope_parent_def)
qed

text \<open>The ways through a creation: a refusal that leaves the tree alone, or a child in a slot.\<close>

definition created :: "scope_id \<Rightarrow> scope_id \<Rightarrow> limits \<Rightarrow> scope_table \<Rightarrow> scope_table \<Rightarrow> bool" where
  "created index parent lims t t' \<longleftrightarrow> index < length t \<and> (sc_state (t ! index) = SEmpty \<or> sc_state (t ! index) = SRetired) \<and>
     childless t index \<and> others_same index t t' \<and> index \<noteq> parent \<and>
     (\<exists>ident. scope_shape (t' ! index) =
        (SOpen, next_generation (sc_generation (t ! index)), ident, parent, Suc (sc_depth (t ! parent)), lims))"

lemma create_child_cases:
  assumes ok: "scopes_ok m" and run: "create_child cx req m = Some (m', r)"
  defines "parent \<equiv> or_index (rs_object (cx_cap cx))" and "lims \<equiv> to_limits (sq_limits req)"
  shows "scopes_ok m' \<and> (case r of
      Inl st \<Rightarrow> (\<exists>i. others_same i (mc_scopes m) (mc_scopes m'))
    | Inr h \<Rightarrow> parent < length (mc_scopes m) \<and> sc_state (mc_scopes m ! parent) = SOpen \<and> fits lims (sc_limits (mc_scopes m ! parent)) \<and>
        (\<exists>index. created index parent lims (mc_scopes m) (mc_scopes m')))"
proof (cases "sl_reserved0 (sq_limits req) \<noteq> 0 \<or> sc_state (mc_scopes m ! parent) \<noteq> SOpen \<or>
    sc_depth (mc_scopes m ! parent) + 1 \<ge> MAX_SCOPE_DEPTH \<or> \<not> fits lims (sc_limits (mc_scopes m ! parent))")
  case True
  then have "m' = m \<and> (\<exists>st. r = Inl st)"
    using run by (auto simp: create_child_def Let_def nth_opt_def parent_def lims_def split: if_splits)
  then show ?thesis using ok by (auto simp: others_same_def)
next
  case False
  let ?p = "mc_scopes m ! parent"
  have p: "parent < length (mc_scopes m)" and d: "Suc (sc_depth ?p) < MAX_SCOPE_DEPTH"
    using run False by (auto simp: create_child_def Let_def nth_opt_def parent_def split: if_splits)
  obtain m1 slot where slot: "scope_slot m = Some (m1, slot)"
    and rest: "place_child cx req parent (Suc (sc_depth ?p)) (m1, slot) = Some (m', r)"
    using run False unfolding create_child_def nth_opt_def parent_def lims_def Let_def
    by (auto simp: bind_eq_Some_conv split: if_splits)
  show ?thesis
  proof (cases slot)
    case None
    then have "m1 = m"
      using slot collect_first_result [of "[0..<length (mc_scopes m)]" m m1 None] by (auto simp: scope_slot_def split: option.splits)
    then show ?thesis using rest None ok by (auto simp: others_same_def place_child_def)
  next
    case (Some index)
    note s = scope_slot_result [OF ok slot [unfolded Some]]
    obtain m2 ident where id: "charge_identity parent m1 = (m2, ident)" by fastforce
    note sh = shapes_charge_identity [OF id]
    have oth: "others_same index (mc_scopes m) (mc_scopes m2)"
      using others_same_trans [OF s(4) shapes_others [OF sh]] .
    have ok2: "scopes_ok m2" by (rule shapes_ok [OF sh s(7)])
    have ne: "index \<noteq> parent" using s(2) False by auto
    show ?thesis
    proof (cases ident)
      case None
      then show ?thesis using rest Some id oth ok2 \<open>slot = Some index\<close> by (auto simp: place_child_def)
    next
      case (Some n)
      let ?m3 = "open_child index parent n (sc_depth ?p + 1) (sq_label req) lims (cx_now cx) m2"
      have pub: "publish_object (cx_domain cx) (obj_ref_new Scope index (sc_generation (mc_scopes ?m3 ! index))) ?m3 = Some (m', r)"
        using rest \<open>slot = Some index\<close> id Some by (simp add: Let_def place_child_def lims_def)
      have sp: "scope_shape (mc_scopes m2 ! parent) = scope_shape ?p" using oth p ne by (simp add: others_same_def)
      have len2: "length (mc_scopes m2) = length (mc_scopes m)" using oth by (simp add: others_same_def)
      have si: "scope_shape (mc_scopes m2 ! index) = scope_shape (mc_scopes m1 ! index)"
        using shapes_others [OF sh, of parent] s(1,4) ne by (simp add: others_same_def)
      have e2: "sc_state (mc_scopes m2 ! index) = SEmpty" "sc_generation (mc_scopes m2 ! index) = sc_generation (mc_scopes m ! index)"
        using si s(5,6) by (simp_all add: scope_shape_def)
      have cl: "childless (mc_scopes m2) index" by (rule childless_others [OF s(3) oth e2(1)])
      have o3: "scopes_ok ?m3" "others_same index (mc_scopes m2) (mc_scopes ?m3)"
        "scope_shape (mc_scopes ?m3 ! index) = (SOpen, next_generation (sc_generation (mc_scopes m2 ! index)), n, parent, sc_depth ?p + 1, lims)"
        by (rule open_child_result [OF ok2 _ cl]; use sp s(1) p ne d False len2 in \<open>simp add: scope_shape_def\<close>)+
      note sh' = shapes_publish [OF pub]
      have i3: "index < length (mc_scopes ?m3)" using s(1) len2 o3(2) by (simp add: others_same_def)
      have "scope_shape (mc_scopes m' ! index) = scope_shape (mc_scopes ?m3 ! index)"
        using shapes_others [OF sh', of parent] ne i3 by (simp add: others_same_def)
      moreover have o': "others_same index (mc_scopes m) (mc_scopes m')"
        using others_same_trans [OF others_same_trans [OF oth o3(2)] shapes_others [OF sh']] .
      ultimately have "created index parent lims (mc_scopes m) (mc_scopes m')"
        using s ne o3(3) e2(2) by (simp add: created_def)
      then show ?thesis
        using shapes_ok [OF sh' o3(1)] o' p False by (cases r) auto
    qed
  qed
qed

section \<open>A small machine\<close>

text \<open>One domain in an open root scope, a free slot beside it, and room for a grant and a capability.\<close>

definition nursery :: "nat \<Rightarrow> nat \<Rightarrow> scope \<Rightarrow> nat \<Rightarrow> machine" where
  "nursery used k child ident = (race_at [] [grant_empty] 0 0 0 0 ident)\<lparr>mc_scopes := [(race_scope used)\<lparr>sc_children := k\<rparr>, child]\<rparr>"

definition child_request :: scope_create_request where
  "child_request = \<lparr>sq_limits = \<lparr>sl_memory_pages = 0, sl_metadata_objects = 5, sl_cpu_budget_ns = 0, sl_queue_bytes = 0,
     sl_closure_reserve_ns = 0, sl_parallelism = 0, sl_reserved0 = 0\<rparr>, sq_label = []\<rparr>"

lemma nursery_reserve:
  "used < 16 \<Longrightarrow> reserve [(race_scope used)\<lparr>sc_children := k\<rparr>, c] 0 Metadata 1 = ([(race_scope (Suc used))\<lparr>sc_children := k\<rparr>, c], True)"
  by (simp add: reserve_def chain_of_def scope_parent_def bounded_add_def sat_add64_def U64_MAX_def upd_def Let_def race_scope_def scope_empty_def)

lemma nursery_charge:
  "used < 16 \<Longrightarrow> ident < 9 \<Longrightarrow> charge_identity 0 (nursery used k c ident) = (nursery (Suc used) k c (Suc ident), Some ident)"
  using nursery_reserve [of used k c]
  by (simp add: charge_identity_def charge_metadata_def nursery_def next_id_def U64_MAX_def race_at_def machine_new_def)

definition nursling :: scope where
  "nursling = furnish 1 7 0 1 [] (to_limits (sq_limits child_request)) 0 scope_empty\<lparr>sc_state := SOpen\<rparr>"

lemma nursery_open:
  "open_child 1 0 7 1 (sq_label child_request) (to_limits (sq_limits child_request)) (cx_now wait_ctx) (nursery 3 0 scope_empty 8) =
     nursery 3 1 nursling 8"
  by (simp add: open_child_def nursery_def on_scopes_def put_scopes_def scope_world_of_def reset_def set_state_def drop_credits_def
      forget_credits_def upd_def Let_def scope_empty_def furnish_def set_parent_def nursling_def)
    (simp add: race_at_def machine_new_def race_scope_def scope_empty_def upd_def wait_ctx_def race_ctx_def child_request_def
      next_generation_def wrap_add32_def U32_MAX_def CPU_WINDOW_NS_def list_update_same_conv)

lemma nursery_install: "\<exists>h t. cap_table_install (race_caps []) (obj_ref_new Scope (Suc 0) 1) 0 = (Some (0, h), t)"
  by (simp add: cap_table_install_def install_at_def race_caps_def race_table Let_def) (simp add: cap_entry_empty_def)

lemma nursery_publish: "\<exists>m' h. publish_object (cx_domain wait_ctx) (obj_ref_new Scope 1 1) (nursery 3 1 nursling 8) = Some (m', Inr h)"
  using nursery_reserve [of 3 1 nursling] nursery_reserve [of 4 1 nursling]
    nursery_install
  by (simp add: publish_object_def nursery_def wait_ctx_def race_ctx_def grant_alloc_def child_depth_def charge_metadata_def next_id_def U64_MAX_def
    free_node_def Let_def cap_install_def)
    (auto simp: install_in_def adjust_object_refs_def obj_ref_new_def upd_checked_def upd_def grant_empty_def NO_GRANT_def U16_MAX_def)

lemma nursling_at: "(let m3 = nursery 3 (Suc 0) nursling 8 in publish_object d (obj_ref_new Scope (Suc 0) (sc_generation (mc_scopes m3 ! Suc 0))) m3) =
    publish_object d (obj_ref_new Scope (Suc 0) 1) (nursery 3 (Suc 0) nursling 8)"
  by (simp add: nursery_def nursling_def furnish_def set_parent_def)

lemma nursery_create: "\<exists>m' h. create_child wait_ctx child_request (nursery 2 0 scope_empty 7) = Some (m', Inr h)"
proof -
  have slot: "scope_slot (nursery 2 0 scope_empty 7) = Some (nursery 2 0 scope_empty 7, Some 1)"
    by (simp add: scope_slot_def nursery_def scope_empty_def)
  have pl: "create_child wait_ctx child_request (nursery 2 0 scope_empty 7) =
      place_child wait_ctx child_request 0 1 (nursery 2 0 scope_empty 7, Some 1)"
    unfolding create_child_def slot
    by (simp add: nursery_def child_request_def wait_ctx_def race_ctx_def race_scope_def scope_empty_def fits_def to_limits_def limits_default_def
      MAX_SCOPE_DEPTH_def U16_MAX_def)
  show ?thesis unfolding pl place_child_def using nursery_charge [of 2 7 0 scope_empty] nursery_open nursery_publish
      nursling_at
    by simp
qed

section \<open>Properties\<close>

text \<open>
  Creating a scope keeps the scope tree a tree and the count of fenced scopes exact, whatever it answers.
  When it answers a handle, the parent was open, the ceilings asked for fit inside the parent's, and exactly one
  slot changed hands: an empty one, or the slot of a retired scope with no scope in use below it, whose
  generation has moved on. The new scope is open, one level below the parent, with the ceilings asked for; every
  other scope in use keeps its state, identity and ceilings and its whole chain of ancestors.
\<close>

theorem create_child_keeps_tree:
  assumes "scopes_ok m" and "create_child cx req m = Some (m', r)"
  shows "scopes_ok m' \<and> (\<forall>h. r = Inr h \<longrightarrow>
    (let t = mc_scopes m; t' = mc_scopes m'; parent = or_index (rs_object (cx_cap cx)); lims = to_limits (sq_limits req) in
     parent < length t \<and> sc_state (t ! parent) = SOpen \<and> fits lims (sc_limits (t ! parent)) \<and>
     (\<exists>index < length t. (sc_state (t ! index) = SEmpty \<or> sc_state (t ! index) = SRetired) \<and> childless t index \<and>
        sc_state (t' ! index) = SOpen \<and> scope_parent (t' ! index) = Some parent \<and>
        sc_depth (t' ! index) = Suc (sc_depth (t ! parent)) \<and> sc_limits (t' ! index) = lims \<and>
        sc_generation (t' ! index) = next_generation (sc_generation (t ! index)) \<and>
        chain_of t' index = index # chain_of t parent \<and>
        (\<forall>j < length t. j \<noteq> index \<longrightarrow> scope_shape (t' ! j) = scope_shape (t ! j) \<and>
           (sc_state (t ! j) \<noteq> SEmpty \<longrightarrow> chain_of t' j = chain_of t j)))))"
proof -
  let ?t = "mc_scopes m" and ?t' = "mc_scopes m'" and ?p = "or_index (rs_object (cx_cap cx))"
  let ?lims = "to_limits (sq_limits req)"
  note res = create_child_cases [OF assms]
  have wf: "wf_table ?t" "wf_table ?t'" using assms(1) res by (simp_all add: scopes_ok_def)
  have small: "length ?t \<le> NO_SCOPE" using wf by (simp add: wf_table_def)
  have "\<exists>index < length ?t. (sc_state (?t ! index) = SEmpty \<or> sc_state (?t ! index) = SRetired) \<and> childless ?t index \<and>
        sc_state (?t' ! index) = SOpen \<and> scope_parent (?t' ! index) = Some ?p \<and>
        sc_depth (?t' ! index) = Suc (sc_depth (?t ! ?p)) \<and> sc_limits (?t' ! index) = ?lims \<and>
        sc_generation (?t' ! index) = next_generation (sc_generation (?t ! index)) \<and>
        chain_of ?t' index = index # chain_of ?t ?p \<and>
        (\<forall>j < length ?t. j \<noteq> index \<longrightarrow> scope_shape (?t' ! j) = scope_shape (?t ! j) \<and>
           (sc_state (?t ! j) \<noteq> SEmpty \<longrightarrow> chain_of ?t' j = chain_of ?t j))"
    if rh: "r = Inr h" for h
  proof -
    obtain index where p: "?p < length ?t" "sc_state (?t ! ?p) = SOpen" and c: "created index ?p ?lims ?t ?t'"
      using res rh by auto
    then have i: "index < length ?t" "childless ?t index" "others_same index ?t ?t'" "index \<noteq> ?p"
      by (simp_all add: created_def)
    obtain ident where sh: "scope_shape (?t' ! index) =
        (SOpen, next_generation (sc_generation (?t ! index)), ident, ?p, Suc (sc_depth (?t ! ?p)), ?lims)"
      using c by (auto simp: created_def)
    have par: "scope_parent (?t' ! index) = Some ?p"
      using sh p(1) small by (simp add: scope_shape_def scope_parent_def)
    have "index < length ?t'" "sc_state (?t' ! index) \<noteq> SEmpty" using sh i(1,3) by (simp_all add: scope_shape_def others_same_def)
    then have "chain_of ?t' index = index # chain_of ?t' ?p"
      using chain_rec [OF wf(2)] par by simp
    then have "chain_of ?t' index = index # chain_of ?t ?p"
      using others_chain [OF wf(1) i(2,3) p(1)] p(2) i(4) by simp
    then show ?thesis
      using c i par sh others_chain [OF wf(1) i(2,3)] by (intro exI [of _ index]) (auto simp: created_def scope_shape_def others_same_def)
  qed
  then show ?thesis using res unfolding Let_def by auto
qed

lemma create_child_keeps_tree_witness:
  "\<exists>m' h. create_child wait_ctx child_request (nursery 2 0 scope_empty 7) = Some (m', Inr h) \<and> scopes_ok m' \<and>
     (\<exists>i. sc_state (mc_scopes m' ! i) = SOpen \<and> scope_parent (mc_scopes m' ! i) = Some 0)"
proof -
  obtain m' h where run: "create_child wait_ctx child_request (nursery 2 0 scope_empty 7) = Some (m', Inr h)"
    using nursery_create by blast
  have "scopes_ok (nursery 2 0 scope_empty 7)"
    by (simp add: scopes_ok_def wf_table_def wf_scope_def nursery_def race_scope_def scope_empty_def scope_parent_def NO_SCOPE_def
        U16_MAX_def MAX_SCOPE_DEPTH_def fenced_ok_def scope_world_of_def count_fenced_def race_at_def machine_new_def)
  from create_child_keeps_tree [OF this run] run show ?thesis
    unfolding Let_def by (auto simp: wait_ctx_def race_ctx_def race_object_def obj_ref_new_def)
qed

end
