(* ===== verification/Scope_Retire.thy ===== *)
theory Scope_Retire
  imports Scope_Calls Cap_Calls Frame_Ledger Tlb
begin

text \<open>
  What retirement waits for and what it releases (\<open>kernel/src/api/scopeops.rs\<close>: \<open>retire\<close>, \<open>release_sponsored\<close>,
  \<open>withdraw_everywhere\<close>), beside the release of an unreferenced memory object (\<open>kernel/src/api/memops.rs\<close>:
  \<open>collect_memory_acked\<close>), whose conditions retirement does not share.
\<close>

section \<open>Sweeps\<close>


section \<open>What withdrawing a capability leaves alone\<close>

text \<open>An object as retirement looks at it: its generation, its owner, and whether something maps it.\<close>

fun claim_of :: "obj_kind \<Rightarrow> machine \<Rightarrow> nat \<Rightarrow> (u32 \<times> scope_id \<times> bool) option" where
  "claim_of Memory m i = Option.bind (nth_opt (mc_memories m) i) (\<lambda>o'.
     if mo_state o' = MemEmpty then None else Some (mo_generation o', mo_sponsor o', mo_map_count o' \<noteq> 0))"
| "claim_of Endpoint m i = Option.bind (nth_opt (mc_endpoint_ids m) i) (\<lambda>d.
     if ei_used d then Some (ei_generation d, ep_owner_scope (mc_endpoints m ! i), False) else None)"
| "claim_of Signal m i = Option.bind (nth_opt (mc_signals m) i) (\<lambda>s.
     if si_used s then Some (si_generation s, si_owner_scope s, False) else None)"
| "claim_of Timer m i = Option.bind (nth_opt (mc_timers m) i) (\<lambda>t.
     if tm_used t then Some (tm_generation t, tm_owner_scope t, False) else None)"
| "claim_of _ m i = None"

definition sizes :: "machine \<Rightarrow> nat list" where
  "sizes m = [length (mc_memories m), length (mc_endpoints m), length (mc_endpoint_ids m), length (mc_signals m), length (mc_timers m)]"

definition setting :: "machine \<Rightarrow> ((scope_state \<times> u32 \<times> nat \<times> nat \<times> nat \<times> limits) list \<times> nat) \<times> domain_state list \<times> nat list" where
  "setting m = (shapes m, map dm_state (mc_domains m), sizes m)"

definition caps_of :: "machine \<Rightarrow> cap_table list" where
  "caps_of m = map dm_caps (mc_domains m)"

definition steady :: "machine \<Rightarrow> machine \<Rightarrow> bool" where
  "steady m m' \<longleftrightarrow> setting m' = setting m \<and> caps_of m' = caps_of m \<and> (\<forall>k i. claim_of k m' i = claim_of k m i)"

lemma steady_refl [simp]: "steady m m"
  by (simp add: steady_def)









section \<open>Withdrawing every capability for an object\<close>

text \<open>Nothing changes but capability entries that die, and the authority invariant survives.\<close>

definition thins :: "machine \<Rightarrow> machine \<Rightarrow> bool" where
  "thins m m' \<longleftrightarrow> setting m' = setting m \<and> (\<forall>k i. claim_of k m' i = claim_of k m i) \<and>
     length (caps_of m') = length (caps_of m) \<and>
     (\<forall>d < length (caps_of m). length (caps_of m' ! d) = length (caps_of m ! d) \<and>
        (\<forall>s < length (caps_of m ! d). caps_of m' ! d ! s = caps_of m ! d ! s \<or> \<not> ce_live (caps_of m' ! d ! s))) \<and>
     (auth_ok (auth m) \<longrightarrow> auth_ok (auth m'))"



definition dead_at :: "nat \<Rightarrow> nat \<Rightarrow> obj_ref \<Rightarrow> machine \<Rightarrow> bool" where
  "dead_at d s object m \<longleftrightarrow> d < length (caps_of m) \<and> s < length (caps_of m ! d) \<and>
     \<not> (ce_live (caps_of m ! d ! s) \<and> ce_object (caps_of m ! d ! s) = object)"

lemma dead_at_thins: "dead_at d s object m \<Longrightarrow> thins m m' \<Longrightarrow> dead_at d s object m'"
  unfolding dead_at_def thins_def by metis

lemma caps_of_nth: "d < length (mc_domains m) \<Longrightarrow> caps_of m ! d = dm_caps (mc_domains m ! d)"
  by (simp add: caps_of_def)




text \<open>No domain in use still holds a capability for the object.\<close>

definition unnamed :: "obj_ref \<Rightarrow> machine \<Rightarrow> bool" where
  "unnamed object m \<longleftrightarrow> (\<forall>d < length (mc_domains m). dm_state (mc_domains m ! d) \<noteq> DomEmpty \<longrightarrow>
     (\<forall>s < MAX_CAPS. dead_at d s object m))"

lemma thins_states:
  assumes "thins m m'" 
  shows "length (mc_domains m') = length (mc_domains m)"
    "d < length (mc_domains m) \<Longrightarrow> dm_state (mc_domains m' ! d) = dm_state (mc_domains m ! d)"
proof -
  have eq: "map dm_state (mc_domains m') = map dm_state (mc_domains m)" using assms by (simp add: thins_def setting_def)
  show len: "length (mc_domains m') = length (mc_domains m)" by (rule map_eq_imp_length_eq [OF eq])
  show "dm_state (mc_domains m' ! d) = dm_state (mc_domains m ! d)" if "d < length (mc_domains m)"
    using arg_cong [OF eq, of "\<lambda>l. l ! d"] that len by simp
qed

lemma unnamed_thins: "unnamed object m \<Longrightarrow> thins m m' \<Longrightarrow> unnamed object m'"
  unfolding unnamed_def using thins_states dead_at_thins by metis


section \<open>Releasing what a perimeter sponsored\<close>

text \<open>
  How far the release has come: an object is as it was, or it was the perimeter's own and unmapped, is gone, and no
  domain in use names it any more.
\<close>

definition gone :: "scope_id \<Rightarrow> obj_kind \<Rightarrow> nat \<Rightarrow> machine \<Rightarrow> machine \<Rightarrow> bool" where
  "gone root k i m m' \<longleftrightarrow> (\<exists>g own. claim_of k m i = Some (g, own, False) \<and> is_within (mc_scopes m) root own \<and>
     unnamed (obj_ref_new k i g) m') \<and> claim_of k m' i = None"

definition sheds :: "scope_id \<Rightarrow> machine \<Rightarrow> machine \<Rightarrow> bool" where
  "sheds root m m' \<longleftrightarrow> setting m' = setting m \<and> (auth_ok (auth m) \<longrightarrow> auth_ok (auth m')) \<and>
     (\<forall>object. unnamed object m \<longrightarrow> unnamed object m') \<and>
     (\<forall>k i. claim_of k m' i = claim_of k m i \<or> gone root k i m m')"


lemma sheds_refl [simp]: "sheds root m m"
  by (simp add: sheds_def)


lemma thins_sheds: "thins m m' \<Longrightarrow> sheds root m m'"
  using unnamed_thins by (auto simp: sheds_def thins_def)











section \<open>The pass, the report and the answer\<close>














section \<open>The other way a memory object goes\<close>

text \<open>
  \<open>collect_memory_acked\<close>: the release of an object nothing refers to. The generations the processors have flushed
  past are those of the translation state \<open>t\<close>.
\<close>

definition retire_page :: "memory_object \<Rightarrow> nat \<Rightarrow> nat \<Rightarrow> frame_allocator \<Rightarrow> frame_allocator option" where
  "retire_page o' stamp page a =
     (if unat (frame_addr (mo_base o')) + page * PAGE_SIZE > U64_MAX then None
      else Some (retire_at a (page_frame o' page) (OwnScope (mo_sponsor o')) stamp))"

definition collect_memory_acked :: "bool \<Rightarrow> nat \<Rightarrow> machine \<times> tlb \<Rightarrow> (machine \<times> tlb) option" where
  "collect_memory_acked acknowledged index st =
     (case st of (m, t) \<Rightarrow>
        case nth_opt (mc_memories m) index of
          None \<Rightarrow> Some (m, t)
        | Some o' \<Rightarrow>
            if mo_state o' = MemEmpty \<or> mo_refs o' \<noteq> 0 \<or> mo_map_count o' \<noteq> 0 \<or> mo_dma_grants o' \<noteq> 0 then Some (m, t)
            else do {
              s \<leftarrow> nth_opt (mc_scopes m) (mo_sponsor o');
              if sc_state s \<noteq> SOpen \<and> sc_state s \<noteq> SFenced \<and> sc_state s \<noteq> SQuiescent then Some (m, t)
              else do {
                let immediate = (acknowledged \<or> mo_unmapped_at o' = 0 \<or> flushed_by (mo_unmapped_cpus o') (mo_unmapped_at o') t \<or>
                                 safe_generation t \<ge> mo_unmapped_at o');
                (t1, stamp) \<leftarrow> (if immediate then Some (t, 0) else retire_stamp t);
                a \<leftarrow> (if mo_pages o' = 0 then Some (mc_memory m)
                      else do { a \<leftarrow> mc_memory m;
                        map_option Some (fold_opt (if immediate then release_page o' else retire_page o' stamp) [0..<mo_pages o'] a) });
                let sc = release (release (mc_scopes m) (mo_sponsor o') MemoryPages (mo_pages o')) (mo_sponsor o') Metadata 1;
                Some (m\<lparr>mc_memory := a, mc_scopes := sc,
                        mc_memories := (mc_memories m)[index := memory_object_empty\<lparr>mo_generation := mo_generation o'\<rparr>]\<rparr>, t1) } })"

text \<open>A device may still write the object, or a processor may still translate to it.\<close>

definition reachable_still :: "tlb \<Rightarrow> memory_object \<Rightarrow> bool" where
  "reachable_still t o' \<longleftrightarrow> mo_dma_grants o' \<noteq> 0 \<or>
     (mo_unmapped_at o' \<noteq> 0 \<and> \<not> flushed_by (mo_unmapped_cpus o') (mo_unmapped_at o') t \<and> safe_generation t < mo_unmapped_at o')"

lemma retire_pages_busy: "fold_opt (retire_page o' stamp) ps a = Some a' \<Longrightarrow> fa_bitmap a' = fa_bitmap a"
  by (induction ps arbitrary: a) (auto simp: retire_page_def retire_keeps split: option.splits if_splits)

lemma collect_keeps_reachable:
  assumes "collect_memory_acked False i (m, t) = Some (m', t')" and "mc_memory m = Some a"
    and "i < length (mc_memories m)" and "reachable_still t (mc_memories m ! i)"
  shows "\<exists>a'. mc_memory m' = Some a' \<and> fa_bitmap a' = fa_bitmap a"
proof -
  let ?o = "mc_memories m ! i"
  show ?thesis
  proof (cases "mo_state ?o = MemEmpty \<or> mo_refs ?o \<noteq> 0 \<or> mo_map_count ?o \<noteq> 0 \<or> mo_dma_grants ?o \<noteq> 0")
    case True
    then show ?thesis using assms by (auto simp: collect_memory_acked_def nth_opt_def)
  next
    case False
    then have late: "\<not> (mo_unmapped_at ?o = 0 \<or> flushed_by (mo_unmapped_cpus ?o) (mo_unmapped_at ?o) t \<or> safe_generation t \<ge> mo_unmapped_at ?o)"
      using assms(4) by (auto simp: reachable_still_def)
    show ?thesis
      using assms(1-3) False late retire_pages_busy
      by (auto simp: collect_memory_acked_def nth_opt_def Let_def bind_eq_Some_conv split: if_splits)
  qed
qed

lemma withdraw_nothing:
  assumes "unnamed object m"
  shows "withdraw_everywhere object m = Some m"
proof -
  have slot: "withdraw_slot object d s m = Some m" if "dead_at d s object m" for d s
    using that caps_of_nth [of d m] by (auto simp: withdraw_slot_def dead_at_def nth_opt_def caps_of_def)
  have same: "fold_opt step xs m = Some m" if "\<And>x. x \<in> set xs \<Longrightarrow> step x m = Some m" for step :: "nat \<Rightarrow> machine \<Rightarrow> machine option" and xs
    using that by (induction xs) simp_all
  have "withdraw_domain object d m = Some m" if "d < length (mc_domains m)" for d
    using assms that slot same [of "[0..<MAX_CAPS]" "withdraw_slot object d"] by (simp add: withdraw_domain_def unnamed_def)
  then show ?thesis unfolding withdraw_everywhere_def by (intro same) simp
qed

text \<open>Releasing page after page: the frames end up free.\<close>

lemma frame_release_frees:
  assumes "div64_ok a" and "owner_slot own < length (fa_charged a)" and f: "frame_index f < fa_frames a"
  shows "\<exists>a'. frame_release a f own = Some a' \<and> div64_ok a' \<and> fa_frames a' = fa_frames a \<and>
    length (fa_charged a') = length (fa_charged a) \<and> \<not> busy a' (frame_index f) \<and> (\<forall>j. busy a' j \<longrightarrow> busy a j)"
proof (cases "busy a (frame_index f)")
  case True
  note bm = in_bitmap [OF assms(1) f]
  have "frame_release a f own = Some (given a (frame_index f) own)"
    using assms True bm by (simp add: frame_release_def Let_def frame_test_busy frame_clear_unmark given_def min_def)
  then show ?thesis
    using assms(1) bm by (auto simp: given_def busy_def bit_unmark div64_ok_def)
next
  case False
  then show ?thesis using assms in_bitmap [OF assms(1) f] by (auto simp: frame_release_def Let_def frame_test_busy)
qed

lemma release_pages_free:
  assumes "div64_ok a" and "owner_slot (OwnScope (mo_sponsor o')) < length (fa_charged a)"
    and "\<forall>page < n. unat (frame_addr (mo_base o')) + page * PAGE_SIZE \<le> U64_MAX \<and> frame_index (page_frame o' page) < fa_frames a"
  shows "\<exists>a'. fold_opt (release_page o') [0..<n] a = Some a' \<and> div64_ok a' \<and> fa_frames a' = fa_frames a \<and>
    length (fa_charged a') = length (fa_charged a) \<and> (\<forall>page < n. \<not> busy a' (frame_index (page_frame o' page)))"
  using assms(3)
proof (induction n)
  case 0
  then show ?case using assms(1) by simp
next
  case (Suc n)
  then obtain b where b: "fold_opt (release_page o') [0..<n] a = Some b" "div64_ok b" "fa_frames b = fa_frames a"
      "length (fa_charged b) = length (fa_charged a)" "\<forall>page < n. \<not> busy b (frame_index (page_frame o' page))" by auto
  obtain c where c: "frame_release b (page_frame o' n) (OwnScope (mo_sponsor o')) = Some c" "div64_ok c" "fa_frames c = fa_frames b"
      "length (fa_charged c) = length (fa_charged b)" "\<not> busy c (frame_index (page_frame o' n))" "\<forall>j. busy c j \<longrightarrow> busy b j"
    using frame_release_frees [OF b(2), of "OwnScope (mo_sponsor o')" "page_frame o' n"] assms(2) b(3,4) Suc.prems by auto
  have "release_page o' n b = Some c" using c(1) Suc.prems by (auto simp: release_page_def)
  then have "fold_opt (release_page o') [0..<Suc n] a = Some c" using b(1) by (simp add: fold_opt_append)
  then show ?case using b c by (auto simp: less_Suc_eq)
qed

section \<open>A small machine\<close>

text \<open>A root and one quiescent child, which owns a signal.\<close>
definition ward_scope :: scope where
  "ward_scope = scope_empty\<lparr>sc_state := SQuiescent, sc_parent := 0, sc_depth := 1, sc_metadata := 1\<rparr>"

definition ward :: machine where
  "ward = machine_new\<lparr>mc_domains := [], mc_scopes := [race_scope 2, ward_scope], mc_memories := [], mc_endpoints := [],
     mc_endpoint_ids := [], mc_signals := [(race_signal 0)\<lparr>si_owner_scope := 1\<rparr>], mc_timers := []\<rparr>"

definition ward_ctx :: ctx where
  "ward_ctx = (race_ctx (handle 0 1) 0 0)\<lparr>cx_cap := (cx_cap (race_ctx (handle 0 1) 0 0))\<lparr>rs_object := obj_ref_new Scope 1 1\<rparr>\<rparr>"

lemma ward_fields [simp]:
  "mc_scopes ward = [race_scope 2, ward_scope]" "mc_domains ward = []" "mc_memories ward = []" "mc_endpoints ward = []"
  "mc_endpoint_ids ward = []" "mc_signals ward = [(race_signal 0)\<lparr>si_owner_scope := 1\<rparr>]" "mc_timers ward = []"
  "mc_system_log ward = None" "mc_fenced ward = 0" "or_index (rs_object (cx_cap ward_ctx)) = 1"
  by (simp_all add: ward_def machine_new_def ward_ctx_def obj_ref_new_def)


lemma ward_within: "is_within [race_scope n, ward_scope] 1 1" "\<not> is_within [race_scope n, ward_scope] 1 0"
  by (simp_all add: is_within_def chain_of_def scope_parent_def race_scope_def ward_scope_def scope_empty_def NO_SCOPE_def U16_MAX_def)

lemma ward_scope_fields [simp]: "sc_state ward_scope = SQuiescent" "sc_parent ward_scope = 0"
  by (simp_all add: ward_scope_def)


text \<open>One page of an object that a device may still write, in a pool of four frames.\<close>

definition lent_object :: memory_object where
  "lent_object = memory_object_empty\<lparr>mo_state := MemMutable, mo_generation := 1, mo_base := frame_containing 0x1000, mo_pages := 1, mo_sponsor := 1, mo_dma_grants := 1\<rparr>"

definition lent_pool :: frame_allocator where
  "lent_pool = \<lparr>fa_bitmap = [3], fa_frames = 4, fa_free = 2, fa_usable = 4, fa_hint = 0, fa_charged = replicate OWNER_SLOTS 1, fa_quarantine = [],
     fa_quarantined = 0, fa_quarantine_peak = 0, fa_quarantine_retained = 0, fa_quarantine_released = 0, fa_pending = False, fa_ram = (\<lambda>_. 0)\<rparr>"

section \<open>Properties\<close>



text \<open>
  C40. Retirement frees memory that is still reachable. An object that a device may still write, or that a processor
  which has not flushed since its last unmapping may still translate to, is held back by the collection of
  unreferenced objects: whatever it answers, no frame of the machine becomes free. Retirement of the scope that
  sponsors the object, once nothing maps it, gives every one of its frames back to the pool at once.
\<close>

theorem retirement_frees_reachable_frames:
  assumes "i < length (mc_memories m)" and "o' = mc_memories m ! i" and "reachable_still t o'"
    and "mo_state o' \<noteq> MemEmpty" "mo_map_count o' = 0" "mo_pages o' > 0" and "is_within (mc_scopes m) root (mo_sponsor o')"
    and "unnamed (obj_ref_new Memory i (mo_generation o')) m"
    and "mc_memory m = Some a" "div64_ok a" "owner_slot (OwnScope (mo_sponsor o')) < length (fa_charged a)"
    and "\<forall>page < mo_pages o'. unat (frame_addr (mo_base o')) + page * PAGE_SIZE \<le> U64_MAX \<and> frame_index (page_frame o' page) < fa_frames a"
  shows "(\<forall>m2 t2. collect_memory_acked False i (m, t) = Some (m2, t2) \<longrightarrow> (\<exists>a2. mc_memory m2 = Some a2 \<and> (\<forall>f. busy a2 f = busy a f))) \<and>
    (\<exists>m3 a3. release_memory root i (m, p, n) = Some (m3, p + mo_pages o', Suc n) \<and> mc_memory m3 = Some a3 \<and>
       (\<forall>page < mo_pages o'. \<not> busy a3 (frame_index (page_frame o' page))))"
proof -
  have "\<exists>a2. mc_memory m2 = Some a2 \<and> (\<forall>f. busy a2 f = busy a f)"
    if "collect_memory_acked False i (m, t) = Some (m2, t2)" for m2 t2
    using collect_keeps_reachable [OF that assms(9,1)] assms(2,3) by (auto simp: busy_def)
  moreover obtain a3 where a3: "fold_opt (release_page o') [0..<mo_pages o'] a = Some a3"
      "\<forall>page < mo_pages o'. \<not> busy a3 (frame_index (page_frame o' page))"
    using release_pages_free [OF assms(10,11,12)] by blast
  moreover have "\<exists>m3. release_memory root i (m, p, n) = Some (m3, p + mo_pages o', Suc n) \<and> mc_memory m3 = Some a3"
    using a3(1) assms withdraw_nothing [OF assms(8)] by (auto simp: release_memory_def Let_def)
  ultimately show ?thesis by blast
qed

lemma retirement_frees_reachable_frames_witness:
  "\<exists>m3 a3. release_memory 1 0 (ward\<lparr>mc_memories := [lent_object], mc_memory := Some lent_pool\<rparr>, 0, 0) = Some (m3, 1, 1) \<and>
     mc_memory m3 = Some a3 \<and> busy lent_pool 1 \<and> \<not> busy a3 1"
proof -
  let ?m = "ward\<lparr>mc_memories := [lent_object], mc_memory := Some lent_pool\<rparr>"
  have at: "frame_index (page_frame lent_object 0) = 1" 
    by (simp add: page_frame_def lent_object_def frame_containing_def frame_index_def PAGE_SIZE_def)
  have busy: "busy lent_pool 1" by (simp add: busy_def lent_pool_def bit_simps)
  have pool: "div64_ok lent_pool" "owner_slot (OwnScope (mo_sponsor lent_object)) < length (fa_charged lent_pool)" "fa_frames lent_pool = 4"
    by (simp_all add: div64_ok_def lent_pool_def div_ceil_def PAGE_SIZE_def U64_MAX_def lent_object_def OWNER_SLOTS_def MAX_DOMAINS_def MAX_SCOPES_def)
  have obj: "mo_state lent_object \<noteq> MemEmpty" "mo_map_count lent_object = 0" "mo_pages lent_object = 1" "mo_sponsor lent_object = 1"
    "reachable_still t lent_object" "unat (frame_addr (mo_base lent_object)) = 0x1000" for t
    by (simp_all add: lent_object_def memory_object_empty_def reachable_still_def frame_containing_def PAGE_SIZE_def)
  have "is_within (mc_scopes ?m) 1 (mo_sponsor lent_object)" using ward_within(1) by (simp add: obj)
  moreover have "unnamed ob ?m" for ob by (simp add: unnamed_def)
  ultimately show ?thesis
    using retirement_frees_reachable_frames [of 0 ?m lent_object _ 1 lent_pool 0 0] at busy pool obj
    by (simp add: U64_MAX_def)
qed

end
