(* ===== verification/Paging.thy ===== *)
theory Paging
  imports Frame_Pool
begin

text \<open>
  Four-level page tables (\<open>kernel/src/arch/x86_64/paging.rs\<close>). Tables live in physical memory, byte for byte:
  the direct map is the allocator's \<open>fa_ram\<close>, an entry is eight of its bytes, little endian. The operations
  take and return the allocator; its panics are \<open>None\<close>. The generation each allocation may reuse is read by
  the allocator from the invalidation protocol and is an argument. The lemmas follow the tables as a tree
  of paths: mapping a page gives exactly that page its translation, unmapping takes exactly that one away.
\<close>

section \<open>Entries in memory\<close>

definition load64 :: "(u64 \<Rightarrow> u8) \<Rightarrow> u64 \<Rightarrow> u64" where
  "load64 ram a = foldr (\<lambda>i v. v OR push_bit (8 * i) (ucast (ram (a + of_nat i)))) [0..<8] 0"

definition store64 :: "(u64 \<Rightarrow> u8) \<Rightarrow> u64 \<Rightarrow> u64 \<Rightarrow> u64 \<Rightarrow> u8" where
  "store64 ram a v = (\<lambda>x. if x - a < 8 then ucast (drop_bit (8 * unat (x - a)) v) else ram x)"

definition PRESENT :: u64 where "PRESENT = push_bit 0 1"
definition WRITABLE :: u64 where "WRITABLE = push_bit 1 1"
definition USER :: u64 where "USER = push_bit 2 1"
definition WRITE_THROUGH :: u64 where "WRITE_THROUGH = push_bit 3 1"
definition CACHE_DISABLE :: u64 where "CACHE_DISABLE = push_bit 4 1"
definition HUGE :: u64 where "HUGE = push_bit 7 1"
definition GLOBAL :: u64 where "GLOBAL = push_bit 8 1"
definition NO_EXECUTE :: u64 where "NO_EXECUTE = push_bit 63 1"
definition FLAG_WRITABLE :: u64 where "FLAG_WRITABLE = WRITABLE"
definition FLAG_USER :: u64 where "FLAG_USER = USER"
definition ADDRESS_MASK :: u64 where "ADDRESS_MASK = 0x000FFFFFFFFFF000"
definition ENTRIES :: nat where "ENTRIES = 512"
definition SLOT_HHDM :: nat where "SLOT_HHDM = 256"
definition SLOT_DYNAMIC :: nat where "SLOT_DYNAMIC = 257"
definition SLOT_IMAGE :: nat where "SLOT_IMAGE = 511"
definition KERNEL_SLOTS :: "nat list" where "KERNEL_SLOTS = [SLOT_HHDM, SLOT_DYNAMIC, SLOT_IMAGE]"

lemmas pte_defs = PRESENT_def WRITABLE_def USER_def WRITE_THROUGH_def CACHE_DISABLE_def HUGE_def GLOBAL_def NO_EXECUTE_def

datatype map_error = MapRights rights_error | BadAddress | AlreadyMapped | LargePageInTheWay | MapOutOfMemory

fun map_error_name :: "map_error \<Rightarrow> string" where
  "map_error_name (MapRights e) = rights_error_name e"
| "map_error_name BadAddress = ''bad_address''"
| "map_error_name AlreadyMapped = ''already_mapped''"
| "map_error_name LargePageInTheWay = ''large_page_in_the_way''"
| "map_error_name MapOutOfMemory = ''out_of_memory''"

definition canonical :: "u64 \<Rightarrow> bool" where
  "canonical a \<longleftrightarrow> drop_bit 47 a = 0 \<or> drop_bit 47 a = 0x1FFFF"

definition pt_index :: "u64 \<Rightarrow> nat \<Rightarrow> nat" where
  "pt_index a level = unat (drop_bit (12 + 9 * level) a AND 0x1FF)"

definition entry_addr :: "frame \<Rightarrow> nat \<Rightarrow> u64" where
  "entry_addr f slot = frame_addr f + 8 * of_nat slot"

definition load_entry :: "(u64 \<Rightarrow> u8) \<Rightarrow> frame \<Rightarrow> nat \<Rightarrow> u64" where
  "load_entry ram f slot = load64 ram (entry_addr f slot)"

definition store_entry :: "frame \<Rightarrow> nat \<Rightarrow> u64 \<Rightarrow> frame_allocator \<Rightarrow> frame_allocator" where
  "store_entry f slot v a = a\<lparr>fa_ram := store64 (fa_ram a) (entry_addr f slot) v\<rparr>"

text \<open>The walk, with the reader of entries as its first argument; level 3 is the root.\<close>

fun translate_from :: "(frame \<Rightarrow> nat \<Rightarrow> u64) \<Rightarrow> frame \<Rightarrow> nat \<Rightarrow> u64 \<Rightarrow> (u64 \<times> u64) option" where
  "translate_from ent f 0 v =
     (let e = ent f (pt_index v 0) in
      if e AND PRESENT = 0 then None else Some ((e AND ADDRESS_MASK) OR (v AND 0xFFF), e))"
| "translate_from ent f (Suc l) v =
     (let e = ent f (pt_index v (Suc l)) in
      if e AND PRESENT = 0 then None
      else if e AND HUGE \<noteq> 0 then Some ((e AND ADDRESS_MASK) OR (v AND (push_bit (12 + 9 * Suc l) 1 - 1)), e)
      else translate_from ent (frame_containing (e AND ADDRESS_MASK)) l v)"

definition translate_in :: "(u64 \<Rightarrow> u8) \<Rightarrow> u64 \<Rightarrow> u64 \<Rightarrow> (u64 \<times> u64) option" where
  "translate_in ram root v =
     (if \<not> canonical v then None else translate_from (load_entry ram) (frame_containing root) 3 v)"

definition leaf_flags :: "rights \<Rightarrow> u64" where
  "leaf_flags r =
     (let f0 = PRESENT;
          f1 = (if rt_write r then f0 OR WRITABLE else f0);
          f2 = (if rt_user r then f1 OR USER else f1 OR GLOBAL);
          f3 = (if \<not> rt_execute r then f2 OR NO_EXECUTE else f2)
      in if rt_uncacheable r then f3 OR (CACHE_DISABLE OR WRITE_THROUGH) else f3)"

section \<open>Address spaces\<close>

record address_space =
  as_root :: frame

definition address_space_new :: "nat \<Rightarrow> owner \<Rightarrow> frame_allocator \<Rightarrow> (frame_allocator \<times> (map_error + address_space)) option" where
  "address_space_new safe own a = do {
     (a1, r) \<leftarrow> alloc a safe own;
     Some (a1, case r of Inl _ \<Rightarrow> Inl MapOutOfMemory | Inr f \<Rightarrow> Inr \<lparr>as_root = f\<rparr>)
   }"

definition cr3 :: "address_space \<Rightarrow> u64" where
  "cr3 s = frame_addr (as_root s)"

text \<open>One turn of the loop over the kernel slots; a turn after a failed one does nothing.\<close>

definition kernel_slot :: "(nat \<Rightarrow> nat) \<Rightarrow> frame \<Rightarrow> nat \<Rightarrow> frame_allocator \<times> (map_error + unit) \<Rightarrow> (frame_allocator \<times> (map_error + unit)) option" where
  "kernel_slot safe root slot st =
     (case st of
        (a, Inl e) \<Rightarrow> Some (a, Inl e)
      | (a, Inr _) \<Rightarrow>
          if load_entry (fa_ram a) root slot AND PRESENT = 0 then do {
            (a1, r) \<leftarrow> alloc a (safe slot) OwnKernel;
            case r of
              Inl _ \<Rightarrow> Some (a1, Inl MapOutOfMemory)
            | Inr f \<Rightarrow> Some (store_entry root slot ((frame_addr f OR PRESENT) OR WRITABLE) a1, Inr ()) }
          else Some (a, Inr ()))"

definition create_kernel_slots :: "(nat \<Rightarrow> nat) \<Rightarrow> address_space \<Rightarrow> frame_allocator \<Rightarrow> (frame_allocator \<times> (map_error + unit)) option" where
  "create_kernel_slots safe s a = fold_opt (kernel_slot safe (as_root s)) KERNEL_SLOTS (a, Inr ())"

definition attach_kernel :: "address_space \<Rightarrow> address_space \<Rightarrow> frame_allocator \<Rightarrow> frame_allocator" where
  "attach_kernel s source a =
     fold (\<lambda>slot a. store_entry (as_root s) slot (load_entry (fa_ram a) (as_root source) slot) a) KERNEL_SLOTS a"

definition pt_child ::
    "frame \<Rightarrow> nat \<Rightarrow> bool \<Rightarrow> nat \<Rightarrow> owner \<Rightarrow> frame_allocator \<Rightarrow> (frame_allocator \<times> (map_error + frame)) option" where
  "pt_child parent slot user safe own a =
     (let e = load_entry (fa_ram a) parent slot in
      if e AND PRESENT \<noteq> 0 then
        if e AND HUGE \<noteq> 0 then Some (a, Inl LargePageInTheWay)
        else let e1 = (if user then e OR USER else e); e2 = e1 OR WRITABLE
             in Some (store_entry parent slot e2 a, Inr (frame_containing (e2 AND ADDRESS_MASK)))
      else do {
        (a1, r) \<leftarrow> alloc a safe own;
        case r of
          Inl _ \<Rightarrow> Some (a1, Inl MapOutOfMemory)
        | Inr f \<Rightarrow>
            let flags = (if user then (PRESENT OR WRITABLE) OR USER else PRESENT OR WRITABLE)
            in Some (store_entry parent slot (frame_addr f OR flags) a1, Inr f) })"

text \<open>The tables from level 3 down to level 1 on the way to \<open>v\<close>; the slot is in the one they end with.\<close>

definition entry_for ::
    "frame \<Rightarrow> u64 \<Rightarrow> bool \<Rightarrow> (nat \<Rightarrow> nat) \<Rightarrow> owner \<Rightarrow> frame_allocator \<Rightarrow> (frame_allocator \<times> (map_error + frame)) option" where
  "entry_for root v user safe own a = do {
     (a1, r1) \<leftarrow> pt_child root (pt_index v 3) user (safe 3) own a;
     case r1 of Inl e \<Rightarrow> Some (a1, Inl e) | Inr pdpt \<Rightarrow> do {
       (a2, r2) \<leftarrow> pt_child pdpt (pt_index v 2) user (safe 2) own a1;
       case r2 of Inl e \<Rightarrow> Some (a2, Inl e) | Inr pd \<Rightarrow>
         pt_child pd (pt_index v 1) user (safe 1) own a2 }
   }"

definition map_page ::
    "address_space \<Rightarrow> u64 \<Rightarrow> frame \<Rightarrow> rights \<Rightarrow> (nat \<Rightarrow> nat) \<Rightarrow> owner \<Rightarrow> frame_allocator \<Rightarrow>
     (frame_allocator \<times> (map_error + unit)) option" where
  "map_page s v f r safe own a =
     (case rights_validate r of
        Inl e \<Rightarrow> Some (a, Inl (MapRights e))
      | Inr _ \<Rightarrow>
          if \<not> canonical v \<or> v mod of_nat PAGE_SIZE \<noteq> 0 then Some (a, Inl BadAddress)
          else do {
            (a1, r1) \<leftarrow> entry_for (as_root s) v (rt_user r) safe own a;
            case r1 of
              Inl e \<Rightarrow> Some (a1, Inl e)
            | Inr pt \<Rightarrow>
                if load_entry (fa_ram a1) pt (pt_index v 0) AND PRESENT \<noteq> 0 then Some (a1, Inl AlreadyMapped)
                else Some (store_entry pt (pt_index v 0) (frame_addr f OR leaf_flags r) a1, Inr ()) })"

definition LARGE :: nat where "LARGE = 2 * 1024 * 1024"

text \<open>One large page of the direct map; the address arithmetic is checked.\<close>

definition map_large ::
    "frame \<Rightarrow> nat \<Rightarrow> nat \<Rightarrow> rights \<Rightarrow> (nat \<Rightarrow> nat \<Rightarrow> nat) \<Rightarrow> nat \<Rightarrow> frame_allocator \<times> (map_error + unit) \<Rightarrow>
     (frame_allocator \<times> (map_error + unit)) option" where
  "map_large root vaddr phys r safe i st =
     (case st of
        (a, Inl e) \<Rightarrow> Some (a, Inl e)
      | (a, Inr _) \<Rightarrow> do {
          va \<leftarrow> checked_add64 vaddr (i * LARGE);
          pa \<leftarrow> checked_add64 phys (i * LARGE);
          (a1, r1) \<leftarrow> pt_child root (pt_index (of_nat va) 3) (rt_user r) (safe i 3) OwnKernel a;
          case r1 of Inl e \<Rightarrow> Some (a1, Inl e) | Inr pdpt \<Rightarrow> do {
            (a2, r2) \<leftarrow> pt_child pdpt (pt_index (of_nat va) 2) (rt_user r) (safe i 2) OwnKernel a1;
            case r2 of Inl e \<Rightarrow> Some (a2, Inl e) | Inr pd \<Rightarrow>
              if load_entry (fa_ram a2) pd (pt_index (of_nat va) 1) AND PRESENT \<noteq> 0 then Some (a2, Inl AlreadyMapped)
              else Some (store_entry pd (pt_index (of_nat va) 1) ((of_nat pa OR leaf_flags r) OR HUGE) a2, Inr ()) } })"

definition map_large_range ::
    "address_space \<Rightarrow> nat \<Rightarrow> nat \<Rightarrow> nat \<Rightarrow> rights \<Rightarrow> (nat \<Rightarrow> nat \<Rightarrow> nat) \<Rightarrow> frame_allocator \<Rightarrow>
     (frame_allocator \<times> (map_error + unit)) option" where
  "map_large_range s vaddr phys count r safe a =
     (case rights_validate r of
        Inl e \<Rightarrow> Some (a, Inl (MapRights e))
      | Inr _ \<Rightarrow>
          if vaddr mod LARGE \<noteq> 0 \<or> phys mod LARGE \<noteq> 0 then Some (a, Inl BadAddress)
          else fold_opt (map_large (as_root s) vaddr phys r safe) [0..<count] (a, Inr ()))"

definition translate :: "address_space \<Rightarrow> frame_allocator \<Rightarrow> u64 \<Rightarrow> (u64 \<times> u64) option" where
  "translate s a v = translate_in (fa_ram a) (frame_addr (as_root s)) v"

text \<open>The table of level 0 on the way to \<open>v\<close>, found without changing anything.\<close>

fun find_table :: "(frame \<Rightarrow> nat \<Rightarrow> u64) \<Rightarrow> frame \<Rightarrow> nat \<Rightarrow> u64 \<Rightarrow> frame option" where
  "find_table ent f 0 v = Some f"
| "find_table ent f (Suc l) v =
     (let e = ent f (pt_index v (Suc l)) in
      if e AND PRESENT = 0 \<or> e AND HUGE \<noteq> 0 then None
      else find_table ent (frame_containing (e AND ADDRESS_MASK)) l v)"

definition unmap_page :: "address_space \<Rightarrow> u64 \<Rightarrow> frame_allocator \<Rightarrow> frame_allocator \<times> frame option" where
  "unmap_page s v a =
     (if \<not> canonical v \<or> v mod of_nat PAGE_SIZE \<noteq> 0 then (a, None)
      else case find_table (load_entry (fa_ram a)) (as_root s) 3 v of
          None \<Rightarrow> (a, None)
        | Some f \<Rightarrow>
            let e = load_entry (fa_ram a) f (pt_index v 0) in
            if e AND PRESENT = 0 then (a, None)
            else (store_entry f (pt_index v 0) 0 a, Some (frame_containing (e AND ADDRESS_MASK))))"

record reclaimed =
  rc_data_frames :: nat
  rc_table_frames :: nat

definition reclaimed_default :: reclaimed where
  "reclaimed_default = \<lparr>rc_data_frames = 0, rc_table_frames = 0\<rparr>"

text \<open>
  The teardown of one table, entry by entry, and of the tables below it; \<open>level\<close> counts down to 1, whose
  entries are pages, so the recursion has at most three levels of 512 entries.
\<close>

fun destroy_level :: "nat \<Rightarrow> owner \<Rightarrow> nat \<Rightarrow> frame \<Rightarrow> frame_allocator \<times> reclaimed \<Rightarrow> frame_allocator \<times> reclaimed" where
  "destroy_level stamp own 0 f st = st"
| "destroy_level stamp own (Suc l) f st =
     (case fold (\<lambda>slot (a, c).
          let e = load_entry (fa_ram a) f slot in
          if e AND PRESENT = 0 then (a, c)
          else let child = frame_containing (e AND ADDRESS_MASK);
                   (a1, c1) = (if Suc l = 1 \<or> e AND HUGE \<noteq> 0
                       then (retire_at a child own stamp, c\<lparr>rc_data_frames := rc_data_frames c + 1\<rparr>)
                       else destroy_level stamp own l child (a, c))
               in (store_entry f slot 0 a1, c1)) [0..<ENTRIES] st of
        (a, c) \<Rightarrow> (retire_at a f own stamp, c\<lparr>rc_table_frames := rc_table_frames c + 1\<rparr>))"

definition destroy_user_half :: "nat \<Rightarrow> owner \<Rightarrow> address_space \<Rightarrow> frame_allocator \<Rightarrow> frame_allocator \<times> reclaimed" where
  "destroy_user_half stamp own s a =
     fold (\<lambda>slot (a, c).
         let e = load_entry (fa_ram a) (as_root s) slot in
         if e AND PRESENT = 0 then (a, c)
         else case destroy_level stamp own 3 (frame_containing (e AND ADDRESS_MASK)) (a, c) of
             (a1, c1) \<Rightarrow> (store_entry (as_root s) slot 0 a1, c1)) [0..<SLOT_HHDM] (a, reclaimed_default)"

definition release_root :: "nat \<Rightarrow> owner \<Rightarrow> address_space \<Rightarrow> frame_allocator \<Rightarrow> frame_allocator" where
  "release_root stamp own s a =
     retire_at (fold (\<lambda>slot a. store_entry (as_root s) slot 0 a) KERNEL_SLOTS a) (as_root s) own stamp"

section \<open>Memory as a map of entries\<close>

lemma bit_load64: "bit (load64 ram a) n \<longleftrightarrow> n < 64 \<and> bit (ram (a + of_nat (n div 8))) (n mod 8)"
proof -
  have gen: "bit (foldr (\<lambda>i v. v OR push_bit (8 * i) (ucast (ram (a + of_nat i)))) xs (0 :: u64)) n \<longleftrightarrow>
      n < 64 \<and> (\<exists>i \<in> set xs. 8 * i \<le> n \<and> n < 8 * i + 8 \<and> bit (ram (a + of_nat i)) (n - 8 * i))" for xs
    by (induction xs) (auto simp: bit_or_iff bit_push_bit_iff bit_ucast_iff dest: bit_imp_le_length)
  show ?thesis
  proof (cases "n < 64")
    case True
    have "(\<exists>i \<in> set [0..<8]. 8 * i \<le> n \<and> n < 8 * i + 8 \<and> bit (ram (a + of_nat i)) (n - 8 * i)) \<longleftrightarrow>
        bit (ram (a + of_nat (n div 8))) (n mod 8)" (is "?L = ?R")
    proof
      assume ?L
      then obtain i where i: "8 * i \<le> n" "n < 8 * i + 8" "bit (ram (a + of_nat i)) (n - 8 * i)" by blast
      then have "n div 8 = i" "n mod 8 = n - 8 * i" by (auto simp: div_nat_eqI modulo_nat_def)
      then show ?R using i(3) by simp
    next
      assume ?R
      moreover have "n div 8 < 8" using True by auto
      ultimately show ?L by (intro bexI [of _ "n div 8"]) (auto simp: modulo_nat_def mult.commute)
    qed
    then show ?thesis unfolding load64_def gen using True by blast
  qed (simp add: load64_def gen)
qed

lemma unat_add_small: "unat (a :: u64) + unat b < 2 ^ 64 \<Longrightarrow> unat (a + b) = unat a + unat b"
  by (simp add: unat_word_ariths)

lemma small_offset: "unat (of_nat i :: u64) = i" if "i < 4096"
  using that by (simp add: unat_of_nat take_bit_nat_eq_self)

lemma load_store_same: "load64 (store64 ram a v) a = v"
proof (rule bit_word_eqI)
  fix n assume "n < LENGTH(64)"
  moreover from this have "n div 8 < 8" by auto
  ultimately show "bit (load64 (store64 ram a v) a) n \<longleftrightarrow> bit v n"
    using small_offset [of "n div 8"]
    by (simp add: bit_load64 store64_def word_less_nat_alt bit_ucast_iff bit_drop_bit_eq)
qed

lemma load_store_other:
  assumes "unat a mod 8 = 0" "unat b mod 8 = 0" "a \<noteq> b"
  shows "load64 (store64 ram b v) a = load64 ram a"
proof (rule bit_word_eqI)
  fix n assume n: "n < LENGTH(64)"
  let ?i = "n div 8"
  have i: "?i < 8" using n by auto
  have d: "unat (a - b) mod 8 = 0"
    using assms(1,2) by (auto simp: unat_sub_if' mod_eq_0_iff_dvd dvd_diff_nat dvd_add)
  have "unat (a - b) \<noteq> 0" using assms(3) by (simp add: unat_eq_0)
  then have big: "unat (a - b) \<ge> 8" using d by (cases "unat (a - b) < 8") simp_all
  have "unat (a - b) < 2 ^ 64" using unsigned_less [of "a - b"] by simp
  then have "unat (a - b) + 8 \<le> 2 ^ 64" using d by (simp add: mod_eq_0_iff_dvd) presburger
  then have "unat (a - b + of_nat ?i) = unat (a - b) + ?i"
    using i small_offset [of ?i] by (simp add: unat_add_small)
  then have "unat (a + of_nat ?i - b) \<ge> 8" using big by (simp add: algebra_simps)
  then have "\<not> a + of_nat ?i - b < 8" unfolding word_less_nat_alt by simp
  then show "bit (load64 (store64 ram b v) a) n \<longleftrightarrow> bit (load64 ram a) n"
    by (simp add: bit_load64 store64_def)
qed

text \<open>The entries of aligned tables, as a map; everything outside a table reads as zero.\<close>

definition page_frame :: "frame \<Rightarrow> bool" where
  "page_frame f \<longleftrightarrow> frame_containing (frame_addr f) = f"

definition entries :: "(u64 \<Rightarrow> u8) \<Rightarrow> frame \<Rightarrow> nat \<Rightarrow> u64" where
  "entries ram f slot = (if page_frame f \<and> slot < ENTRIES then load_entry ram f slot else 0)"

definition set_entry :: "frame \<Rightarrow> nat \<Rightarrow> u64 \<Rightarrow> (frame \<Rightarrow> nat \<Rightarrow> u64) \<Rightarrow> frame \<Rightarrow> nat \<Rightarrow> u64" where
  "set_entry f slot v ent = ent(f := (ent f)(slot := v))"

lemma page_frame_containing [simp]: "page_frame (frame_containing x)"
  by (simp add: page_frame_def frame_addr_containing frame_containing_def page_mask bit_eq_iff bit_simps)

lemma page_frame_of [simp]: "page_frame (frame_of i)"
  by (simp add: frame_of_def)

lemma pt_index_less [simp]: "pt_index v l < ENTRIES"
proof -
  have "drop_bit (12 + 9 * l) v AND 0x1FF \<le> 0x1FF" by (rule word_and_le1)
  then show ?thesis by (simp add: pt_index_def ENTRIES_def word_le_nat_alt)
qed

lemma page_frame_base:
  assumes "page_frame f"
  obtains k where "unat (frame_addr f) = 4096 * k" "4096 * k + 4096 \<le> 2 ^ 64"
proof -
  have k: "unat (frame_addr f) = 4096 * (unat (frame_addr f) div 4096)"
    using assms unat_frame_containing [of "frame_addr f"] by (simp add: page_frame_def PAGE_SIZE_def mult.commute)
  have "unat (frame_addr f) < 2 ^ 64" using unsigned_less [of "frame_addr f"] by simp
  then have "unat (frame_addr f) div 4096 < 2 ^ 52" by (intro less_mult_imp_div_less) simp
  then have "4096 * (unat (frame_addr f) div 4096) + 4096 \<le> 2 ^ 64" by simp
  with k show ?thesis by (rule that)
qed

lemma unat_entry_addr:
  assumes "page_frame f" and "slot < ENTRIES"
  shows "unat (entry_addr f slot) = unat (frame_addr f) + 8 * slot"
proof -
  obtain k where k: "unat (frame_addr f) = 4096 * k" "4096 * k + 4096 \<le> 2 ^ 64" using page_frame_base [OF assms(1)] .
  moreover have "unat (8 * of_nat slot :: u64) = 8 * slot"
    using assms(2) by (simp add: ENTRIES_def unat_word_ariths unat_of_nat take_bit_nat_eq_self)
  ultimately show ?thesis using assms(2) by (simp add: entry_addr_def unat_add_small ENTRIES_def)
qed

lemma page_offset_eq: "(4096 * k + x :: nat) = 4096 * l + y \<longleftrightarrow> k = l \<and> x = y" if "x < 4096" "y < 4096"
proof
  assume eq: "4096 * k + x = 4096 * l + y"
  have "(4096 * k + x) div 4096 = k" "(4096 * l + y) div 4096 = l" using that by simp_all
  then show "k = l \<and> x = y" using eq by simp
qed simp

lemma frame_addr_eq: "unat (frame_addr f) = unat (frame_addr g) \<Longrightarrow> f = g"
  by (simp add: frame.expand word_unat_eq_iff)

lemma entry_addr_inj:
  assumes "page_frame f" "page_frame g" "i < ENTRIES" "j < ENTRIES"
  shows "entry_addr f i = entry_addr g j \<longleftrightarrow> f = g \<and> i = j"
proof
  obtain k where k: "unat (frame_addr f) = 4096 * k" using page_frame_base [OF assms(1)] .
  obtain l where l: "unat (frame_addr g) = 4096 * l" using page_frame_base [OF assms(2)] .
  assume "entry_addr f i = entry_addr g j"
  then have "4096 * k + 8 * i = 4096 * l + 8 * j"
    using unat_entry_addr [OF assms(1,3)] unat_entry_addr [OF assms(2,4)] k l by simp
  then have "k = l \<and> 8 * i = 8 * j" using assms(3,4) by (subst (asm) page_offset_eq) (simp_all add: ENTRIES_def)
  then show "f = g \<and> i = j" using k l frame_addr_eq [of f g] by simp
qed simp

lemma entry_addr_aligned: "page_frame f \<Longrightarrow> slot < ENTRIES \<Longrightarrow> unat (entry_addr f slot) mod 8 = 0"
proof -
  assume f: "page_frame f" and s: "slot < ENTRIES"
  obtain k where "unat (frame_addr f) = 4096 * k" using page_frame_base [OF f] .
  then have "unat (entry_addr f slot) = 8 * (512 * k + slot)" using unat_entry_addr [OF f s] by simp
  then show ?thesis by simp
qed

lemma entries_store:
  assumes "page_frame f" and "slot < ENTRIES"
  shows "entries (fa_ram (store_entry f slot v a)) = set_entry f slot v (entries (fa_ram a))"
proof (intro ext)
  fix g t
  have "load64 (store64 (fa_ram a) (entry_addr f slot) v) (entry_addr g t) = load64 (fa_ram a) (entry_addr g t)"
    if "page_frame g" "t < ENTRIES" "(g, t) \<noteq> (f, slot)"
    using that assms entry_addr_inj [of g f t slot] by (intro load_store_other) (auto simp: entry_addr_aligned)
  then show "entries (fa_ram (store_entry f slot v a)) g t = set_entry f slot v (entries (fa_ram a)) g t"
    using assms by (auto simp: entries_def set_entry_def store_entry_def load_entry_def load_store_same)
qed

lemma entries_zero:
  assumes "page_frame n"
  shows "entries (zero_frame n ram) = (entries ram)(n := (\<lambda>_. 0))"
proof (intro ext)
  fix f s
  consider "\<not> (page_frame f \<and> s < ENTRIES)" | "page_frame f" "s < ENTRIES" by blast
  then show "entries (zero_frame n ram) f s = ((entries ram)(n := (\<lambda>_. 0))) f s"
  proof cases
    case 2
    obtain k where k: "unat (frame_addr f) = 4096 * k" "4096 * k + 4096 \<le> 2 ^ 64" using page_frame_base [OF 2(1)] .
    obtain l where l: "unat (frame_addr n) = 4096 * l" using page_frame_base [OF assms] .
    have byte: "unat (entry_addr f s + of_nat i) = 4096 * k + (8 * s + i)" if "i < 8" for i
      using that 2(2) unat_entry_addr [OF 2] small_offset [of i] k by (simp add: unat_add_small ENTRIES_def)
    have "zero_frame n ram (entry_addr f s + of_nat i) = (if f = n then 0 else ram (entry_addr f s + of_nat i))" if "i < 8" for i
    proof (cases "f = n")
      case True
      then show ?thesis using that 2(2) byte [OF that] k by (simp add: zero_frame_def PAGE_SIZE_def ENTRIES_def)
    next
      case False
      then have "k \<noteq> l" using k l frame_addr_eq [of f n] by auto
      moreover have "8 * s + i < 4096" using that 2(2) by (simp add: ENTRIES_def)
      ultimately have "\<not> (4096 * l \<le> 4096 * k + (8 * s + i) \<and> 4096 * k + (8 * s + i) < 4096 * l + 4096)" by simp
      then show ?thesis using False byte [OF that] l by (auto simp: zero_frame_def PAGE_SIZE_def)
    qed
    then have "load64 (zero_frame n ram) (entry_addr f s) = (if f = n then 0 else load64 ram (entry_addr f s))"
      by (intro bit_word_eqI) (auto simp: bit_load64)
    then show ?thesis using 2 by (simp add: entries_def load_entry_def)
  qed (auto simp: entries_def)
qed

lemma translate_entries: "page_frame f \<Longrightarrow> translate_from (load_entry ram) f l v = translate_from (entries ram) f l v"
  by (induction l arbitrary: f) (simp_all add: entries_def Let_def)

lemma find_entries: "page_frame f \<Longrightarrow> find_table (load_entry ram) f l v = find_table (entries ram) f l v"
  by (induction l arbitrary: f) (simp_all add: entries_def Let_def)

section \<open>The tables as a tree\<close>

text \<open>The table a path of slots leads to; a path has at most three, from the root to a table of pages.\<close>

definition is_table :: "u64 \<Rightarrow> bool" where
  "is_table e \<longleftrightarrow> e AND PRESENT \<noteq> 0 \<and> e AND HUGE = 0"

definition entry_frame :: "u64 \<Rightarrow> frame" where
  "entry_frame e = frame_containing (e AND ADDRESS_MASK)"

fun tab :: "(frame \<Rightarrow> nat \<Rightarrow> u64) \<Rightarrow> frame \<Rightarrow> nat list \<Rightarrow> frame option" where
  "tab ent f [] = Some f"
| "tab ent f (s # p) = (if is_table (ent f s) then tab ent (entry_frame (ent f s)) p else None)"

definition tree :: "(frame \<Rightarrow> nat \<Rightarrow> u64) \<Rightarrow> frame \<Rightarrow> bool" where
  "tree ent root \<longleftrightarrow> (\<forall>p q f. length p \<le> 3 \<longrightarrow> length q \<le> 3 \<longrightarrow> tab ent root p = Some f \<longrightarrow> tab ent root q = Some f \<longrightarrow> p = q)"

definition reached :: "(frame \<Rightarrow> nat \<Rightarrow> u64) \<Rightarrow> frame \<Rightarrow> frame set" where
  "reached ent root = {f. \<exists>p. length p \<le> 3 \<and> tab ent root p = Some f}"

lemma treeD: "tree ent root \<Longrightarrow> tab ent root p = Some f \<Longrightarrow> tab ent root q = Some f \<Longrightarrow> length p \<le> 3 \<Longrightarrow> length q \<le> 3 \<Longrightarrow> p = q"
  unfolding tree_def by blast

lemma tab_append: "tab ent f (p @ q) = (case tab ent f p of None \<Rightarrow> None | Some g \<Rightarrow> tab ent g q)"
  by (induction p arbitrary: f) auto

lemma tab_snoc: "tab ent f p = Some g \<Longrightarrow> tab ent f (p @ [s]) = (if is_table (ent g s) then Some (entry_frame (ent g s)) else None)"
  by (simp add: tab_append)

definition vpath :: "u64 \<Rightarrow> nat \<Rightarrow> nat list" where
  "vpath v l = map (pt_index v) (rev [Suc l..<4])"

lemma length_vpath [simp]: "length (vpath v l) = 3 - l"
  by (simp add: vpath_def)

lemma vpath_step: "l < 3 \<Longrightarrow> vpath v l = vpath v (Suc l) @ [pt_index v (Suc l)]"
proof -
  assume "l < 3"
  then have "[Suc l..<4] = Suc l # [Suc (Suc l)..<4]" by (simp add: upt_conv_Cons)
  then show ?thesis by (simp add: vpath_def)
qed

lemma vpath_3 [simp]: "vpath v 3 = []"
  by (simp add: vpath_def)

text \<open>A walk follows the tree: below a table it sees only that table's entry and what is under it.\<close>

lemma translate_unfold:
  "translate_from ent f l v =
     (let e = ent f (pt_index v l) in
      if e AND PRESENT = 0 then None
      else if 0 < l \<and> is_table e then translate_from ent (entry_frame e) (l - 1) v
      else Some ((e AND ADDRESS_MASK) OR (v AND (push_bit (12 + 9 * l) 1 - 1)), e))"
  by (cases l) (simp_all add: is_table_def entry_frame_def Let_def)

declare translate_from.simps [simp del]

lemma translate_same:
  assumes "tab ent root (vpath v l) = Some f" and "l \<le> 3"
    and other: "\<And>k g. k \<le> l \<Longrightarrow> tab ent root (vpath v k) = Some g \<Longrightarrow>
      ent' g (pt_index v k) = ent g (pt_index v k) \<or>
      0 < k \<and> is_table (ent g (pt_index v k)) \<and> is_table (ent' g (pt_index v k)) \<and>
        entry_frame (ent' g (pt_index v k)) = entry_frame (ent g (pt_index v k))"
  shows "translate_from ent' f l v = translate_from ent f l v"
  using assms
proof (induction l arbitrary: f)
  case 0
  then show ?case using 0(3) [of 0 f] by (simp add: translate_from.simps)
next
  case (Suc l)
  let ?e = "ent f (pt_index v (Suc l))" and ?e' = "ent' f (pt_index v (Suc l))"
  have e: "?e' = ?e \<or> is_table ?e \<and> is_table ?e' \<and> entry_frame ?e' = entry_frame ?e" using Suc.prems(3) [of "Suc l" f] Suc.prems(1) by auto
  show ?case
  proof (cases "is_table ?e")
    case True
    have "tab ent root (vpath v l) = Some (entry_frame ?e)"
      using Suc.prems(1,2) True by (simp add: vpath_step tab_snoc)
    then have "translate_from ent' (entry_frame ?e) l v = translate_from ent (entry_frame ?e) l v"
      using Suc.IH Suc.prems(2,3) by auto
    then show ?thesis
      using e True by (auto simp: translate_unfold [of _ _ "Suc l"] Let_def is_table_def)
  next
    case False
    then show ?thesis using e by (simp add: translate_unfold [of _ _ "Suc l"] Let_def)
  qed
qed

lemma translate_down:
  "tab ent root (vpath v l) = Some f \<Longrightarrow> l \<le> 3 \<Longrightarrow> translate_from ent root 3 v = translate_from ent f l v"
proof (induction "3 - l" arbitrary: l f)
  case 0
  then show ?case by simp
next
  case (Suc d)
  then have l: "l < 3" by simp
  then obtain g where g: "tab ent root (vpath v (Suc l)) = Some g" "is_table (ent g (pt_index v (Suc l)))"
      "f = entry_frame (ent g (pt_index v (Suc l)))"
    using Suc.prems(1) by (auto simp: vpath_step [OF l] tab_append split: option.splits if_splits)
  have "translate_from ent root 3 v = translate_from ent g (Suc l) v" using Suc.hyps g(1) l by auto
  also have "\<dots> = translate_from ent f l v" using g(2,3) by (simp add: translate_unfold [of _ _ "Suc l"] is_table_def)
  finally show ?case .
qed

lemma vpath_last: "l \<le> 3 \<Longrightarrow> vpath v l = p @ [s] \<Longrightarrow> l < 3 \<and> vpath v (Suc l) = p \<and> pt_index v (Suc l) = s"
  using vpath_step [of l v] by (cases "l = 3") simp_all

text \<open>Widening an interior entry changes no path and no translation.\<close>

lemma widen_tab:
  assumes "is_table (ent f s)" "is_table e" "entry_frame e = entry_frame (ent f s)"
  shows "tab (set_entry f s e ent) g q = tab ent g q"
  using assms by (induction q arbitrary: g) (auto simp: set_entry_def)

lemma widen_translate:
  assumes "tree ent root" "tab ent root p = Some f" "length p \<le> 2"
    and "is_table (ent f s)" "is_table e" "entry_frame e = entry_frame (ent f s)"
  shows "translate_from (set_entry f s e ent) root 3 v = translate_from ent root 3 v"
proof (rule translate_same [where root = root])
  fix k g assume k: "k \<le> 3" and g: "tab ent root (vpath v k) = Some g"
  have "k \<noteq> 0" if "g = f"
    using treeD [OF assms(1,2), of "vpath v k"] g that assms(3) by auto
  then show "set_entry f s e ent g (pt_index v k) = ent g (pt_index v k) \<or>
      0 < k \<and> is_table (ent g (pt_index v k)) \<and> is_table (set_entry f s e ent g (pt_index v k)) \<and>
        entry_frame (set_entry f s e ent g (pt_index v k)) = entry_frame (ent g (pt_index v k))"
    using assms(4-6) by (auto simp: set_entry_def)
qed simp_all

text \<open>A new, empty table in a free slot changes no translation, and is reached by its own path only.\<close>

definition grows :: "(frame \<Rightarrow> nat \<Rightarrow> u64) \<Rightarrow> frame \<Rightarrow> nat list \<Rightarrow> frame \<Rightarrow> nat \<Rightarrow> u64 \<Rightarrow> frame \<Rightarrow> bool" where
  "grows ent root p f s e n \<longleftrightarrow> tree ent root \<and> tab ent root p = Some f \<and> length p \<le> 2 \<and>
     ent f s AND PRESENT = 0 \<and> n \<notin> reached ent root \<and> is_table e \<and> entry_frame e = n"

definition with_table :: "frame \<Rightarrow> nat \<Rightarrow> u64 \<Rightarrow> frame \<Rightarrow> (frame \<Rightarrow> nat \<Rightarrow> u64) \<Rightarrow> frame \<Rightarrow> nat \<Rightarrow> u64" where
  "with_table f s e n ent = set_entry f s e (ent(n := (\<lambda>_. 0)))"

lemma grows_apart:
  assumes "grows ent root p f s e n"
  shows "n \<noteq> f" "tab ent root q = Some g \<Longrightarrow> length q \<le> 3 \<Longrightarrow> g \<noteq> n" "tab ent root (p @ [s]) = None"
proof -
  have at: "tab ent root p = Some f" "length p \<le> 2" "n \<notin> reached ent root" "ent f s AND PRESENT = 0"
    using assms by (simp_all add: grows_def)
  show other: "tab ent root q = Some g \<Longrightarrow> length q \<le> 3 \<Longrightarrow> g \<noteq> n" for q g using at(3) by (auto simp: reached_def)
  show "n \<noteq> f" using other [OF at(1)] at(2) by simp
  show "tab ent root (p @ [s]) = None" using at by (simp add: tab_snoc is_table_def)
qed

lemma with_table_entry:
  assumes "grows ent root p f s e n"
  shows "tab ent root q = Some g \<Longrightarrow> length q \<le> 3 \<Longrightarrow> with_table f s e n ent g t = (if g = f \<and> t = s then e else ent g t)"
    and "with_table f s e n ent n t = 0"
  using grows_apart [OF assms] by (auto simp: with_table_def set_entry_def)

lemma with_table_tab:
  assumes g: "grows ent root p f s e n"
  shows "length q \<le> 3 \<Longrightarrow> tab (with_table f s e n ent) root q = (if q = p @ [s] then Some n else tab ent root q)"
proof (induction q rule: rev_induct)
  case Nil
  show ?case by simp
next
  case (snoc t q)
  have at: "tree ent root" "tab ent root p = Some f" "length p \<le> 3" "is_table e" "entry_frame e = n"
    using g by (simp_all add: grows_def)
  have q: "length q \<le> 3" using snoc.prems by simp
  show ?case
  proof (cases "tab ent root q")
    case None
    have "q \<noteq> p" using None at by auto
    moreover have "\<not> is_table (with_table f s e n ent n t)" by (simp add: with_table_entry(2) [OF g] is_table_def)
    ultimately show ?thesis using snoc.IH [OF q] None by (auto simp: tab_append)
  next
    case (Some h)
    have "q \<noteq> p @ [s]" using Some grows_apart(3) [OF g] by auto
    then have IH: "tab (with_table f s e n ent) root q = Some h" using snoc.IH [OF q] Some by simp
    have "h = f \<longleftrightarrow> q = p" using Some at(2) treeD [OF at(1) Some, of p] q at(3) by auto
    then show ?thesis
      unfolding tab_snoc [OF IH] tab_snoc [OF Some] with_table_entry(1) [OF g Some q] using at(4,5) by auto
  qed
qed

lemma with_table_tree:
  assumes g: "grows ent root p f s e n"
  shows "tree (with_table f s e n ent) root"
  unfolding tree_def
proof (intro allI impI)
  fix q r h
  assume l: "length q \<le> 3" "length r \<le> 3" and h: "tab (with_table f s e n ent) root q = Some h"
    "tab (with_table f s e n ent) root r = Some h"
  have t: "tree ent root" using g by (simp add: grows_def)
  show "q = r"
    using h l treeD [OF t, of q h r] grows_apart(2) [OF g, of q h] grows_apart(2) [OF g, of r h]
    by (auto simp: with_table_tab [OF g] split: if_splits)
qed

lemma with_table_reached:
  "grows ent root p f s e n \<Longrightarrow> reached (with_table f s e n ent) root \<subseteq> insert n (reached ent root)"
  by (auto simp: reached_def with_table_tab split: if_splits)

lemma with_table_translate:
  assumes g: "grows ent root p f s e n"
  shows "translate_from (with_table f s e n ent) root 3 v = translate_from ent root 3 v"
proof (cases "\<exists>l \<le> 3. vpath v l = p @ [s]")
  case True
  have at: "tab ent root p = Some f" "length p \<le> 2" "ent f s AND PRESENT = 0" using g by (simp_all add: grows_def)
  from True obtain l where l: "l < 3" "vpath v (Suc l) = p" "pt_index v (Suc l) = s" "vpath v l = p @ [s]"
    using vpath_last by blast
  have "translate_from ent root 3 v = translate_from ent f (Suc l) v" using translate_down l at(1) by simp
  then have "translate_from ent root 3 v = None" using at(3) l(3) by (simp add: translate_unfold [of _ _ "Suc l"])
  moreover have "tab (with_table f s e n ent) root (vpath v l) = Some n"
    unfolding l(4) using with_table_tab [OF g, of "p @ [s]"] at(2) by simp
  then have "translate_from (with_table f s e n ent) root 3 v = translate_from (with_table f s e n ent) n l v"
    using translate_down l(1) by simp
  then have "translate_from (with_table f s e n ent) root 3 v = None"
    by (simp add: translate_unfold [of _ _ l] with_table_entry(2) [OF g])
  ultimately show ?thesis by simp
next
  case False
  have at: "tree ent root" "tab ent root p = Some f" "length p \<le> 2" using g by (simp_all add: grows_def)
  show ?thesis
  proof (rule translate_same [where root = root])
    fix k h assume k: "k \<le> 3" and h: "tab ent root (vpath v k) = Some h"
    have "\<not> (h = f \<and> pt_index v k = s)"
    proof
      assume hf: "h = f \<and> pt_index v k = s"
      then have p: "vpath v k = p" using treeD [OF at(1) h, of p] at by simp
      then have "0 < k" using at(3) by (cases k) auto
      then have "vpath v (k - 1) = p @ [s]" using p hf k vpath_step [of "k - 1" v] by simp
      moreover have "k - 1 \<le> 3" using k by simp
      ultimately show False using False by blast
    qed
    then show "with_table f s e n ent h (pt_index v k) = ent h (pt_index v k) \<or>
      0 < k \<and> is_table (ent h (pt_index v k)) \<and> is_table (with_table f s e n ent h (pt_index v k)) \<and>
        entry_frame (with_table f s e n ent h (pt_index v k)) = entry_frame (ent h (pt_index v k))"
      using with_table_entry(1) [OF g h] by auto
  qed simp_all
qed

text \<open>Writing the entry of a page changes the translation of that page, and no path.\<close>

lemma leaf_tab:
  assumes "tree ent root" "tab ent root p = Some f" "length p = 3" "length q \<le> 3"
  shows "tab (set_entry f s e ent) root q = tab ent root q"
  using assms(4)
proof (induction q rule: rev_induct)
  case (snoc t q)
  show ?case
  proof (cases "tab ent root q")
    case (Some g)
    have "g \<noteq> f" using Some snoc.prems assms(3) treeD [OF assms(1,2), of q] by auto
    then show ?thesis using snoc Some by (simp add: tab_snoc set_entry_def)
  qed (use snoc in \<open>simp add: tab_append\<close>)
qed simp

lemma leaf_translate:
  assumes "tree ent root" "tab ent root p = Some f" "length p = 3"
  shows "translate_from (set_entry f s e ent) root 3 v =
    (if vpath v 0 = p \<and> pt_index v 0 = s
     then (if e AND PRESENT = 0 then None else Some ((e AND ADDRESS_MASK) OR (v AND 0xFFF), e))
     else translate_from ent root 3 v)"
proof (cases "vpath v 0 = p \<and> pt_index v 0 = s")
  case True
  then have "tab (set_entry f s e ent) root (vpath v 0) = Some f" using leaf_tab [OF assms] assms by simp
  then have "translate_from (set_entry f s e ent) root 3 v = translate_from (set_entry f s e ent) f 0 v"
    using translate_down by simp
  then show ?thesis using True by (simp add: translate_from.simps set_entry_def)
next
  case False
  have "translate_from (set_entry f s e ent) root 3 v = translate_from ent root 3 v"
  proof (rule translate_same [where root = root])
    fix k g assume k: "k \<le> 3" and g: "tab ent root (vpath v k) = Some g"
    have "vpath v k = p" if "g = f" using treeD [OF assms(1,2), of "vpath v k"] that g assms(3) by simp
    then have "g = f \<Longrightarrow> k = 0 \<and> vpath v 0 = p" using assms(3) k length_vpath [of v k] by (cases "k = 0") auto
    then show "set_entry f s e ent g (pt_index v k) = ent g (pt_index v k) \<or>
      0 < k \<and> is_table (ent g (pt_index v k)) \<and> is_table (set_entry f s e ent g (pt_index v k)) \<and>
        entry_frame (set_entry f s e ent g (pt_index v k)) = entry_frame (ent g (pt_index v k))"
      using False by (auto simp: set_entry_def)
  qed simp_all
  then show ?thesis by (simp only: False if_False)
qed

section \<open>Tables from the allocator\<close>

text \<open>A frame that is out on loan: taken, and not waiting in the quarantine to be given back.\<close>

definition lent :: "frame_allocator \<Rightarrow> nat \<Rightarrow> bool" where
  "lent a i \<longleftrightarrow> i < fa_frames a \<and> busy a i \<and> (\<forall>k. slot_used a k \<longrightarrow> slot_index a k \<noteq> i)"

definition frame_pool :: "frame_allocator \<Rightarrow> bool" where
  "frame_pool a \<longleftrightarrow> (\<exists>base held. ledger base held a)"

lemma got_frame_lends:
  assumes l: "ledger base held a" and g: "got_frame base held a own b f"
  shows "lent a i \<Longrightarrow> lent b i" "\<not> lent a (frame_index f)" "lent b (frame_index f)" "frame_pool b"
    "fa_frames b = fa_frames a" "f = frame_of (frame_index f)" "frame_index f < fa_frames a" "fa_ram b = zero_frame f (fa_ram a)"
proof -
  have q: "slot_used b k = slot_used a k" "slot_index b k = slot_index a k" for k
    using g by (simp_all add: got_frame_def slot_used_def slot_index_def)
  have "held (slot_index a k) \<noteq> None" if "slot_used a k" for k using l that by (simp add: ledger_def quarantine_ok_def)
  moreover have "held (frame_index f) = None" using g by (simp add: got_frame_def)
  ultimately have "slot_used a k \<Longrightarrow> slot_index a k \<noteq> frame_index f" for k by metis
  then show "lent a i \<Longrightarrow> lent b i" "\<not> lent a (frame_index f)" "lent b (frame_index f)" "frame_pool b"
    "fa_frames b = fa_frames a" "f = frame_of (frame_index f)" "frame_index f < fa_frames a" "fa_ram b = zero_frame f (fa_ram a)"
    using g q by (auto simp: lent_def frame_pool_def got_frame_def)
qed

lemma alloc_lends:
  assumes "frame_pool a" and own: "owner_slot own < OWNER_SLOTS" and run: "alloc a safe own = Some (b, r)"
  shows "frame_pool b \<and> fa_frames b = fa_frames a \<and> (\<forall>i. lent a i \<longrightarrow> lent b i) \<and>
    (case r of Inl _ \<Rightarrow> fa_ram b = fa_ram a
     | Inr f \<Rightarrow> f = frame_of (frame_index f) \<and> frame_index f < fa_frames a \<and> \<not> lent a (frame_index f) \<and>
         lent b (frame_index f) \<and> fa_ram b = zero_frame f (fa_ram a))"
proof -
  obtain base held where l: "ledger base held a" using assms(1) by (auto simp: frame_pool_def)
  show ?thesis
  proof (cases "fa_free a = 0")
    case False
    then obtain c f where "alloc a safe own = Some (c, Inr f)" "got_frame base held a own c f"
      using alloc_effect [OF l own, of safe] by auto
    then show ?thesis using run got_frame_lends [OF l, of own b f] by auto
  next
    case True
    obtain d where frames: "fa_frames d = fa_frames a"
        and d: "drain_quarantine a safe = Some (d, card (due safe a))" "\<forall>i. busy d i \<longleftrightarrow> busy a i \<and> i \<notin> due safe a"
        "\<forall>k. slot_used d k \<longleftrightarrow> slot_used a k \<and> qu_generation (fa_quarantine a ! k) > safe"
        "\<forall>k. slot_used d k \<longrightarrow> fa_quarantine d ! k = fa_quarantine a ! k"
      using drain_effect [OF l, of safe] by blast
    have kept: "lent d i" if "lent a i" for i
    proof -
      have "i \<notin> due safe a" using that by (auto simp: lent_def due_def due_upto_def)
      moreover have "slot_index d k = slot_index a k" if "slot_used d k" for k using d(4) that by (simp add: slot_index_def)
      ultimately show ?thesis using that d(2,3) frames by (auto simp: lent_def)
    qed
    show ?thesis
    proof (rule alloc_exhausted [OF l own True, of safe])
      fix e r'
      assume e: "drain_quarantine a safe = Some (e, card (due safe a))" "ledger base (held |` (- due safe a)) e"
        "fa_frames e = fa_frames a" "fa_ram e = fa_ram a" "free_set e = due safe a"
        "(\<exists>c f. alloc a safe own = Some (c, Inr f) \<and> got_frame base (held |` (- due safe a)) e own c f) \<or>
         (due safe a = {} \<and> alloc a safe own = Some (e, Inl OutOfMemory))"
      have de: "e = d" using e(1) d(1) by simp
      show ?thesis
      proof (cases r)
        case (Inl x)
        then have "b = e" using e(6) run by auto
        then show ?thesis using Inl e(2-4) kept de by (auto simp: frame_pool_def)
      next
        case (Inr f)
        then have g: "got_frame base (held |` (- due safe a)) e own b f" using e(6) run by auto
        note k = got_frame_lends [OF e(2) g]
        have "\<not> lent a (frame_index f)" using k(2) kept de by blast
        then show ?thesis using Inr k kept de e(3,4) by auto
      qed
    qed
  qed
qed

text \<open>Entries: the address and the flags do not meet.\<close>

definition physical :: "frame \<Rightarrow> bool" where
  "physical f \<longleftrightarrow> frame_addr f AND ADDRESS_MASK = frame_addr f"

lemma address_mask: "ADDRESS_MASK = push_bit 12 (mask 40)"
  by (simp add: ADDRESS_MASK_def mask_eq_exp_minus_1)

lemma physical_frame_of: "i < 2 ^ 40 \<Longrightarrow> physical (frame_of i)"
proof -
  assume i: "i < 2 ^ 40"
  then have b: "bit i k \<Longrightarrow> k < 40" for k using take_bit_nat_eq_self [OF i] by (metis bit_take_bit_iff)
  have "frame_addr (frame_of i) = push_bit 12 (of_nat i)"
  proof -
    have "drop_bit 12 (of_nat (i * PAGE_SIZE) :: u64) = of_nat i"
    proof (rule bit_word_eqI)
      fix k assume "k < LENGTH(64)"
      have "of_nat (i * PAGE_SIZE) = (push_bit 12 (of_nat i) :: u64)" by (simp add: PAGE_SIZE_def push_bit_eq_mult)
      then show "bit (drop_bit 12 (of_nat (i * PAGE_SIZE) :: u64)) k \<longleftrightarrow> bit (of_nat i :: u64) k"
        using b [of k] by (auto simp: bit_simps)
    qed
    then show ?thesis by (simp add: frame_of_def frame_addr_containing)
  qed
  then show ?thesis
    using b by (auto simp: physical_def address_mask bit_eq_iff bit_simps)
qed

lemma physical_page: "physical f \<Longrightarrow> page_frame f"
proof -
  assume "physical f"
  then have "frame_addr (frame_containing (frame_addr f)) = frame_addr f"
    by (auto simp: physical_def address_mask frame_addr_containing bit_eq_iff bit_simps)
  then show "page_frame f" by (simp add: page_frame_def frame.expand)
qed

lemma flag_bit: "x AND push_bit k 1 = 0 \<longleftrightarrow> \<not> bit x k" for x :: u64
  using and_exp_eq_0_iff_not_bit [of x k] by simp

lemma entry_parts:
  assumes "physical f" and "fl AND ADDRESS_MASK = 0"
  shows "(frame_addr f OR fl) AND ADDRESS_MASK = frame_addr f" "(frame_addr f OR fl) AND PRESENT = fl AND PRESENT"
    "(frame_addr f OR fl) AND HUGE = fl AND HUGE"
proof -
  have low: "\<not> bit (frame_addr f) k" if "k < 12" for k
    using assms(1) that unfolding physical_def address_mask by (metis bit_and_iff bit_push_bit_iff not_le)
  have mask: "(frame_addr f OR fl) AND m = (frame_addr f AND m) OR (fl AND m)" for m
    by (simp add: bit_eq_iff bit_simps) blast
  have "frame_addr f AND PRESENT = 0" "frame_addr f AND HUGE = 0"
    using low [of 0] low [of 7] unfolding PRESENT_def HUGE_def flag_bit by simp_all
  then show "(frame_addr f OR fl) AND ADDRESS_MASK = frame_addr f" "(frame_addr f OR fl) AND PRESENT = fl AND PRESENT"
    "(frame_addr f OR fl) AND HUGE = fl AND HUGE"
    using assms by (simp_all add: mask physical_def)
qed

lemma page_containing: "page_frame f \<Longrightarrow> frame_containing (frame_addr f) = f"
  by (simp add: page_frame_def)

lemma leaf_flags_parts: "leaf_flags r AND ADDRESS_MASK = 0" "leaf_flags r AND PRESENT \<noteq> 0" "leaf_flags r AND HUGE = 0"
  by (simp_all add: leaf_flags_def Let_def pte_defs ADDRESS_MASK_def)

lemma widen_parts:
  "((if user then e OR USER else e) OR WRITABLE) AND ADDRESS_MASK = e AND ADDRESS_MASK"
  "is_table ((if user then e OR USER else e) OR WRITABLE) = is_table e"
proof -
  have "x AND ADDRESS_MASK = 0 \<Longrightarrow> (y OR x) AND ADDRESS_MASK = y AND ADDRESS_MASK"
    "x AND PRESENT = 0 \<Longrightarrow> (y OR x) AND PRESENT = y AND PRESENT" "x AND HUGE = 0 \<Longrightarrow> (y OR x) AND HUGE = y AND HUGE" for x y :: u64
    by (auto simp: bit_eq_iff bit_simps)
  note n = this
  have z: "USER AND ADDRESS_MASK = 0" "WRITABLE AND ADDRESS_MASK = 0" "USER AND PRESENT = 0" "WRITABLE AND PRESENT = 0"
    "USER AND HUGE = 0" "WRITABLE AND HUGE = 0" by (simp_all add: pte_defs ADDRESS_MASK_def)
  show "((if user then e OR USER else e) OR WRITABLE) AND ADDRESS_MASK = e AND ADDRESS_MASK"
    "is_table ((if user then e OR USER else e) OR WRITABLE) = is_table e"
    using n z by (simp_all add: is_table_def)
qed

section \<open>Address spaces stay trees\<close>

text \<open>
  A sound space: the tables form a tree of frames that are out on loan. The frame table is bounded by what an
  entry can name, 52 bits of physical address.
\<close>

abbreviation ptes :: "frame_allocator \<Rightarrow> frame \<Rightarrow> nat \<Rightarrow> u64" where
  "ptes a \<equiv> entries (fa_ram a)"

definition space_ok :: "frame_allocator \<Rightarrow> frame \<Rightarrow> bool" where
  "space_ok a root \<longleftrightarrow> frame_pool a \<and> fa_frames a \<le> 2 ^ 40 \<and> page_frame root \<and> tree (ptes a) root \<and>
     (\<forall>f \<in> reached (ptes a) root. lent a (frame_index f))"

definition same_walks :: "frame_allocator \<Rightarrow> frame_allocator \<Rightarrow> frame \<Rightarrow> bool" where
  "same_walks a b root \<longleftrightarrow> (\<forall>v. translate_from (ptes b) root 3 v = translate_from (ptes a) root 3 v)"

lemma tab_page: "page_frame root \<Longrightarrow> tab ent root p = Some f \<Longrightarrow> page_frame f"
proof (induction p arbitrary: root)
  case (Cons s p)
  then show ?case using Cons.IH [of "entry_frame (ent root s)"] by (simp add: entry_frame_def split: if_splits)
qed simp

lemma store_keeps [simp]:
  "frame_pool (store_entry f s v a) = frame_pool a" "fa_frames (store_entry f s v a) = fa_frames a"
  "lent (store_entry f s v a) = lent a"
proof -
  have "ledger base held (store_entry f s v a) = ledger base held a" for base held
    by (simp add: ledger_defs store_entry_def div64_ok_def free_set_def busy_def slot_used_def slot_index_def [abs_def])
  then show "frame_pool (store_entry f s v a) = frame_pool a" by (simp add: frame_pool_def)
  show "fa_frames (store_entry f s v a) = fa_frames a" "lent (store_entry f s v a) = lent a"
    by (simp_all add: store_entry_def lent_def busy_def slot_used_def slot_index_def fun_eq_iff)
qed

lemma pt_child_step:
  assumes ok: "space_ok a root" and p: "tab (ptes a) root p = Some f" "length p \<le> 2" and s: "s < ENTRIES"
    and own: "owner_slot own < OWNER_SLOTS" and run: "pt_child f s user safe own a = Some (b, r)"
  shows "space_ok b root \<and> same_walks a b root \<and> (\<forall>g. r = Inr g \<longrightarrow> tab (ptes b) root (p @ [s]) = Some g)"
proof -
  have t: "tree (ptes a) root" and page: "page_frame f" and root: "page_frame root"
    using ok tab_page [of root "ptes a" p f] p(1) by (simp_all add: space_ok_def)
  have load: "load_entry (fa_ram a) f s = ptes a f s" using page s by (simp add: entries_def)
  let ?e = "ptes a f s"
  show ?thesis
  proof (cases "?e AND PRESENT = 0")
    case False
    let ?w = "(if user then ?e OR USER else ?e) OR WRITABLE"
    show ?thesis
    proof (cases "?e AND HUGE = 0")
      case True
      have tb: "is_table ?e" "is_table ?w" "entry_frame ?w = entry_frame ?e"
        using False True widen_parts [of user ?e] by (simp_all add: is_table_def entry_frame_def)
      have b: "b = store_entry f s ?w a" "r = Inr (entry_frame ?e)"
        using run False True widen_parts(1) [of user ?e] by (auto simp: pt_child_def load Let_def entry_frame_def)
      have e: "ptes b = set_entry f s ?w (ptes a)" unfolding b(1) by (rule entries_store [OF page s])
      have tab: "tab (ptes b) g q = tab (ptes a) g q" for g q unfolding e using tb by (intro widen_tab) auto
      have "tree (ptes b) root = tree (ptes a) root" "reached (ptes b) root = reached (ptes a) root"
        by (simp_all only: tree_def reached_def tab)
      moreover have "frame_pool b = frame_pool a" "fa_frames b = fa_frames a" "lent b = lent a" by (simp_all add: b(1))
      ultimately have "space_ok b root" using ok by (auto simp: space_ok_def)
      moreover have "same_walks a b root" unfolding same_walks_def e using widen_translate [OF t p, of s ?w] tb by blast
      moreover have "tab (ptes b) root (p @ [s]) = Some (entry_frame ?e)" unfolding tab using tb(1) by (simp add: tab_snoc [OF p(1)])
      ultimately show ?thesis using b(2) by simp
    next
      case huge: False
      then show ?thesis using run False ok by (auto simp: pt_child_def load Let_def same_walks_def)
    qed
  next
    case True
    from run True obtain a1 r1 where al: "alloc a safe own = Some (a1, r1)"
      by (auto simp: pt_child_def load Let_def split: Option.bind_splits)
    have pool: "frame_pool a" using ok by (simp add: space_ok_def)
    note gives = alloc_lends [OF pool own al]
    show ?thesis
    proof (cases r1)
      case (Inl x)
      then have "b = a1" "r = Inl MapOutOfMemory" using run True al by (auto simp: pt_child_def load Let_def)
      then show ?thesis using gives Inl ok by (simp add: space_ok_def same_walks_def)
    next
      case (Inr n)
      let ?fl = "if user then (PRESENT OR WRITABLE) OR USER else PRESENT OR WRITABLE" and ?v = "frame_addr n OR (if user then (PRESENT OR WRITABLE) OR USER else PRESENT OR WRITABLE)"
      have b: "b = store_entry f s ?v a1" "r = Inr n" using run True al Inr by (auto simp: pt_child_def load Let_def)
      have n: "n = frame_of (frame_index n)" "frame_index n < fa_frames a" "\<not> lent a (frame_index n)" "lent a1 (frame_index n)"
        "fa_ram a1 = zero_frame n (fa_ram a)" using gives Inr by auto
      have "frame_index n < 2 ^ 40" using n(2) ok by (simp add: space_ok_def)
      then have phys: "physical n" using physical_frame_of n(1) by metis
      have fl: "?fl AND ADDRESS_MASK = 0" "?fl AND PRESENT \<noteq> 0" "?fl AND HUGE = 0" by (simp_all add: pte_defs ADDRESS_MASK_def)
      have v: "is_table ?v" "entry_frame ?v = n"
        using entry_parts [OF phys fl(1)] fl(2,3) physical_page [OF phys] by (simp_all add: is_table_def entry_frame_def page_containing)
      have "n \<notin> reached (ptes a) root" using ok n(3) by (auto simp: space_ok_def)
      then have g: "grows (ptes a) root p f s ?v n" using t p True v by (simp add: grows_def)
      have e: "ptes b = with_table f s ?v n (ptes a)"
        unfolding b(1) entries_store [OF page s] n(5) entries_zero [OF physical_page [OF phys]] with_table_def ..
      have same: "lent b = lent a1" "frame_pool b = frame_pool a1" "fa_frames b = fa_frames a1" by (simp_all add: b(1))
      have "reached (ptes b) root \<subseteq> insert n (reached (ptes a) root)" unfolding e by (rule with_table_reached [OF g])
      then have "\<forall>h \<in> reached (ptes b) root. lent b (frame_index h)"
        using ok n(4) gives unfolding same space_ok_def by blast
      moreover have "tree (ptes b) root" unfolding e by (rule with_table_tree [OF g])
      ultimately have "space_ok b root" using ok gives same by (simp add: space_ok_def)
      moreover have "same_walks a b root" unfolding same_walks_def e using with_table_translate [OF g] by blast
      moreover have "tab (ptes b) root (p @ [s]) = Some n" unfolding e using with_table_tab [OF g, of "p @ [s]"] p(2) by simp
      ultimately show ?thesis using b(2) by simp
    qed
  qed
qed

lemma same_walks_trans: "same_walks a b root \<Longrightarrow> same_walks b c root \<Longrightarrow> same_walks a c root"
  by (simp add: same_walks_def)

lemma vpath_steps: "vpath v 2 = [pt_index v 3]" "vpath v 1 = [pt_index v 3] @ [pt_index v 2]"
  "vpath v 0 = ([pt_index v 3] @ [pt_index v 2]) @ [pt_index v 1]"
  by (simp_all add: vpath_def upt_rec numeral_eq_Suc)

lemma entry_for_step:
  assumes ok: "space_ok a root" and own: "owner_slot own < OWNER_SLOTS"
    and run: "entry_for root v user safe own a = Some (b, r)"
  shows "space_ok b root \<and> same_walks a b root \<and> (\<forall>g. r = Inr g \<longrightarrow> tab (ptes b) root (vpath v 0) = Some g)"
proof -
  from run obtain a1 r1 where c1: "pt_child root (pt_index v 3) user (safe 3) own a = Some (a1, r1)"
    by (auto simp: entry_for_def split: Option.bind_splits)
  have s1: "space_ok a1 root" "same_walks a a1 root" "\<And>g. r1 = Inr g \<Longrightarrow> tab (ptes a1) root [pt_index v 3] = Some g"
    using pt_child_step [OF ok, of "[]" root, OF _ _ _ own c1] by auto
  show ?thesis
  proof (cases r1)
    case (Inl e)
    then show ?thesis using run c1 s1 by (auto simp: entry_for_def)
  next
    case (Inr pdpt)
    from run c1 Inr obtain a2 r2 where c2: "pt_child pdpt (pt_index v 2) user (safe 2) own a1 = Some (a2, r2)"
      by (auto simp: entry_for_def split: Option.bind_splits)
    have s2: "space_ok a2 root" "same_walks a1 a2 root" "\<And>g. r2 = Inr g \<Longrightarrow> tab (ptes a2) root ([pt_index v 3] @ [pt_index v 2]) = Some g"
      using pt_child_step [OF s1(1) s1(3) [OF Inr] _ _ own c2] by auto
    show ?thesis
    proof (cases r2)
      case (Inl e)
      then show ?thesis using run c1 c2 Inr s2 s1(2) same_walks_trans by (auto simp: entry_for_def)
    next
      case pd: (Inr pd)
      have c3: "pt_child pd (pt_index v 1) user (safe 1) own a2 = Some (b, r)"
        using run c1 c2 Inr pd by (simp add: entry_for_def)
      have s3: "space_ok b root" "same_walks a2 b root"
        "\<And>g. r = Inr g \<Longrightarrow> tab (ptes b) root (([pt_index v 3] @ [pt_index v 2]) @ [pt_index v 1]) = Some g"
        using pt_child_step [OF s2(1) s2(3) [OF pd] _ _ own c3] by auto
      then show ?thesis using s1(2) s2(2) same_walks_trans unfolding vpath_steps by blast
    qed
  qed
qed

section \<open>Pages\<close>

definition same_page :: "u64 \<Rightarrow> u64 \<Rightarrow> bool" where
  "same_page v w \<longleftrightarrow> drop_bit 12 v = drop_bit 12 w"

lemma bit_pt_index: "bit (pt_index v l) k \<longleftrightarrow> k < 9 \<and> bit v (12 + 9 * l + k)"
proof -
  have "(0x1FF :: u64) = mask 9" by (simp add: mask_eq_exp_minus_1)
  then have "bit (pt_index v l) k \<longleftrightarrow> bit (drop_bit (12 + 9 * l) v AND mask 9) k"
    by (simp add: pt_index_def bit_unsigned_iff bit_imp_le_length)
  then show ?thesis by (auto simp: bit_simps ac_simps)
qed

lemma canonical_top: "canonical v \<Longrightarrow> 47 \<le> n \<Longrightarrow> n < 64 \<Longrightarrow> bit v n = bit v 47"
proof -
  assume c: "canonical v" and n: "47 \<le> n" "n < 64"
  have m: "(0x1FFFF :: u64) = mask 17" by (simp add: mask_eq_exp_minus_1)
  have b: "bit v n = bit (drop_bit 47 v) (n - 47)" "bit v 47 = bit (drop_bit 47 v) 0" using n by (simp_all add: bit_drop_bit_eq)
  from c show ?thesis
    unfolding canonical_def m
  proof
    assume d: "drop_bit 47 v = 0"
    show ?thesis unfolding b d by simp
  next
    assume d: "drop_bit 47 v = mask 17"
    show ?thesis unfolding b d using n by (auto simp: bit_mask_iff)
  qed
qed

lemma same_page_path:
  assumes "canonical v" and "canonical w"
  shows "vpath w 0 = vpath v 0 \<and> pt_index w 0 = pt_index v 0 \<longleftrightarrow> same_page v w"
proof
  assume "vpath w 0 = vpath v 0 \<and> pt_index w 0 = pt_index v 0"
  then have i: "pt_index w l = pt_index v l" if "l < 4" for l
    using that unfolding vpath_steps by (auto simp: less_Suc_eq numeral_eq_Suc)
  have low: "bit v n = bit w n" if "12 \<le> n" "n < 48" for n
  proof -
    have l: "(n - 12) div 9 < 4" using that by auto
    have n: "12 + 9 * ((n - 12) div 9) + (n - 12) mod 9 = n" using that by simp
    show ?thesis
      using bit_pt_index [of v "(n - 12) div 9" "(n - 12) mod 9"] bit_pt_index [of w "(n - 12) div 9" "(n - 12) mod 9"]
      unfolding n i [OF l] by simp
  qed
  show "same_page v w"
    unfolding same_page_def
  proof (rule bit_word_eqI)
    fix n assume "n < LENGTH(64)"
    show "bit (drop_bit 12 v) n \<longleftrightarrow> bit (drop_bit 12 w) n"
    proof (cases "12 + n < 48")
      case True
      then show ?thesis using low [of "12 + n"] by (simp add: bit_drop_bit_eq add.commute)
    next
      case False
      then show ?thesis
        using canonical_top [OF assms(1), of "12 + n"] canonical_top [OF assms(2), of "12 + n"] low [of 47]
        by (cases "12 + n < 64") (auto simp: bit_drop_bit_eq dest: bit_imp_le_length)
    qed
  qed
next
  assume "same_page v w"
  moreover have "bit x (12 + n) = bit (drop_bit 12 x) n" for x :: u64 and n by (simp add: bit_drop_bit_eq add.commute)
  ultimately have "bit v (12 + n) = bit w (12 + n)" for n by (simp add: same_page_def)
  then have "pt_index w l = pt_index v l" for l
    by (intro bit_eqI) (simp add: bit_pt_index add.assoc)
  then show "vpath w 0 = vpath v 0 \<and> pt_index w 0 = pt_index v 0" by (simp add: vpath_def)
qed

lemma translate_space: "page_frame (as_root s) \<Longrightarrow>
    translate s a v = (if canonical v then translate_from (ptes a) (as_root s) 3 v else None)"
  by (simp add: translate_def translate_in_def page_containing translate_entries)

lemma same_walks_translate: "page_frame (as_root s) \<Longrightarrow> same_walks a b (as_root s) \<Longrightarrow> translate s b v = translate s a v"
  by (simp add: translate_space same_walks_def)

text \<open>Writing the entry of the page of \<open>v\<close>: what every walk of the space sees afterwards.\<close>

lemma leaf_store:
  fixes e :: u64
  assumes ok: "space_ok a (as_root s)" and v: "canonical v" and t: "tab (ptes a) (as_root s) (vpath v 0) = Some f"
  defines "b \<equiv> store_entry f (pt_index v 0) e a"
  shows "space_ok b (as_root s)"
    and "translate s b w = (if canonical w \<and> same_page v w
      then (if e AND PRESENT = 0 then None else Some ((e AND ADDRESS_MASK) OR (w AND 0xFFF), e)) else translate s a w)"
    and "translate s a v = (let x = ptes a f (pt_index v 0) in
      if x AND PRESENT = 0 then None else Some ((x AND ADDRESS_MASK) OR (v AND 0xFFF), x))"
proof -
  have tr: "tree (ptes a) (as_root s)" and root: "page_frame (as_root s)" using ok by (simp_all add: space_ok_def)
  have page: "page_frame f" using tab_page [OF root t] .
  have e: "ptes b = set_entry f (pt_index v 0) e (ptes a)" unfolding b_def by (rule entries_store [OF page pt_index_less])
  have len: "length (vpath v 0) = 3" by simp
  have tab: "length q \<le> 3 \<Longrightarrow> tab (ptes b) (as_root s) q = tab (ptes a) (as_root s) q" for q
    unfolding e by (rule leaf_tab [OF tr t len])
  have "tree (ptes b) (as_root s)" using tr tab unfolding tree_def by metis
  moreover have "reached (ptes b) (as_root s) = reached (ptes a) (as_root s)" using tab unfolding reached_def by metis
  ultimately show "space_ok b (as_root s)" using ok by (simp add: space_ok_def b_def)
  show "translate s b w = (if canonical w \<and> same_page v w
      then (if e AND PRESENT = 0 then None else Some ((e AND ADDRESS_MASK) OR (w AND 0xFFF), e)) else translate s a w)"
    unfolding translate_space [OF root] e leaf_translate [OF tr t len] using same_page_path [OF v, of w] by auto
  show "translate s a v = (let x = ptes a f (pt_index v 0) in
      if x AND PRESENT = 0 then None else Some ((x AND ADDRESS_MASK) OR (v AND 0xFFF), x))"
    using v translate_down [OF t] by (simp add: translate_space [OF root] translate_from.simps)
qed

lemma map_page_spec:
  assumes ok: "space_ok a (as_root s)" and own: "owner_slot own < OWNER_SLOTS" and f: "physical f"
    and run: "map_page s v f r safe own a = Some (b, res)"
  shows "space_ok b (as_root s) \<and> (res = Inr () \<longrightarrow> translate s a v = None) \<and>
    (\<forall>w. translate s b w =
       (if res = Inr () \<and> canonical w \<and> same_page v w
        then Some (frame_addr f OR (w AND 0xFFF), frame_addr f OR leaf_flags r) else translate s a w))"
proof (cases "\<exists>e. rights_validate r = Inl e \<or> \<not> canonical v \<or> v mod of_nat PAGE_SIZE \<noteq> 0")
  case True
  then have "b = a" "res \<noteq> Inr ()" using run by (auto simp: map_page_def split: sum.splits if_splits)
  then show ?thesis using ok by simp
next
  case False
  then have v: "canonical v" by simp
  have root: "page_frame (as_root s)" using ok by (simp add: space_ok_def)
  from run False obtain a1 r1 where e: "entry_for (as_root s) v (rt_user r) safe own a = Some (a1, r1)"
    by (auto simp: map_page_def split: sum.splits Option.bind_splits)
  note st = entry_for_step [OF ok own e]
  show ?thesis
  proof (cases r1)
    case (Inl x)
    then have "b = a1" "res \<noteq> Inr ()" using run False e by (auto simp: map_page_def split: sum.splits)
    then show ?thesis using st same_walks_translate [OF root] by simp
  next
    case (Inr pt)
    have t: "tab (ptes a1) (as_root s) (vpath v 0) = Some pt" and ok1: "space_ok a1 (as_root s)" using st Inr by auto
    have load: "load_entry (fa_ram a1) pt (pt_index v 0) = ptes a1 pt (pt_index v 0)"
      using tab_page [OF root t] by (simp add: entries_def)
    note leaf = leaf_store [OF ok1 v t]
    show ?thesis
    proof (cases "ptes a1 pt (pt_index v 0) AND PRESENT = 0")
      case False
      then have "b = a1" "res \<noteq> Inr ()" using run \<open>\<not> (\<exists>e. _ e)\<close> e Inr by (auto simp: map_page_def load split: sum.splits)
      then show ?thesis using st same_walks_translate [OF root] by simp
    next
      case True
      then have b: "b = store_entry pt (pt_index v 0) (frame_addr f OR leaf_flags r) a1" "res = Inr ()"
        using run False e Inr by (auto simp: map_page_def load split: sum.splits)
      have "translate s a v = None" using leaf(3) True same_walks_translate [OF root, of a a1 v] st by simp
      then show ?thesis
        using leaf(1,2) b st same_walks_translate [OF root, of a a1] leaf_flags_parts entry_parts [OF f leaf_flags_parts(1)]
        by simp
    qed
  qed
qed

text \<open>
  C31. Mapping a page is exact. When it succeeds, the page had no translation and now has exactly the frame and
  the flags of the rights asked for, at every offset; every other address translates as before, and when it is
  refused every address does. In both cases the tables stay a tree of frames out on loan.
\<close>

theorem map_page_exact:
  assumes ok: "space_ok a (as_root s)" and own: "owner_slot own < OWNER_SLOTS" and f: "physical f"
    and run: "map_page s v f r safe own a = Some (b, res)"
  shows "space_ok b (as_root s) \<and> (res = Inr () \<longrightarrow> translate s a v = None) \<and>
    (\<forall>w. translate s b w =
       (if res = Inr () \<and> canonical w \<and> same_page v w
        then Some (frame_addr f OR (w AND 0xFFF), frame_addr f OR leaf_flags r) else translate s a w))"
  by (rule map_page_spec [OF assms])

section \<open>Mapping succeeds when it can\<close>

lemma alloc_succeeds:
  assumes "frame_pool a" and own: "owner_slot own < OWNER_SLOTS" and free: "0 < fa_free a"
  shows "\<exists>b f. alloc a safe own = Some (b, Inr f) \<and> fa_free b + 1 = fa_free a"
proof -
  obtain base held where l: "ledger base held a" using assms(1) by (auto simp: frame_pool_def)
  obtain b f where b: "alloc a safe own = Some (b, Inr f)" "got_frame base held a own b f"
    using alloc_effect [OF l own free, of safe] by blast
  have "free_set a = insert (frame_index f) (free_set b)" "frame_index f \<notin> free_set b"
    using b(2) by (auto simp: got_frame_def free_set_def)
  moreover have "fa_free a = card (free_set a)" "fa_free b = card (free_set b)"
    using l b(2) by (simp_all add: ledger_def pool_ok_def got_frame_def)
  ultimately show ?thesis using b(1) by simp
qed

lemma pt_child_succeeds:
  assumes ok: "space_ok a root" and t: "tab (ptes a) root (vpath v (Suc l)) = Some f" "l < 3"
    and own: "owner_slot own < OWNER_SLOTS" and free: "0 < fa_free a" and none: "translate_from (ptes a) root 3 v = None"
  shows "\<exists>b g. pt_child f (pt_index v (Suc l)) user safe own a = Some (b, Inr g) \<and> fa_free a \<le> fa_free b + 1"
proof -
  have page: "page_frame f" and pool: "frame_pool a" using ok tab_page [OF _ t(1)] by (simp_all add: space_ok_def)
  have load: "load_entry (fa_ram a) f (pt_index v (Suc l)) = ptes a f (pt_index v (Suc l))" using page by (simp add: entries_def)
  have "translate_from (ptes a) f (Suc l) v = None" using none translate_down [OF t(1)] t(2) by simp
  then have small: "ptes a f (pt_index v (Suc l)) AND PRESENT = 0 \<or> ptes a f (pt_index v (Suc l)) AND HUGE = 0"
    by (auto simp: translate_from.simps Let_def split: if_splits)
  show ?thesis
  proof (cases "ptes a f (pt_index v (Suc l)) AND PRESENT = 0")
    case True
    then show ?thesis
      using alloc_succeeds [OF pool own free, of safe] by (auto simp: pt_child_def load Let_def store_entry_def)
  next
    case False
    then show ?thesis using small by (auto simp: pt_child_def load Let_def store_entry_def)
  qed
qed

lemma pt_child_level:
  assumes "space_ok a root" "tab (ptes a) root (vpath v k) = Some f" "0 < k" "k \<le> 3" "owner_slot own < OWNER_SLOTS"
    "n < fa_free a" "translate_from (ptes a) root 3 v = None"
  obtains b g where "pt_child f (pt_index v k) user safe own a = Some (b, Inr g)" "n \<le> fa_free b"
proof -
  obtain l where "k = Suc l" using assms(3) by (cases k) auto
  then show ?thesis using pt_child_succeeds [of a root v l f own user safe] assms that by fastforce
qed

lemma map_page_succeeds:
  assumes ok: "space_ok a (as_root s)" and own: "owner_slot own < OWNER_SLOTS"
    and rights: "rights_validate r = Inr ()" and v: "canonical v" "v mod of_nat PAGE_SIZE = 0"
    and free: "3 \<le> fa_free a" and none: "translate s a v = None"
  shows "\<exists>b. map_page s v f r safe own a = Some (b, Inr ())"
proof -
  let ?r = "as_root s" and ?i = "pt_index v"
  have root: "page_frame ?r" using ok by (simp add: space_ok_def)
  have walk0: "translate_from (ptes a) ?r 3 v = None" using none v(1) by (simp add: translate_space [OF root])
  have t0: "tab (ptes a) ?r (vpath v 3) = Some ?r" by simp
  have f2: "2 < fa_free a" using free by simp
  obtain a1 g1 where c1: "pt_child ?r (?i 3) (rt_user r) (safe 3) own a = Some (a1, Inr g1)" "2 \<le> fa_free a1"
    by (rule pt_child_level [OF ok t0 _ _ own f2 walk0]) simp_all
  have s1: "space_ok a1 ?r" "same_walks a a1 ?r" "tab (ptes a1) ?r (vpath v 2) = Some g1"
    using pt_child_step [OF ok, of "[]" ?r, OF _ _ _ own c1(1)] by (auto simp: vpath_steps)
  have walk1: "translate_from (ptes a1) ?r 3 v = None" using s1(2) walk0 by (simp add: same_walks_def)
  have f1: "1 < fa_free a1" using c1(2) by simp
  obtain a2 g2 where c2: "pt_child g1 (?i 2) (rt_user r) (safe 2) own a1 = Some (a2, Inr g2)" "1 \<le> fa_free a2"
    by (rule pt_child_level [OF s1(1,3) _ _ own f1 walk1]) simp_all
  have s2: "space_ok a2 ?r" "same_walks a1 a2 ?r" "tab (ptes a2) ?r (vpath v 1) = Some g2"
    using pt_child_step [OF s1(1) s1(3) _ _ own c2(1)] unfolding vpath_steps by (auto simp del: tab.simps)
  have walk2: "translate_from (ptes a2) ?r 3 v = None" using s2(2) walk1 by (simp add: same_walks_def)
  have f0: "0 < fa_free a2" using c2(2) by simp
  obtain a3 g3 where c3: "pt_child g2 (?i 1) (rt_user r) (safe 1) own a2 = Some (a3, Inr g3)"
    by (rule pt_child_level [OF s2(1,3) _ _ own f0 walk2]) simp_all
  have s3: "space_ok a3 ?r" "same_walks a2 a3 ?r" "tab (ptes a3) ?r (vpath v 0) = Some g3"
    using pt_child_step [OF s2(1) s2(3) _ _ own c3] unfolding vpath_steps by (auto simp del: tab.simps)
  have "translate s a3 v = None" using s3(2) walk2 by (simp add: same_walks_def translate_space [OF root])
  then have "ptes a3 g3 (?i 0) AND PRESENT = 0" using leaf_store(3) [OF s3(1) v(1) s3(3)] by (auto simp: Let_def split: if_splits)
  moreover have "load_entry (fa_ram a3) g3 (?i 0) = ptes a3 g3 (?i 0)" using tab_page [OF root s3(3)] by (simp add: entries_def)
  moreover have "entry_for ?r v (rt_user r) safe own a = Some (a3, Inr g3)" using c1 c2 c3 by (simp add: entry_for_def)
  ultimately show ?thesis using rights v by (simp add: map_page_def)
qed

text \<open>
  C34. Mapping succeeds whenever it may: with rights that respect W\<open>\<oplus>\<close>X, a canonical address aligned to a page
  that has no translation, and three free frames for the tables on the way, the call maps the page.
\<close>

theorem map_page_complete:
  assumes ok: "space_ok a (as_root s)" and own: "owner_slot own < OWNER_SLOTS"
    and rights: "rights_validate r = Inr ()" and v: "canonical v" "v mod of_nat PAGE_SIZE = 0"
    and free: "3 \<le> fa_free a" and none: "translate s a v = None"
  shows "\<exists>b. map_page s v f r safe own a = Some (b, Inr ())"
  by (rule map_page_succeeds [OF assms])

section \<open>Unmapping, and no page that can be written and executed\<close>

lemma find_table_tab: "l \<le> 3 \<Longrightarrow> tab ent root (vpath v l) = Some f \<Longrightarrow> find_table ent f l v = tab ent root (vpath v 0)"
proof (induction l arbitrary: f)
  case (Suc l)
  have "find_table ent f (Suc l) v = (case tab ent root (vpath v l) of None \<Rightarrow> None | Some g \<Rightarrow> find_table ent g l v)"
    using Suc.prems vpath_step [of l v] by (auto simp: tab_snoc is_table_def entry_frame_def Let_def)
  then show ?case
  proof (cases "tab ent root (vpath v l)")
    case None
    have "tab ent root (vpath v k) = None" if "k \<le> l" for k
      using that None Suc.prems(1)
    proof (induction "l - k" arbitrary: k)
      case (Suc d)
      then have "tab ent root (vpath v (Suc k)) = None" by auto
      then show ?case using vpath_step [of k v] Suc by (simp add: tab_append)
    qed simp
    then show ?thesis using \<open>find_table ent f (Suc l) v = _\<close> None by simp
  next
    case (Some g)
    then show ?thesis using \<open>find_table ent f (Suc l) v = _\<close> Suc.IH [OF _ Some] Suc.prems(1) by simp
  qed
qed simp

lemma large_only:
  "tab ent root (vpath v 0) = None \<Longrightarrow> l \<le> 3 \<Longrightarrow> tab ent root (vpath v l) = Some f \<Longrightarrow>
     translate_from ent f l v = Some (phys, e) \<Longrightarrow> e AND HUGE \<noteq> 0"
proof (induction l arbitrary: f)
  case (Suc l)
  show ?case
  proof (cases "is_table (ent f (pt_index v (Suc l)))")
    case True
    then have "tab ent root (vpath v l) = Some (entry_frame (ent f (pt_index v (Suc l))))"
      using Suc.prems(2,3) vpath_step [of l v] by (simp add: tab_snoc)
    then show ?thesis using Suc.IH Suc.prems True by (auto simp: translate_unfold [of _ _ "Suc l"] is_table_def Let_def)
  next
    case False
    then show ?thesis using Suc.prems(4) by (auto simp: translate_unfold [of _ _ "Suc l"] is_table_def Let_def split: if_splits)
  qed
qed simp

lemma unmap_spec:
  assumes ok: "space_ok a (as_root s)" and run: "unmap_page s v a = (b, res)"
  shows "space_ok b (as_root s) \<and>
    (\<forall>w. translate s b w = (if res \<noteq> None \<and> canonical w \<and> same_page v w then None else translate s a w)) \<and>
    (\<forall>f. res = Some f \<longrightarrow> (\<exists>e. translate s a v = Some (frame_addr f, e))) \<and>
    (\<forall>phys e. res = None \<longrightarrow> v mod of_nat PAGE_SIZE = 0 \<longrightarrow> translate s a v = Some (phys, e) \<longrightarrow> e AND HUGE \<noteq> 0)"
proof -
  have root: "page_frame (as_root s)" using ok by (simp add: space_ok_def)
  have find: "find_table (load_entry (fa_ram a)) (as_root s) 3 v = tab (ptes a) (as_root s) (vpath v 0)"
    using find_table_tab [of 3 "ptes a" "as_root s" v "as_root s"] by (simp add: find_entries [OF root])
  show ?thesis
  proof (cases "res")
    case None
    then have b: "b = a" using run by (auto simp: unmap_page_def find Let_def split: if_splits option.splits)
    have "e AND HUGE \<noteq> 0" if v: "v mod of_nat PAGE_SIZE = 0" and t: "translate s a v = Some (phys, e)" for phys e
    proof (cases "tab (ptes a) (as_root s) (vpath v 0)")
      case nil: None
      then show ?thesis using large_only [OF nil, of 3 "as_root s"] t by (simp add: translate_space [OF root] split: if_splits)
    next
      case (Some f)
      have c: "canonical v" using t by (auto simp: translate_space [OF root] split: if_splits)
      have "load_entry (fa_ram a) f (pt_index v 0) = ptes a f (pt_index v 0)" using tab_page [OF root Some] by (simp add: entries_def)
      then have "ptes a f (pt_index v 0) AND PRESENT = 0"
        using run None v c Some by (auto simp: unmap_page_def find Let_def split: if_splits)
      then show ?thesis using leaf_store(3) [OF ok c Some] t by (simp add: Let_def)
    qed
    then show ?thesis using None ok b by simp
  next
    case (Some g)
    then obtain f where v: "canonical v" "v mod of_nat PAGE_SIZE = 0" and f: "tab (ptes a) (as_root s) (vpath v 0) = Some f"
      and p: "load_entry (fa_ram a) f (pt_index v 0) AND PRESENT \<noteq> 0" and b: "b = store_entry f (pt_index v 0) 0 a"
      and g: "g = frame_containing (load_entry (fa_ram a) f (pt_index v 0) AND ADDRESS_MASK)"
      using run by (auto simp: unmap_page_def find Let_def split: if_splits option.splits)
    let ?x = "ptes a f (pt_index v 0)"
    have load: "load_entry (fa_ram a) f (pt_index v 0) = ?x" using tab_page [OF root f] by (simp add: entries_def)
    note leaf = leaf_store [OF ok v(1) f]
    have "v AND 0xFFF = 0"
    proof -
      have "(0xFFF :: u64) = mask 12" by (simp add: mask_eq_exp_minus_1)
      moreover have "v AND mask 12 = v mod 2 ^ 12" by (simp only: take_bit_eq_mask [symmetric] take_bit_eq_mod)
      ultimately have "v AND 0xFFF = v mod 2 ^ 12" by (simp only:)
      then show ?thesis using v(2) by (simp add: PAGE_SIZE_def)
    qed
    moreover have "frame_addr (frame_containing (?x AND ADDRESS_MASK)) = ?x AND ADDRESS_MASK"
      by (auto simp: frame_addr_containing address_mask bit_eq_iff bit_simps)
    ultimately have "translate s a v = Some (frame_addr g, ?x)" using leaf(3) p unfolding load g by (simp add: Let_def)
    moreover have "translate s b w = (if canonical w \<and> same_page v w then None else translate s a w)" for w
      unfolding b using leaf(2) [where e = 0 and w = w] by simp
    ultimately show ?thesis using Some leaf(1) [where e = 0] unfolding b by simp
  qed
qed

text \<open>
  C32. Unmapping is exact. A frame it returns is the one the page translated to; afterwards that page has no
  translation and every other address translates as before. It returns none, and changes nothing, only when
  the page has no translation, or is part of a large page, or is not a page boundary.
\<close>

theorem unmap_page_exact:
  assumes ok: "space_ok a (as_root s)" and run: "unmap_page s v a = (b, res)"
  shows "space_ok b (as_root s) \<and>
    (\<forall>w. translate s b w = (if res \<noteq> None \<and> canonical w \<and> same_page v w then None else translate s a w)) \<and>
    (\<forall>f. res = Some f \<longrightarrow> (\<exists>e. translate s a v = Some (frame_addr f, e))) \<and>
    (\<forall>phys e. res = None \<longrightarrow> v mod of_nat PAGE_SIZE = 0 \<longrightarrow> translate s a v = Some (phys, e) \<longrightarrow> e AND HUGE \<noteq> 0)"
  by (rule unmap_spec [OF assms])

definition wx_free :: "address_space \<Rightarrow> frame_allocator \<Rightarrow> bool" where
  "wx_free s a \<longleftrightarrow> (\<forall>v phys e. translate s a v = Some (phys, e) \<longrightarrow> e AND WRITABLE = 0 \<or> e AND NO_EXECUTE \<noteq> 0)"

lemma mapped_spec:
  assumes ok: "space_ok a (as_root s)" and own: "owner_slot own < OWNER_SLOTS" and f: "physical f"
    and run: "map_page s v f r safe own a = Some (b, res)" and t: "translate s b w = Some (phys, e)"
  shows "translate s a w = Some (phys, e) \<or> res = Inr () \<and> e = frame_addr f OR leaf_flags r"
  using map_page_spec [OF ok own f run] t by (auto split: if_splits)

lemma leaf_wx:
  assumes f: "physical f" and r: "rights_validate r = Inr ()"
  shows "(frame_addr f OR leaf_flags r) AND WRITABLE = 0 \<or> (frame_addr f OR leaf_flags r) AND NO_EXECUTE \<noteq> 0"
proof -
  have low: "\<not> bit (frame_addr f) 1"
    using f unfolding physical_def address_mask by (metis bit_and_iff bit_push_bit_iff not_le one_less_numeral_iff semiring_norm(76) semiring_norm(77))
  show ?thesis
    using r low unfolding WRITABLE_def NO_EXECUTE_def flag_bit
    by (auto simp: leaf_flags_def Let_def pte_defs rights_validate_def bit_simps split: if_splits)
qed

text \<open>
  C33. No page is ever both writable and executable: mapping and unmapping keep every translation of the space
  free of entries that allow writing and do not forbid execution, whatever rights are asked for.
\<close>

theorem no_page_writable_and_executable:
  assumes ok: "space_ok a (as_root s)" and own: "owner_slot own < OWNER_SLOTS" and f: "physical f" and wx: "wx_free s a"
  shows "(\<forall>v r safe b res. map_page s v f r safe own a = Some (b, res) \<longrightarrow> wx_free s b) \<and>
    (\<forall>v b res. unmap_page s v a = (b, res) \<longrightarrow> wx_free s b)"
proof (intro conjI allI impI)
  fix v r safe b res assume run: "map_page s v f r safe own a = Some (b, res)"
  have valid: "res = Inr () \<Longrightarrow> rights_validate r = Inr ()" using run by (auto simp: map_page_def split: sum.splits)
  show "wx_free s b"
    unfolding wx_free_def
  proof (intro allI impI)
    fix w phys e assume "translate s b w = Some (phys, e)"
    then show "e AND WRITABLE = 0 \<or> e AND NO_EXECUTE \<noteq> 0"
      using mapped_spec [OF ok own f run] valid leaf_wx [OF f, of r] wx unfolding wx_free_def by blast
  qed
next
  fix v b res assume "unmap_page s v a = (b, res)"
  then show "wx_free s b" using unmap_spec [OF ok] wx unfolding wx_free_def by (metis option.distinct(1))
qed

section \<open>A new space, and witnesses\<close>

lemma empty_tab: "(\<And>t. ent f t = 0) \<Longrightarrow> tab ent f p = Some g \<Longrightarrow> p = [] \<and> g = f"
  by (cases p) (auto simp: is_table_def split: if_splits)

lemma new_space:
  assumes pool: "frame_pool a" "fa_frames a \<le> 2 ^ 40" and own: "owner_slot own < OWNER_SLOTS" and free: "0 < fa_free a"
  shows "\<exists>b s. address_space_new safe own a = Some (b, Inr s) \<and> space_ok b (as_root s) \<and> (\<forall>v. translate s b v = None) \<and>
    fa_free b + 1 = fa_free a \<and> fa_frames b = fa_frames a"
proof -
  obtain b f where b: "alloc a safe own = Some (b, Inr f)" "fa_free b + 1 = fa_free a" using alloc_succeeds [OF pool(1) own free] by blast
  have n: "f = frame_of (frame_index f)" "lent b (frame_index f)" "fa_ram b = zero_frame f (fa_ram a)" "frame_pool b"
    "fa_frames b = fa_frames a" using alloc_lends [OF pool(1) own b(1)] by auto
  have page: "page_frame f" using n(1) page_frame_of by metis
  have zero: "ptes b f t = 0" for t using entries_zero [OF page, of "fa_ram a"] n(3) by simp
  have only: "tab (ptes b) f p = Some g \<Longrightarrow> p = [] \<and> g = f" for p g by (rule empty_tab) (rule zero)
  have "tree (ptes b) f" unfolding tree_def using only by blast
  moreover have "reached (ptes b) f = {f}" using only by (auto simp: reached_def intro: exI [of _ "[]"])
  ultimately have "space_ok b f" using n pool(2) page by (simp add: space_ok_def)
  moreover have "translate_from (ptes b) f 3 v = None" for v using zero by (simp add: translate_unfold [of _ _ 3])
  then have "translate \<lparr>as_root = f\<rparr> b v = None" for v using page by (simp add: translate_space)
  ultimately show ?thesis using b n(5) by (intro exI [of _ b] exI [of _ "\<lparr>as_root = f\<rparr>"]) (simp add: address_space_new_def)
qed

text \<open>A space on the small pool, and a page of it for the user.\<close>

lemma small_space: "\<exists>a s. space_ok a (as_root s) \<and> (\<forall>v. translate s a v = None) \<and> fa_free a = 6 \<and> fa_frames a = 8"
proof -
  obtain a where a: "ledger (bitmap_charge 8) Map.empty a" "fa_free a = 7" "fa_frames a = 8" using small_pool by metis
  have "frame_pool a" "fa_frames a \<le> 2 ^ 40" "0 < fa_free a" using a by (auto simp: frame_pool_def)
  from new_space [OF this(1,2) own_ok(2) this(3), of 0] show ?thesis using a(2,3) by auto
qed

abbreviation user_rw :: rights where
  "user_rw \<equiv> rights_user True True False"

lemma small_page: "rights_validate user_rw = Inr ()" "canonical 0x400000"
  "(0x400000 :: u64) mod of_nat PAGE_SIZE = 0" "physical (frame_of 7)" "frame_addr (frame_of 7) = 0x7000"
proof -
  show "physical (frame_of 7)" by (rule physical_frame_of) simp
qed (simp_all add: rights_validate_def rights_user_def canonical_def PAGE_SIZE_def frame_of_def frame_addr_containing)

lemma map_page_complete_witness:
  "\<exists>a s b. fa_free a = 6 \<and> map_page s 0x400000 (frame_of 7) user_rw (\<lambda>_. 0) (OwnScope 3) a = Some (b, Inr ())"
proof -
  obtain a s where a: "space_ok a (as_root s)" "\<forall>v. translate s a v = None" "fa_free a = 6" using small_space by blast
  then show ?thesis
    using map_page_complete [OF a(1) own_ok(2) small_page(1-3), of "frame_of 7" "\<lambda>_. 0"] by auto
qed

lemma mapped_small:
  "\<exists>a s b. space_ok a (as_root s) \<and> wx_free s a \<and> fa_free a = 6 \<and>
     map_page s 0x400000 (frame_of 7) user_rw (\<lambda>_. 0) (OwnScope 3) a = Some (b, Inr ())"
proof -
  obtain a s where a: "space_ok a (as_root s)" "\<forall>v. translate s a v = None" "fa_free a = 6" using small_space by blast
  then have "wx_free s a" by (simp add: wx_free_def)
  then show ?thesis
    using a map_page_succeeds [OF a(1) own_ok(2) small_page(1-3), of "frame_of 7" "\<lambda>_. 0"] by auto
qed

lemma map_page_exact_witness:
  "\<exists>a s b. map_page s 0x400000 (frame_of 7) user_rw (\<lambda>_. 0) (OwnScope 3) a = Some (b, Inr ()) \<and>
     translate s a 0x400000 = None \<and> translate s b 0x400123 = Some (0x7123, 0x7000 OR leaf_flags user_rw)"
proof -
  obtain a s b where r: "space_ok a (as_root s)" "map_page s 0x400000 (frame_of 7) user_rw (\<lambda>_. 0) (OwnScope 3) a = Some (b, Inr ())"
    using mapped_small by blast
  have "canonical 0x400123" "same_page 0x400000 0x400123" by (simp_all add: canonical_def same_page_def)
  then have "translate s b 0x400123 = Some (0x7123, 0x7000 OR leaf_flags user_rw)" "translate s a 0x400000 = None"
    using map_page_exact [OF r(1) own_ok(2) small_page(4) r(2)] by (auto simp: small_page(5))
  then show ?thesis using r(2) by blast
qed

lemma unmap_page_exact_witness:
  "\<exists>b s c f. unmap_page s 0x400000 b = (c, Some f) \<and> frame_addr f = 0x7000 \<and> translate s c 0x400000 = None"
proof -
  obtain a s b where r: "space_ok a (as_root s)" "map_page s 0x400000 (frame_of 7) user_rw (\<lambda>_. 0) (OwnScope 3) a = Some (b, Inr ())"
    using mapped_small by blast
  have same: "same_page 0x400000 0x400000" by (simp add: same_page_def)
  have b: "space_ok b (as_root s)" "translate s b 0x400000 = Some (0x7000, 0x7000 OR leaf_flags user_rw)"
    using map_page_spec [OF r(1) own_ok(2) small_page(4) r(2)] small_page(2) same by (auto simp: small_page(5))
  obtain c res where u: "unmap_page s 0x400000 b = (c, res)" by fastforce
  note ex = unmap_page_exact [OF b(1) u]
  have root: "page_frame (as_root s)" using b(1) by (simp add: space_ok_def)
  have "\<not> bit (0x7000 :: u64) 7" by simp
  then have "(0x7000 OR leaf_flags user_rw) AND HUGE = 0"
    by (simp add: leaf_flags_def rights_user_def Let_def pte_defs)
  then have "res \<noteq> None" using ex b(2) small_page(3) by metis
  then obtain f where f: "res = Some f" by auto
  have "frame_addr f = 0x7000" using ex b(2) f by simp
  moreover have "translate s c 0x400000 = None" using ex f small_page(2) same by simp
  ultimately show ?thesis using u f by blast
qed

lemma no_page_writable_and_executable_witness:
  "\<exists>a s b. map_page s 0x400000 (frame_of 7) user_rw (\<lambda>_. 0) (OwnScope 3) a = Some (b, Inr ()) \<and> wx_free s b"
proof -
  obtain a s b where r: "space_ok a (as_root s)" "wx_free s a"
    "map_page s 0x400000 (frame_of 7) user_rw (\<lambda>_. 0) (OwnScope 3) a = Some (b, Inr ())"
    using mapped_small by blast
  then show ?thesis using no_page_writable_and_executable [OF r(1) own_ok(2) small_page(4) r(2)] by blast
qed

end
