(* ===== verification/User_Copy.thy ===== *)
theory User_Copy
  imports Paging Elf Operations
begin

text \<open>
  Copying between the kernel and a domain's memory (\<open>kernel/src/ucopy.rs\<close>), over the page tables of
  \<open>Paging\<close>: the range check, the walk one page-bounded chunk at a time, the two copies, and the staging
  buffer of descriptors. A copy runs to its end on one state of memory; the tables it walks are read from the
  memory it writes. The lemmas show which bytes move, that a range is never left, and what a refusal in the
  middle of a copy has already done.
\<close>

section \<open>The staging buffer\<close>

definition MAX_OP_DESCRIPTOR :: nat where "MAX_OP_DESCRIPTOR = 2048"

record staging =
  st_bytes :: "u8 list"
  st_filled :: bool

definition staging_new :: staging where
  "staging_new = \<lparr>st_bytes = replicate MAX_OP_DESCRIPTOR 0, st_filled = False\<rparr>"

text \<open>The bytes of a structure of \<open>n\<close> bytes; reading or writing past the buffer is a panic.\<close>

definition staging_read :: "staging \<Rightarrow> nat \<Rightarrow> nat \<Rightarrow> u8 list option" where
  "staging_read st offset n =
     (if offset + n \<le> MAX_OP_DESCRIPTOR then Some (take n (drop offset (st_bytes st))) else None)"

definition splice :: "'a list \<Rightarrow> nat \<Rightarrow> 'a list \<Rightarrow> 'a list" where
  "splice dst offset xs = take offset dst @ xs @ drop (offset + length xs) dst"

definition staging_write :: "staging \<Rightarrow> nat \<Rightarrow> u8 list \<Rightarrow> staging option" where
  "staging_write st offset xs =
     (if offset + length xs \<le> MAX_OP_DESCRIPTOR then Some (st\<lparr>st_bytes := splice (st_bytes st) offset xs\<rparr>) else None)"

definition descriptors_fit :: bool where
  "descriptors_fit \<longleftrightarrow> list_all (\<lambda>s. os_descriptor_len s \<le> MAX_OP_DESCRIPTOR) OPERATIONS"

section \<open>The walk\<close>

record user_space =
  us_root :: u64

datatype fault = FaultRange | FaultUnmapped | FaultNotUser | FaultNotWritable

fun fault_name :: "fault \<Rightarrow> string" where
  "fault_name FaultRange = ''range''"
| "fault_name FaultUnmapped = ''unmapped''"
| "fault_name FaultNotUser = ''not_user''"
| "fault_name FaultNotWritable = ''not_writable''"

definition bounded :: "nat \<Rightarrow> nat \<Rightarrow> fault + unit" where
  "bounded addr len =
     (if len = 0 then Inl FaultRange
      else case checked_add64 addr len of
          None \<Rightarrow> Inl FaultRange
        | Some e \<Rightarrow> if addr < USER_MIN_ADDR \<or> e > USER_MAX_ADDR then Inl FaultRange else Inr ())"

text \<open>What one page of the range is refused for, or the physical address the chunk starts at.\<close>

definition check_page :: "bool \<Rightarrow> (u64 \<times> u64) option \<Rightarrow> fault + u64" where
  "check_page writable t =
     (case t of
        None \<Rightarrow> Inl FaultUnmapped
      | Some (phys, flags) \<Rightarrow>
          if flags AND FLAG_USER = 0 then Inl FaultNotUser
          else if writable \<and> flags AND FLAG_WRITABLE = 0 then Inl FaultNotWritable
          else Inr phys)"

definition chunk_at :: "nat \<Rightarrow> nat \<Rightarrow> nat \<Rightarrow> nat" where
  "chunk_at addr len offset = min (PAGE_SIZE - (addr + offset) mod PAGE_SIZE) (len - offset)"

lemma chunk_pos: "offset < len \<Longrightarrow> 0 < chunk_at addr len offset"
  by (simp add: chunk_at_def PAGE_SIZE_def)

function walk_pages ::
    "('s \<Rightarrow> u64 \<Rightarrow> (u64 \<times> u64) option) \<Rightarrow> (u64 \<Rightarrow> nat \<Rightarrow> nat \<Rightarrow> 's \<Rightarrow> 's) \<Rightarrow> nat \<Rightarrow> nat \<Rightarrow> bool \<Rightarrow> nat \<Rightarrow> 's \<Rightarrow> 's \<times> (fault + unit)" where
  "walk_pages tr f addr len writable offset s =
     (if offset < len then
        (case check_page writable (tr s (of_nat (addr + offset))) of
           Inl e \<Rightarrow> (s, Inl e)
         | Inr phys \<Rightarrow> walk_pages tr f addr len writable (offset + chunk_at addr len offset)
                         (f phys offset (chunk_at addr len offset) s))
      else (s, Inr ()))"
  by pat_completeness auto
termination
  by (relation "measure (\<lambda>(tr, f, addr, len, writable, offset, s). len - offset)") (auto simp: chunk_pos diff_less_mono2)

declare walk_pages.simps [simp del]

definition walk ::
    "('s \<Rightarrow> u64 \<Rightarrow> (u64 \<times> u64) option) \<Rightarrow> (u64 \<Rightarrow> nat \<Rightarrow> nat \<Rightarrow> 's \<Rightarrow> 's) \<Rightarrow> nat \<Rightarrow> nat \<Rightarrow> bool \<Rightarrow> 's \<Rightarrow> 's \<times> (fault + unit)" where
  "walk tr f addr len writable s =
     (case bounded addr len of Inl e \<Rightarrow> (s, Inl e) | Inr _ \<Rightarrow> walk_pages tr f addr len writable 0 s)"

definition read_bytes :: "(u64 \<Rightarrow> u8) \<Rightarrow> u64 \<Rightarrow> nat \<Rightarrow> u8 list" where
  "read_bytes ram phys n = map (\<lambda>i. ram (phys + of_nat i)) [0..<n]"

definition write_bytes :: "u64 \<Rightarrow> u8 list \<Rightarrow> (u64 \<Rightarrow> u8) \<Rightarrow> u64 \<Rightarrow> u8" where
  "write_bytes phys xs ram = (\<lambda>x. if unat (x - phys) < length xs then xs ! unat (x - phys) else ram x)"

definition copy_in :: "(u64 \<Rightarrow> u8) \<Rightarrow> user_space \<Rightarrow> nat \<Rightarrow> nat \<Rightarrow> u8 list \<Rightarrow> u8 list \<times> (fault + unit)" where
  "copy_in ram space addr len destination =
     (if len > length destination then (destination, Inl FaultRange)
      else walk (\<lambda>_. translate_in ram (us_root space))
             (\<lambda>phys offset chunk d. splice d offset (read_bytes ram phys chunk)) addr len False destination)"

definition copy_out :: "user_space \<Rightarrow> nat \<Rightarrow> u8 list \<Rightarrow> (u64 \<Rightarrow> u8) \<Rightarrow> (u64 \<Rightarrow> u8) \<times> (fault + unit)" where
  "copy_out space addr source ram =
     walk (\<lambda>ram. translate_in ram (us_root space))
       (\<lambda>phys offset chunk. write_bytes phys (take chunk (drop offset source))) addr (length source) True ram"

section \<open>A page is contiguous\<close>

text \<open>The physical address of one byte of the range, or why it is refused.\<close>

definition access :: "(u64 \<Rightarrow> u8) \<Rightarrow> user_space \<Rightarrow> bool \<Rightarrow> nat \<Rightarrow> fault + u64" where
  "access ram space writable v = check_page writable (translate_in ram (us_root space) (of_nat v))"

lemma low_bits: "(0xFFF :: u64) = mask 12"
  by (simp add: mask_eq_exp_minus_1)

lemma same_page_bit: "same_page v w \<Longrightarrow> bit w (n + 12) = bit v (n + 12)"
proof -
  have "bit x (n + 12) = bit (drop_bit 12 x) n" for x :: u64 by (simp add: bit_drop_bit_eq add.commute)
  then show "same_page v w \<Longrightarrow> ?thesis" by (simp add: same_page_def)
qed

lemma leaf_page:
  fixes e v w :: u64
  assumes "same_page v w" and "12 \<le> k"
  shows "drop_bit 12 ((e AND ADDRESS_MASK) OR (w AND mask k)) = drop_bit 12 ((e AND ADDRESS_MASK) OR (v AND mask k))"
    and "take_bit 12 ((e AND ADDRESS_MASK) OR (w AND mask k)) = take_bit 12 w"
  using same_page_bit [OF assms(1)] assms(2)
  by (auto simp: bit_eq_iff bit_simps address_mask add.commute)

lemma same_page_sym: "same_page v w \<Longrightarrow> same_page w v"
  by (simp add: same_page_def)

lemma same_page_refl [simp]: "same_page v v"
  by (simp add: same_page_def)

lemma translate_page:
  assumes page: "same_page v w" and canon: "canonical v" "canonical w"
  shows "l \<le> 3 \<Longrightarrow> translate_from ent f l v = Some (phys, e) \<Longrightarrow>
    \<exists>phys'. translate_from ent f l w = Some (phys', e) \<and> drop_bit 12 phys' = drop_bit 12 phys \<and>
      take_bit 12 phys' = take_bit 12 w \<and> take_bit 12 phys = take_bit 12 v"
proof (induction l arbitrary: f)
  case 0
  have i: "pt_index w 0 = pt_index v 0" using same_page_path [OF canon] page by simp
  show ?case
    using 0(2) leaf_page [OF page, of 12] leaf_page [OF same_page_refl, of 12 _ v]
    by (auto simp: translate_from.simps i low_bits Let_def split: if_splits)
next
  case (Suc l)
  have "vpath w 0 = vpath v 0" using same_page_path [OF canon] page by simp
  then have i: "pt_index w (Suc l) = pt_index v (Suc l)"
    using Suc.prems(1) unfolding vpath_steps by (auto simp: le_Suc_eq numeral_eq_Suc)
  let ?e = "ent f (pt_index v (Suc l))"
  show ?case
  proof (cases "is_table ?e")
    case True
    have u: "translate_from ent f (Suc l) x = translate_from ent (entry_frame ?e) l x" if "pt_index x (Suc l) = pt_index v (Suc l)" for x
      using True that by (simp add: translate_unfold [of _ _ "Suc l"] is_table_def)
    show ?thesis unfolding u [OF i] using Suc.IH [of "entry_frame ?e"] Suc.prems u [of v] by simp
  next
    case False
    then have "?e AND PRESENT \<noteq> 0" "e = ?e" "phys = (?e AND ADDRESS_MASK) OR (v AND mask (12 + 9 * Suc l))"
      using Suc.prems(2) by (auto simp: translate_unfold [of _ _ "Suc l"] Let_def mask_eq_exp_minus_1 split: if_splits)
    then show ?thesis
      using False leaf_page [OF page, of "12 + 9 * Suc l" ?e] leaf_page [OF same_page_refl, of "12 + 9 * Suc l" ?e v]
      by (simp add: translate_unfold [of _ _ "Suc l"] Let_def mask_eq_exp_minus_1 i)
  qed
qed

text \<open>Two addresses of one page, both below the user limit: the second byte lies as far behind the first.\<close>

lemma user_canonical: "v < USER_MAX_ADDR \<Longrightarrow> canonical (of_nat v)"
proof -
  assume "v < USER_MAX_ADDR"
  then have "unat (of_nat v :: u64) div 2 ^ 47 = 0"
    by (simp add: USER_MAX_ADDR_def unat_of_nat take_bit_nat_eq_self)
  then show ?thesis by (simp add: canonical_def drop_bit_eq_div unat_eq_0 [symmetric] unat_div_distrib)
qed

lemma unat_user: "v < USER_MAX_ADDR \<Longrightarrow> unat (of_nat v :: u64) = v"
  by (simp add: USER_MAX_ADDR_def unat_of_nat take_bit_nat_eq_self)

lemma user_same_page:
  assumes "v < USER_MAX_ADDR" "w < USER_MAX_ADDR" "v div PAGE_SIZE = w div PAGE_SIZE"
  shows "same_page (of_nat v) (of_nat w)"
  unfolding same_page_def word_unat_eq_iff
  using assms by (simp add: drop_bit_eq_div unat_div_distrib unat_user PAGE_SIZE_def)

lemma page_parts: "x = push_bit 12 (drop_bit 12 x) + take_bit 12 x" for x :: u64
  by (metis add.commute bits_ident)

lemma low_unat: "unat (take_bit 12 x) = unat x mod PAGE_SIZE" for x :: u64
  unfolding unsigned_take_bit_eq by (simp add: take_bit_eq_mod PAGE_SIZE_def)

lemma page_step:
  assumes "v mod PAGE_SIZE + i < PAGE_SIZE"
  shows "(v + i) div PAGE_SIZE = v div PAGE_SIZE" "(v + i) mod PAGE_SIZE = v mod PAGE_SIZE + i"
proof -
  have "v + i = PAGE_SIZE * (v div PAGE_SIZE) + (v mod PAGE_SIZE + i)" by simp
  then show "(v + i) div PAGE_SIZE = v div PAGE_SIZE" "(v + i) mod PAGE_SIZE = v mod PAGE_SIZE + i"
    using assms by (metis div_mult_self4 div_less add_0 PAGE_SIZE_def zero_neq_numeral add.right_neutral, metis mod_mult_self4 mod_less)
qed

lemma access_page:
  assumes "access ram space w v = Inr p" and "v mod PAGE_SIZE + i < PAGE_SIZE" and "v + i < USER_MAX_ADDR"
  shows "access ram space w (v + i) = Inr (p + of_nat i)" "unat p mod PAGE_SIZE = v mod PAGE_SIZE"
proof -
  let ?r = "frame_containing (us_root space)" and ?v = "of_nat v :: u64" and ?w = "of_nat (v + i) :: u64"
  have v: "v < USER_MAX_ADDR" using assms(3) by simp
  have page: "same_page ?v ?w" using user_same_page [OF v assms(3)] page_step(1) [OF assms(2)] by simp
  note canon = user_canonical [OF v] user_canonical [OF assms(3)]
  obtain e where t: "translate_from (load_entry ram) ?r 3 ?v = Some (p, e)" and ok: "check_page w (Some (p, e)) = Inr p"
    using assms(1) canon(1) by (auto simp: access_def translate_in_def check_page_def split: option.splits if_splits)
  obtain q where q: "translate_from (load_entry ram) ?r 3 ?w = Some (q, e)" "drop_bit 12 q = drop_bit 12 p"
      "take_bit 12 q = take_bit 12 ?w" "take_bit 12 p = take_bit 12 ?v"
    using translate_page [OF page canon order_refl t] by auto
  have qw: "q = push_bit 12 (drop_bit 12 p) + take_bit 12 ?w" using page_parts [of q] unfolding q(2,3) .
  have pv: "push_bit 12 (drop_bit 12 p) + take_bit 12 ?v = p" using page_parts [of p] unfolding q(4) by (rule sym)
  have step: "take_bit 12 ?w = take_bit 12 ?v + of_nat i"
  proof (rule word_unat_eq_iff [THEN iffD2])
    have m: "unat (take_bit 12 (of_nat x :: u64)) = x mod PAGE_SIZE" if "x < USER_MAX_ADDR" for x
      by (simp add: low_unat unat_user [OF that])
    note page_step(2) [OF assms(2)]
    moreover have "i < 4096" using assms(2) by (simp add: PAGE_SIZE_def)
    ultimately show "unat (take_bit 12 ?w) = unat (take_bit 12 ?v + of_nat i)"
      using m [OF v] m [OF assms(3)] small_offset [of i] assms(2) by (simp add: unat_add_small PAGE_SIZE_def)
  qed
  have "q = p + of_nat i" unfolding qw step add.assoc [symmetric] pv ..
  then show "access ram space w (v + i) = Inr (p + of_nat i)"
    using q(1) ok canon(2) by (auto simp: access_def translate_in_def check_page_def split: if_splits)
  show "unat p mod PAGE_SIZE = v mod PAGE_SIZE"
    using low_unat [of p] low_unat [of ?v] q(4) unat_user [OF v] by simp
qed

section \<open>Copying in\<close>

lemma length_splice: "offset + length xs \<le> length d \<Longrightarrow> length (splice d offset xs) = length d"
  by (simp add: splice_def)

lemma nth_splice: "offset + length xs \<le> length d \<Longrightarrow> i < length d \<Longrightarrow>
    splice d offset xs ! i = (if offset \<le> i \<and> i < offset + length xs then xs ! (i - offset) else d ! i)"
  by (auto simp: splice_def nth_append)

lemma read_bytes_nth [simp]: "length (read_bytes ram p n) = n" "i < n \<Longrightarrow> read_bytes ram p n ! i = ram (p + of_nat i)"
  by (simp_all add: read_bytes_def)

lemma chunk_in_page:
  assumes "i < chunk_at addr len offset" and "addr + len \<le> USER_MAX_ADDR" and "offset < len"
  shows "(addr + offset) mod PAGE_SIZE + i < PAGE_SIZE" "addr + offset + i < USER_MAX_ADDR" "offset + i < len"
  using assms by (auto simp: chunk_at_def PAGE_SIZE_def)

lemma chunk_fits: "offset \<le> len \<Longrightarrow> offset + chunk_at addr len offset \<le> len"
  by (simp add: chunk_at_def)

lemma chunk_access:
  assumes "access ram space w (addr + offset) = Inr p" and "i < chunk_at addr len offset"
    and "addr + len \<le> USER_MAX_ADDR" and "offset < len"
  shows "access ram space w (addr + (offset + i)) = Inr (p + of_nat i)"
  using access_page(1) [OF assms(1) chunk_in_page(1,2) [OF assms(2-4)]] by (simp add: add.assoc)

abbreviation fetch :: "(u64 \<Rightarrow> u8) \<Rightarrow> u64 \<Rightarrow> nat \<Rightarrow> nat \<Rightarrow> u8 list \<Rightarrow> u8 list" where
  "fetch ram phys offset chunk d \<equiv> splice d offset (read_bytes ram phys chunk)"

lemma copy_in_loop:
  assumes "addr + len \<le> USER_MAX_ADDR" and "len \<le> length d" and "offset \<le> len"
    and "walk_pages (\<lambda>_. translate_in ram (us_root space)) (fetch ram) addr len False offset d = (d', r)"
  shows "length d' = length d \<and> (\<forall>i < length d. i < offset \<or> len \<le> i \<longrightarrow> d' ! i = d ! i) \<and>
    (case r of Inr _ \<Rightarrow> \<forall>i. offset \<le> i \<and> i < len \<longrightarrow> (\<exists>p. access ram space False (addr + i) = Inr p \<and> d' ! i = ram p)
     | Inl e \<Rightarrow> \<exists>i. offset \<le> i \<and> i < len \<and> access ram space False (addr + i) = Inl e)"
  using assms(2-4)
proof (induction "len - offset" arbitrary: offset d rule: less_induct)
  case less
  show ?case
  proof (cases "offset < len")
    case False
    then show ?thesis using less.prems by (auto simp: walk_pages.simps)
  next
    case True
    let ?c = "chunk_at addr len offset"
    have ac: "access ram space False (addr + offset) = check_page False (translate_in ram (us_root space) (of_nat (addr + offset)))"
      by (simp add: access_def)
    show ?thesis
    proof (cases "access ram space False (addr + offset)")
      case (Inl e)
      then have "d' = d" "r = Inl e" using less.prems(3) True ac by (auto simp: walk_pages.simps [of _ _ _ _ _ offset])
      then show ?thesis using True Inl by auto
    next
      case (Inr phys)
      let ?d = "fetch ram phys offset ?c d"
      have fits: "offset + ?c \<le> len" using chunk_fits True by simp
      have run: "walk_pages (\<lambda>_. translate_in ram (us_root space)) (fetch ram) addr len False (offset + ?c) ?d = (d', r)"
        using less.prems(3) True Inr ac by (simp add: walk_pages.simps [of _ _ _ _ _ offset])
      have d: "length ?d = length d" using fits less.prems(1) by (intro length_splice) simp
      have smaller: "len - (offset + ?c) < len - offset" using True chunk_pos [OF True, of addr] by simp
      note IH = less.hyps [OF smaller, of ?d, unfolded d, OF less.prems(1) fits run]
      have got: "\<exists>p. access ram space False (addr + i) = Inr p \<and> ?d ! i = ram p" if "offset \<le> i" "i < offset + ?c" for i
        using chunk_access [OF Inr, of "i - offset" len] that assms(1) True fits less.prems(1)
        by (auto simp: nth_splice)
      have old: "?d ! i = d ! i" if "i < length d" "i < offset \<or> len \<le> i" for i
        using that fits less.prems(1) by (auto simp: nth_splice)
      show ?thesis
      proof (cases r)
        case (Inl e)
        then show ?thesis using IH old by (auto dest: add_leD1)
      next
        case ok: (Inr u)
        have "\<exists>p. access ram space False (addr + i) = Inr p \<and> d' ! i = ram p" if i: "offset \<le> i" "i < len" for i
        proof (cases "i < offset + ?c")
          case True
          then show ?thesis using got [OF i(1)] IH fits less.prems(1) by auto
        next
          case False
          then show ?thesis using IH ok i by auto
        qed
        then show ?thesis using IH old ok by auto
      qed
    qed
  qed
qed

lemma bounded_ok: "bounded addr len = Inr () \<longleftrightarrow> 0 < len \<and> USER_MIN_ADDR \<le> addr \<and> addr + len \<le> USER_MAX_ADDR"
  by (auto simp: bounded_def checked_add64_def U64_MAX_def USER_MAX_ADDR_def split: if_splits)

lemma bounded_Inl: "bounded addr len = Inl e \<Longrightarrow> e = FaultRange"
  by (auto simp: bounded_def split: option.splits if_splits)

text \<open>
  C36. A copy from the user is exact. It returns success only for a range within the user half, every byte of
  which the caller itself may read, and then the destination holds exactly those bytes and is otherwise
  unchanged; a refusal is for the range, or for a byte of it that the caller may not read. Nothing beyond the
  length asked for is ever written.
\<close>

theorem copy_in_exact:
  assumes "copy_in ram space addr len d = (d', r)"
  shows "length d' = length d \<and> drop len d' = drop len d \<and>
    (case r of
       Inr _ \<Rightarrow> 0 < len \<and> len \<le> length d \<and> USER_MIN_ADDR \<le> addr \<and> addr + len \<le> USER_MAX_ADDR \<and>
         (\<forall>i < len. \<exists>p. access ram space False (addr + i) = Inr p \<and> d' ! i = ram p)
     | Inl e \<Rightarrow> e = FaultRange \<and> (length d < len \<or> bounded addr len \<noteq> Inr ()) \<or> (\<exists>i < len. access ram space False (addr + i) = Inl e))"
proof (cases "len > length d \<or> bounded addr len \<noteq> Inr ()")
  case True
  then have "d' = d" "r = Inl FaultRange"
    using assms bounded_Inl [of addr len] by (auto simp: copy_in_def walk_def split: if_splits sum.splits)
  then show ?thesis using True by auto
next
  case False
  then have b: "0 < len" "USER_MIN_ADDR \<le> addr" "addr + len \<le> USER_MAX_ADDR" "len \<le> length d" by (simp_all add: bounded_ok)
  have "walk_pages (\<lambda>_. translate_in ram (us_root space)) (fetch ram) addr len False 0 d = (d', r)"
    using assms False by (simp add: copy_in_def walk_def)
  note loop = copy_in_loop [OF b(3,4) _ this]
  then have "drop len d' = drop len d" by (auto intro!: nth_equalityI)
  then show ?thesis using loop b by (cases r) auto
qed

section \<open>Copying out\<close>

text \<open>No table of the space can be written from user mode.\<close>

definition tables_walled :: "(u64 \<Rightarrow> u8) \<Rightarrow> user_space \<Rightarrow> bool" where
  "tables_walled ram space \<longleftrightarrow> (\<forall>v p. v < USER_MAX_ADDR \<longrightarrow> access ram space True v = Inr p \<longrightarrow>
     frame_containing p \<notin> reached (entries ram) (frame_containing (us_root space)))"

definition same_tables :: "(u64 \<Rightarrow> u8) \<Rightarrow> (u64 \<Rightarrow> u8) \<Rightarrow> user_space \<Rightarrow> bool" where
  "same_tables ram ram' space \<longleftrightarrow>
     (\<forall>g \<in> reached (entries ram) (frame_containing (us_root space)). entries ram' g = entries ram g)"

lemma same_tables_translate:
  assumes "same_tables ram ram' space"
  shows "translate_in ram' (us_root space) v = translate_in ram (us_root space) v"
proof -
  let ?r = "frame_containing (us_root space)"
  have "translate_from (entries ram') ?r 3 v = translate_from (entries ram) ?r 3 v"
  proof (rule translate_same [where root = ?r])
    fix k g assume "tab (entries ram) ?r (vpath v k) = Some g"
    then have "g \<in> reached (entries ram) ?r" by (auto simp: reached_def intro!: exI [of _ "vpath v k"])
    then have "entries ram' g = entries ram g" using assms by (simp add: same_tables_def)
    then show "entries ram' g (pt_index v k) = entries ram g (pt_index v k) \<or>
      0 < k \<and> is_table (entries ram g (pt_index v k)) \<and> is_table (entries ram' g (pt_index v k)) \<and>
        entry_frame (entries ram' g (pt_index v k)) = entry_frame (entries ram g (pt_index v k))" by simp
  qed simp_all
  then show ?thesis by (simp add: translate_in_def translate_entries)
qed

lemma same_tables_access: "same_tables ram ram' space \<Longrightarrow> access ram' space w v = access ram space w v"
  by (simp add: access_def same_tables_translate)

lemma write_bytes_at:
  assumes "unat p mod PAGE_SIZE + length xs \<le> PAGE_SIZE" and "unat (x - p) < length xs"
  shows "x = p + of_nat (unat (x - p))" "unat x = unat p + unat (x - p)" "frame_containing x = frame_containing p"
proof -
  show x: "x = p + of_nat (unat (x - p))" by simp
  obtain q r where q: "unat p = 4096 * q + r" "r = unat p mod 4096" "q = unat p div 4096"
    using mult_div_mod_eq [of 4096 "unat p"] by metis
  have "unat p < 2 ^ 64" using unsigned_less [of p] by simp
  then have "q < 2 ^ 52" unfolding q(3) by (intro less_mult_imp_div_less) simp
  moreover have "r + unat (x - p) < 4096" using assms q(2) by (simp add: PAGE_SIZE_def)
  ultimately have "unat p + unat (x - p) < 2 ^ 64" unfolding q(1) by simp
  then show u: "unat x = unat p + unat (x - p)" using unat_add_small [of p "x - p"] by simp
  have "unat x div PAGE_SIZE = unat p div PAGE_SIZE" unfolding u using assms page_step(1) [of "unat p" "unat (x - p)"] by simp
  then have "unat (frame_addr (frame_containing x)) = unat (frame_addr (frame_containing p))" by (simp add: unat_frame_containing)
  then show "frame_containing x = frame_containing p" by (rule frame_addr_eq)
qed

lemma entry_byte_page:
  assumes "page_frame g" and "s < ENTRIES" and "i < 8"
  shows "frame_containing (entry_addr g s + of_nat i) = g"
proof -
  obtain k where k: "unat (frame_addr g) = 4096 * k" "4096 * k + 4096 \<le> 2 ^ 64" using page_frame_base [OF assms(1)] .
  have "unat (entry_addr g s + of_nat i) = 4096 * k + (8 * s + i)"
    using assms(2,3) unat_entry_addr [OF assms(1,2)] small_offset [of i] k by (simp add: unat_add_small ENTRIES_def)
  moreover have "(4096 * k + (8 * s + i)) div 4096 = k" using assms(2,3) by (simp add: ENTRIES_def)
  ultimately have "unat (frame_addr (frame_containing (entry_addr g s + of_nat i))) = unat (frame_addr g)"
    by (simp add: unat_frame_containing PAGE_SIZE_def k(1))
  then show ?thesis by (rule frame_addr_eq)
qed

lemma write_bytes_entries:
  assumes "unat p mod PAGE_SIZE + length xs \<le> PAGE_SIZE" and "g \<noteq> frame_containing p"
  shows "entries (write_bytes p xs ram) g = entries ram g"
proof
  fix s
  have "write_bytes p xs ram (entry_addr g s + of_nat i) = ram (entry_addr g s + of_nat i)"
    if "page_frame g" "s < ENTRIES" "i < 8" for i
    using write_bytes_at(3) [OF assms(1), of "entry_addr g s + of_nat i"] entry_byte_page [OF that] assms(2)
    by (auto simp: write_bytes_def)
  then have "page_frame g \<Longrightarrow> s < ENTRIES \<Longrightarrow> load64 (write_bytes p xs ram) (entry_addr g s) = load64 ram (entry_addr g s)"
    by (intro bit_word_eqI) (auto simp: bit_load64)
  then show "entries (write_bytes p xs ram) g s = entries ram g s" by (simp add: entries_def load_entry_def)
qed

abbreviation emit :: "u8 list \<Rightarrow> u64 \<Rightarrow> nat \<Rightarrow> nat \<Rightarrow> (u64 \<Rightarrow> u8) \<Rightarrow> u64 \<Rightarrow> u8" where
  "emit source phys offset chunk \<equiv> write_bytes phys (take chunk (drop offset source))"

text \<open>What the bytes from \<open>m\<close> up to \<open>n\<close> of the source have done to memory.\<close>

definition written :: "(u64 \<Rightarrow> u8) \<Rightarrow> user_space \<Rightarrow> nat \<Rightarrow> u8 list \<Rightarrow> nat \<Rightarrow> nat \<Rightarrow> (u64 \<Rightarrow> u8) \<Rightarrow> (u64 \<Rightarrow> u8) \<Rightarrow> bool" where
  "written ram space addr source m n before now \<longleftrightarrow>
     (\<forall>i. m \<le> i \<and> i < n \<longrightarrow> (\<exists>p. access ram space True (addr + i) = Inr p \<and> now p = source ! i)) \<and>
     (\<forall>x. now x \<noteq> before x \<longrightarrow> (\<exists>i. m \<le> i \<and> i < n \<and> access ram space True (addr + i) = Inr x))"

definition one_to_one :: "(u64 \<Rightarrow> u8) \<Rightarrow> user_space \<Rightarrow> nat \<Rightarrow> nat \<Rightarrow> bool" where
  "one_to_one ram space addr len \<longleftrightarrow> (\<forall>i < len. \<forall>j < len. \<forall>p. access ram space True (addr + i) = Inr p \<longrightarrow>
     access ram space True (addr + j) = Inr p \<longrightarrow> i = j)"

lemma written_join:
  assumes one: "one_to_one ram space addr n" and a: "written ram space addr source k m ram0 ram1"
    and b: "written ram space addr source m n ram1 ram2" and le: "k \<le> m" "m \<le> n"
  shows "written ram space addr source k n ram0 ram2"
  unfolding written_def
proof (intro conjI allI impI)
  fix i assume i: "k \<le> i \<and> i < n"
  show "\<exists>p. access ram space True (addr + i) = Inr p \<and> ram2 p = source ! i"
  proof (cases "i < m")
    case True
    then obtain p where p: "access ram space True (addr + i) = Inr p" "ram1 p = source ! i" using a i by (auto simp: written_def)
    have "ram2 p = ram1 p"
    proof (rule ccontr)
      assume "ram2 p \<noteq> ram1 p"
      then obtain j where "m \<le> j" "j < n" "access ram space True (addr + j) = Inr p" using b by (auto simp: written_def)
      moreover have "i < n" using i by simp
      ultimately have "i = j" using one p(1) unfolding one_to_one_def by blast
      then show False using \<open>m \<le> j\<close> True by simp
    qed
    then show ?thesis using p by auto
  next
    case False
    then show ?thesis using b i by (auto simp: written_def)
  qed
next
  fix x assume "ram2 x \<noteq> ram0 x"
  then have "ram2 x \<noteq> ram1 x \<or> ram1 x \<noteq> ram0 x" by auto
  then obtain i where "(m \<le> i \<and> i < n \<or> k \<le> i \<and> i < m)" "access ram space True (addr + i) = Inr x"
    using a b unfolding written_def by blast
  then show "\<exists>i. k \<le> i \<and> i < n \<and> access ram space True (addr + i) = Inr x" using le by (intro exI [of _ i]) auto
qed

lemma emit_written:
  assumes ac: "access ram space True (addr + offset) = Inr p" and o: "offset < length source" "addr + length source \<le> USER_MAX_ADDR"
    and walled: "tables_walled ram space" and same: "same_tables ram now space"
  defines "c \<equiv> chunk_at addr (length source) offset"
  shows "written ram space addr source offset (offset + c) now (emit source p offset c now)"
    and "same_tables ram (emit source p offset c now) space"
proof -
  have page: "unat p mod PAGE_SIZE = (addr + offset) mod PAGE_SIZE"
    using access_page(2) [OF ac, of 0] o by (simp add: PAGE_SIZE_def)
  have fits: "offset + c \<le> length source" using chunk_fits [of offset "length source" addr] o(1) by (simp add: c_def)
  have len: "length (take c (drop offset source)) = c" using fits by simp
  have small: "unat p mod PAGE_SIZE + c \<le> PAGE_SIZE" unfolding page c_def chunk_at_def by (simp add: PAGE_SIZE_def)
  have at: "access ram space True (addr + (offset + i)) = Inr (p + of_nat i)" if "i < c" for i
    using chunk_access [OF ac that [unfolded c_def] o(2,1)] .
  have off: "unat (p + of_nat i - p) = i" if "i < c" for i
    using that small small_offset [of i] by (simp add: PAGE_SIZE_def)
  show "written ram space addr source offset (offset + c) now (emit source p offset c now)"
    unfolding written_def
  proof (intro conjI allI impI)
    fix i assume i: "offset \<le> i \<and> i < offset + c"
    then obtain j where j: "i = offset + j" "j < c" by (metis le_iff_add nat_add_left_cancel_less)
    have "emit source p offset c now (p + of_nat j) = source ! i"
      using j off [OF j(2)] fits by (simp add: write_bytes_def len)
    then show "\<exists>q. access ram space True (addr + i) = Inr q \<and> emit source p offset c now q = source ! i"
      using at [OF j(2)] j(1) by blast
  next
    fix x assume "emit source p offset c now x \<noteq> now x"
    then have "unat (x - p) < c" by (auto simp: write_bytes_def len split: if_splits)
    then show "\<exists>i. offset \<le> i \<and> i < offset + c \<and> access ram space True (addr + i) = Inr x"
      using at [of "unat (x - p)"] by (intro exI [of _ "offset + unat (x - p)"]) simp
  qed
  have "addr + offset < USER_MAX_ADDR" using o by simp
  then have "frame_containing p \<notin> reached (entries ram) (frame_containing (us_root space))"
    using walled ac by (simp add: tables_walled_def)
  then show "same_tables ram (emit source p offset c now) space"
    using same write_bytes_entries [of p "take c (drop offset source)" _ now] small unfolding same_tables_def len
    by metis
qed

lemma copy_out_loop:
  assumes o: "addr + length source \<le> USER_MAX_ADDR" and walled: "tables_walled ram space"
    and one: "one_to_one ram space addr (length source)"
    and "offset \<le> length source" and "same_tables ram now space"
    and "walk_pages (\<lambda>ram. translate_in ram (us_root space)) (emit source) addr (length source) True offset now = (ram', r)"
  shows "\<exists>n \<le> length source. offset \<le> n \<and> written ram space addr source offset n now ram' \<and> same_tables ram ram' space \<and>
    (case r of Inr _ \<Rightarrow> n = length source | Inl e \<Rightarrow> n < length source \<and> access ram space True (addr + n) = Inl e)"
  using assms(4-6)
proof (induction "length source - offset" arbitrary: offset now rule: less_induct)
  case less
  have nothing_yet: "written ram space addr source offset offset now now" by (auto simp: written_def)
  show ?case
  proof (cases "offset < length source")
    case False
    then have "ram' = now" "r = Inr ()" using less.prems(3) by (auto simp: walk_pages.simps)
    then show ?thesis using False nothing_yet less.prems by (intro exI [of _ offset]) auto
  next
    case True
    let ?c = "chunk_at addr (length source) offset"
    have ac: "access ram space True (addr + offset) = check_page True (translate_in now (us_root space) (of_nat (addr + offset)))"
      using same_tables_translate [OF less.prems(2)] by (simp add: access_def)
    show ?thesis
    proof (cases "access ram space True (addr + offset)")
      case (Inl e)
      then have "ram' = now" "r = Inl e" using less.prems(3) True ac by (auto simp: walk_pages.simps [of _ _ _ _ _ offset])
      then show ?thesis using True Inl nothing_yet less.prems by (intro exI [of _ offset]) auto
    next
      case (Inr p)
      have run: "walk_pages (\<lambda>ram. translate_in ram (us_root space)) (emit source) addr (length source) True (offset + ?c)
          (emit source p offset ?c now) = (ram', r)"
        using less.prems(3) True Inr ac by (simp add: walk_pages.simps [of _ _ _ _ _ offset])
      note e = emit_written [OF Inr True o walled less.prems(2)]
      have fits: "offset + ?c \<le> length source" using chunk_fits True by simp
      have smaller: "length source - (offset + ?c) < length source - offset" using True chunk_pos [OF True, of addr] by simp
      obtain n where n: "n \<le> length source" "offset + ?c \<le> n" "written ram space addr source (offset + ?c) n (emit source p offset ?c now) ram'"
          "same_tables ram ram' space"
          "case r of Inr _ \<Rightarrow> n = length source | Inl e \<Rightarrow> n < length source \<and> access ram space True (addr + n) = Inl e"
        using less.hyps [OF smaller fits e(2) run] by blast
      have "one_to_one ram space addr n" using one n(1) by (simp add: one_to_one_def)
      then have "written ram space addr source offset n now ram'"
        using written_join [OF _ e(1) n(3) _ n(2)] by simp
      then show ?thesis using n(1,2,4,5) by (intro exI [of _ n]) auto
    qed
  qed
qed

lemma copy_out_spec:
  assumes "tables_walled ram space" and "one_to_one ram space addr (length source)" and "copy_out space addr source ram = (ram', r)"
  shows "\<exists>n \<le> length source. written ram space addr source 0 n ram ram' \<and> same_tables ram ram' space \<and>
    (case r of
       Inr _ \<Rightarrow> n = length source \<and> 0 < n \<and> USER_MIN_ADDR \<le> addr \<and> addr + n \<le> USER_MAX_ADDR
     | Inl e \<Rightarrow> n = 0 \<and> e = FaultRange \<and> bounded addr (length source) \<noteq> Inr () \<or> n < length source \<and> access ram space True (addr + n) = Inl e)"
proof (cases "bounded addr (length source) = Inr ()")
  case False
  then have "ram' = ram" "r = Inl FaultRange"
    using assms(3) bounded_Inl [of addr "length source"] by (auto simp: copy_out_def walk_def split: sum.splits)
  then show ?thesis using False by (intro exI [of _ 0]) (auto simp: written_def same_tables_def)
next
  case True
  then have b: "0 < length source" "USER_MIN_ADDR \<le> addr" "addr + length source \<le> USER_MAX_ADDR" by (simp_all add: bounded_ok)
  have run: "walk_pages (\<lambda>ram. translate_in ram (us_root space)) (emit source) addr (length source) True 0 ram = (ram', r)"
    using assms(3) True by (simp add: copy_out_def walk_def)
  have "same_tables ram ram space" by (simp add: same_tables_def)
  from copy_out_loop [OF b(3) assms(1,2) _ this run] obtain n where
    n: "n \<le> length source" "written ram space addr source 0 n ram ram'" "same_tables ram ram' space"
      "case r of Inr _ \<Rightarrow> n = length source | Inl e \<Rightarrow> n < length source \<and> access ram space True (addr + n) = Inl e" by auto
  then show ?thesis using b by (intro exI [of _ n]) (auto split: sum.splits)
qed

text \<open>
  C35. A copy to the user writes only where the caller itself may write. Every byte of memory that changes is
  the translation of an address of the range the space maps for user mode and for writing. On success every
  byte of the source has arrived; on a fault at some page every byte before that page has arrived all the
  same, and the fault is that of the first byte that has not.
\<close>

theorem copy_out_exact:
  assumes "tables_walled ram space" and "one_to_one ram space addr (length source)" and "copy_out space addr source ram = (ram', r)"
  shows "\<exists>n \<le> length source. written ram space addr source 0 n ram ram' \<and>
    (case r of
       Inr _ \<Rightarrow> n = length source \<and> 0 < n \<and> USER_MIN_ADDR \<le> addr \<and> addr + n \<le> USER_MAX_ADDR
     | Inl e \<Rightarrow> n = 0 \<and> e = FaultRange \<and> bounded addr (length source) \<noteq> Inr () \<or> n < length source \<and> access ram space True (addr + n) = Inl e)"
  using copy_out_spec [OF assms] by blast

lemma access_read: "access ram space True v = Inr p \<Longrightarrow> access ram space False v = Inr p"
  by (auto simp: access_def check_page_def split: option.splits if_splits)

text \<open>
  C37. What was copied out comes back: after a successful copy to the user, a copy from the same range into any
  destination that is long enough succeeds and returns the source.
\<close>

theorem copy_roundtrip:
  assumes "tables_walled ram space" and "one_to_one ram space addr (length source)"
    and sent: "copy_out space addr source ram = (ram', Inr ())" and len: "length source \<le> length d"
  shows "\<exists>d'. copy_in ram' space addr (length source) d = (d', Inr ()) \<and> take (length source) d' = source"
proof -
  have w: "written ram space addr source 0 (length source) ram ram'" "same_tables ram ram' space" "0 < length source"
    and r: "USER_MIN_ADDR \<le> addr" "addr + length source \<le> USER_MAX_ADDR"
    using copy_out_spec [OF assms(1-3)] by auto
  have ret: "\<exists>p. access ram' space False (addr + i) = Inr p \<and> ram' p = source ! i" if i: "i < length source" for i
  proof -
    obtain p where "access ram space True (addr + i) = Inr p" "ram' p = source ! i" using w(1) i by (auto simp: written_def)
    then show ?thesis using access_read same_tables_access [OF w(2)] by auto
  qed
  obtain d' res where run: "walk_pages (\<lambda>_. translate_in ram' (us_root space)) (fetch ram') addr (length source) False 0 d = (d', res)"
    by fastforce
  note loop = copy_in_loop [OF r(2) len _ run]
  have res: "res = Inr ()"
  proof (cases res)
    case (Inl e)
    then obtain i where "i < length source" "access ram' space False (addr + i) = Inl e" using loop by auto
    then show ?thesis using ret [of i] by auto
  qed simp
  have "d' ! i = source ! i" if "i < length source" for i using loop res ret [OF that] that by fastforce
  then have "take (length source) d' = source" using loop len by (auto intro!: nth_equalityI)
  moreover have "copy_in ram' space addr (length source) d = (d', Inr ())"
    using run res len w(3) r by (simp add: copy_in_def walk_def bounded_ok [THEN iffD2])
  ultimately show ?thesis by blast
qed

text \<open>Every operation's descriptor fits the staging buffer, and what is written there is read back.\<close>

lemma staging_roundtrip:
  "length (st_bytes st) = MAX_OP_DESCRIPTOR \<Longrightarrow> staging_write st offset xs = Some st' \<Longrightarrow>
     staging_read st' offset (length xs) = Some xs \<and> length (st_bytes st') = MAX_OP_DESCRIPTOR"
  by (auto simp: staging_write_def staging_read_def splice_def min_def split: if_splits)

lemma all_descriptors_fit: "descriptors_fit"
  unfolding descriptors_fit_def MAX_OP_DESCRIPTOR_def by (simp add: table_eval)

section \<open>Witnesses\<close>

text \<open>A space with one page, writable by the user, whose frame lies beyond the tables.\<close>

definition one_page :: "frame_allocator \<Rightarrow> address_space \<Rightarrow> bool" where
  "one_page b s \<longleftrightarrow> space_ok b (as_root s) \<and> fa_frames b = 8 \<and>
     (\<forall>v. translate s b v = (if canonical v \<and> same_page 0x400000 v
        then Some (0x64000 OR (v AND 0xFFF), 0x64000 OR leaf_flags user_rw) else None))"

lemma frame_100: "physical (frame_of 100)" "frame_addr (frame_of 100) = 0x64000" "frame_index (frame_of 100) = 100"
proof -
  show "physical (frame_of 100)" by (rule physical_frame_of) simp
  show "frame_addr (frame_of 100) = 0x64000" by (simp add: PAGE_SIZE_def frame_of_def frame_addr_containing)
  show "frame_index (frame_of 100) = 100" by (rule frame_index_frame_of) (simp add: PAGE_SIZE_def U64_MAX_def)
qed

lemma pt_child_frames:
  "pt_child f i user safe own a = Some (b, r) \<Longrightarrow> frame_pool a \<Longrightarrow> owner_slot own < OWNER_SLOTS \<Longrightarrow>
     frame_pool b \<and> fa_frames b = fa_frames a"
  using alloc_lends [of a own safe]
  by (auto simp: pt_child_def Let_def split: if_splits sum.splits Option.bind_splits)

lemma entry_for_frames:
  "entry_for root v user safe own a = Some (b, r) \<Longrightarrow> frame_pool a \<Longrightarrow> owner_slot own < OWNER_SLOTS \<Longrightarrow> fa_frames b = fa_frames a"
  unfolding entry_for_def by (fastforce split: sum.splits Option.bind_splits dest: pt_child_frames)

lemma has_one_page: "\<exists>b s. one_page b s"
proof -
  obtain a s where a: "space_ok a (as_root s)" "\<forall>v. translate s a v = None" "fa_free a = 6" "fa_frames a = 8" using small_space by blast
  obtain b where b: "map_page s 0x400000 (frame_of 100) user_rw (\<lambda>_. 0) (OwnScope 3) a = Some (b, Inr ())"
    using map_page_succeeds [OF a(1) own_ok(2) small_page(1-3), of "frame_of 100" "\<lambda>_. 0"] a by auto
  have "frame_pool a" using a(1) by (simp add: space_ok_def)
  then have "fa_frames b = fa_frames a"
    using b entry_for_frames [OF _ _ own_ok(2)] by (auto simp: map_page_def split: sum.splits if_splits Option.bind_splits)
  then show ?thesis
    using map_page_spec [OF a(1) own_ok(2) frame_100(1) b] a unfolding one_page_def frame_100(2) by (intro exI [of _ b] exI [of _ s]) auto
qed

abbreviation space_of :: "address_space \<Rightarrow> user_space" where
  "space_of s \<equiv> \<lparr>us_root = frame_addr (as_root s)\<rparr>"

lemma page_flags: "(0x64000 OR leaf_flags user_rw) AND FLAG_USER \<noteq> 0" "(0x64000 OR leaf_flags user_rw) AND FLAG_WRITABLE \<noteq> 0"
  by (simp_all add: leaf_flags_def rights_user_def Let_def pte_defs FLAG_USER_def FLAG_WRITABLE_def)

lemma one_page_access:
  assumes "one_page b s" and "v < USER_MAX_ADDR"
  shows "access (fa_ram b) (space_of s) w v =
    (if v div PAGE_SIZE = 0x400 then Inr (0x64000 OR (of_nat v AND 0xFFF)) else Inl FaultUnmapped)"
proof -
  have t: "translate_in (fa_ram b) (frame_addr (as_root s)) (of_nat v) = translate s b (of_nat v)" by (simp add: translate_def)
  have "same_page 0x400000 (of_nat v) \<longleftrightarrow> v div PAGE_SIZE = 0x400"
  proof -
    have "unat (drop_bit 12 (of_nat v :: u64)) = v div PAGE_SIZE" "unat (drop_bit 12 (0x400000 :: u64)) = 0x400"
      using unat_user [OF assms(2)] by (simp_all add: drop_bit_eq_div unat_div_distrib PAGE_SIZE_def)
    then show ?thesis by (auto simp: same_page_def word_unat_eq_iff)
  qed
  then show ?thesis
    using assms(1) user_canonical [OF assms(2)] page_flags by (auto simp: access_def t one_page_def check_page_def)
qed

lemma one_page_walled:
  assumes "one_page b s"
  shows "tables_walled (fa_ram b) (space_of s)"
  unfolding tables_walled_def
proof (intro allI impI)
  fix v p assume v: "v < USER_MAX_ADDR" "access (fa_ram b) (space_of s) True v = Inr p"
  then have p: "p = 0x64000 OR (of_nat v AND 0xFFF)" using one_page_access [OF assms v(1)] by (auto split: if_splits)
  have "drop_bit 12 p = 0x64" unfolding p low_bits by (rule bit_eqI) (auto simp: bit_simps)
  then have "frame_addr (frame_containing p) = frame_addr (frame_of 100)" by (simp add: frame_addr_containing frame_100(2))
  then have "frame_containing p = frame_of 100" by (rule frame.expand)
  moreover have "frame_containing (us_root (space_of s)) = as_root s" "\<forall>f \<in> reached (ptes b) (as_root s). frame_index f < 8"
    using assms by (auto simp: one_page_def space_ok_def lent_def page_containing)
  ultimately show "frame_containing p \<notin> reached (ptes b) (frame_containing (us_root (space_of s)))"
    using frame_100(3) by auto
qed

text \<open>Three bytes into the page, and two bytes of which the second is past its end.\<close>

lemma one_page_one_to_one: "one_page b s \<Longrightarrow> one_to_one (fa_ram b) (space_of s) 0x400010 3"
proof -
  assume p: "one_page b s"
  have "access (fa_ram b) (space_of s) True (0x400010 + i) = Inr (0x64010 + of_nat i)" if "i < 3" for i
  proof -
    have "access (fa_ram b) (space_of s) True 0x400010 = Inr 0x64010"
      using one_page_access [OF p, of "0x400010"] by (simp add: USER_MAX_ADDR_def PAGE_SIZE_def)
    from access_page(1) [OF this, of i] that show ?thesis by (simp add: USER_MAX_ADDR_def PAGE_SIZE_def)
  qed
  then have "access (fa_ram b) (space_of s) True (0x400010 + i) = Inr q \<Longrightarrow> i < 3 \<Longrightarrow> q = 0x64010 + of_nat i" for i q by auto
  moreover have "(0x64010 + of_nat i :: u64) = 0x64010 + of_nat j \<Longrightarrow> i < 3 \<Longrightarrow> j < 3 \<Longrightarrow> i = j" for i j
  proof -
    assume eq: "(0x64010 + of_nat i :: u64) = 0x64010 + of_nat j" and ij: "i < 3" "j < 3"
    have "unat (of_nat i :: u64) = unat (of_nat j :: u64)" using eq by simp
    then show "i = j" using ij small_offset [of i] small_offset [of j] by simp
  qed
  ultimately show ?thesis unfolding one_to_one_def by metis
qed

lemma copy_in_exact_witness:
  "\<exists>ram space d. copy_in ram space 0x400010 3 [9, 9, 9, 9] = (d, Inr ()) \<and> d ! 3 = 9 \<and>
     (\<exists>p. access ram space False 0x400010 = Inr p \<and> d ! 0 = ram p)"
proof -
  obtain b s where p: "one_page b s" using has_one_page by blast
  obtain d r where d: "copy_in (fa_ram b) (space_of s) 0x400010 3 [9, 9, 9, 9] = (d, r)" by fastforce
  note ex = copy_in_exact [OF d]
  have ok: "access (fa_ram b) (space_of s) False (0x400010 + i) \<noteq> Inl e" if "i < 3" for i e
    using one_page_access [OF p, of "0x400010 + i" False] that by (auto simp: USER_MAX_ADDR_def PAGE_SIZE_def)
  have range: "bounded 0x400010 3 = Inr ()" by (simp add: bounded_ok USER_MIN_ADDR_def USER_MAX_ADDR_def)
  have r: "r = Inr ()" using ex ok range by (cases r) auto
  have "\<forall>i < 3. \<exists>q. access (fa_ram b) (space_of s) False (0x400010 + i) = Inr q \<and> d ! i = fa_ram b q" using ex r by simp
  then have "\<exists>q. access (fa_ram b) (space_of s) False 0x400010 = Inr q \<and> d ! 0 = fa_ram b q" by fastforce
  moreover have "drop 3 d = [9]" "length d = 4" using ex by simp_all
  then have "d ! 3 = 9" using hd_drop_conv_nth [of 3 d] by simp
  ultimately show ?thesis using d r by blast
qed

lemma copy_out_exact_witness:
  "\<exists>ram space ram'. copy_out space 0x400FFF [1, 2] ram = (ram', Inl FaultUnmapped) \<and> ram' 0x64FFF = 1"
proof -
  obtain b s where p: "one_page b s" using has_one_page by blast
  have at: "access (fa_ram b) (space_of s) True 0x400FFF = Inr 0x64FFF" "access (fa_ram b) (space_of s) True 0x401000 = Inl FaultUnmapped"
    using one_page_access [OF p, of "0x400FFF" True] one_page_access [OF p, of "0x401000" True]
    by (simp_all add: USER_MAX_ADDR_def PAGE_SIZE_def)
  have len: "length [1, 2 :: u8] = 2" by simp
  have one: "one_to_one (fa_ram b) (space_of s) 0x400FFF (length [1, 2 :: u8])"
    using at by (auto simp: one_to_one_def less_Suc_eq numeral_2_eq_2)
  obtain ram' r where d: "copy_out (space_of s) 0x400FFF [1, 2] (fa_ram b) = (ram', r)" by fastforce
  obtain n where n: "n \<le> 2" "written (fa_ram b) (space_of s) 0x400FFF [1, 2] 0 n (fa_ram b) ram'"
    "case r of Inr _ \<Rightarrow> n = 2 | Inl e \<Rightarrow> n = 0 \<and> bounded 0x400FFF 2 \<noteq> Inr () \<or> n < 2 \<and> access (fa_ram b) (space_of s) True (0x400FFF + n) = Inl e"
    using copy_out_exact [OF one_page_walled [OF p] one d, unfolded len] by (cases r) auto
  have range: "bounded 0x400FFF 2 = Inr ()" by (simp add: bounded_ok USER_MIN_ADDR_def USER_MAX_ADDR_def)
  have "n \<noteq> 2" using n(2) at(2) by (auto simp: written_def dest: spec [of _ 1])
  moreover have "n \<noteq> 0"
  proof
    assume "n = 0"
    then show False using n(3) range at(1) by (auto split: sum.splits)
  qed
  ultimately have one: "n = 1" using n(1) by simp
  then have "r = Inl FaultUnmapped" using n(3) at(2) range by (auto split: sum.splits)
  moreover have "ram' 0x64FFF = 1" using n(2) at(1) one by (auto simp: written_def)
  ultimately show ?thesis using d by blast
qed

lemma copy_roundtrip_witness:
  "\<exists>ram space ram' d. copy_out space 0x400010 [1, 2, 3] ram = (ram', Inr ()) \<and> copy_in ram' space 0x400010 3 [0, 0, 0, 0] = (d, Inr ()) \<and>
     take 3 d = [1, 2, 3]"
proof -
  obtain b s where p: "one_page b s" using has_one_page by blast
  have len: "length [1, 2, 3 :: u8] = 3" by simp
  have one: "one_to_one (fa_ram b) (space_of s) 0x400010 (length [1, 2, 3 :: u8])" using one_page_one_to_one [OF p] unfolding len .
  obtain ram' r where d: "copy_out (space_of s) 0x400010 [1, 2, 3] (fa_ram b) = (ram', r)" by fastforce
  have range: "bounded 0x400010 3 = Inr ()" by (simp add: bounded_ok USER_MIN_ADDR_def USER_MAX_ADDR_def)
  have ok: "access (fa_ram b) (space_of s) True (0x400010 + i) \<noteq> Inl e" if "i < 3" for i e
    using one_page_access [OF p, of "0x400010 + i" True] that by (auto simp: USER_MAX_ADDR_def PAGE_SIZE_def)
  have r: "r = Inr ()" using copy_out_spec [OF one_page_walled [OF p] one d, unfolded len] ok range by (cases r) auto
  have "length [1, 2, 3 :: u8] \<le> length [0, 0, 0, 0 :: u8]" by simp
  from copy_roundtrip [OF one_page_walled [OF p] one d [unfolded r] this, unfolded len] show ?thesis using d r by blast
qed

end
