(* ===== verification/Spec2Isabelle.thy ===== *)
theory Spec2Isabelle
  imports Prelude Abi Objects Control_Log Scope_Table Scope_Accounts Bounded_Counter Scope_Lifecycle
    Scope_Cpu Scope_Budget Scope_Window Roll_Race Dispatch Frames Frame_Ledger Frame_Pool Tlb Frame_Reuse
    Elf Sync Threads Machine Operations Authority Receipts Capops Authority_Tree Authority_Steps Cap_Calls
    Derive_Race Events Scope_Calls Scope_Retire Paging User_Copy
begin

text \<open>
  Thalyx kernel: a verification library.

  \<^bold>\<open>The program.\<close> Thalyx is a capability microkernel in Rust for x86-64 multiprocessors (\<open>src/kernel\<close>), with
  a generated binary interface (\<open>src/abi\<close>). User programs hold handles into a per-domain table of
  capabilities; each entry names an object and a grant, and grants form trees of derived authority that can
  be fenced (revoked) from any node down. Everything a program uses is paid for by a scope. Scopes form a
  tree too: memory pages, kernel objects, queue bytes and processor time are charged to a scope and to all of
  its ancestors, and a scope is closed by fencing it, waiting until nothing in its subtree runs, and retiring
  it. The state of the machine is one table per kind of object behind a shared and exclusive lock; scopes,
  threads, run queues, credits and the translation generations are atomics outside that lock.

  \<^bold>\<open>Conventions.\<close> A struct is a record, an enum a datatype, a table a list indexed as the code indexes it. Bit
  masks, handles, generations and page-table entries are words; counters and indices are natural numbers with
  wrap-around, saturation and checked arithmetic written out (\<open>wrap_add64\<close>, \<open>sat_add32\<close>, \<open>checked_add64\<close>). The
  kernel is built with overflow checks, so an overflowing \<open>+\<close>, an index out of range or an \<open>unwrap\<close> of nothing
  is a panic, the value \<open>None\<close> of an operation. A Rust \<open>Result\<close> is \<open>status + 'a\<close>. What a processor reads of another
  processor, of the clock or of the hardware is an argument. Request and response bodies, which the code
  reads from and writes to a staging buffer, are records. Trace output and statistics that nothing reads are
  left out.

  \<^bold>\<open>Interleaving.\<close> An operation runs to completion on one state unless its theory says otherwise. The races
  that the code is written around are modelled at the grain of their atomic accesses, as step relations:
  \<open>Bounded_Counter\<close> (fetch-add, compare, undo), \<open>Sync\<close> (both locks), \<open>Machine\<close> (claiming a cell from a bit map),
  \<open>Control_Log\<close> and \<open>Dispatch\<close> (orders of whole operations), \<open>Derive_Race\<close> and \<open>Roll_Race\<close> (one operation split
  where another processor can come between).

  \<^bold>\<open>Theories.\<close>

  \<^item> \<open>Prelude\<close>: machine arithmetic, updates of a list in place (\<open>upd\<close>, \<open>upd_checked\<close>, \<open>upd_all\<close>), folds that
    may panic (\<open>fold_opt\<close>), and the lemmas and collections the others share.
  \<^item> \<open>Abi\<close>, \<open>Operations\<close> (\<open>abi/src/generated.rs\<close>, \<open>abi/src/lib.rs\<close>, the entry checks of \<open>kernel/src/api/mod.rs\<close>):
    limits, status values, handles, the 59 operations; the compile-time index agrees with the search.
  \<^item> \<open>Objects\<close> (\<open>obj.rs\<close>): capability tables refine a partial map whose released handles stay dead; fencing a
    lineage fences exactly what descends from its root.
  \<^item> \<open>Control_Log\<close>, \<open>Receipts\<close> (\<open>ctrl.rs\<close>, \<open>api/logops.rs\<close>, \<open>receipt\<close> of \<open>api/mod.rs\<close>): the receipt ring refines a
    queue with its loss counters; a reserved receipt always finds its cell.
  \<^item> \<open>Scope_Table\<close>, \<open>Scope_Accounts\<close>, \<open>Bounded_Counter\<close>, \<open>Scope_Lifecycle\<close> (\<open>scope.rs\<close>): the scope tree and its
    chains; the accounts are exactly the outstanding reservations of the subtree; the fence is a barrier; a
    fenced scope becomes quiescent exactly when its subtree is idle. The locale \<open>scope_counter\<close> states what a
    counter on a chain must provide, and is interpreted for the three accounts and for processor time.
  \<^item> \<open>Scope_Cpu\<close>, \<open>Scope_Budget\<close>, \<open>Scope_Window\<close>, \<open>Roll_Race\<close>, \<open>Dispatch\<close> (\<open>scope.rs\<close> and \<open>sched.rs\<close>: windows,
    reservations, credits, \<open>reserve_for\<close>, \<open>charge\<close>, \<open>settle\<close>): dispatches of a window stay within the budgets of
    the whole chain, settlement included; a roll carries exactly the overrun; a reservation overtaken by a roll
    leaves a counter below zero.
  \<^item> \<open>Frames\<close>, \<open>Frame_Ledger\<close>, \<open>Frame_Pool\<close> (\<open>mm/mod.rs\<close>, \<open>mm/frame.rs\<close>): the allocator over its bit map, its
    quarantine and the memory it zeroes; frames and charges are conserved, allocation is fresh and complete,
    draining is exact.
  \<^item> \<open>Tlb\<close>, \<open>Frame_Reuse\<close> (\<open>tlb.rs\<close>): generations, shootdowns and the bounded wait; what the quarantine gives
    callers that clear every entry before they stamp.
  \<^item> \<open>Elf\<close> (\<open>elf.rs\<close>): the image reader accepts only safe images and never panics.
  \<^item> \<open>Sync\<close> (\<open>sync.rs\<close>): exclusion, order and progress of the machine lock.
  \<^item> \<open>Threads\<close> (\<open>thread.rs\<close>, wakes and expiry of \<open>sched.rs\<close>): thread cells, waits, claims, wakes.
  \<^item> \<open>Machine\<close> (\<open>state.rs\<close>, \<open>memobj.rs\<close>, \<open>ipc.rs\<close>, \<open>events.rs\<close>): the tables of the machine and its cell claims.
  \<^item> \<open>Authority\<close>, \<open>Capops\<close>, \<open>Authority_Tree\<close>, \<open>Authority_Steps\<close>, \<open>Cap_Calls\<close>, \<open>Derive_Race\<close> (\<open>api/mod.rs\<close>,
    \<open>api/capops.rs\<close>, \<open>install\<close> of \<open>k2boot.rs\<close>): resolution and its exact condition; every operation is a
    sequence of small steps that keep the authority invariant \<open>auth_ok\<close>; authority is never amplified and a
    fence is for ever, over sequences of whole calls. \<open>cap_invoke\<close> follows \<open>shared\<close> and stands for the exclusive
    path too, without the collection of deferred memory objects that path ends with. The schedule of
    \<open>Derive_Race\<close> shows what shared holds on several processors can break.
  \<^item> \<open>Events\<close> (\<open>api/evtops.rs\<close>): signals and timers from creation to expiry.
  \<^item> \<open>Scope_Calls\<close>, \<open>Scope_Retire\<close> (\<open>api/scopeops.rs\<close>, with the parts of \<open>api/ipcops.rs\<close> and \<open>api/memops.rs\<close> they
    reach): creation, query, limits, fence, drain and retirement of scopes on the machine; creation keeps the
    tree, retirement empties exactly the perimeter, and frees frames that are still reachable.
  \<^item> \<open>Paging\<close>, \<open>User_Copy\<close> (\<open>arch/x86_64/paging.rs\<close>, \<open>ucopy.rs\<close>): four-level tables in memory byte by byte, and
    the copies across the boundary that walk them.

  \<^bold>\<open>Bounds and termination.\<close> Loops over tables are folds. A chain of scopes is followed for at most
  \<open>MAX_SCOPE_DEPTH\<close> levels and a lineage for at most \<open>MAX_DERIVE_DEPTH\<close> plus one nodes; in a well-formed table both
  reach the root (\<open>chain_rec\<close>, \<open>lineage_status_exact\<close>). A fence makes \<open>MAX_DERIVE_DEPTH\<close> passes, which is proved to
  be enough. The allocator's scan has one more unit of fuel than there are frames; the wait for other
  processors has the code's own limit \<open>WAIT_SPIN_LIMIT\<close>; a walk of page tables has three levels below the root;
  a copy decreases the bytes that are left. The walk down a message queue is a partial function: a queue that
  runs in a circle has no value. \<open>reserve_cpu\<close> spins on an odd roll sequence; as a whole operation it has no
  value there, and its retry is modelled turn by turn in \<open>Roll_Race\<close>.

  \<^bold>\<open>Hypotheses that recur.\<close> \<open>wf_table\<close>, \<open>wf_grants\<close>, \<open>auth_ok\<close>, \<open>scopes_ok\<close>, \<open>wf_log\<close> and \<open>cpu_ok\<close> are invariants that
  the operations keep. \<open>settled\<close> says that no blocked thread is still on a processor, the state a waker waits for
  before it queues the thread. \<open>obligations_bounded\<close> and \<open>window_bounded\<close> keep counters within their width. In
  \<open>User_Copy\<close>, \<open>tables_walled\<close> says that no page table lies in a page the copy may write, and \<open>one_to_one\<close>, which
  every range within one page has, that two bytes of a range are not the same byte of memory.

  \<^bold>\<open>Not modelled.\<close> Run queues, the choice of a thread and the context switch; domains; sending, receiving,
  replying and effects of messages; creation, mapping and sharing of memory objects; devices; entry, trap and
  processor support code; start-up; the boot loader; user programs and tools. The weak memory order of the
  atomics is not modelled either: the step relations are sequentially consistent.

  \<^bold>\<open>What the models showed.\<close> Beside the properties that hold, some theorems state what the code does where it
  departs from its own documentation or intent: \<open>derive_close_race\<close>, \<open>failed_creation_keeps_object\<close>,
  \<open>roll_leaves_underflow\<close>, \<open>retirement_frees_reachable_frames\<close>, and the unlisted \<open>early_stamp_is_safe_at_once\<close>,
  \<open>ceiling_transiently_exceeded\<close>, \<open>worn_slot_refuses_once\<close> and \<open>deadline_gate_never_closes\<close>.
\<close>

end
